(* ===== verification/Dendra_Prelude.thy ===== *)
theory Dendra_Prelude
  imports Complex_Main "HOL-Library.AList" "HOL-Library.List_Lexorder" "HOL-Library.Char_ord"
    "HOL-Library.Product_Lexorder" "HOL-Library.Multiset"
begin

text \<open>
  What every theory of the development shares: Python exceptions as values, the dictionaries of the
  program as association lists in insertion order (an assignment to a key that is present keeps its
  position, a new key goes last, as in CPython; \<open>AList.update\<close> does exactly that), the counting
  dictionaries the program builds everywhere (\<open>out[k] = out.get(k, 0) + v\<close>), \<open>dict(sorted(d.items()))\<close>,
  fixed-size slices of a list, and the round-trip interface \<open>codec\<close>.
  Collections: \<open>py_simps\<close> rewrites with the Python primitives, \<open>tally_simps\<close> with the counting
  dictionaries.
\<close>

named_theorems py_simps "rewrite rules of the Python primitives"
named_theorems tally_simps "rewrite rules of counting dictionaries"

section \<open>Exceptions as values\<close>

text \<open>The class of a Python exception; the words of its message are not modelled.\<close>

datatype exc = ValueError | KeyError | TypeError | AttributeError | IndexError | OSError | ZeroDivisionError | RuntimeError | ChainUnreadable
  | NotRankedYet int | DayUnreadable int | PastSeasonEnd int | PlanRefused | SystemExit

type_synonym 'a result = "exc + 'a"

definition bind_res :: "'e + 'a \<Rightarrow> ('a \<Rightarrow> 'e + 'b) \<Rightarrow> 'e + 'b" where
  "bind_res r f = (case r of Inl e \<Rightarrow> Inl e | Inr x \<Rightarrow> f x)"

lemma bind_res_Inl [simp, py_simps]: "bind_res (Inl e) f = Inl e"
  by (simp add: bind_res_def)

lemma bind_res_Inr [simp, py_simps]: "bind_res (Inr x) f = f x"
  by (simp add: bind_res_def)

lemma bind_res_eq_Inr: "bind_res r f = Inr y \<longleftrightarrow> (\<exists>x. r = Inr x \<and> f x = Inr y)"
  by (cases r) auto

lemma bind_res_eq_Inl: "bind_res r f = Inl e \<longleftrightarrow> r = Inl e \<or> (\<exists>x. r = Inr x \<and> f x = Inl e)"
  by (cases r) auto

lemma bind_res_InlE:
  "bind_res r f = Inl e \<Longrightarrow> (r = Inl e \<Longrightarrow> P) \<Longrightarrow> (\<And>x. r = Inr x \<Longrightarrow> f x = Inl e \<Longrightarrow> P) \<Longrightarrow> P"
  by (cases r) auto

lemma bind_res_InrE:
  "bind_res r f = Inr y \<Longrightarrow> (\<And>x. r = Inr x \<Longrightarrow> f x = Inr y \<Longrightarrow> P) \<Longrightarrow> P"
  by (cases r) auto

text \<open>Apply a function that may raise to every element, stopping at the first exception.\<close>

fun map_res :: "('a \<Rightarrow> 'e + 'b) \<Rightarrow> 'a list \<Rightarrow> 'e + 'b list" where
  "map_res f [] = Inr []"
| "map_res f (x # xs) = bind_res (f x) (\<lambda>y. bind_res (map_res f xs) (\<lambda>ys. Inr (y # ys)))"

lemma map_res_cong [fundef_cong]:
  "xs = ys \<Longrightarrow> (\<And>x. x \<in> set ys \<Longrightarrow> f x = g x) \<Longrightarrow> map_res f xs = map_res g ys"
  by (induction xs arbitrary: ys) auto

lemma map_res_Inr_list_all2:
  "map_res f xs = Inr ys \<longleftrightarrow> list_all2 (\<lambda>x y. f x = Inr y) xs ys"
  by (induction xs arbitrary: ys) (auto simp: bind_res_eq_Inr list_all2_Cons1)

lemma map_res_map: "(\<And>x. x \<in> set xs \<Longrightarrow> f x = Inr (g x)) \<Longrightarrow> map_res f xs = Inr (map g xs)"
  by (induction xs) auto

section \<open>Association lists as dictionaries\<close>

type_synonym ('k, 'v) dict = "('k \<times> 'v) list"

definition dkeys :: "('k, 'v) dict \<Rightarrow> 'k list" where
  "dkeys d = map fst d"

definition wf_dict :: "('k, 'v) dict \<Rightarrow> bool" where
  "wf_dict d \<longleftrightarrow> distinct (map fst d)"

definition get_or :: "('k, 'v) dict \<Rightarrow> 'k \<Rightarrow> 'v \<Rightarrow> 'v" where
  "get_or d k x = (case map_of d k of None \<Rightarrow> x | Some v \<Rightarrow> v)"

lemma map_of_update: "map_of (AList.update k v d) = (map_of d)(k \<mapsto> v)"
  by (rule update_conv')

lemma map_of_delete: "map_of (AList.delete k d) = (map_of d)(k := None)"
  by (rule delete_conv')

lemma wf_dict_Nil [simp]: "wf_dict []"
  by (simp add: wf_dict_def)

lemma wf_dict_update [simp]: "wf_dict d \<Longrightarrow> wf_dict (AList.update k v d)"
  by (simp add: wf_dict_def distinct_update)

lemma wf_dict_delete [simp]: "wf_dict d \<Longrightarrow> wf_dict (AList.delete k d)"
  by (simp add: wf_dict_def distinct_delete)

lemma wf_dict_ConsD: "wf_dict (x # d) \<Longrightarrow> wf_dict d"
  by (simp add: wf_dict_def)

lemma get_or_update [simp]: "get_or (AList.update k v d) k' x = (if k' = k then v else get_or d k' x)"
  by (simp add: get_or_def map_of_update)

lemma set_keys_update: "fst ` set (AList.update k v d) = insert k (fst ` set d)"
  by (metis dom_map_of_conv_image_fst dom_fun_upd map_of_update option.distinct(1))

lemma set_update_subset: "set (AList.update k v d) \<subseteq> insert (k, v) (set d)"
  by (induction d) auto

lemma update_new: "k \<notin> fst ` set d \<Longrightarrow> AList.update k v d = d @ [(k, v)]"
  by (induction d) auto

lemma wf_dict_map_of_iff: "wf_dict d \<Longrightarrow> map_of d k = Some v \<longleftrightarrow> (k, v) \<in> set d"
  by (simp add: wf_dict_def)

section \<open>Counting dictionaries\<close>

definition bump :: "('k, 'n::comm_monoid_add) dict \<Rightarrow> 'k \<Rightarrow> 'n \<Rightarrow> ('k, 'n) dict" where
  "bump d k n = AList.update k (get_or d k 0 + n) d"

definition tally_from :: "('k, 'n::comm_monoid_add) dict \<Rightarrow> ('k \<times> 'n) list \<Rightarrow> ('k, 'n) dict" where
  "tally_from d kvs = foldl (\<lambda>a (k, n). bump a k n) d kvs"

abbreviation tally :: "('k \<times> 'n::comm_monoid_add) list \<Rightarrow> ('k, 'n) dict" where
  "tally kvs \<equiv> tally_from [] kvs"

definition dict_sum :: "('k, 'n::comm_monoid_add) dict \<Rightarrow> 'n" where
  "dict_sum d = sum_list (map snd d)"

lemma get_or_bump [tally_simps]:
  "get_or (bump d k n) k' 0 = (if k' = k then get_or d k 0 + n else get_or d k' 0)"
  by (simp add: bump_def)

lemma wf_dict_bump [simp]: "wf_dict d \<Longrightarrow> wf_dict (bump d k n)"
  by (simp add: bump_def)

lemma keys_bump [tally_simps]: "fst ` set (bump d k n) = insert k (fst ` set d)"
  by (simp add: bump_def set_keys_update)

lemma dict_sum_update:
  "wf_dict d \<Longrightarrow> dict_sum (AList.update k v d) + get_or d k 0 = dict_sum d + (v :: 'n :: comm_monoid_add)"
proof (induction d)
  case Nil
  then show ?case by (simp add: dict_sum_def get_or_def)
next
  case (Cons p d)
  obtain k' v' where p: "p = (k', v')" by force
  show ?case
  proof (cases "k' = k")
    case True
    then show ?thesis by (simp add: p dict_sum_def get_or_def ac_simps)
  next
    case False
    have "dict_sum (AList.update k v d) + get_or d k 0 = dict_sum d + v"
      using Cons.IH Cons.prems wf_dict_ConsD by blast
    with False show ?thesis by (simp add: p dict_sum_def get_or_def add.assoc)
  qed
qed

lemma dict_sum_bump [tally_simps]:
  fixes n :: "'n :: cancel_comm_monoid_add"
  assumes "wf_dict d"
  shows "dict_sum (bump d k n) = dict_sum d + n"
proof -
  have "dict_sum (bump d k n) + get_or d k 0 = (dict_sum d + n) + get_or d k 0"
    using dict_sum_update [OF assms, of k "get_or d k 0 + n"] by (simp add: bump_def ac_simps)
  then show ?thesis by simp
qed

lemma tally_from_Nil [simp]: "tally_from d [] = d"
  by (simp add: tally_from_def)

lemma tally_from_Cons [simp]: "tally_from d ((k, n) # kvs) = tally_from (bump d k n) kvs"
  by (simp add: tally_from_def)

lemma tally_from_append: "tally_from d (xs @ ys) = tally_from (tally_from d xs) ys"
  by (simp add: tally_from_def)

lemma wf_dict_tally [simp]: "wf_dict d \<Longrightarrow> wf_dict (tally_from d kvs)"
  by (induction kvs arbitrary: d) auto

lemma keys_tally [tally_simps]: "fst ` set (tally_from d kvs) = fst ` set d \<union> fst ` set kvs"
proof (induction kvs arbitrary: d)
  case (Cons p kvs)
  then show ?case by (cases p) (simp add: keys_bump)
qed simp

lemma dict_sum_tally [tally_simps]:
  fixes kvs :: "('k \<times> 'n::cancel_comm_monoid_add) list"
  shows "wf_dict d \<Longrightarrow> dict_sum (tally_from d kvs) = dict_sum d + sum_list (map snd kvs)"
  by (induction kvs arbitrary: d) (auto simp: dict_sum_bump add.assoc)

lemma get_or_tally [tally_simps]:
  "get_or (tally_from d kvs) k 0
     = get_or d k 0 + sum_list (map snd (filter (\<lambda>p. fst p = k) kvs))"
  by (induction kvs arbitrary: d) (auto simp: get_or_bump add.assoc)

lemma dict_sum_Nil [simp]: "dict_sum [] = 0"
  by (simp add: dict_sum_def)

lemma dict_sum_mset: "mset d = mset e \<Longrightarrow> dict_sum d = dict_sum e"
  by (metis dict_sum_def mset_map sum_mset_sum_list)

lemma get_or_Nil [simp]: "get_or [] k x = x"
  by (simp add: get_or_def)

section \<open>Sorted dictionaries\<close>

text \<open>\<open>sorted(d.items())\<close>: Python compares the pairs lexicographically, as \<open>Product_Lexorder\<close> does.\<close>

definition sorted_items :: "('k::linorder, 'v::linorder) dict \<Rightarrow> ('k, 'v) dict" where
  "sorted_items d = sort d"

lemma mset_sorted_items [simp]: "mset (sorted_items d) = mset d"
  by (simp add: sorted_items_def)

lemma set_sorted_items [simp]: "set (sorted_items d) = set d"
  by (simp add: sorted_items_def)

lemma wf_dict_sorted_items [simp]: "wf_dict (sorted_items d) = wf_dict d"
  by (metis wf_dict_def mset_sorted_items mset_eq_imp_distinct_iff mset_map)

lemma map_of_sorted_items: "wf_dict d \<Longrightarrow> map_of (sorted_items d) = map_of d"
  by (metis map_of_inject_set set_sorted_items wf_dict_def wf_dict_sorted_items)

lemma get_or_sorted_items [simp]: "wf_dict d \<Longrightarrow> get_or (sorted_items d) k x = get_or d k x"
  by (simp add: get_or_def map_of_sorted_items)

lemma dict_sum_sorted_items [simp]: "dict_sum (sorted_items d) = dict_sum d"
  by (rule dict_sum_mset) simp

lemma sorted_map_fst: "sorted (d :: ('k::linorder, 'v::linorder) dict) \<Longrightarrow> sorted (map fst d)"
  by (induction d) (auto simp: less_eq_prod_def intro: order.strict_implies_order)

lemma sorted_fst_sorted_items: "sorted (map fst (sorted_items d))"
  by (simp add: sorted_items_def sorted_map_fst)

lemma filter_key: "wf_dict d \<Longrightarrow> filter (\<lambda>p. fst p = k) d = (case map_of d k of None \<Rightarrow> [] | Some v \<Rightarrow> [(k, v)])"
proof (induction d)
  case (Cons p d)
  show ?case
  proof (cases "fst p = k")
    case True
    then have "filter (\<lambda>p. fst p = k) d = []" using Cons.prems
      by (cases p) (force simp: wf_dict_def filter_empty_conv)
    with True show ?thesis by (cases p) auto
  next
    case False
    with Cons show ?thesis by (cases p) (auto dest: wf_dict_ConsD)
  qed
qed simp

text \<open>A dictionary read entry by entry counts what it holds.\<close>

lemma get_or_tally_items:
  fixes d :: "('k, 'n::comm_monoid_add) dict"
  shows "wf_dict d \<Longrightarrow> get_or (tally d) k 0 = get_or d k 0"
  by (simp add: get_or_tally filter_key) (simp add: get_or_def split: option.splits)

section \<open>Slices of a fixed size\<close>

text \<open>\<open>[xs[i:i + n] for i in range(0, len(xs), n)]\<close>\<close>

function slices :: "nat \<Rightarrow> 'a list \<Rightarrow> 'a list list" where
  "slices n xs = (if xs = [] \<or> n = 0 then [] else take n xs # slices n (drop n xs))"
  by pat_completeness auto
termination
  by (relation "measure (\<lambda>(n, xs). length xs)") auto

declare slices.simps [simp del]

lemma slices_Nil [simp]: "slices n [] = []"
  by (simp add: slices.simps)

lemma concat_slices: "0 < n \<Longrightarrow> concat (slices n xs) = xs"
proof (induction n xs rule: slices.induct)
  case (1 n xs)
  then show ?case by (cases "xs = []") (auto simp: slices.simps [of n xs])
qed

lemma slices_bounds: "c \<in> set (slices n xs) \<Longrightarrow> c \<noteq> [] \<and> length c \<le> n"
proof (induction n xs rule: slices.induct)
  case (1 n xs)
  then show ?case by (cases "xs = [] \<or> n = 0") (auto simp: slices.simps [of n xs])
qed

lemma length_slices: "0 < n \<Longrightarrow> length (slices n xs) = (length xs + n - 1) div n"
proof (induction n xs rule: slices.induct)
  case (1 n xs)
  show ?case
  proof (cases "xs = []")
    case True
    with 1 show ?thesis by (simp add: slices.simps [of n xs])
  next
    case False
    with 1 have "length (slices n xs) = Suc ((length xs - n + n - 1) div n)"
      by (simp add: slices.simps [of n xs])
    also have "\<dots> = (length xs + n - 1) div n"
    proof (cases "n \<le> length xs")
      case True
      then have eq: "length xs + n - 1 = (length xs - n + n - 1) + n" using False by (cases xs) auto
      show ?thesis by (subst eq) (simp add: "1.prems")
    next
      case smaller: False
      then have "Suc ((length xs - n + n - 1) div n) = Suc 0" using "1.prems" by simp
      moreover have "(length xs + n - 1) div n = Suc 0"
        using smaller False "1.prems" by (intro div_nat_eqI) (cases xs, auto)
      ultimately show ?thesis by simp
    qed
    finally show ?thesis .
  qed
qed

section \<open>Encoders with a decoder\<close>

text \<open>
  The interface of a printer and the reader the program uses on its output: what the reader gives
  back determines what was printed, so two valid inputs never print alike.
\<close>

locale codec =
  fixes enc :: "'a \<Rightarrow> 'b" and dec :: "'b \<Rightarrow> 'a option" and valid :: "'a \<Rightarrow> bool"
  assumes dec_enc: "valid x \<Longrightarrow> dec (enc x) = Some x"
begin

lemma enc_inj: "valid x \<Longrightarrow> valid y \<Longrightarrow> enc x = enc y \<longleftrightarrow> x = y"
  by (metis dec_enc option.inject)

lemma enc_inj_on: "inj_on enc {x. valid x}"
  by (simp add: inj_on_def enc_inj)

end

section \<open>Runs of an object\<close>

text \<open>The answers of an object to a list of calls, and the state it is left in.\<close>

fun run_calls :: "('s \<Rightarrow> 'c \<Rightarrow> 's \<times> 'b) \<Rightarrow> 's \<Rightarrow> 'c list \<Rightarrow> 'b list \<times> 's" where
  "run_calls f s [] = ([], s)"
| "run_calls f s (c # cs) = (case f s c of (s', b) \<Rightarrow> (case run_calls f s' cs of (bs, t) \<Rightarrow> (b # bs, t)))"

lemma snd_run_calls_Cons: "snd (run_calls f s (c # cs)) = snd (run_calls f (fst (f s c)) cs)"
  by (auto split: prod.splits)

lemma length_run_calls [simp]: "length (fst (run_calls f s cs)) = length cs"
  by (induction f s cs rule: run_calls.induct) (auto split: prod.splits)

lemma run_calls_append:
  "run_calls f s (xs @ ys) = (case run_calls f s xs of (as, t) \<Rightarrow> (case run_calls f t ys of (bs, u) \<Rightarrow> (as @ bs, u)))"
  by (induction f s xs rule: run_calls.induct) (auto split: prod.splits)

text \<open>The answer to a call is the one of the state the calls before it leave.\<close>

lemma run_calls_nth:
  "i < length cs \<Longrightarrow> fst (run_calls f s cs) ! i = snd (f (snd (run_calls f s (take i cs))) (cs ! i))"
proof (induction f s cs arbitrary: i rule: run_calls.induct)
  case (2 f s c cs)
  then show ?case by (cases i) (auto split: prod.splits)
qed simp

lemma run_calls_take_Suc:
  "i < length cs \<Longrightarrow> snd (run_calls f s (take (Suc i) cs)) = fst (f (snd (run_calls f s (take i cs))) (cs ! i))"
  by (simp add: take_Suc_conv_app_nth run_calls_append split: prod.splits)

text \<open>What every call keeps holds after any run.\<close>

lemma run_calls_invariant:
  assumes "P s" "\<And>s c. P s \<Longrightarrow> P (fst (f s c))"
  shows "P (snd (run_calls f s cs))"
  using assms(1)
proof (induction cs arbitrary: s)
  case (Cons c cs)
  show ?case using Cons.IH [OF assms(2) [OF Cons.prems, of c]] by (auto split: prod.splits)
qed simp

end
