(* ===== verification/Py_Values.thy ===== *)
theory Py_Values
  imports Dendra_Prelude
begin

text \<open>
  The dynamically typed values the program reads from JSON, and the text primitives of Python the
  sources use: \<open>str(int)\<close> and \<open>int(str)\<close> on decimal digits, \<open>split\<close>, \<open>strip\<close>, substring tests,
  the character classes of the regular expressions, \<open>json.dumps\<close> and \<open>hexdigest\<close>.
  A Python string is a \<open>string\<close>: one \<open>char\<close> per code point, code points up to 255 (the identifiers,
  addresses and documents of the program are ASCII). A float is its exact rational value.
  SHA-256, RIPEMD-160 and the shortest decimal form of a float are computed by CPython's C library: they are the
  fields of a \<open>host\<close> record that every definition using them takes as its first argument.
\<close>

section \<open>Values\<close>

datatype pyval = PNone | PBool bool | PInt int | PFloat rat | PStr string
  | PList "pyval list" | PDict "(string \<times> pyval) list"

type_synonym pydict = "(string \<times> pyval) list"

text \<open>The numeric value of a bool, an int or a float: what \<open>==\<close> and \<open><\<close> compare.\<close>

fun py_num :: "pyval \<Rightarrow> rat option" where
  "py_num (PBool b) = Some (if b then 1 else 0)"
| "py_num (PInt i) = Some (of_int i)"
| "py_num (PFloat q) = Some q"
| "py_num _ = None"

definition eq_int :: "pyval \<Rightarrow> int \<Rightarrow> bool" where
  "eq_int v n \<longleftrightarrow> py_num v = Some (of_int n)"

definition eq_str :: "pyval \<Rightarrow> string \<Rightarrow> bool" where
  "eq_str v s \<longleftrightarrow> v = PStr s"

fun truthy :: "pyval \<Rightarrow> bool" where
  "truthy PNone = False"
| "truthy (PBool b) = b"
| "truthy (PInt i) = (i \<noteq> 0)"
| "truthy (PFloat q) = (q \<noteq> 0)"
| "truthy (PStr s) = (s \<noteq> [])"
| "truthy (PList xs) = (xs \<noteq> [])"
| "truthy (PDict d) = (d \<noteq> [])"

text \<open>\<open>type(v) is int\<close>: neither a bool nor a float; \<open>isinstance(v, str)\<close> and the other classes.\<close>

definition whole_of :: "pyval \<Rightarrow> int option" where
  "whole_of v = (case v of PInt i \<Rightarrow> Some i | _ \<Rightarrow> None)"

definition text_of :: "pyval \<Rightarrow> string option" where
  "text_of v = (case v of PStr s \<Rightarrow> Some s | _ \<Rightarrow> None)"

definition bool_of :: "pyval \<Rightarrow> bool option" where
  "bool_of v = (case v of PBool b \<Rightarrow> Some b | _ \<Rightarrow> None)"

definition list_of :: "pyval \<Rightarrow> pyval list option" where
  "list_of v = (case v of PList xs \<Rightarrow> Some xs | _ \<Rightarrow> None)"

definition dict_of :: "pyval \<Rightarrow> pydict option" where
  "dict_of v = (case v of PDict d \<Rightarrow> Some d | _ \<Rightarrow> None)"

lemma whole_of_Some [simp]: "whole_of v = Some i \<longleftrightarrow> v = PInt i"
  by (cases v) (auto simp: whole_of_def)

lemma text_of_Some [simp]: "text_of v = Some s \<longleftrightarrow> v = PStr s"
  by (cases v) (auto simp: text_of_def)

lemma bool_of_Some [simp]: "bool_of v = Some b \<longleftrightarrow> v = PBool b"
  by (cases v) (auto simp: bool_of_def)

lemma list_of_Some [simp]: "list_of v = Some xs \<longleftrightarrow> v = PList xs"
  by (cases v) (auto simp: list_of_def)

lemma dict_of_Some [simp]: "dict_of v = Some d \<longleftrightarrow> v = PDict d"
  by (cases v) (auto simp: dict_of_def)

lemma typed_views [simp, py_simps]:
  "whole_of (PInt i) = Some i" "text_of (PStr s) = Some s" "bool_of (PBool b) = Some b"
  "list_of (PList xs) = Some xs" "dict_of (PDict d) = Some d"
  by simp_all

lemma eq_int_PInt [simp]: "eq_int (PInt i) n \<longleftrightarrow> i = n"
  by (simp add: eq_int_def)

lemma eq_str_PStr [simp]: "eq_str (PStr s) t \<longleftrightarrow> s = t"
  by (simp add: eq_str_def)

text \<open>\<open>d.get(k)\<close>, \<open>d.get(k, x)\<close> and \<open>d[k]\<close>.\<close>

definition dget :: "pydict \<Rightarrow> string \<Rightarrow> pyval" where
  "dget d k = get_or d k PNone"

definition ditem :: "pydict \<Rightarrow> string \<Rightarrow> pyval result" where
  "ditem d k = (case map_of d k of None \<Rightarrow> Inl KeyError | Some v \<Rightarrow> Inr v)"

text \<open>\<open>v[k]\<close> on a value read from JSON: a value that is not an object raises.\<close>

definition vitem :: "pyval \<Rightarrow> string \<Rightarrow> pyval result" where
  "vitem v k = (case v of PDict d \<Rightarrow> ditem d k | _ \<Rightarrow> Inl TypeError)"

definition has_keys :: "pydict \<Rightarrow> string list \<Rightarrow> bool" where
  "has_keys d ks \<longleftrightarrow> set (map fst d) = set ks"

section \<open>Decimal numbers\<close>

definition digit_char :: "nat \<Rightarrow> char" where
  "digit_char d = char_of (48 + d)"

definition is_digit :: "char \<Rightarrow> bool" where
  "is_digit c \<longleftrightarrow> 48 \<le> (of_char c :: nat) \<and> (of_char c :: nat) \<le> 57"

definition digit_val :: "char \<Rightarrow> nat" where
  "digit_val c = of_char c - 48"

fun show_nat :: "nat \<Rightarrow> string" where
  "show_nat n = (if n < 10 then [digit_char n] else show_nat (n div 10) @ [digit_char (n mod 10)])"

declare show_nat.simps [simp del]

definition show_int :: "int \<Rightarrow> string" where
  "show_int i = (if i < 0 then ''-'' @ show_nat (nat (- i)) else show_nat (nat i))"

definition read_nat :: "string \<Rightarrow> nat" where
  "read_nat s = foldl (\<lambda>a c. 10 * a + digit_val c) 0 s"

lemma of_char_digit_char: "d < 10 \<Longrightarrow> (of_char (digit_char d) :: nat) = 48 + d"
  by (simp add: digit_char_def)

lemma is_digit_digit_char [simp]: "d < 10 \<Longrightarrow> is_digit (digit_char d)"
  by (simp add: is_digit_def of_char_digit_char)

lemma digit_val_digit_char [simp]: "d < 10 \<Longrightarrow> digit_val (digit_char d) = d"
  by (simp add: digit_val_def of_char_digit_char)

lemma read_nat_snoc: "read_nat (s @ [c]) = 10 * read_nat s + digit_val c"
  by (simp add: read_nat_def)

lemma show_nat_digits: "\<forall>c \<in> set (show_nat n). is_digit c"
proof (induction n rule: show_nat.induct)
  case (1 n)
  then show ?case by (cases "n < 10") (auto simp: show_nat.simps [of n])
qed

lemma show_nat_nonempty [simp]: "show_nat n \<noteq> []"
  by (subst show_nat.simps) simp

lemma read_show_nat [simp]: "read_nat (show_nat n) = n"
proof (induction n rule: show_nat.induct)
  case (1 n)
  show ?case
  proof (cases "n < 10")
    case True
    then show ?thesis by (simp add: show_nat.simps [of n] read_nat_def)
  next
    case False
    with 1 show ?thesis by (simp add: show_nat.simps [of n] read_nat_snoc)
  qed
qed

section \<open>Text\<close>

text \<open>Code points \<open>str.strip\<close> removes, up to 255.\<close>

definition is_space :: "char \<Rightarrow> bool" where
  "is_space c \<longleftrightarrow> (let n = (of_char c :: nat) in (9 \<le> n \<and> n \<le> 13) \<or> (28 \<le> n \<and> n \<le> 32) \<or> n = 133 \<or> n = 160)"

definition strip :: "string \<Rightarrow> string" where
  "strip s = rev (dropWhile is_space (rev (dropWhile is_space s)))"

lemma dropWhile_hd: "t = dropWhile P s \<Longrightarrow> t = [] \<or> \<not> P (hd t)"
  by (metis hd_dropWhile)

lemma strip_strip: "strip (strip s) = strip s"
proof -
  define t u where "t = dropWhile is_space s" and "u = rev (dropWhile is_space (rev t))"
  have "rev u = dropWhile is_space (rev t)" by (simp add: u_def)
  then obtain v where "rev t = v @ rev u" by (metis takeWhile_dropWhile_id)
  then have "rev (rev t) = u @ rev v" by simp
  then have pre: "t = u @ rev v" by simp
  have "dropWhile is_space u = u"
    using dropWhile_hd [OF t_def] pre by (cases u) auto
  moreover have "dropWhile is_space (rev u) = rev u" by (simp add: u_def)
  ultimately have "strip u = u" by (simp add: strip_def)
  moreover have "strip s = u" by (simp add: strip_def t_def u_def)
  ultimately show ?thesis by simp
qed

definition starts :: "string \<Rightarrow> string \<Rightarrow> bool" where
  "starts s p \<longleftrightarrow> take (length p) s = p"

fun occurs :: "string \<Rightarrow> string \<Rightarrow> bool" where
  "occurs p [] \<longleftrightarrow> p = []"
| "occurs p (c # s) \<longleftrightarrow> starts (c # s) p \<or> occurs p s"

text \<open>\<open>s.split(sep)\<close> for a separator that is not empty.\<close>

function split_acc :: "string \<Rightarrow> string \<Rightarrow> string \<Rightarrow> string list" where
  "split_acc sep acc s =
     (if s = [] then [rev acc]
      else if sep \<noteq> [] \<and> starts s sep then rev acc # split_acc sep [] (drop (length sep) s)
      else split_acc sep (hd s # acc) (tl s))"
  by pat_completeness auto
termination
  by (relation "measure (\<lambda>(sep, acc, s). length s)") auto

declare split_acc.simps [simp del]

definition py_split :: "string \<Rightarrow> string \<Rightarrow> string list" where
  "py_split sep s = split_acc sep [] s"

definition join :: "string \<Rightarrow> string list \<Rightarrow> string" where
  "join sep xs = (case xs of [] \<Rightarrow> [] | y # ys \<Rightarrow> y @ concat (map (\<lambda>z. sep @ z) ys))"

definition is_lower_hex :: "char \<Rightarrow> bool" where
  "is_lower_hex c \<longleftrightarrow> is_digit c \<or> c \<in> set ''abcdef''"

definition is_lower_alnum :: "char \<Rightarrow> bool" where
  "is_lower_alnum c \<longleftrightarrow> is_digit c \<or> c \<in> set ''abcdefghijklmnopqrstuvwxyz''"

definition is_alnum :: "char \<Rightarrow> bool" where
  "is_alnum c \<longleftrightarrow> is_lower_alnum c \<or> c \<in> set ''ABCDEFGHIJKLMNOPQRSTUVWXYZ''"

text \<open>\<open>[0-9a-f]{64}\<close> anchored at both ends.\<close>

definition is_hex64 :: "string \<Rightarrow> bool" where
  "is_hex64 s \<longleftrightarrow> length s = 64 \<and> list_all is_lower_hex s"

section \<open>The host's primitives and the JSON writer\<close>

record host =
  sha256 :: "string \<Rightarrow> string"
  ripemd160 :: "string \<Rightarrow> string"
  float_repr :: "rat \<Rightarrow> string"

text \<open>
  A concrete host for the examples of the development: 32 characters made of the sum of the input's code points
  stand for its digest, the first 20 of the input for the other.
\<close>

definition sample_sum :: "string \<Rightarrow> nat" where
  "sample_sum bs = sum_list (map of_char bs)"

definition sample_host :: host where
  "sample_host = \<lparr>sha256 = (\<lambda>bs. take 32 (show_nat (sample_sum bs) @ replicate 32 (CHR ''x''))),
     ripemd160 = (\<lambda>bs. take 20 (bs @ replicate 20 (CHR ''x''))), float_repr = (\<lambda>q. show_int \<lfloor>q\<rfloor> @ ''.0'')\<rparr>"

definition hex_digit :: "nat \<Rightarrow> char" where
  "hex_digit n = ''0123456789abcdef'' ! (n mod 16)"

definition hex_byte :: "char \<Rightarrow> string" where
  "hex_byte c = [hex_digit (of_char c div 16), hex_digit (of_char c mod 16)]"

definition hexdigest :: "string \<Rightarrow> string" where
  "hexdigest bs = concat (map hex_byte bs)"

lemma hex_digit_inj: "a < 16 \<Longrightarrow> b < 16 \<Longrightarrow> hex_digit a = hex_digit b \<longleftrightarrow> a = b"
proof -
  assume ab: "a < 16" "b < 16"
  have "distinct ''0123456789abcdef''" by simp
  moreover have "length ''0123456789abcdef'' = 16" by simp
  ultimately show ?thesis using ab nth_eq_iff_index_eq [of "''0123456789abcdef''" a b]
    by (simp only: hex_digit_def mod_less)
qed

lemma hex_byte_inj: "hex_byte c = hex_byte d \<longleftrightarrow> c = d"
proof -
  have "(of_char c :: nat) div 16 < 16" "(of_char d :: nat) div 16 < 16"
    by (rule less_mult_imp_div_less, simp)+
  moreover have "(of_char c :: nat) mod 16 < 16" "(of_char d :: nat) mod 16 < 16" by simp_all
  ultimately have "hex_byte c = hex_byte d \<longleftrightarrow>
      (of_char c :: nat) div 16 = of_char d div 16 \<and> (of_char c :: nat) mod 16 = of_char d mod 16"
    by (simp add: hex_byte_def hex_digit_inj)
  also have "\<dots> \<longleftrightarrow> (of_char c :: nat) = of_char d" by (metis div_mult_mod_eq)
  finally show ?thesis by simp
qed

lemma hexdigest_inj: "hexdigest a = hexdigest b \<longleftrightarrow> a = b"
proof (induction a arbitrary: b)
  case Nil
  then show ?case by (cases b) (auto simp: hexdigest_def hex_byte_def)
next
  case (Cons c a)
  show ?case
  proof (cases b)
    case Nil
    then show ?thesis by (simp add: hexdigest_def hex_byte_def)
  next
    case (Cons d b')
    have "hexdigest (c # a) = hexdigest (d # b') \<longleftrightarrow> hex_byte c @ hexdigest a = hex_byte d @ hexdigest b'"
      by (simp add: hexdigest_def)
    also have "\<dots> \<longleftrightarrow> hex_byte c = hex_byte d \<and> hexdigest a = hexdigest b'"
      by (rule append_eq_append_conv) (simp add: hex_byte_def)
    finally show ?thesis using Cons.IH by (simp add: Cons hex_byte_inj)
  qed
qed

text \<open>\<open>json.dumps\<close> with \<open>ensure_ascii\<close>: everything outside \<open>0x20..0x7e\<close> is escaped.\<close>

definition json_char :: "char \<Rightarrow> string" where
  "json_char c =
     (let n = (of_char c :: nat); bs = CHR 0x5C in
      if n = 34 then [bs, CHR 0x22] else if n = 92 then [bs, bs]
      else if n = 10 then [bs, CHR ''n''] else if n = 13 then [bs, CHR ''r'']
      else if n = 9 then [bs, CHR ''t''] else if n = 8 then [bs, CHR ''b'']
      else if n = 12 then [bs, CHR ''f'']
      else if 32 \<le> n \<and> n \<le> 126 then [c]
      else [bs, CHR ''u'', CHR ''0'', CHR ''0''] @ hex_byte c)"

definition json_str :: "string \<Rightarrow> string" where
  "json_str s = [CHR 0x22] @ concat (map json_char s) @ [CHR 0x22]"

text \<open>\<open>json.dumps(v, sort_keys=True, separators=(isep, ksep))\<close>\<close>

fun dumps :: "host \<Rightarrow> string \<Rightarrow> string \<Rightarrow> pyval \<Rightarrow> string" where
  "dumps H isep ksep PNone = ''null''"
| "dumps H isep ksep (PBool b) = (if b then ''true'' else ''false'')"
| "dumps H isep ksep (PInt i) = show_int i"
| "dumps H isep ksep (PFloat q) = float_repr H q"
| "dumps H isep ksep (PStr s) = json_str s"
| "dumps H isep ksep (PList vs) = ''['' @ join isep (map (dumps H isep ksep) vs) @ '']''"
| "dumps H isep ksep (PDict kvs) =
     ''{'' @ join isep (map (\<lambda>(k, t). json_str k @ ksep @ t)
                        (sort_key fst (map (\<lambda>(k, v). (k, dumps H isep ksep v)) kvs))) @ ''}''"

text \<open>The compact form, \<open>separators=(",", ":")\<close>.\<close>

abbreviation dumps_compact :: "host \<Rightarrow> pyval \<Rightarrow> string" where
  "dumps_compact H v \<equiv> dumps H '','' '':'' v"

text \<open>\<open>json.dumps(v, sort_keys=True, indent=1)\<close>: one space per level, \<open>": "\<close> after a key.\<close>

definition json_nl :: "nat \<Rightarrow> string" where
  "json_nl lvl = CHR 0x0A # replicate lvl (CHR 0x20)"

fun dumps_indent :: "host \<Rightarrow> nat \<Rightarrow> pyval \<Rightarrow> string" where
  "dumps_indent H lvl (PList vs) =
     (if vs = [] then ''[]''
      else ''['' @ json_nl (Suc lvl) @ join ('','' @ json_nl (Suc lvl)) (map (dumps_indent H (Suc lvl)) vs)
           @ json_nl lvl @ '']'')"
| "dumps_indent H lvl (PDict kvs) =
     (if kvs = [] then ''{}''
      else ''{'' @ json_nl (Suc lvl)
           @ join ('','' @ json_nl (Suc lvl))
               (map (\<lambda>(k, t). json_str k @ '': '' @ t)
                  (sort_key fst (map (\<lambda>(k, v). (k, dumps_indent H (Suc lvl) v)) kvs)))
           @ json_nl lvl @ ''}'')"
| "dumps_indent H lvl PNone = ''null''"
| "dumps_indent H lvl (PBool b) = (if b then ''true'' else ''false'')"
| "dumps_indent H lvl (PInt i) = show_int i"
| "dumps_indent H lvl (PFloat q) = float_repr H q"
| "dumps_indent H lvl (PStr s) = json_str s"

section \<open>A memo with two numbers and a digest\<close>

text \<open>
  The regular expression \<open>^<prefix>(\d+)-([0-9a-f]{12})-part-(\d+)$\<close> on a string of code points up
  to 255, where \<open>\d\<close> is \<open>[0-9]\<close> and \<open>$\<close> also matches before a final newline.
\<close>

definition take_digits :: "string \<Rightarrow> (nat \<times> string) option" where
  "take_digits s = (let ds = takeWhile is_digit s in
     if ds = [] then None else Some (read_nat ds, dropWhile is_digit s))"

definition drop_prefix :: "string \<Rightarrow> string \<Rightarrow> string option" where
  "drop_prefix p s = (if starts s p then Some (drop (length p) s) else None)"

definition match_memo :: "string \<Rightarrow> string \<Rightarrow> (nat \<times> string \<times> nat) option" where
  "match_memo prefix s =
     Option.bind (drop_prefix prefix s) (\<lambda>s1.
     Option.bind (take_digits s1) (\<lambda>(n, s2).
     Option.bind (drop_prefix ''-'' s2) (\<lambda>s3.
     if length s3 < 12 \<or> \<not> list_all is_lower_hex (take 12 s3) then None else
     Option.bind (drop_prefix ''-part-'' (drop 12 s3)) (\<lambda>s4.
     Option.bind (take_digits s4) (\<lambda>(i, s5).
     if s5 = [] \<or> s5 = [CHR 0x0A] then Some (n, take 12 s3, i) else None)))))"

definition print_memo :: "string \<Rightarrow> nat \<times> string \<times> nat \<Rightarrow> string" where
  "print_memo prefix = (\<lambda>(n, dg, i). prefix @ show_nat n @ ''-'' @ dg @ ''-part-'' @ show_nat i)"

definition valid_memo :: "nat \<times> string \<times> nat \<Rightarrow> bool" where
  "valid_memo = (\<lambda>(n, dg, i). length dg = 12 \<and> list_all is_lower_hex dg)"

lemma drop_prefix_append [simp]: "drop_prefix p (p @ s) = Some s"
  by (simp add: drop_prefix_def starts_def)

lemma takeWhile_digits:
  "s = [] \<or> \<not> is_digit (hd s) \<Longrightarrow> takeWhile is_digit (show_nat n @ s) = show_nat n"
  using show_nat_digits [of n] by (cases s) (auto simp: takeWhile_append)

lemma dropWhile_digits:
  "s = [] \<or> \<not> is_digit (hd s) \<Longrightarrow> dropWhile is_digit (show_nat n @ s) = s"
  using show_nat_digits [of n] by (cases s) (auto simp: dropWhile_append)

lemma take_digits_show_nat:
  "s = [] \<or> \<not> is_digit (hd s) \<Longrightarrow> take_digits (show_nat n @ s) = Some (n, s)"
  by (simp add: take_digits_def Let_def takeWhile_digits dropWhile_digits)

lemma dash_not_digit [simp]: "\<not> is_digit (CHR ''-'')"
  by (simp add: is_digit_def)

interpretation memo: codec "print_memo prefix" "match_memo prefix" valid_memo
proof unfold_locales
  fix x :: "nat \<times> string \<times> nat"
  assume v: "valid_memo x"
  obtain n dg i where x: "x = (n, dg, i)" by (cases x)
  have len: "length dg = 12" and hex: "list_all is_lower_hex dg"
    using v by (auto simp: valid_memo_def x)
  have n: "take_digits (show_nat n @ ''-'' @ dg @ ''-part-'' @ show_nat i)
             = Some (n, ''-'' @ dg @ ''-part-'' @ show_nat i)"
    by (rule take_digits_show_nat) simp
  have i: "take_digits (show_nat i) = Some (i, [])"
    using take_digits_show_nat [of "[]" i] by simp
  show "match_memo prefix (print_memo prefix x) = Some x"
    using drop_prefix_append [of "''-''"] drop_prefix_append [of "''-part-''"]
    by (simp add: match_memo_def print_memo_def x n i len hex del: append_Cons)
qed

end
