(* ===== verification/Kit_Floor.thy ===== *)
theory Kit_Floor
  imports Py_Values
begin

text \<open>
  The kit floor and its deadline, \<open>src/services/modea/kit_floor.py\<close>: the reading of the two environment
  values the season, the relay and the faucet share, and the floor in force at an instant. The instants of
  the program are UTC, written \<open>YYYY-MM-DDThh:mm:ssZ\<close>; \<open>strptime\<close> and the proleptic Gregorian calendar of
  \<open>datetime\<close> are modelled on that form.
\<close>

section \<open>Instants\<close>

definition is_leap :: "nat \<Rightarrow> bool" where
  "is_leap y \<longleftrightarrow> y mod 4 = 0 \<and> (y mod 100 \<noteq> 0 \<or> y mod 400 = 0)"

definition month_days :: "nat \<Rightarrow> nat list" where
  "month_days y = [31, if is_leap y then 29 else 28, 31, 30, 31, 30, 31, 31, 30, 31, 30, 31]"

definition days_in_month :: "nat \<Rightarrow> nat \<Rightarrow> nat" where
  "days_in_month y m = month_days y ! (m - 1)"

text \<open>\<open>datetime.toordinal\<close>: day 1 is the first of January of year 1.\<close>

definition days_before_year :: "nat \<Rightarrow> nat" where
  "days_before_year y = (y - 1) * 365 + (y - 1) div 4 - (y - 1) div 100 + (y - 1) div 400"

definition ordinal :: "nat \<Rightarrow> nat \<Rightarrow> nat \<Rightarrow> nat" where
  "ordinal y m d = days_before_year y + sum_list (take (m - 1) (month_days y)) + d"

text \<open>The form \<open>[0-9]{4}-[0-9]{2}-[0-9]{2}T[0-9]{2}:[0-9]{2}:[0-9]{2}Z\<close>, matched in full.\<close>

definition instant_mask :: string where
  "instant_mask = ''0000-00-00T00:00:00Z''"

definition instant_form :: "string \<Rightarrow> bool" where
  "instant_form s \<longleftrightarrow> length s = 20
     \<and> list_all (\<lambda>(c, m). if m = CHR ''0'' then is_digit c else c = m) (zip s instant_mask)"

definition field_at :: "string \<Rightarrow> nat \<Rightarrow> nat \<Rightarrow> nat" where
  "field_at s i n = read_nat (take n (drop i s))"

text \<open>\<open>strptime\<close> on a string of that form, then the UTC timestamp; an instant that does not exist raises.\<close>

definition strptime_utc :: "string \<Rightarrow> int result" where
  "strptime_utc s =
     (let y = field_at s 0 4; m = field_at s 5 2; d = field_at s 8 2;
          h = field_at s 11 2; mi = field_at s 14 2; sec = field_at s 17 2
      in if \<not> instant_form s \<or> y = 0 \<or> m = 0 \<or> m > 12 \<or> d = 0 \<or> d > days_in_month y m \<or> h > 23 \<or> mi > 59 \<or> sec > 59
         then Inl ValueError
         else Inr ((int (ordinal y m d) - 719163) * 86400 + int (h * 3600 + mi * 60 + sec)))"

section \<open>The two settings\<close>

text \<open>\<open>re.compile("[1-9][0-9]{0,8}")\<close>, matched in full.\<close>

definition kit_min_form :: "string \<Rightarrow> bool" where
  "kit_min_form s \<longleftrightarrow> s \<noteq> [] \<and> length s \<le> 9 \<and> list_all is_digit s \<and> hd s \<noteq> CHR ''0''"

definition env_text :: "pyval \<Rightarrow> string result" where
  "env_text raw = (case raw of PNone \<Rightarrow> Inr [] | PStr s \<Rightarrow> Inr (strip s) | _ \<Rightarrow> Inl ValueError)"

definition parse_kit_min :: "pyval \<Rightarrow> int option result" where
  "parse_kit_min raw = bind_res (env_text raw) (\<lambda>s.
     if s = [] then Inr None
     else if \<not> kit_min_form s then Inl ValueError
     else Inr (Some (int (read_nat s))))"

definition parse_kit_deadline :: "pyval \<Rightarrow> rat option result" where
  "parse_kit_deadline raw = bind_res (env_text raw) (\<lambda>s.
     if s = [] then Inr None
     else if \<not> instant_form s then Inl ValueError
     else bind_res (strptime_utc s) (\<lambda>t. Inr (Some (of_int t))))"

text \<open>The policy of a service: dormant, armed from a deadline, or a setting it refuses to start on.\<close>

datatype kit_policy = Dormant | Armed int rat | Misconfigured

definition policy_from_env :: "pyval \<Rightarrow> pyval \<Rightarrow> kit_policy" where
  "policy_from_env min_raw deadline_raw =
     (case bind_res (env_text min_raw) (\<lambda>m. bind_res (env_text deadline_raw) (\<lambda>d.
        if m = [] \<and> d = [] then Inr Dormant
        else if m = [] \<or> d = [] then Inr Misconfigured
        else bind_res (parse_kit_min (PStr m)) (\<lambda>k. bind_res (parse_kit_deadline (PStr d)) (\<lambda>t.
          case (k, t) of (Some n, Some ts) \<Rightarrow> Inr (Armed n ts) | _ \<Rightarrow> Inl TypeError))))
      of Inl e \<Rightarrow> Misconfigured | Inr p \<Rightarrow> p)"

definition floor_in_force :: "int option \<Rightarrow> rat option \<Rightarrow> rat \<Rightarrow> int option result" where
  "floor_in_force kfloor deadline_ts now =
     (case (kfloor, deadline_ts) of
        (None, None) \<Rightarrow> Inr None
      | (Some f, Some d) \<Rightarrow> Inr (if now \<ge> d then Some f else None)
      | _ \<Rightarrow> Inl ValueError)"

section \<open>What the settings can name\<close>

lemma foldl_digits_mono: "a \<le> foldl (\<lambda>a c. 10 * a + digit_val c) a t"
proof (induction t arbitrary: a)
  case (Cons c t)
  have "a \<le> 10 * a + digit_val c" by simp
  also have "\<dots> \<le> foldl (\<lambda>a c. 10 * a + digit_val c) (10 * a + digit_val c) t" by (rule Cons.IH)
  finally show ?case by simp
qed simp

lemma digit_val_le: "is_digit c \<Longrightarrow> digit_val c \<le> 9"
  unfolding is_digit_def digit_val_def by linarith

lemma read_nat_bound: "list_all is_digit s \<Longrightarrow> read_nat s < 10 ^ length s"
proof (induction s rule: rev_induct)
  case Nil
  then show ?case by (simp add: read_nat_def)
next
  case (snoc c s)
  then have "read_nat s < 10 ^ length s" "digit_val c \<le> 9" by (auto intro: digit_val_le)
  then show ?case by (simp add: read_nat_snoc)
qed

lemma kit_min_form_pos: "kit_min_form s \<Longrightarrow> 1 \<le> read_nat s"
proof -
  assume f: "kit_min_form s"
  then obtain c t where s: "s = c # t" and c: "is_digit c" "c \<noteq> CHR ''0''"
    by (cases s) (auto simp: kit_min_form_def)
  have "(of_char c :: nat) \<noteq> of_char (CHR ''0'')"
    using c(2) by (simp only: of_char_eq_iff) simp
  then have "(of_char c :: nat) \<noteq> 48" by simp
  then have "1 \<le> digit_val c" using c(1) unfolding is_digit_def digit_val_def by linarith
  also have "\<dots> \<le> read_nat s"
    using foldl_digits_mono [of "digit_val c" t] by (simp add: s read_nat_def)
  finally show ?thesis .
qed

lemma kit_min_form_bound:
  assumes "kit_min_form s"
  shows "read_nat s < 1000000000"
proof -
  have "read_nat s < 10 ^ length s" using assms by (intro read_nat_bound) (simp add: kit_min_form_def)
  also have "\<dots> \<le> 10 ^ 9" using assms by (intro power_increasing) (simp_all add: kit_min_form_def)
  finally show ?thesis by simp
qed

lemma parse_kit_min_range: "parse_kit_min raw = Inr (Some k) \<Longrightarrow> 1 \<le> k \<and> k < 1000000000"
  using kit_min_form_pos kit_min_form_bound
  by (fastforce simp: parse_kit_min_def bind_res_eq_Inr split: if_splits)

lemma parse_kit_min_pos: "parse_kit_min raw = Inr (Some k) \<Longrightarrow> 1 \<le> k"
  using parse_kit_min_range by blast

lemma strptime_utc_form: "strptime_utc s = Inr u \<Longrightarrow> instant_form s"
  by (auto simp: strptime_utc_def Let_def split: if_splits)

lemma env_text_strip: "env_text raw = Inr s \<Longrightarrow> strip s = s"
  by (cases raw) (auto simp: env_text_def strip_strip, simp add: strip_def)

lemma policy_from_env_texts:
  assumes "env_text min_raw = Inr m" "env_text deadline_raw = Inr d"
  shows "policy_from_env min_raw deadline_raw =
    (if m = [] \<and> d = [] then Dormant
     else if kit_min_form m \<and> (\<exists>u. strptime_utc d = Inr u) then Armed (int (read_nat m)) (of_int (projr (strptime_utc d)))
     else Misconfigured)"
proof -
  have st: "strip m = m" "strip d = d" using assms env_text_strip by auto
  have empty: "\<not> kit_min_form []" "\<not> instant_form []" by (simp_all add: kit_min_form_def instant_form_def)
  show ?thesis
  proof (cases "strptime_utc d")
    case (Inl e)
    then show ?thesis using assms st empty
      by (simp add: policy_from_env_def parse_kit_min_def parse_kit_deadline_def env_text_def)
  next
    case (Inr u)
    then have "instant_form d" by (rule strptime_utc_form)
    then show ?thesis using assms st empty Inr
      by (auto simp: policy_from_env_def parse_kit_min_def parse_kit_deadline_def env_text_def)
  qed
qed

lemma policy_from_env_not_text:
  "env_text min_raw = Inl e \<or> env_text deadline_raw = Inl e \<Longrightarrow> policy_from_env min_raw deadline_raw = Misconfigured"
  by (cases "env_text min_raw") (auto simp: policy_from_env_def)

section \<open>Properties\<close>

text \<open>
  The kit policy of a service is exactly what its two environment values say: it is armed iff both are text, one a
  kit number in its form (so a floor of 1 to 999,999,999) and the other an instant that exists; dormant iff both are
  empty; refused otherwise. Under an armed policy the floor in force is never an exception: none before the
  deadline, the floor from the deadline itself on.
\<close>

theorem kit_policy_sound:
  "(policy_from_env min_raw deadline_raw = Dormant \<longleftrightarrow> env_text min_raw = Inr [] \<and> env_text deadline_raw = Inr [])
   \<and> (policy_from_env min_raw deadline_raw = Armed k t \<longleftrightarrow>
        (\<exists>m d u. env_text min_raw = Inr m \<and> env_text deadline_raw = Inr d \<and> kit_min_form m \<and> k = int (read_nat m)
           \<and> 1 \<le> k \<and> k \<le> 999999999 \<and> strptime_utc d = Inr u \<and> t = of_int u))
   \<and> floor_in_force (Some k) (Some t) now = Inr (if now < t then None else Some k)"
proof (cases "\<exists>m d. env_text min_raw = Inr m \<and> env_text deadline_raw = Inr d")
  case True
  then obtain m d where texts: "env_text min_raw = Inr m" "env_text deadline_raw = Inr d" by blast
  have empty: "\<not> kit_min_form []" by (simp add: kit_min_form_def)
  show ?thesis
    using texts empty kit_min_form_pos [of m] kit_min_form_bound [of m]
    by (auto simp: policy_from_env_texts [OF texts] floor_in_force_def)
next
  case False
  then obtain e where "env_text min_raw = Inl e \<or> env_text deadline_raw = Inl e"
    by (cases "env_text min_raw"; cases "env_text deadline_raw") auto
  then show ?thesis using False by (auto simp: policy_from_env_not_text floor_in_force_def)
qed

end
