(* ===== verification/Season_Rules.thy ===== *)
theory Season_Rules
  imports Kit_Floor
begin

text \<open>
  The rule sets of the Final Testnet Season, \<open>src/services/final_season_rules.py\<close>.
  A rule set is a record; a key only some sets carry is an \<open>option\<close> field. The module's globals (the kit
  floor, the fault commitments, the two sets that depend on them and the history) are the record
  \<open>rules_state\<close>, passed and returned by the operations that rebind them.
\<close>

section \<open>Rule sets\<close>

definition UDNDR :: int where
  "UDNDR = 1000000"

record fault_period =
  from_day :: int
  to_day :: int
  commitment :: string

record rules =
  season :: string
  day_blocks :: int
  end_time :: string
  presence_per_window :: int
  presence_max_windows :: int
  work_per_request :: int
  juror_per_verdict :: int
  cap_programme_day :: int
  cap_season :: int
  requests_per_day :: int
  unwound_audit_work :: "string option"
  finality :: "string option"
  judge_active_per_day :: "int option"
  probation_first_day_bps :: "int option"
  kit_min :: "int option"
  juror_rule :: "string option"
  fault_periods :: "fault_period list option"
  fault_payer :: "string option"

definition RULES_17 :: rules where
  "RULES_17 = \<lparr>season = ''final-testnet'', day_blocks = 17280, end_time = ''2026-11-08T00:00:00Z'',
     presence_per_window = 2000, presence_max_windows = 50, work_per_request = 50000,
     juror_per_verdict = 8000, cap_programme_day = 50 * UDNDR, cap_season = 1500 * UDNDR,
     requests_per_day = 600, unwound_audit_work = None, finality = None, judge_active_per_day = None,
     probation_first_day_bps = None, kit_min = None, juror_rule = None, fault_periods = None,
     fault_payer = None\<rparr>"

definition UNWOUND_AUDIT_WORK :: string where
  "UNWOUND_AUDIT_WORK = ''paid_if_answered_and_graded_own_answer_first''"

definition FINALITY_17 :: string where
  "FINALITY_17 = ''audit_unwind_blocks+200''"

definition FINALITY :: string where
  "FINALITY = ''audit_unwind_blocks+audit_resolve_timeout+200''"

definition RULES :: rules where
  "RULES = RULES_17\<lparr>unwound_audit_work := Some UNWOUND_AUDIT_WORK, finality := Some FINALITY\<rparr>"

definition RULES_DOUBLED :: rules where
  "RULES_DOUBLED = RULES\<lparr>presence_per_window := 4000, work_per_request := 100000,
     juror_per_verdict := 16000, cap_programme_day := 100 * UDNDR, cap_season := 3000 * UDNDR\<rparr>"

definition RULES_MORE_REQUESTS :: rules where
  "RULES_MORE_REQUESTS = RULES_DOUBLED\<lparr>requests_per_day := 900\<rparr>"

definition JUDGE_ACTIVE_PER_DAY :: int where
  "JUDGE_ACTIVE_PER_DAY = 500000"

definition PROBATION_FIRST_DAY_BPS :: int where
  "PROBATION_FIRST_DAY_BPS = 6000"

definition kit_set :: "int \<Rightarrow> rules" where
  "kit_set k = RULES_MORE_REQUESTS\<lparr>judge_active_per_day := Some JUDGE_ACTIVE_PER_DAY,
     probation_first_day_bps := Some PROBATION_FIRST_DAY_BPS, kit_min := Some k\<rparr>"

definition kit_rules :: "pyval \<Rightarrow> rules result" where
  "kit_rules v = (case whole_of v of None \<Rightarrow> Inl ValueError
     | Some k \<Rightarrow> if k < 1 then Inl ValueError else Inr (kit_set k))"

definition PUBLISHED_SETS :: "rules list" where
  "PUBLISHED_SETS = [RULES_17, RULES, RULES_DOUBLED, RULES_MORE_REQUESTS]"

definition JUROR_RULE :: string where
  "JUROR_RULE = ''verdict_paid_whatever_the_vote_contradicted_on_incoherent_or_no_reveal_faults''"

definition FAULT_CLASSES :: "string list" where
  "FAULT_CLASSES = [''incoherent_answer'', ''plausible_false_fact'', ''no_reveal'']"

definition CONTRADICTING_CLASSES :: "string list" where
  "CONTRADICTING_CLASSES = [''incoherent_answer'', ''no_reveal'']"

section \<open>Fault periods\<close>

type_synonym period = "int \<times> int \<times> string"

text \<open>An element of the periods: an object with exactly the three keys, or a sequence of three.\<close>

definition period_triple :: "pyval \<Rightarrow> (pyval \<times> pyval \<times> pyval) option" where
  "period_triple p = (case p of
     PDict d \<Rightarrow> if has_keys d [''from_day'', ''to_day'', ''commitment'']
       then Some (dget d ''from_day'', dget d ''to_day'', dget d ''commitment'') else None
   | PList [a, b, c] \<Rightarrow> Some (a, b, c)
   | _ \<Rightarrow> None)"

fun check_periods :: "int \<Rightarrow> string list \<Rightarrow> pyval list \<Rightarrow> period list result" where
  "check_periods prev seen [] = Inr []"
| "check_periods prev seen (p # ps) =
     (case period_triple p of
        Some (PInt a, PInt b, PStr c) \<Rightarrow>
          if \<not> (0 \<le> a \<and> a \<le> b) then Inl ValueError
          else if \<not> is_hex64 c then Inl ValueError
          else if a \<le> prev \<or> c \<in> set seen then Inl ValueError
          else bind_res (check_periods b (c # seen) ps) (\<lambda>out. Inr ((a, b, c) # out))
      | _ \<Rightarrow> Inl ValueError)"

definition check_fault_periods :: "pyval \<Rightarrow> period list result" where
  "check_fault_periods periods = (case list_of periods of
     None \<Rightarrow> Inl ValueError
   | Some ps \<Rightarrow> if ps = [] then Inl ValueError else check_periods (- 1) [] ps)"

text \<open>\<open>([0-9]{1,6})-([0-9]{1,6}):([0-9a-f]{64})\Z\<close>\<close>

definition match_period :: "string \<Rightarrow> period option" where
  "match_period s =
     (let d1 = takeWhile is_digit s; s1 = dropWhile is_digit s in
      if d1 = [] \<or> length d1 > 6 then None else
      Option.bind (drop_prefix ''-'' s1) (\<lambda>s2.
      let d2 = takeWhile is_digit s2; s3 = dropWhile is_digit s2 in
      if d2 = [] \<or> length d2 > 6 then None else
      Option.bind (drop_prefix '':'' s3) (\<lambda>c.
      if is_hex64 c then Some (int (read_nat d1), int (read_nat d2), c) else None)))"

definition period_val :: "period \<Rightarrow> pyval" where
  "period_val = (\<lambda>(a, b, c). PList [PInt a, PInt b, PStr c])"

definition periods_val :: "period list \<Rightarrow> pyval" where
  "periods_val ps = PList (map period_val ps)"

definition fault_periods_setting :: "string option \<Rightarrow> period list option result" where
  "fault_periods_setting raw =
     (let s = strip (case raw of None \<Rightarrow> [] | Some t \<Rightarrow> t) in
      if s = [] then Inr None
      else bind_res (map_res (\<lambda>part. case match_period (strip part) of
               None \<Rightarrow> Inl ValueError | Some p \<Rightarrow> Inr p) (py_split '','' s)) (\<lambda>ps.
           bind_res (check_fault_periods (periods_val ps)) (\<lambda>checked. Inr (Some checked))))"

text \<open>\<open>dendra1[0-9a-z]{38,58}\Z\<close>\<close>

definition is_payer :: "string \<Rightarrow> bool" where
  "is_payer s \<longleftrightarrow> starts s ''dendra1'' \<and> (let t = drop 7 s in
     38 \<le> length t \<and> length t \<le> 58 \<and> list_all is_lower_alnum t)"

definition fault_payer_setting :: "string option \<Rightarrow> string option result" where
  "fault_payer_setting raw =
     (let s = strip (case raw of None \<Rightarrow> [] | Some t \<Rightarrow> t) in
      if s = [] then Inr None else if is_payer s then Inr (Some s) else Inl ValueError)"

definition period_rec :: "period \<Rightarrow> fault_period" where
  "period_rec = (\<lambda>(a, b, c). \<lparr>from_day = a, to_day = b, commitment = c\<rparr>)"

definition jury_set :: "int \<Rightarrow> period list \<Rightarrow> string \<Rightarrow> rules" where
  "jury_set k ps payer = (kit_set k)\<lparr>juror_rule := Some JUROR_RULE, fault_payer := Some payer,
     fault_periods := Some (map period_rec ps)\<rparr>"

definition jury_rules :: "pyval \<Rightarrow> pyval \<Rightarrow> pyval \<Rightarrow> rules result" where
  "jury_rules k periods payer =
     bind_res (check_fault_periods periods) (\<lambda>checked.
     case payer of
       PStr s \<Rightarrow> if \<not> is_payer s then Inl ValueError
         else bind_res (kit_rules k) (\<lambda>kr. Inr (kr\<lparr>juror_rule := Some JUROR_RULE,
                fault_payer := Some s, fault_periods := Some (map period_rec checked)\<rparr>))
     | _ \<Rightarrow> Inl ValueError)"

section \<open>Fingerprints\<close>

definition opt_key :: "string \<Rightarrow> pyval option \<Rightarrow> pydict" where
  "opt_key k v = (case v of None \<Rightarrow> [] | Some x \<Rightarrow> [(k, x)])"

definition period_obj :: "fault_period \<Rightarrow> pyval" where
  "period_obj p = PDict [(''from_day'', PInt (from_day p)), (''to_day'', PInt (to_day p)),
     (''commitment'', PStr (commitment p))]"

text \<open>A rule set as the dictionary the code hashes: a key that is absent is left out.\<close>

definition rules_obj :: "rules \<Rightarrow> pydict" where
  "rules_obj r = [(''season'', PStr (season r)), (''day_blocks'', PInt (day_blocks r)),
     (''end_time'', PStr (end_time r)), (''presence_per_window'', PInt (presence_per_window r)),
     (''presence_max_windows'', PInt (presence_max_windows r)),
     (''work_per_request'', PInt (work_per_request r)),
     (''juror_per_verdict'', PInt (juror_per_verdict r)),
     (''cap_programme_day'', PInt (cap_programme_day r)), (''cap_season'', PInt (cap_season r)),
     (''requests_per_day'', PInt (requests_per_day r))]
   @ opt_key ''unwound_audit_work'' (map_option PStr (unwound_audit_work r))
   @ opt_key ''finality'' (map_option PStr (finality r))
   @ opt_key ''judge_active_per_day'' (map_option PInt (judge_active_per_day r))
   @ opt_key ''probation_first_day_bps'' (map_option PInt (probation_first_day_bps r))
   @ opt_key ''kit_min'' (map_option PInt (kit_min r))
   @ opt_key ''juror_rule'' (map_option PStr (juror_rule r))
   @ opt_key ''fault_payer'' (map_option PStr (fault_payer r))
   @ opt_key ''fault_periods'' (map_option (\<lambda>ps. PList (map period_obj ps)) (fault_periods r))"

definition fingerprint :: "host \<Rightarrow> rules \<Rightarrow> string" where
  "fingerprint H r = hexdigest (sha256 H (dumps_compact H (PDict (rules_obj r))))"

section \<open>The module's globals\<close>

record rules_state =
  KIT_MIN :: "int option"
  FAULT_PERIODS :: "period list option"
  FAULT_PAYER :: "string option"
  RULES_KIT :: "rules option"
  RULES_JURY :: "rules option"
  RULE_HISTORY :: "rules list"

definition opt_list :: "'a option \<Rightarrow> 'a list" where
  "opt_list x = (case x of None \<Rightarrow> [] | Some y \<Rightarrow> [y])"

text \<open>The assignments at import, from the three environment variables.\<close>

definition init_rules :: "pyval \<Rightarrow> string option \<Rightarrow> string option \<Rightarrow> rules_state result" where
  "init_rules kit_raw periods_raw payer_raw =
     bind_res (parse_kit_min kit_raw) (\<lambda>k.
     bind_res (case k of None \<Rightarrow> Inr None | Some n \<Rightarrow> map_sum id Some (kit_rules (PInt n))) (\<lambda>kit.
     bind_res (fault_periods_setting periods_raw) (\<lambda>ps.
     bind_res (fault_payer_setting payer_raw) (\<lambda>payer.
     bind_res (case (k, kit, ps, payer) of
         (Some n, Some _, Some p, Some a) \<Rightarrow> map_sum id Some (jury_rules (PInt n) (periods_val p) (PStr a))
       | _ \<Rightarrow> Inr None) (\<lambda>jury.
     Inr \<lparr>KIT_MIN = k, FAULT_PERIODS = ps, FAULT_PAYER = payer, RULES_KIT = kit, RULES_JURY = jury,
          RULE_HISTORY = PUBLISHED_SETS @ opt_list kit @ opt_list jury\<rparr>)))))"

text \<open>
  An operation of the module returns the globals with what it returns or raises: \<open>set_kit_min\<close> binds the
  floor before it builds the jury set.
\<close>

definition set_kit_min :: "rules_state \<Rightarrow> pyval \<Rightarrow> rules_state \<times> rules result" where
  "set_kit_min st v =
     (case kit_rules v of
        Inl e \<Rightarrow> (st, Inl e)
      | Inr rules \<Rightarrow>
          if KIT_MIN st \<noteq> None \<and> KIT_MIN st \<noteq> whole_of v then (st, Inl ValueError)
          else
            (let st1 = st\<lparr>KIT_MIN := whole_of v, RULES_KIT := Some rules\<rparr>;
                 built = (case (RULES_JURY st, FAULT_PERIODS st, FAULT_PAYER st) of
                   (None, Some p, Some a) \<Rightarrow> map_sum id Some (jury_rules v (periods_val p) (PStr a))
                 | _ \<Rightarrow> Inr (RULES_JURY st))
             in case built of
                  Inl e \<Rightarrow> (st1, Inl e)
                | Inr jury \<Rightarrow>
                    (st1\<lparr>RULES_JURY := jury,
                         RULE_HISTORY := PUBLISHED_SETS @ [rules] @ opt_list jury\<rparr>, Inr rules)))"

definition set_fault_commitments :: "rules_state \<Rightarrow> pyval \<Rightarrow> pyval \<Rightarrow> rules_state \<times> rules result" where
  "set_fault_commitments st periods payer =
     (case KIT_MIN st of
        None \<Rightarrow> (st, Inl ValueError)
      | Some k \<Rightarrow>
          (case check_fault_periods periods of
             Inl e \<Rightarrow> (st, Inl e)
           | Inr checked \<Rightarrow>
               (case jury_rules (PInt k) (periods_val checked) payer of
                  Inl e \<Rightarrow> (st, Inl e)
                | Inr rules \<Rightarrow>
                    if (FAULT_PERIODS st \<noteq> None \<and> FAULT_PERIODS st \<noteq> Some checked)
                       \<or> (FAULT_PAYER st \<noteq> None \<and> FAULT_PAYER st \<noteq> text_of payer)
                    then (st, Inl ValueError)
                    else (st\<lparr>FAULT_PERIODS := Some checked, FAULT_PAYER := text_of payer,
                             RULES_JURY := Some rules,
                             RULE_HISTORY := PUBLISHED_SETS @ opt_list (RULES_KIT st) @ [rules]\<rparr>,
                          Inr rules))))"

definition jury_set_named :: "host \<Rightarrow> rules_state \<Rightarrow> pyval \<Rightarrow> pyval \<Rightarrow> rules_state \<times> rules option result" where
  "jury_set_named H st rv fp =
     (case (rv, fp) of
        (PDict d, PStr f) \<Rightarrow>
          (let k = dget d ''kit_min''; ps = dget d ''fault_periods''; payer = dget d ''fault_payer'' in
           case jury_rules k ps payer of
             Inl e \<Rightarrow> (st, Inr None)
           | Inr built \<Rightarrow>
               if fingerprint H built \<noteq> f then (st, Inr None)
               else (case RULES_JURY st of
                   Some j \<Rightarrow> (st, Inr (if fingerprint H j = f then Some j else None))
                 | None \<Rightarrow>
                   if KIT_MIN st \<noteq> None \<and> KIT_MIN st \<noteq> whole_of k then (st, Inr None)
                   else if (FAULT_PERIODS st \<noteq> None \<and> map_sum id Some (check_fault_periods ps) \<noteq> Inr (FAULT_PERIODS st))
                        \<or> (FAULT_PAYER st \<noteq> None \<and> FAULT_PAYER st \<noteq> text_of payer) then (st, Inr None)
                   else
                     (let (st1, r1) = (if KIT_MIN st = None then set_kit_min st k else (st, Inr built)) in
                      case r1 of
                        Inl e \<Rightarrow> (st1, Inl e)
                      | Inr _ \<Rightarrow> (let (st2, r2) = set_fault_commitments st1 ps payer in
                                   (st2, map_sum id Some r2)))))
      | _ \<Rightarrow> (st, Inr None))"

definition rule_set_of :: "host \<Rightarrow> rules_state \<Rightarrow> pyval \<Rightarrow> (nat \<times> rules) option" where
  "rule_set_of H st fp =
     find (\<lambda>(n, r). PStr (fingerprint H r) = fp) (enumerate 0 (RULE_HISTORY st))"

section \<open>The set of a day\<close>

text \<open>A first day: \<open>None\<close>, or a day that is not before the first day of the set in front of it.\<close>

definition first_day_of :: "pyval \<Rightarrow> int option result" where
  "first_day_of v = (case v of PNone \<Rightarrow> Inr None
     | PInt d \<Rightarrow> if d < 0 then Inl ValueError else Inr (Some d) | _ \<Rightarrow> Inl ValueError)"

definition first_day_after :: "int option \<Rightarrow> pyval \<Rightarrow> int option result" where
  "first_day_after prev v = bind_res (first_day_of v) (\<lambda>d.
     case d of None \<Rightarrow> Inr None
     | Some n \<Rightarrow> (case prev of None \<Rightarrow> Inl ValueError
                  | Some p \<Rightarrow> if n < p then Inl ValueError else Inr (Some n)))"

definition from_on :: "int option \<Rightarrow> int \<Rightarrow> bool" where
  "from_on first day \<longleftrightarrow> (case first of None \<Rightarrow> False | Some f \<Rightarrow> day \<ge> f)"

definition rules_for_day ::
  "rules_state \<Rightarrow> pyval \<Rightarrow> pyval \<Rightarrow> pyval \<Rightarrow> pyval \<Rightarrow> pyval \<Rightarrow> rules result" where
  "rules_for_day st day unwound_from doubled_from more_requests_from kit_rules_from =
     (case day of
        PInt n \<Rightarrow>
          if n < 0 then Inl ValueError else
          bind_res (first_day_of unwound_from) (\<lambda>u.
          bind_res (first_day_after u doubled_from) (\<lambda>d.
          bind_res (first_day_after d more_requests_from) (\<lambda>m.
          bind_res (first_day_after m kit_rules_from) (\<lambda>k.
            if from_on k n then (case RULES_KIT st of None \<Rightarrow> Inl ValueError | Some r \<Rightarrow> Inr r)
            else if from_on m n then Inr RULES_MORE_REQUESTS
            else if from_on d n then Inr RULES_DOUBLED
            else if from_on u n then Inr RULES
            else Inr RULES_17))))
      | _ \<Rightarrow> Inl ValueError)"

definition with_jury_rules :: "rules_state \<Rightarrow> int \<Rightarrow> rules \<Rightarrow> pyval \<Rightarrow> pyval \<Rightarrow> rules result" where
  "with_jury_rules st day rules kit_rules_from jury_rules_from =
     (case jury_rules_from of
        PNone \<Rightarrow> Inr rules
      | PInt j \<Rightarrow>
          if j < 0 then Inl ValueError
          else if kit_rules_from = PNone then Inl ValueError
          else (case py_num kit_rules_from of
              None \<Rightarrow> Inl TypeError
            | Some k \<Rightarrow> if of_int j < k then Inl ValueError
                else if day < j then Inr rules
                else (case RULES_JURY st of None \<Rightarrow> Inl ValueError | Some r \<Rightarrow> Inr r))
      | _ \<Rightarrow> Inl ValueError)"

definition rules_for_day_with_jury ::
  "rules_state \<Rightarrow> int \<Rightarrow> pyval \<Rightarrow> pyval \<Rightarrow> pyval \<Rightarrow> pyval \<Rightarrow> pyval \<Rightarrow> rules result" where
  "rules_for_day_with_jury st day unwound_from doubled_from more_requests_from kit_rules_from jury_rules_from =
     bind_res (rules_for_day st (PInt day) unwound_from doubled_from more_requests_from kit_rules_from)
       (\<lambda>r. with_jury_rules st day r kit_rules_from jury_rules_from)"

section \<open>What a set pays\<close>

definition pays_judge_presence :: "rules \<Rightarrow> bool result" where
  "pays_judge_presence r =
     (let present = filter id [judge_active_per_day r \<noteq> None, probation_first_day_bps r \<noteq> None, kit_min r \<noteq> None] in
      if present = [] then Inr False else if length present \<noteq> 3 then Inl ValueError else Inr True)"

definition pays_jury_rule :: "rules \<Rightarrow> bool result" where
  "pays_jury_rule r =
     (let present = filter id [juror_rule r \<noteq> None, fault_periods r \<noteq> None, fault_payer r \<noteq> None] in
      if present = [] then Inr False
      else if length present \<noteq> 3 then Inl ValueError
      else bind_res (pays_judge_presence r) (\<lambda>kit.
        if \<not> kit then Inl ValueError
        else if juror_rule r \<noteq> Some JUROR_RULE then Inl ValueError
        else Inr True))"

definition pays_unwound_work :: "rules \<Rightarrow> bool result" where
  "pays_unwound_work r = (case unwound_audit_work r of None \<Rightarrow> Inr False
     | Some w \<Rightarrow> if w \<noteq> UNWOUND_AUDIT_WORK then Inl ValueError else Inr True)"

definition finality_rule :: "host \<Rightarrow> rules \<Rightarrow> string result" where
  "finality_rule H r = (case finality r of
     None \<Rightarrow> if fingerprint H r \<noteq> fingerprint H RULES_17 then Inl ValueError else Inr FINALITY_17
   | Some f \<Rightarrow> if f \<noteq> FINALITY then Inl ValueError else Inr FINALITY)"

definition fault_period_of :: "rules \<Rightarrow> int \<Rightarrow> fault_period option result" where
  "fault_period_of r day = (case fault_periods r of None \<Rightarrow> Inl KeyError
     | Some ps \<Rightarrow> Inr (find (\<lambda>p. from_day p \<le> day \<and> day \<le> to_day p) ps))"

definition started_fault_periods :: "rules \<Rightarrow> int \<Rightarrow> fault_period list result" where
  "started_fault_periods r day = (case fault_periods r of None \<Rightarrow> Inl KeyError
     | Some ps \<Rightarrow> Inr (filter (\<lambda>p. from_day p \<le> day) ps))"

definition FAULT_MEMO_PREFIX :: string where
  "FAULT_MEMO_PREFIX = ''dendra-red-team-''"

definition fault_memo :: "pyval \<Rightarrow> string result" where
  "fault_memo c = (case c of PStr s \<Rightarrow> if is_hex64 s then Inr (FAULT_MEMO_PREFIX @ s) else Inl ValueError
     | _ \<Rightarrow> Inl ValueError)"

text \<open>\<open>str.encode("utf-8")\<close> of code points up to 255.\<close>

definition utf8 :: "string \<Rightarrow> string" where
  "utf8 s = concat (map (\<lambda>c. let n = (of_char c :: nat) in
     if n < 128 then [c] else [char_of (192 + n div 64), char_of (128 + n mod 64)]) s)"

definition be_int :: "string \<Rightarrow> nat" where
  "be_int bs = foldl (\<lambda>a c. 256 * a + of_char c) 0 bs"

definition fault_draw :: "host \<Rightarrow> string \<Rightarrow> string \<Rightarrow> int \<Rightarrow> string list \<Rightarrow> string option result" where
  "fault_draw H seed job_id fault_bps classes =
     (let d = sha256 H (seed @ utf8 job_id) in
      if int (be_int (take 8 d)) mod 10000 \<ge> fault_bps then Inr None
      else if classes = [] then Inl ZeroDivisionError
      else Inr (Some (classes ! (be_int (take 8 (drop 8 d)) mod length classes))))"

section \<open>Blocks and days\<close>

definition day_of_height :: "int \<Rightarrow> int \<Rightarrow> rules \<Rightarrow> int" where
  "day_of_height height start_height r =
     (if height < start_height then - 1 else (height - start_height) div day_blocks r)"

definition end_epoch :: "rules \<Rightarrow> int result" where
  "end_epoch r = strptime_utc (end_time r)"

definition day_bounds :: "int \<Rightarrow> int \<Rightarrow> rules \<Rightarrow> int option \<Rightarrow> (int \<times> int) result" where
  "day_bounds day start_height r end_height =
     (let first = start_height + day * day_blocks r;
          final = first + day_blocks r - 1
      in case end_height of
           None \<Rightarrow> Inr (first, final)
         | Some e \<Rightarrow> if first > e then Inl ValueError else Inr (first, min final e))"

lemmas rule_set_defs = RULES_17_def RULES_def RULES_DOUBLED_def RULES_MORE_REQUESTS_def kit_set_def
  jury_set_def UDNDR_def JUDGE_ACTIVE_PER_DAY_def PROBATION_FIRST_DAY_BPS_def

section \<open>Fault periods: what the check guarantees\<close>

definition good_period :: "period \<Rightarrow> bool" where
  "good_period = (\<lambda>(a, b, c). 0 \<le> a \<and> a \<le> b \<and> is_hex64 c)"

definition before_period :: "period \<Rightarrow> period \<Rightarrow> bool" where
  "before_period = (\<lambda>(a, b, c) (a', b', c'). b < a')"

definition period_commitment :: "period \<Rightarrow> string" where
  "period_commitment = (\<lambda>(a, b, c). c)"

definition valid_periods :: "period list \<Rightarrow> bool" where
  "valid_periods ps \<longleftrightarrow> ps \<noteq> [] \<and> list_all good_period ps \<and> sorted_wrt before_period ps
     \<and> distinct (map period_commitment ps)"

definition follows :: "int \<Rightarrow> string list \<Rightarrow> period \<Rightarrow> bool" where
  "follows prev seen = (\<lambda>(a, b, c). prev < a \<and> c \<notin> set seen)"

lemma period_triple_val [simp]: "period_triple (period_val (a, b, c)) = Some (PInt a, PInt b, PStr c)"
  by (simp add: period_triple_def period_val_def)

lemma check_periods_Cons_Inr:
  "check_periods prev seen (v # vs) = Inr ps \<longleftrightarrow>
     (\<exists>a b c out. period_triple v = Some (PInt a, PInt b, PStr c) \<and> good_period (a, b, c)
        \<and> follows prev seen (a, b, c) \<and> check_periods b (c # seen) vs = Inr out \<and> ps = (a, b, c) # out)"
  by (auto simp: good_period_def follows_def bind_res_eq_Inr split: option.splits pyval.splits)

lemma follows_step:
  "follows b (c # seen) q \<Longrightarrow> a \<le> b \<Longrightarrow> prev < a \<Longrightarrow>
     follows prev seen q \<and> before_period (a, b, c) q \<and> period_commitment q \<noteq> c"
  by (cases q) (auto simp: follows_def before_period_def period_commitment_def)

lemma check_periods_sound:
  "check_periods prev seen vs = Inr ps \<Longrightarrow>
     list_all good_period ps \<and> sorted_wrt before_period ps \<and> distinct (map period_commitment ps)
     \<and> list_all (follows prev seen) ps \<and> length ps = length vs"
proof (induction vs arbitrary: prev seen ps)
  case (Cons v vs)
  obtain a b c out where ok: "good_period (a, b, c)" "follows prev seen (a, b, c)"
    and rest: "check_periods b (c # seen) vs = Inr out" and ps: "ps = (a, b, c) # out"
    using Cons.prems unfolding check_periods_Cons_Inr by blast
  note IH = Cons.IH [OF rest]
  have ab: "a \<le> b" "prev < a" using ok by (auto simp: good_period_def follows_def)
  have "list_all (follows b (c # seen)) out" using IH by simp
  then have "list_all (\<lambda>q. follows prev seen q \<and> before_period (a, b, c) q \<and> period_commitment q \<noteq> c) out"
    by (rule list.pred_mono_strong) (use follows_step ab in blast)
  with IH ok show ?case by (auto simp: ps list_all_iff period_commitment_def)
qed simp

lemma check_periods_complete:
  "list_all good_period ps \<Longrightarrow> sorted_wrt before_period ps \<Longrightarrow> distinct (map period_commitment ps) \<Longrightarrow>
   list_all (follows prev seen) ps \<Longrightarrow> check_periods prev seen (map period_val ps) = Inr ps"
proof (induction ps arbitrary: prev seen)
  case (Cons p ps)
  obtain a b c where p: "p = (a, b, c)" by (cases p)
  have "list_all (follows b (c # seen)) ps"
    using Cons.prems by (force simp: p list_all_iff follows_def before_period_def period_commitment_def)
  then have "check_periods b (c # seen) (map period_val ps) = Inr ps"
    using Cons.prems by (intro Cons.IH) auto
  then show ?case
    using Cons.prems unfolding list.map check_periods_Cons_Inr by (auto simp: p)
qed simp

lemma check_fault_periods_valid: "check_fault_periods v = Inr ps \<Longrightarrow> valid_periods ps"
proof -
  assume ok: "check_fault_periods v = Inr ps"
  then obtain vs where "list_of v = Some vs" "vs \<noteq> []" and c: "check_periods (- 1) [] vs = Inr ps"
    by (auto simp: check_fault_periods_def split: option.splits if_splits)
  with check_periods_sound [OF c] show ?thesis by (auto simp: valid_periods_def)
qed

lemma check_fault_periods_val: "valid_periods ps \<Longrightarrow> check_fault_periods (periods_val ps) = Inr ps"
proof -
  assume v: "valid_periods ps"
  then have "list_all (follows (- 1) []) ps"
    by (auto simp: valid_periods_def list_all_iff good_period_def follows_def)
  with v show ?thesis
    by (auto simp: valid_periods_def check_fault_periods_def periods_val_def check_periods_complete)
qed

lemma valid_period_unique:
  assumes "valid_periods ps" "(a, b, c) \<in> set ps" "(a', b', c') \<in> set ps"
    and "a \<le> day" "day \<le> b" "a' \<le> day" "day \<le> b'"
  shows "(a, b, c) = (a', b', c')"
proof -
  obtain i j where ij: "i < length ps" "ps ! i = (a, b, c)" "j < length ps" "ps ! j = (a', b', c')"
    using assms(2,3) by (metis in_set_conv_nth)
  have sorted: "sorted_wrt before_period ps" using assms(1) by (simp add: valid_periods_def)
  consider "i < j" | "i = j" | "j < i" by linarith
  then show ?thesis
    using sorted_wrt_nth_less [OF sorted, of i j] sorted_wrt_nth_less [OF sorted, of j i] ij assms(4-7)
    by cases (auto simp: before_period_def)
qed

text \<open>Rebuilding a set from checked values never raises.\<close>

lemma kit_rules_PInt [simp]: "1 \<le> k \<Longrightarrow> kit_rules (PInt k) = Inr (kit_set k)"
  by (simp add: kit_rules_def whole_of_def)

lemma kit_rules_Inr: "kit_rules v = Inr r \<longleftrightarrow> (\<exists>k. v = PInt k \<and> 1 \<le> k \<and> r = kit_set k)"
  by (auto simp: kit_rules_def split: option.splits if_splits)

lemma jury_rules_Inr:
  "jury_rules k ps payer = Inr r \<longleftrightarrow>
     (\<exists>n checked a. k = PInt n \<and> 1 \<le> n \<and> check_fault_periods ps = Inr checked \<and> payer = PStr a
        \<and> is_payer a \<and> r = jury_set n checked a)"
  by (cases payer) (auto simp: jury_rules_def bind_res_eq_Inr kit_rules_Inr jury_set_def)

lemma jury_rules_checked:
  "1 \<le> k \<Longrightarrow> valid_periods ps \<Longrightarrow> is_payer a \<Longrightarrow>
     jury_rules (PInt k) (periods_val ps) (PStr a) = Inr (jury_set k ps a)"
  by (simp add: jury_rules_Inr check_fault_periods_val)

section \<open>The module's globals: invariant\<close>

text \<open>
  The six globals are determined by the three settings: what the abstract module keeps is three cells,
  each empty or fixed, and \<open>derived\<close> is the state the code must be in.
\<close>

definition derived :: "int option \<Rightarrow> period list option \<Rightarrow> string option \<Rightarrow> rules_state" where
  "derived k ps a =
     (let kit = map_option kit_set k;
          jury = (case (k, ps, a) of (Some n, Some p, Some s) \<Rightarrow> Some (jury_set n p s) | _ \<Rightarrow> None)
      in \<lparr>KIT_MIN = k, FAULT_PERIODS = ps, FAULT_PAYER = a, RULES_KIT = kit, RULES_JURY = jury,
          RULE_HISTORY = PUBLISHED_SETS @ opt_list kit @ opt_list jury\<rparr>)"

definition settings_ok :: "int option \<Rightarrow> period list option \<Rightarrow> string option \<Rightarrow> bool" where
  "settings_ok k ps a \<longleftrightarrow> pred_option (\<lambda>n. 1 \<le> n) k \<and> pred_option valid_periods ps \<and> pred_option is_payer a"

definition wf_rules :: "rules_state \<Rightarrow> bool" where
  "wf_rules st \<longleftrightarrow> settings_ok (KIT_MIN st) (FAULT_PERIODS st) (FAULT_PAYER st)
     \<and> st = derived (KIT_MIN st) (FAULT_PERIODS st) (FAULT_PAYER st)"

text \<open>A value the module has fixed stays fixed, and the history only grows.\<close>

definition fixed_in :: "'a option \<Rightarrow> 'a option \<Rightarrow> bool" where
  "fixed_in x y \<longleftrightarrow> x = None \<or> y = x"

definition keeps :: "rules_state \<Rightarrow> rules_state \<Rightarrow> bool" where
  "keeps st st' \<longleftrightarrow> fixed_in (KIT_MIN st) (KIT_MIN st') \<and> fixed_in (FAULT_PERIODS st) (FAULT_PERIODS st')
     \<and> fixed_in (FAULT_PAYER st) (FAULT_PAYER st')"

lemma keeps_refl [simp]: "keeps st st"
  by (simp add: keeps_def fixed_in_def)

lemma keeps_trans: "keeps a b \<Longrightarrow> keeps b c \<Longrightarrow> keeps a c"
  by (auto simp: keeps_def fixed_in_def)

lemma derived_sel [simp]:
  "KIT_MIN (derived k ps a) = k" "FAULT_PERIODS (derived k ps a) = ps" "FAULT_PAYER (derived k ps a) = a"
  "RULES_KIT (derived k ps a) = map_option kit_set k"
  by (simp_all add: derived_def Let_def)

lemma wf_derived: "settings_ok k ps a \<Longrightarrow> wf_rules (derived k ps a)"
  by (simp add: wf_rules_def)

lemma wf_rules_cases:
  assumes "wf_rules st"
  obtains k ps a where "st = derived k ps a" "settings_ok k ps a"
  using assms unfolding wf_rules_def by blast

lemma set_kit_min_ok:
  assumes "settings_ok k ps a" "1 \<le> n" "fixed_in k (Some n)"
  shows "set_kit_min (derived k ps a) (PInt n) = (derived (Some n) ps a, Inr (kit_set n))"
  using assms
  by (cases k; cases ps; cases a)
    (auto simp: set_kit_min_def derived_def settings_ok_def fixed_in_def jury_rules_checked opt_list_def
      Let_def)

lemma set_kit_min_refused:
  "\<not> (\<exists>n. v = PInt n \<and> 1 \<le> n \<and> fixed_in (KIT_MIN st) (Some n)) \<Longrightarrow>
     set_kit_min st v = (st, Inl ValueError)"
proof (cases "kit_rules v")
  case (Inl e)
  then have "e = ValueError" by (auto simp: kit_rules_def split: option.splits if_splits)
  with Inl show ?thesis by (simp add: set_kit_min_def)
next
  case (Inr r)
  assume no: "\<not> (\<exists>n. v = PInt n \<and> 1 \<le> n \<and> fixed_in (KIT_MIN st) (Some n))"
  from Inr obtain n where v: "v = PInt n" "1 \<le> n" by (auto simp: kit_rules_Inr)
  with no have "KIT_MIN st \<noteq> None \<and> KIT_MIN st \<noteq> Some n" by (auto simp: fixed_in_def)
  with Inr show ?thesis by (simp add: set_kit_min_def v)
qed

lemma set_fault_commitments_ok:
  assumes "settings_ok (Some n) ps a" "check_fault_periods v = Inr checked" "is_payer s"
    and "fixed_in ps (Some checked)" "fixed_in a (Some s)"
  shows "set_fault_commitments (derived (Some n) ps a) v (PStr s)
           = (derived (Some n) (Some checked) (Some s), Inr (jury_set n checked s))"
  using assms check_fault_periods_valid [OF assms(2)]
  by (auto simp: set_fault_commitments_def derived_def settings_ok_def fixed_in_def jury_rules_checked
      opt_list_def Let_def)

lemma set_fault_commitments_refused:
  assumes "\<not> (\<exists>n checked s. KIT_MIN st = Some n \<and> check_fault_periods v = Inr checked \<and> w = PStr s
      \<and> is_payer s \<and> fixed_in (FAULT_PERIODS st) (Some checked) \<and> fixed_in (FAULT_PAYER st) (Some s))"
  shows "\<exists>e. set_fault_commitments st v w = (st, Inl e)"
  using assms
  by (auto simp: set_fault_commitments_def fixed_in_def jury_rules_Inr split: option.splits sum.splits)

text \<open>Both operations, in one shape: the state is kept, or one that keeps every fixed value.\<close>

lemma set_kit_min_wf:
  assumes "wf_rules st"
  shows "wf_rules (fst (set_kit_min st v)) \<and> keeps st (fst (set_kit_min st v))"
proof (cases "\<exists>n. v = PInt n \<and> 1 \<le> n \<and> fixed_in (KIT_MIN st) (Some n)")
  case True
  obtain k ps a where st: "st = derived k ps a" and ok: "settings_ok k ps a"
    using assms by (rule wf_rules_cases)
  with True obtain n where n: "v = PInt n" "1 \<le> n" "fixed_in k (Some n)" by auto
  have "settings_ok (Some n) ps a" using ok n(2) by (simp add: settings_ok_def)
  then show ?thesis
    using set_kit_min_ok [OF ok n(2,3)] n by (auto simp: st n(1) wf_derived keeps_def fixed_in_def)
next
  case False
  with assms show ?thesis by (simp add: set_kit_min_refused)
qed

lemma set_fault_commitments_wf:
  assumes "wf_rules st"
  shows "wf_rules (fst (set_fault_commitments st v w)) \<and> keeps st (fst (set_fault_commitments st v w))"
proof (cases "\<exists>n checked s. KIT_MIN st = Some n \<and> check_fault_periods v = Inr checked \<and> w = PStr s
      \<and> is_payer s \<and> fixed_in (FAULT_PERIODS st) (Some checked) \<and> fixed_in (FAULT_PAYER st) (Some s)")
  case True
  obtain k ps a where st: "st = derived k ps a" and ok: "settings_ok k ps a"
    using assms by (rule wf_rules_cases)
  with True obtain n checked s where n: "k = Some n" "check_fault_periods v = Inr checked" "w = PStr s"
    "is_payer s" "fixed_in ps (Some checked)" "fixed_in a (Some s)" by auto
  have "settings_ok (Some n) (Some checked) (Some s)"
    using ok n check_fault_periods_valid by (auto simp: settings_ok_def)
  then show ?thesis
    using set_fault_commitments_ok [of n ps a v checked s] ok n
    by (auto simp: st wf_derived keeps_def fixed_in_def)
next
  case False
  with assms set_fault_commitments_refused [OF False] show ?thesis by auto
qed

text \<open>
  The reader's operation: it never raises, it fixes nothing when it answers \<open>None\<close>, and what it answers
  is the jury set in force, with the fingerprint it was asked for.
\<close>

lemma jury_set_named_spec:
  assumes "wf_rules st"
  shows "\<exists>res st'. jury_set_named H st rv fp = (st', Inr res) \<and> wf_rules st' \<and> keeps st st'
     \<and> (res = None \<longrightarrow> st' = st)
     \<and> (\<forall>r. res = Some r \<longrightarrow> RULES_JURY st' = Some r \<and> fp = PStr (fingerprint H r))"
proof (cases "\<exists>d f n checked a. rv = PDict d \<and> fp = PStr f \<and> dget d ''kit_min'' = PInt n \<and> 1 \<le> n
      \<and> check_fault_periods (dget d ''fault_periods'') = Inr checked \<and> dget d ''fault_payer'' = PStr a
      \<and> is_payer a \<and> fingerprint H (jury_set n checked a) = f")
  case False
  then have "jury_set_named H st rv fp = (st, Inr None)"
    by (auto simp: jury_set_named_def Let_def jury_rules_Inr split: pyval.splits sum.splits)
  with assms show ?thesis by simp
next
  case True
  then obtain d f n checked a where *: "rv = PDict d" "fp = PStr f" "dget d ''kit_min'' = PInt n" "1 \<le> n"
    "check_fault_periods (dget d ''fault_periods'') = Inr checked" "dget d ''fault_payer'' = PStr a"
    "is_payer a" "fingerprint H (jury_set n checked a) = f" by blast
  have built: "jury_rules (PInt n) (dget d ''fault_periods'') (PStr a) = Inr (jury_set n checked a)"
    using * by (simp add: jury_rules_Inr)
  obtain k ps b where st: "st = derived k ps b" and ok: "settings_ok k ps b"
    using assms by (rule wf_rules_cases)
  have vp: "valid_periods checked" using *(5) by (rule check_fault_periods_valid)
  show ?thesis
  proof (cases "RULES_JURY st = None \<and> fixed_in k (Some n) \<and> fixed_in ps (Some checked) \<and> fixed_in b (Some a)")
    case False
    have "jury_set_named H st rv fp = (st, Inr (case RULES_JURY st of None \<Rightarrow> None
            | Some j \<Rightarrow> if fingerprint H j = f then Some j else None))"
      using * built False by (auto simp: jury_set_named_def st fixed_in_def Let_def split: option.split)
    with assms *(2) show ?thesis by (auto split: option.splits)
  next
    case fix_it: True
    have ok': "settings_ok (Some n) ps b" and all: "settings_ok (Some n) (Some checked) (Some a)"
      using ok * vp by (auto simp: settings_ok_def)
    have "jury_set_named H st rv fp
            = (derived (Some n) (Some checked) (Some a), Inr (Some (jury_set n checked a)))"
      using * built fix_it set_kit_min_ok [OF ok *(4)] set_fault_commitments_ok [OF ok' *(5,7)]
      by (auto simp: jury_set_named_def st fixed_in_def Let_def)
    moreover have "RULES_JURY (derived (Some n) (Some checked) (Some a)) = Some (jury_set n checked a)"
      by (simp add: derived_def Let_def)
    ultimately show ?thesis
      using wf_derived [OF all] fix_it * by (auto simp: st keeps_def fixed_in_def)
  qed
qed

lemma fault_periods_setting_valid: "fault_periods_setting raw = Inr (Some ps) \<Longrightarrow> valid_periods ps"
  using check_fault_periods_valid
  by (auto simp: fault_periods_setting_def Let_def bind_res_eq_Inr split: if_splits)

lemma fault_payer_setting_valid: "fault_payer_setting raw = Inr (Some a) \<Longrightarrow> is_payer a"
  by (auto simp: fault_payer_setting_def Let_def split: if_splits)

lemma init_rules_wf:
  assumes "init_rules kit_raw periods_raw payer_raw = Inr st"
  shows "wf_rules st"
proof -
  obtain k ps a where e: "parse_kit_min kit_raw = Inr k" "fault_periods_setting periods_raw = Inr ps"
    "fault_payer_setting payer_raw = Inr a"
    using assms by (auto simp: init_rules_def bind_res_eq_Inr)
  have ok: "settings_ok k ps a"
    using e parse_kit_min_pos fault_periods_setting_valid fault_payer_setting_valid
    by (cases k; cases ps; cases a) (auto simp: settings_ok_def)
  have "init_rules kit_raw periods_raw payer_raw = Inr (derived k ps a)"
    using e ok by (cases k; cases ps; cases a)
      (auto simp: init_rules_def derived_def settings_ok_def jury_rules_checked Let_def)
  then have "st = derived k ps a" using assms by simp
  then show ?thesis using ok by (simp add: wf_derived)
qed

section \<open>Every state the process can reach\<close>

inductive rules_reachable :: "host \<Rightarrow> rules_state \<Rightarrow> bool" for H where
  imported: "init_rules kit_raw periods_raw payer_raw = Inr st \<Longrightarrow> rules_reachable H st"
| fix_kit: "rules_reachable H st \<Longrightarrow> rules_reachable H (fst (set_kit_min st v))"
| fix_faults: "rules_reachable H st \<Longrightarrow> rules_reachable H (fst (set_fault_commitments st v w))"
| named: "rules_reachable H st \<Longrightarrow> rules_reachable H (fst (jury_set_named H st rv fp))"

lemma jury_set_named_wf:
  "wf_rules st \<Longrightarrow> wf_rules (fst (jury_set_named H st rv fp)) \<and> keeps st (fst (jury_set_named H st rv fp))"
  using jury_set_named_spec [of st H rv fp] by auto

lemma reachable_wf: "rules_reachable H st \<Longrightarrow> wf_rules st"
  by (induction rule: rules_reachable.induct)
    (auto intro: init_rules_wf dest: set_kit_min_wf set_fault_commitments_wf jury_set_named_wf)

text \<open>The history of a well-formed state: the published sets, then the kit set, then the jury set.\<close>

lemma history_derived:
  "RULE_HISTORY (derived k ps a) = PUBLISHED_SETS @ opt_list (map_option kit_set k)
     @ (case (k, ps, a) of (Some n, Some p, Some s) \<Rightarrow> [jury_set n p s] | _ \<Rightarrow> [])"
  by (auto simp: derived_def Let_def opt_list_def split: option.splits)

lemma history_caps:
  assumes "wf_rules st" "r \<in> set (RULE_HISTORY st)"
  shows "0 \<le> cap_programme_day r \<and> cap_programme_day r \<le> cap_season r \<and> cap_season r \<le> 3000 * UDNDR"
  using assms by (auto elim!: wf_rules_cases simp: history_derived PUBLISHED_SETS_def opt_list_def
      rule_set_defs split: option.splits)

lemma history_day_cap:
  assumes "wf_rules st" "r \<in> set (RULE_HISTORY st)"
  shows "cap_programme_day r \<le> 100 * UDNDR"
  using assms by (auto elim!: wf_rules_cases simp: history_derived PUBLISHED_SETS_def opt_list_def
      rule_set_defs split: option.splits)

lemma keeps_history_prefix:
  assumes "wf_rules st" "wf_rules st'" "keeps st st'" "i < length (RULE_HISTORY st)"
  shows "i < length (RULE_HISTORY st') \<and> RULE_HISTORY st' ! i = RULE_HISTORY st ! i"
proof -
  obtain k ps a k' ps' a' where st: "st = derived k ps a" "st' = derived k' ps' a'"
    using assms(1,2) by (metis wf_rules_cases)
  have "\<exists>ext. RULE_HISTORY st' = RULE_HISTORY st @ ext"
    using assms(3) by (cases k; cases ps; cases a; cases k'; cases ps'; cases a')
      (auto simp: st history_derived opt_list_def keeps_def fixed_in_def)
  then show ?thesis using assms(4) by (auto simp: nth_append)
qed

section \<open>The set of a day moves forward only\<close>

definition set_rank :: "int \<Rightarrow> int option \<Rightarrow> int option \<Rightarrow> int option \<Rightarrow> int option \<Rightarrow> nat" where
  "set_rank n u d m k = (if from_on k n then 4 else if from_on m n then 3 else if from_on d n then 2
     else if from_on u n then 1 else 0)"

lemma from_on_mono: "from_on f n \<Longrightarrow> n \<le> n' \<Longrightarrow> from_on f n'"
  by (auto simp: from_on_def split: option.splits)

lemma set_rank_mono: "n \<le> n' \<Longrightarrow> set_rank n u d m k \<le> set_rank n' u d m k"
  using from_on_mono by (auto simp: set_rank_def)

lemma first_day_after_Some:
  "first_day_after prev v = Inr (Some n) \<Longrightarrow> \<exists>p. prev = Some p \<and> p \<le> n \<and> v = PInt n \<and> 0 \<le> n"
  by (cases v; cases prev) (auto simp: first_day_after_def first_day_of_def split: if_splits)

lemma rules_for_day_position:
  assumes "wf_rules st" "rules_for_day st (PInt n) uf df mf kf = Inr r"
    and "first_day_of uf = Inr u" "first_day_after u df = Inr d" "first_day_after d mf = Inr m"
    and "first_day_after m kf = Inr k"
  shows "set_rank n u d m k < length (RULE_HISTORY st) \<and> RULE_HISTORY st ! set_rank n u d m k = r"
proof -
  obtain kk ps a where st: "st = derived kk ps a" using assms(1) by (rule wf_rules_cases)
  show ?thesis
    using assms(2-) by (cases kk)
      (auto simp: rules_for_day_def set_rank_def st history_derived PUBLISHED_SETS_def opt_list_def
        split: if_splits)
qed

lemma rules_for_day_parts:
  assumes "rules_for_day st day uf df mf kf = Inr r"
  obtains n u d m k where "day = PInt n" "0 \<le> n" "first_day_of uf = Inr u" "first_day_after u df = Inr d"
    "first_day_after d mf = Inr m" "first_day_after m kf = Inr k"
proof -
  obtain n where n: "day = PInt n" "0 \<le> n"
    using assms by (cases day) (auto simp: rules_for_day_def split: if_splits)
  have "\<exists>u d m k. first_day_of uf = Inr u \<and> first_day_after u df = Inr d
      \<and> first_day_after d mf = Inr m \<and> first_day_after m kf = Inr k"
    using assms n by (simp add: rules_for_day_def bind_res_eq_Inr) blast
  with n that show ?thesis by blast
qed

lemma with_jury_position:
  assumes "wf_rules st" "with_jury_rules st n r kf jf = Inr r'"
  shows "(r' = r \<and> \<not> (\<exists>j. jf = PInt j \<and> j \<le> n))
     \<or> ((\<exists>j. jf = PInt j \<and> j \<le> n) \<and> length (RULE_HISTORY st) = 6 \<and> RULE_HISTORY st ! 5 = r')"
proof -
  obtain k ps a where st: "st = derived k ps a" using assms(1) by (rule wf_rules_cases)
  have jury: "RULES_JURY st = (case (k, ps, a) of (Some n, Some p, Some s) \<Rightarrow> Some (jury_set n p s) | _ \<Rightarrow> None)"
    by (simp add: st derived_def Let_def)
  show ?thesis
  proof (cases jf)
    case (PInt j)
    show ?thesis
    proof (cases "n < j")
      case True
      with assms(2) PInt show ?thesis by (auto simp: with_jury_rules_def split: if_splits option.splits)
    next
      case False
      with assms(2) PInt have "RULES_JURY st = Some r'"
        by (auto simp: with_jury_rules_def split: if_splits option.splits)
      then have "length (RULE_HISTORY st) = 6 \<and> RULE_HISTORY st ! 5 = r'"
        using jury by (auto simp: st history_derived PUBLISHED_SETS_def opt_list_def split: option.splits)
      with False PInt show ?thesis by auto
    qed
  qed (use assms(2) in \<open>auto simp: with_jury_rules_def\<close>)
qed

lemma set_rank_le: "set_rank n u d m k \<le> 4"
  by (simp add: set_rank_def)

section \<open>Blocks and days\<close>

lemma day_bounds_None: "day_bounds day start r None = Inr (start + day * day_blocks r, start + (day + 1) * day_blocks r - 1)"
  by (simp add: day_bounds_def Let_def algebra_simps)

lemma div_eq_iff_bounds:
  fixes b :: int
  assumes "0 < b"
  shows "x div b = d \<longleftrightarrow> d * b \<le> x \<and> x < (d + 1) * b"
proof
  assume d: "x div b = d"
  have "x = d * b + x mod b" using div_mult_mod_eq [of x b] by (simp add: d)
  then show "d * b \<le> x \<and> x < (d + 1) * b"
    using pos_mod_bound [OF assms, of x] pos_mod_sign [OF assms, of x] by (simp add: distrib_right)
next
  assume "d * b \<le> x \<and> x < (d + 1) * b"
  then show "x div b = d"
    by (intro int_div_pos_eq [of x b d "x - d * b"]) (auto simp: algebra_simps)
qed

section \<open>Properties\<close>

text \<open>
  In every state the process can reach, whatever sequence of imports and fixing operations led
  there, the six globals are the ones the three settings determine (kit set, jury set and history are never
  out of step), and no operation from that state changes a setting that is fixed.
\<close>

theorem rules_globals_consistent:
  assumes "rules_reachable H st"
  shows "st = derived (KIT_MIN st) (FAULT_PERIODS st) (FAULT_PAYER st)
    \<and> keeps st (fst (set_kit_min st v)) \<and> keeps st (fst (set_fault_commitments st v w))
    \<and> keeps st (fst (jury_set_named H st v w))"
  using reachable_wf [OF assms] set_kit_min_wf set_fault_commitments_wf jury_set_named_wf
  by (auto simp: wf_rules_def)

text \<open>The states of the examples: nothing set in the environment, then a kit floor of 3.\<close>

lemma init_rules_default: "init_rules PNone None None = Inr (derived None None None)"
  by (simp add: init_rules_def parse_kit_min_def env_text_def fault_periods_setting_def strip_def
      fault_payer_setting_def derived_def Let_def)

lemma default_reachable: "rules_reachable H (derived None None None)"
  using init_rules_default by (rule imported)

lemma kit_reachable: "rules_reachable H (derived (Some 3) None None)"
proof -
  have "fst (set_kit_min (derived None None None) (PInt 3)) = derived (Some 3) None None"
    by (simp add: set_kit_min_def derived_def Let_def opt_list_def)
  then show ?thesis using fix_kit [OF default_reachable, of H "PInt 3"] by simp
qed

theorem rules_globals_consistent_witness:
  "keeps (derived (Some 3) None None) (fst (set_kit_min (derived (Some 3) None None) (PInt 4)))
    \<and> snd (set_kit_min (derived (Some 3) None None) (PInt 4)) = Inl ValueError"
  using rules_globals_consistent [OF kit_reachable, of "PInt 4" PNone]
  by (simp add: set_kit_min_def derived_def Let_def)

text \<open>
  C36: a set already in force is never undone: on a later day the service ranks under the same set or one
  that comes later in the history, the jury set included.
\<close>

theorem rules_never_go_back:
  assumes "rules_reachable H st" "n \<le> n'"
    and "rules_for_day_with_jury st n uf df mf kf jf = Inr r"
    and "rules_for_day_with_jury st n' uf df mf kf jf = Inr r'"
  shows "\<exists>i j. i \<le> j \<and> j < length (RULE_HISTORY st) \<and> RULE_HISTORY st ! i = r \<and> RULE_HISTORY st ! j = r'"
proof -
  have wf: "wf_rules st" using assms(1) by (rule reachable_wf)
  obtain s s' where s: "rules_for_day st (PInt n) uf df mf kf = Inr s" "with_jury_rules st n s kf jf = Inr r"
    and s': "rules_for_day st (PInt n') uf df mf kf = Inr s'" "with_jury_rules st n' s' kf jf = Inr r'"
    using assms(3,4) by (auto simp: rules_for_day_with_jury_def bind_res_eq_Inr)
  obtain u d m k where days: "first_day_of uf = Inr u" "first_day_after u df = Inr d"
    "first_day_after d mf = Inr m" "first_day_after m kf = Inr k"
    using s(1) by (rule rules_for_day_parts)
  let ?i = "set_rank n u d m k" and ?j = "set_rank n' u d m k"
  have pos: "?i < length (RULE_HISTORY st)" "RULE_HISTORY st ! ?i = s"
    "?j < length (RULE_HISTORY st)" "RULE_HISTORY st ! ?j = s'" "?i \<le> ?j"
    using rules_for_day_position [OF wf s(1) days] rules_for_day_position [OF wf s'(1) days]
      set_rank_mono [OF assms(2)] by auto
  let ?J = "\<lambda>n. \<exists>j. jf = PInt j \<and> j \<le> n"
  have at: "(r = s \<and> \<not> ?J n) \<or> (?J n \<and> length (RULE_HISTORY st) = 6 \<and> RULE_HISTORY st ! 5 = r)"
    and at': "(r' = s' \<and> \<not> ?J n') \<or> (?J n' \<and> length (RULE_HISTORY st) = 6 \<and> RULE_HISTORY st ! 5 = r')"
    using with_jury_position [OF wf s(2)] with_jury_position [OF wf s'(2)] by auto
  show ?thesis
  proof (cases "?J n'")
    case False
    then have "\<not> ?J n" using assms(2) by force
    with at at' False pos show ?thesis by blast
  next
    case True
    with at' have r': "length (RULE_HISTORY st) = 6" "RULE_HISTORY st ! 5 = r'" by auto
    obtain i where "i \<le> 5" "RULE_HISTORY st ! i = r"
    proof (cases "?J n")
      case True
      with at that [of 5] show ?thesis by simp
    next
      case False
      with at pos(2) set_rank_le [of n u d m k] that [of ?i] show ?thesis by simp
    qed
    with r' show ?thesis by (intro exI [of _ i] exI [of _ 5]) simp
  qed
qed

theorem rules_never_go_back_witness:
  "\<exists>i j. i \<le> j \<and> j < length (RULE_HISTORY (derived (Some 3) None None))
     \<and> RULE_HISTORY (derived (Some 3) None None) ! i = RULES_DOUBLED
     \<and> RULE_HISTORY (derived (Some 3) None None) ! j = kit_set 3"
proof -
  have "rules_for_day_with_jury (derived (Some 3) None None) 5 (PInt 2) (PInt 4) (PInt 6) (PInt 8) PNone
          = Inr RULES_DOUBLED"
    and "rules_for_day_with_jury (derived (Some 3) None None) 9 (PInt 2) (PInt 4) (PInt 6) (PInt 8) PNone
          = Inr (kit_set 3)"
    by (simp_all add: rules_for_day_with_jury_def rules_for_day_def first_day_of_def first_day_after_def from_on_def
        with_jury_rules_def derived_def Let_def)
  then show ?thesis by (intro rules_never_go_back [OF kit_reachable]) auto
qed

text \<open>
  Checked fault periods are in order and disjoint, so at most one of them holds a given day and the
  first one \<open>fault_period_of\<close> finds is the only one.
\<close>

theorem fault_period_unique:
  assumes "jury_rules k v w = Inr r" "fault_period_of r day = Inr (Some p)"
    and "fault_periods r = Some qs" "q \<in> set qs" "from_day q \<le> day" "day \<le> to_day q"
  shows "q = p"
proof -
  obtain n checked a where r: "check_fault_periods v = Inr checked" "r = jury_set n checked a"
    using assms(1) by (auto simp: jury_rules_Inr)
  have qs: "qs = map period_rec checked" using assms(3) r(2) by (simp add: jury_set_def)
  have "find (\<lambda>p. from_day p \<le> day \<and> day \<le> to_day p) qs = Some p"
    using assms(2,3) by (simp add: fault_period_of_def)
  then have p: "p \<in> set qs" "from_day p \<le> day" "day \<le> to_day p" by (auto simp: find_Some_iff)
  show ?thesis
    using valid_period_unique [OF check_fault_periods_valid [OF r(1)]] p assms(4-6)
    by (auto simp: qs period_rec_def)
qed

definition sample_periods :: "period list" where
  "sample_periods = [(2, 5, replicate 64 (CHR ''a'')), (8, 9, replicate 64 (CHR ''b''))]"

definition sample_payer :: string where
  "sample_payer = ''dendra1'' @ replicate 38 (CHR ''q'')"

lemma sample_jury_rules:
  "jury_rules (PInt 3) (periods_val sample_periods) (PStr sample_payer) = Inr (jury_set 3 sample_periods sample_payer)"
proof -
  have hex: "is_hex64 (replicate 64 (CHR ''a''))" "is_hex64 (replicate 64 (CHR ''b''))"
    by (simp_all add: is_hex64_def list_all_iff is_lower_hex_def)
  have "replicate 64 (CHR ''a'') \<noteq> replicate 64 (CHR ''b'')" by (simp add: numeral_eq_Suc)
  with hex have "valid_periods sample_periods"
    by (simp add: valid_periods_def sample_periods_def good_period_def before_period_def period_commitment_def)
  moreover have "is_payer sample_payer"
    by (simp add: is_payer_def sample_payer_def starts_def list_all_iff is_lower_alnum_def)
  ultimately show ?thesis by (simp add: jury_rules_Inr check_fault_periods_val)
qed

theorem fault_period_unique_witness:
  "period_rec (2, 5, replicate 64 (CHR ''a''))
     = \<lparr>from_day = 2, to_day = 5, commitment = replicate 64 (CHR ''a'')\<rparr>"
  by (rule fault_period_unique [OF sample_jury_rules, of 4 _ "map period_rec sample_periods"])
    (simp_all add: fault_period_of_def jury_set_def sample_periods_def period_rec_def)

text \<open>
  The blocks of the season are cut into days without a gap or an overlap: for a set that counts a
  positive number of blocks a day, a block belongs to the bounds of a day iff \<open>day_of_height\<close> says that day.
\<close>

theorem day_bounds_partition:
  assumes "0 < day_blocks r" "0 \<le> day" "day_bounds day start r None = Inr (first, final)"
  shows "first \<le> h \<and> h \<le> final \<longleftrightarrow> day_of_height h start r = day"
proof -
  have eq: "first = start + day * day_blocks r" "final = start + (day + 1) * day_blocks r - 1"
    using assms(3) by (auto simp: day_bounds_None)
  have nn: "0 \<le> day * day_blocks r" using assms(1,2) by simp
  show ?thesis
  proof (cases "h < start")
    case True
    with nn assms(2) show ?thesis by (auto simp: eq day_of_height_def)
  next
    case False
    then show ?thesis
      using div_eq_iff_bounds [OF assms(1), of "h - start" day] by (auto simp: eq day_of_height_def)
  qed
qed


theorem day_bounds_partition_witness:
  "51850 \<le> (51900::int) \<and> 51900 \<le> (69129::int) \<longleftrightarrow> day_of_height 51900 10 RULES_17 = 3"
  by (rule day_bounds_partition [where day = 3 and start = 10 and r = RULES_17])
    (simp_all add: RULES_17_def day_bounds_def Let_def)

end
