(* ===== verification/Season_Calc.thy ===== *)
theory Season_Calc
  imports Season_Rules
begin

text \<open>
  The calculation of a season day, \<open>src/services/final_season_calc.py\<close>: the formula on the facts of an
  identity, the day's budget and its pro rata, the ranking, the weekly totals, and the published form of a day.
  The four fields of decision 24 that the code checks at run time are kept as dynamic values.
\<close>

section \<open>Facts, rows and days\<close>

definition NO_KIT_REPORT :: string where
  "NO_KIT_REPORT = ''no signed capacity report at or before the day's end''"

record identity =
  miner_id :: string
  presence :: int
  verified_requests :: int
  verdicts :: int
  payout_address :: string
  judge_active :: int
  probation :: pyval
  kit_version :: pyval
  registration_not_dated :: pyval

record row =
  row_id :: string
  row_address :: string
  row_presence :: int
  row_requests :: int
  row_verdicts :: int
  row_gross :: int
  row_payable :: int
  row_paid :: int
  row_reason :: string
  row_judge :: int
  row_probation :: bool
  row_kit :: pyval
  row_undated :: bool

record day_result =
  res_day :: int
  res_fingerprint :: string
  res_gross :: int
  res_payable :: int
  res_budget :: int
  res_paid :: int
  res_num :: int
  res_den :: int
  res_rows :: "row list"
  res_kit_min :: "int option"

section \<open>The formula\<close>

definition is_bool :: "pyval \<Rightarrow> bool" where
  "is_bool v \<longleftrightarrow> bool_of v \<noteq> None"

text \<open>\<open>r[k]\<close> for a key a set may lack.\<close>

definition rkey :: "'a option \<Rightarrow> 'a result" where
  "rkey x = (case x of None \<Rightarrow> Inl KeyError | Some y \<Rightarrow> Inr y)"

definition presence_paid :: "identity \<Rightarrow> rules \<Rightarrow> int" where
  "presence_paid i r =
     (if verified_requests i < 1 then 0 else max 0 (min (presence i) (presence_max_windows r)))"

definition gross_of :: "identity \<Rightarrow> rules \<Rightarrow> int result" where
  "gross_of i r =
     (if judge_active i \<noteq> 0 \<and> judge_active i \<noteq> 1 then Inl ValueError
      else if \<not> is_bool (probation i) \<or> \<not> is_bool (registration_not_dated i) then Inl ValueError
      else
        (let g = presence_paid i r * presence_per_window r
               + max 0 (verified_requests i) * work_per_request r
               + max 0 (verdicts i) * juror_per_verdict r
         in bind_res (pays_judge_presence r) (\<lambda>kit.
              if kit then
                bind_res (rkey (judge_active_per_day r)) (\<lambda>j.
                  let g1 = g + judge_active i * j in
                  if truthy (probation i) then
                    bind_res (rkey (probation_first_day_bps r)) (\<lambda>bps. Inr (g1 * bps div 10000))
                  else Inr g1)
              else if judge_active i \<noteq> 0 \<or> truthy (probation i) \<or> truthy (registration_not_dated i)
              then Inl ValueError
              else Inr g)))"

definition kit_allows_pay :: "identity \<Rightarrow> rules \<Rightarrow> bool result" where
  "kit_allows_pay i r = bind_res (pays_judge_presence r) (\<lambda>kit.
     if \<not> kit then Inr True
     else (case kit_version i of
         PNone \<Rightarrow> Inr False
       | PInt kv \<Rightarrow> if kv < 0 then Inl ValueError
           else bind_res (rkey (kit_min r)) (\<lambda>k. Inr (kv \<ge> k))
       | _ \<Rightarrow> Inl ValueError))"

definition registration_allows_pay :: "identity \<Rightarrow> rules \<Rightarrow> bool result" where
  "registration_allows_pay i r = bind_res (pays_judge_presence r) (\<lambda>kit.
     Inr (\<not> (kit \<and> registration_not_dated i = PBool True)))"

section \<open>The ranking of a day\<close>

definition probation_note :: "rules \<Rightarrow> string result" where
  "probation_note r = bind_res (rkey (probation_first_day_bps r)) (\<lambda>bps.
     Inr (''probation: first full day after registration, '' @ show_int (bps div 100) @ '' percent of the gross''))"

definition kit_note :: "identity \<Rightarrow> rules \<Rightarrow> string result" where
  "kit_note i r = (case kit_version i of
     PInt kv \<Rightarrow> bind_res (rkey (kit_min r)) (\<lambda>k.
       Inr (''kit '' @ show_int kv @ '' below the floor '' @ show_int k @ '': not paid''))
   | _ \<Rightarrow> Inr NO_KIT_REPORT)"

text \<open>One pass of the loop over the identities: the row before the pro rata, \<open>paid\<close> still 0.\<close>

definition row_of :: "identity \<Rightarrow> rules \<Rightarrow> row result" where
  "row_of i r =
     bind_res (gross_of i r) (\<lambda>g.
     bind_res (pays_judge_presence r) (\<lambda>kit.
     bind_res (if kit \<and> truthy (probation i) \<and> g \<noteq> 0 then map_sum id (\<lambda>t. [t]) (probation_note r) else Inr []) (\<lambda>prob.
     bind_res (kit_allows_pay i r) (\<lambda>kit_ok.
     bind_res (registration_allows_pay i r) (\<lambda>reg_ok.
     bind_res (if g \<noteq> 0 \<and> \<not> kit_ok then map_sum id (\<lambda>t. [t]) (kit_note i r) else Inr []) (\<lambda>kitn.
     let payable = (if payout_address i \<noteq> [] \<and> kit_ok \<and> reg_ok then g else 0);
         why = (if presence i > 0 \<and> verified_requests i < 1
                then [''presence not paid: no verified request counted that day''] else [])
             @ prob
             @ (if g \<noteq> 0 \<and> payout_address i = [] then [''no payout address known''] else [])
             @ kitn
             @ (if g \<noteq> 0 \<and> \<not> reg_ok then [''registration not datable: not paid''] else [])
     in Inr \<lparr>row_id = miner_id i, row_address = payout_address i, row_presence = presence i,
          row_requests = verified_requests i, row_verdicts = verdicts i, row_gross = g,
          row_payable = payable, row_paid = 0, row_reason = join ''; '' why,
          row_judge = judge_active i, row_probation = truthy (probation i), row_kit = kit_version i,
          row_undated = truthy (registration_not_dated i)\<rparr>))))))"

fun rows_of :: "rules \<Rightarrow> string list \<Rightarrow> identity list \<Rightarrow> row list result" where
  "rows_of r seen [] = Inr []"
| "rows_of r seen (i # is) =
     (if miner_id i \<in> set seen then Inl ValueError
      else bind_res (row_of i r) (\<lambda>x. bind_res (rows_of r (miner_id i # seen) is) (\<lambda>xs. Inr (x # xs))))"

definition day_budget_of :: "rules \<Rightarrow> int \<Rightarrow> int" where
  "day_budget_of r paid_before = max 0 (min (cap_programme_day r) (cap_season r - paid_before))"

definition scale_of :: "int \<Rightarrow> int \<Rightarrow> int \<times> int" where
  "scale_of sum_payable budget = (if sum_payable > budget then (budget, sum_payable) else (1, 1))"

definition pay_row :: "int \<times> int \<Rightarrow> row \<Rightarrow> row" where
  "pay_row s x =
     (let paid = row_payable x * fst s div snd s;
          reason = (if row_payable x \<noteq> 0 \<and> paid < row_payable x
                    then (if row_reason x \<noteq> [] then row_reason x @ ''; '' else []) @ ''daily budget shared pro rata''
                    else row_reason x)
      in x\<lparr>row_paid := paid, row_reason := reason\<rparr>)"

definition rank_key :: "row \<Rightarrow> int \<times> string" where
  "rank_key x = (- row_paid x, row_id x)"

definition compute_day :: "host \<Rightarrow> int \<Rightarrow> identity list \<Rightarrow> int \<Rightarrow> rules \<Rightarrow> day_result result" where
  "compute_day H day identities paid_before r =
     bind_res (rows_of r [] identities) (\<lambda>rows.
       let total_payable = sum_list (map row_payable rows);
           budget = day_budget_of r paid_before;
           s = scale_of total_payable budget;
           ranked = sort_key rank_key (map (pay_row s) rows)
       in Inr \<lparr>res_day = day, res_fingerprint = fingerprint H r,
            res_gross = sum_list (map row_gross ranked), res_payable = total_payable,
            res_budget = budget, res_paid = sum_list (map row_paid ranked),
            res_num = fst s, res_den = snd s, res_rows = ranked, res_kit_min = None\<rparr>)"

section \<open>The weekly totals\<close>

fun add_rows :: "(string, int) dict \<Rightarrow> row list \<Rightarrow> (string, int) dict result" where
  "add_rows out [] = Inr out"
| "add_rows out (x # xs) =
     (if row_paid x > 0 then
        (if row_address x = [] then Inl ValueError
         else add_rows (bump out (row_address x) (row_paid x)) xs)
      else add_rows out xs)"

definition week_totals :: "day_result list \<Rightarrow> (string, int) dict result" where
  "week_totals days = bind_res (add_rows [] (concat (map res_rows days))) (\<lambda>out. Inr (sorted_items out))"

section \<open>The published form\<close>

definition publishes_kit_fields :: "host \<Rightarrow> rules_state \<Rightarrow> string \<Rightarrow> bool result" where
  "publishes_kit_fields H st fp = (case rule_set_of H st (PStr fp) of
     None \<Rightarrow> Inr False | Some (n, r) \<Rightarrow> pays_judge_presence r)"

definition row_json :: "bool \<Rightarrow> nat \<Rightarrow> row \<Rightarrow> pyval" where
  "row_json kit n x = PDict
     ([(''rank'', PInt (int n + 1)), (''miner_id'', PStr (row_id x)),
       (''payout_address'', PStr (row_address x)), (''presence'', PInt (row_presence x)),
       (''verified_requests'', PInt (row_requests x)), (''verdicts'', PInt (row_verdicts x)),
       (''gross_udndr'', PInt (row_gross x)), (''payable_udndr'', PInt (row_payable x)),
       (''paid_udndr'', PInt (row_paid x)), (''reason'', PStr (row_reason x))]
      @ (if kit then [(''judge_active'', PInt (row_judge x)), (''probation'', PBool (row_probation x)),
           (''kit_version'', row_kit x), (''registration_not_dated'', PBool (row_undated x))] else []))"

definition to_json :: "host \<Rightarrow> rules_state \<Rightarrow> day_result \<Rightarrow> pydict result" where
  "to_json H st d =
     bind_res (publishes_kit_fields H st (res_fingerprint d)) (\<lambda>kit.
     Inr [(''season'', PStr (season RULES)), (''day'', PInt (res_day d)),
       (''rules_fingerprint'', PStr (res_fingerprint d)), (''total_gross_udndr'', PInt (res_gross d)),
       (''total_payable_udndr'', PInt (res_payable d)), (''day_budget_udndr'', PInt (res_budget d)),
       (''total_paid_udndr'', PInt (res_paid d)),
       (''pro_rata'', PList [PInt (res_num d), PInt (res_den d)]),
       (''ranking'', PList (map (\<lambda>(n, x). row_json kit n x) (enumerate 0 (res_rows d))))])"


section \<open>The formula: what it can give\<close>

text \<open>Rates and shares that are not negative: every published set has them.\<close>

definition fair_rates :: "rules \<Rightarrow> bool" where
  "fair_rates r \<longleftrightarrow> 0 \<le> presence_per_window r \<and> 0 \<le> work_per_request r \<and> 0 \<le> juror_per_verdict r
     \<and> 0 \<le> cap_programme_day r \<and> pred_option (\<lambda>j. 0 \<le> j) (judge_active_per_day r)
     \<and> pred_option (\<lambda>b. 0 \<le> b \<and> b \<le> 10000) (probation_first_day_bps r)"

lemma history_fair: "wf_rules st \<Longrightarrow> r \<in> set (RULE_HISTORY st) \<Longrightarrow> fair_rates r"
  by (auto elim!: wf_rules_cases simp: history_derived PUBLISHED_SETS_def opt_list_def fair_rates_def
      rule_set_defs split: option.splits)

lemma pays_judge_presence_True:
  "pays_judge_presence r = Inr True \<longleftrightarrow>
     (\<exists>j b k. judge_active_per_day r = Some j \<and> probation_first_day_bps r = Some b \<and> kit_min r = Some k)"
  by (cases "judge_active_per_day r"; cases "probation_first_day_bps r"; cases "kit_min r")
    (auto simp: pays_judge_presence_def)

lemma pays_judge_presence_False:
  "pays_judge_presence r = Inr False \<longleftrightarrow>
     judge_active_per_day r = None \<and> probation_first_day_bps r = None \<and> kit_min r = None"
  by (cases "judge_active_per_day r"; cases "probation_first_day_bps r"; cases "kit_min r")
    (auto simp: pays_judge_presence_def)

lemma pays_judge_presence_Inl: "pays_judge_presence r = Inl e \<Longrightarrow> e = ValueError"
  by (auto simp: pays_judge_presence_def Let_def split: if_splits)

text \<open>The formula before the judge presence and the probation.\<close>

definition base_gross :: "identity \<Rightarrow> rules \<Rightarrow> int" where
  "base_gross i r = presence_paid i r * presence_per_window r
     + max 0 (verified_requests i) * work_per_request r + max 0 (verdicts i) * juror_per_verdict r"

lemma presence_paid_nonneg: "0 \<le> presence_paid i r"
  by (simp add: presence_paid_def)

lemma base_gross_nonneg: "fair_rates r \<Longrightarrow> 0 \<le> base_gross i r"
  by (simp add: base_gross_def fair_rates_def presence_paid_nonneg)

lemma gross_of_cases:
  assumes "gross_of i r = Inr g"
  shows "(pays_judge_presence r = Inr False \<and> g = base_gross i r)
     \<or> (\<exists>j b. judge_active_per_day r = Some j \<and> probation_first_day_bps r = Some b
          \<and> pays_judge_presence r = Inr True
          \<and> g = (if truthy (probation i) then (base_gross i r + judge_active i * j) * b div 10000
                 else base_gross i r + judge_active i * j))"
proof -
  have j01: "judge_active i = 0 \<or> judge_active i = 1"
    using assms by (auto simp: gross_of_def split: if_splits)
  obtain kit where kit: "pays_judge_presence r = Inr kit"
    using assms by (cases "pays_judge_presence r") (auto simp: gross_of_def Let_def split: if_splits)
  show ?thesis
  proof (cases kit)
    case True
    then obtain j b k where keys: "judge_active_per_day r = Some j" "probation_first_day_bps r = Some b"
      using kit by (auto simp: pays_judge_presence_True)
    then show ?thesis using assms kit True
      by (auto simp: gross_of_def rkey_def Let_def base_gross_def split: if_splits)
  next
    case False
    then show ?thesis using assms kit by (auto simp: gross_of_def Let_def base_gross_def split: if_splits)
  qed
qed

lemma gross_of_judge: "gross_of i r = Inr g \<Longrightarrow> judge_active i = 0 \<or> judge_active i = 1"
  by (auto simp: gross_of_def split: if_splits)

lemma gross_of_nonneg:
  assumes "gross_of i r = Inr g" "fair_rates r"
  shows "0 \<le> g"
  using gross_of_cases [OF assms(1)] gross_of_judge [OF assms(1)] base_gross_nonneg [OF assms(2), of i] assms(2)
  by (auto simp: fair_rates_def pos_imp_zdiv_nonneg_iff split: if_splits)

lemma gross_of_Inl: "gross_of i r = Inl e \<Longrightarrow> e = ValueError"
proof -
  assume e: "gross_of i r = Inl e"
  show ?thesis
  proof (cases "pays_judge_presence r")
    case (Inl x)
    then show ?thesis using e pays_judge_presence_Inl by (auto simp: gross_of_def Let_def split: if_splits)
  next
    case (Inr kit)
    show ?thesis
    proof (cases kit)
      case True
      then obtain j b k where "judge_active_per_day r = Some j" "probation_first_day_bps r = Some b"
        using Inr by (auto simp: pays_judge_presence_True)
      then show ?thesis using e Inr True by (auto simp: gross_of_def rkey_def Let_def split: if_splits)
    next
      case False
      then show ?thesis using e Inr by (auto simp: gross_of_def Let_def split: if_splits)
    qed
  qed
qed


section \<open>The rows before the pro rata\<close>

lemma row_of_spec:
  assumes "row_of i r = Inr x"
  obtains kit_ok reg_ok where
    "gross_of i r = Inr (row_gross x)" "kit_allows_pay i r = Inr kit_ok" "registration_allows_pay i r = Inr reg_ok"
    "row_payable x = (if payout_address i \<noteq> [] \<and> kit_ok \<and> reg_ok then row_gross x else 0)"
    "row_id x = miner_id i" "row_address x = payout_address i" "row_presence x = presence i"
    "row_requests x = verified_requests i" "row_verdicts x = verdicts i" "row_paid x = 0"
    "row_judge x = judge_active i" "row_probation x = truthy (probation i)" "row_kit x = kit_version i"
    "row_undated x = truthy (registration_not_dated i)"
  using assms that unfolding row_of_def bind_res_eq_Inr Let_def by (auto simp del: not_None_eq)

lemma row_of_amounts:
  assumes "row_of i r = Inr x" "fair_rates r"
  shows "0 \<le> row_payable x \<and> row_payable x \<le> row_gross x \<and> (row_address x = [] \<longrightarrow> row_payable x = 0)"
  using assms(1)
proof (rule row_of_spec)
  fix kit_ok reg_ok
  assume g: "gross_of i r = Inr (row_gross x)"
    and p: "row_payable x = (if payout_address i \<noteq> [] \<and> kit_ok \<and> reg_ok then row_gross x else 0)"
    and a: "row_address x = payout_address i"
  have "0 \<le> row_gross x" using gross_of_nonneg [OF g assms(2)] .
  with p a show ?thesis by simp
qed

lemma rkey_Inl: "rkey v = Inl e \<Longrightarrow> v = None"
  by (cases v) (auto simp: rkey_def)

lemma kit_allows_pay_Inl: "kit_allows_pay i r = Inl e \<Longrightarrow> e = ValueError"
  using pays_judge_presence_Inl
  by (cases "pays_judge_presence r"; cases "kit_version i")
    (auto simp: kit_allows_pay_def bind_res_eq_Inl pays_judge_presence_True dest!: rkey_Inl split: if_splits)

lemma registration_allows_pay_Inl: "registration_allows_pay i r = Inl e \<Longrightarrow> e = ValueError"
  using pays_judge_presence_Inl by (auto simp: registration_allows_pay_def bind_res_eq_Inl)

lemma kit_note_Inl: "kit_note i r = Inl e \<Longrightarrow> kit_min r = None"
  by (cases "kit_version i") (auto simp: kit_note_def bind_res_eq_Inl dest!: rkey_Inl)

lemma kit_allows_pay_False: "kit_allows_pay i r = Inr False \<Longrightarrow> kit_min r \<noteq> None"
  by (cases "pays_judge_presence r") (auto simp: kit_allows_pay_def pays_judge_presence_True split: if_splits)

lemma map_sum_Inl_iff: "map_sum id f x = Inl e \<longleftrightarrow> x = Inl e"
  by (cases x) auto

text \<open>Whatever is wrong with an identity, the calculation stops with the one class \<open>ValueError\<close>.\<close>

lemma probation_note_Inl: "probation_note r = Inl e \<Longrightarrow> probation_first_day_bps r = None"
  by (auto simp: probation_note_def bind_res_eq_Inl dest: rkey_Inl)

lemma row_of_Inl:
  assumes "row_of i r = Inl e"
  shows "e = ValueError"
proof -
  have prob: "e = ValueError"
    if "pays_judge_presence r = Inr kit"
      and "(if kit \<and> truthy (probation i) \<and> g \<noteq> 0 then map_sum id (\<lambda>t. [t]) (probation_note r) else Inr []) = Inl e"
    for kit g
    using that probation_note_Inl
    by (cases kit) (auto simp: map_sum_Inl_iff pays_judge_presence_True split: if_splits)
  have kitn: "e = ValueError"
    if "kit_allows_pay i r = Inr kit_ok"
      and "(if g \<noteq> 0 \<and> \<not> kit_ok then map_sum id (\<lambda>t. [t]) (kit_note i r) else Inr []) = Inl e"
    for kit_ok and g :: int
    using that kit_note_Inl [of i r] kit_allows_pay_False [of i r]
    by (cases kit_ok) (force simp: map_sum_Inl_iff split: if_splits)+
  from assms show ?thesis
    unfolding row_of_def Let_def
    by (elim bind_res_InlE)
      (blast dest: gross_of_Inl pays_judge_presence_Inl kit_allows_pay_Inl registration_allows_pay_Inl
        prob kitn | simp)+
qed

lemma rows_of_Inr:
  "rows_of r seen is = Inr xs \<longleftrightarrow>
     distinct (map miner_id is) \<and> set seen \<inter> miner_id ` set is = {} \<and> list_all2 (\<lambda>i x. row_of i r = Inr x) is xs"
  by (induction "is" arbitrary: seen xs) (auto simp: bind_res_eq_Inr list_all2_Cons1)

lemma rows_of_Inl: "rows_of r seen is = Inl e \<Longrightarrow> e = ValueError"
  by (induction "is" arbitrary: seen) (auto simp: bind_res_eq_Inl dest: row_of_Inl split: if_splits)

lemma rows_of_in:
  assumes "rows_of r seen is = Inr xs" "x \<in> set xs"
  obtains i where "i \<in> set is" "row_of i r = Inr x"
proof -
  have "list_all2 (\<lambda>i x. row_of i r = Inr x) is xs" using assms(1) by (simp add: rows_of_Inr)
  then have "\<exists>i \<in> set is. row_of i r = Inr x" using assms(2)
    by (induction rule: list_all2_induct) auto
  then show ?thesis using that by blast
qed

lemma rows_of_ids: "rows_of r seen is = Inr xs \<Longrightarrow> map row_id xs = map miner_id is"
proof -
  assume "rows_of r seen is = Inr xs"
  then have "list_all2 (\<lambda>i x. row_of i r = Inr x) is xs" by (simp add: rows_of_Inr)
  then show ?thesis by (induction rule: list_all2_induct) (auto elim: row_of_spec)
qed

section \<open>The pro rata\<close>

lemma pay_row_keeps [simp]:
  "row_id (pay_row s x) = row_id x" "row_address (pay_row s x) = row_address x"
  "row_presence (pay_row s x) = row_presence x" "row_requests (pay_row s x) = row_requests x"
  "row_verdicts (pay_row s x) = row_verdicts x" "row_gross (pay_row s x) = row_gross x"
  "row_payable (pay_row s x) = row_payable x" "row_judge (pay_row s x) = row_judge x"
  "row_probation (pay_row s x) = row_probation x" "row_kit (pay_row s x) = row_kit x"
  "row_undated (pay_row s x) = row_undated x" "row_paid (pay_row s x) = row_payable x * fst s div snd s"
  by (simp_all add: pay_row_def Let_def)

text \<open>Sharing \<open>budget\<close> over amounts that add up to \<open>t > budget\<close>: each share is rounded down.\<close>

lemma share_bounds:
  fixes p :: int
  assumes "0 \<le> p" "0 \<le> b" "b < t"
  shows "0 \<le> p * b div t \<and> p * b div t \<le> p"
proof -
  have "p * b \<le> p * t" using assms by (simp add: mult_left_mono)
  then have "p * b div t \<le> p * t div t" using assms by (intro zdiv_mono1) auto
  then show ?thesis using assms by (simp add: pos_imp_zdiv_nonneg_iff)
qed

lemma sum_shares_le:
  fixes ps :: "int list"
  assumes "0 < t"
  shows "t * sum_list (map (\<lambda>p. p * b div t) ps) \<le> b * sum_list ps
    \<and> b * sum_list ps \<le> t * sum_list (map (\<lambda>p. p * b div t) ps) + int (length ps) * (t - 1)"
proof (induction ps)
  case (Cons p ps)
  have "p * b = t * (p * b div t) + p * b mod t" by simp
  moreover have "0 \<le> p * b mod t" "p * b mod t \<le> t - 1" using assms by simp_all
  ultimately have "t * (p * b div t) \<le> p * b" "p * b \<le> t * (p * b div t) + (t - 1)"
    by linarith+
  with Cons show ?case by (simp add: distrib_left distrib_right mult.commute [of b p])
qed simp

text \<open>The shares never pass the budget, and rounding loses less than one unit per amount.\<close>

lemma shares_total:
  fixes ps :: "int list"
  assumes "0 < t" "sum_list ps = t"
  shows "sum_list (map (\<lambda>p. p * b div t) ps) \<le> b
    \<and> b - sum_list (map (\<lambda>p. p * b div t) ps) < max 1 (int (length ps))"
proof -
  let ?s = "sum_list (map (\<lambda>p. p * b div t) ps)"
  have a: "t * ?s \<le> t * b" and c: "t * b \<le> t * ?s + int (length ps) * (t - 1)"
    using sum_shares_le [OF assms(1), of b ps] assms(2) by (simp_all add: mult.commute)
  have "?s \<le> b" using a assms(1) by simp
  moreover have "b - ?s < max 1 (int (length ps))"
  proof (rule ccontr)
    assume "\<not> b - ?s < max 1 (int (length ps))"
    then have ge: "max 1 (int (length ps)) \<le> b - ?s" by linarith
    have "0 < length ps" using assms by (cases ps) auto
    then have len: "0 < int (length ps)" by simp
    have "t * int (length ps) \<le> t * (b - ?s)" using ge assms(1) by (intro mult_left_mono) auto
    also have "\<dots> \<le> int (length ps) * (t - 1)" using c by (simp add: right_diff_distrib)
    finally show False using len by (simp add: right_diff_distrib mult.commute)
  qed
  ultimately show ?thesis by simp
qed


section \<open>A computed day\<close>

lemma compute_day_parts:
  assumes "compute_day H day ids pb r = Inr d"
  obtains rows s where "rows_of r [] ids = Inr rows" "s = scale_of (sum_list (map row_payable rows)) (day_budget_of r pb)"
    "res_day d = day" "res_fingerprint d = fingerprint H r" "res_payable d = sum_list (map row_payable rows)"
    "res_budget d = day_budget_of r pb" "res_rows d = sort_key rank_key (map (pay_row s) rows)"
    "res_gross d = sum_list (map row_gross (res_rows d))" "res_paid d = sum_list (map row_paid (res_rows d))"
    "res_num d = fst s" "res_den d = snd s" "res_kit_min d = None"
proof -
  let ?s = "\<lambda>rows. scale_of (sum_list (map row_payable rows)) (day_budget_of r pb)"
  let ?ranked = "\<lambda>rows. sort_key rank_key (map (pay_row (?s rows)) rows)"
  obtain rows where rows: "rows_of r [] ids = Inr rows"
    and d: "\<lparr>res_day = day, res_fingerprint = fingerprint H r, res_gross = sum_list (map row_gross (?ranked rows)),
        res_payable = sum_list (map row_payable rows), res_budget = day_budget_of r pb,
        res_paid = sum_list (map row_paid (?ranked rows)), res_num = fst (?s rows), res_den = snd (?s rows),
        res_rows = ?ranked rows, res_kit_min = None\<rparr> = d"
    using assms unfolding compute_day_def bind_res_eq_Inr Let_def by blast
  show ?thesis by (rule that [OF rows refl]) (simp_all add: d [symmetric])
qed

lemma sum_list_sort_key: "sum_list (map f (sort_key k xs)) = sum_list (map f xs)"
  for f :: "'a \<Rightarrow> int"
  by (metis mset_map mset_sort sum_mset_sum_list)

lemma day_budget_bounds: "0 \<le> cap_programme_day r \<Longrightarrow>
    0 \<le> day_budget_of r pb \<and> day_budget_of r pb \<le> cap_programme_day r
    \<and> day_budget_of r pb \<le> max 0 (cap_season r - pb)"
  by (simp add: day_budget_of_def)

text \<open>Paying rows that may not be negative under \<open>scale_of\<close>: bounds of each amount and of the total.\<close>

lemma scaled_rows:
  fixes rows :: "row list" and budget :: int
  assumes "\<forall>x \<in> set rows. 0 \<le> row_payable x" "0 \<le> budget"
    and "s = scale_of (sum_list (map row_payable rows)) budget"
  shows "\<forall>x \<in> set rows. 0 \<le> row_payable x * fst s div snd s \<and> row_payable x * fst s div snd s \<le> row_payable x"
    and "sum_list (map (\<lambda>x. row_payable x * fst s div snd s) rows) \<le> budget"
    and "sum_list (map row_payable rows) \<le> budget \<Longrightarrow> s = (1, 1)"
    and "budget < sum_list (map row_payable rows) \<Longrightarrow>
      budget - sum_list (map (\<lambda>x. row_payable x * fst s div snd s) rows) < max 1 (int (length rows))"
proof -
  let ?t = "sum_list (map row_payable rows)"
  have comp: "map (\<lambda>x. row_payable x * b div t) rows = map (\<lambda>p. p * b div t) (map row_payable rows)" for b t
    by simp
  show "\<forall>x \<in> set rows. 0 \<le> row_payable x * fst s div snd s \<and> row_payable x * fst s div snd s \<le> row_payable x"
    using assms share_bounds [of _ budget ?t] by (auto simp: scale_of_def)
  show "sum_list (map (\<lambda>x. row_payable x * fst s div snd s) rows) \<le> budget"
    using shares_total [of ?t "map row_payable rows" budget] assms(2,3)
    by (cases "budget < ?t") (auto simp: scale_of_def comp simp del: map_map)
  show "?t \<le> budget \<Longrightarrow> s = (1, 1)" using assms(3) by (simp add: scale_of_def)
  show "budget < ?t \<Longrightarrow>
      budget - sum_list (map (\<lambda>x. row_payable x * fst s div snd s) rows) < max 1 (int (length rows))"
    using shares_total [of ?t "map row_payable rows" budget] assms(2,3)
    by (simp add: scale_of_def comp del: map_map)
qed

lemma compute_day_rows:
  assumes "compute_day H day ids pb r = Inr d" "fair_rates r" "x \<in> set (res_rows d)"
  shows "0 \<le> row_paid x \<and> row_paid x \<le> row_payable x \<and> row_payable x \<le> row_gross x
    \<and> (row_address x = [] \<longrightarrow> row_paid x = 0) \<and> row_id x \<in> miner_id ` set ids"
proof -
  obtain rows s where rows: "rows_of r [] ids = Inr rows"
    and s: "s = scale_of (sum_list (map row_payable rows)) (day_budget_of r pb)"
    and res: "res_rows d = sort_key rank_key (map (pay_row s) rows)"
    using assms(1) by (rule compute_day_parts)
  have nn: "\<forall>x \<in> set rows. 0 \<le> row_payable x"
    using rows_of_in [OF rows] row_of_amounts [OF _ assms(2)] by metis
  obtain y where y: "y \<in> set rows" "x = pay_row s y" using assms(3) res by auto
  obtain i where i: "i \<in> set ids" "row_of i r = Inr y" using rows y(1) by (rule rows_of_in)
  have b: "0 \<le> day_budget_of r pb" by (simp add: day_budget_of_def)
  have "row_id y = miner_id i" using i(2) by (rule row_of_spec)
  with scaled_rows(1) [OF nn b s] y i row_of_amounts [OF i(2) assms(2)] show ?thesis by force
qed

lemma compute_day_total:
  assumes "compute_day H day ids pb r = Inr d" "fair_rates r"
  shows "0 \<le> res_paid d \<and> res_paid d \<le> res_budget d \<and> res_budget d = day_budget_of r pb
    \<and> (res_payable d \<le> res_budget d \<longrightarrow> res_paid d = res_payable d)
    \<and> (res_budget d < res_payable d \<longrightarrow> res_budget d - res_paid d < max 1 (int (length (res_rows d))))"
  using assms(1)
proof (rule compute_day_parts)
  fix rows s
  assume rows: "rows_of r [] ids = Inr rows"
    and s: "s = scale_of (sum_list (map row_payable rows)) (day_budget_of r pb)"
    and f: "res_payable d = sum_list (map row_payable rows)" "res_budget d = day_budget_of r pb"
      "res_rows d = sort_key rank_key (map (pay_row s) rows)" "res_paid d = sum_list (map row_paid (res_rows d))"
  have nn: "\<forall>x \<in> set rows. 0 \<le> row_payable x"
    using rows_of_in [OF rows] row_of_amounts [OF _ assms(2)] by metis
  have b: "0 \<le> day_budget_of r pb" by (simp add: day_budget_of_def)
  have paid: "res_paid d = sum_list (map (\<lambda>x. row_payable x * fst s div snd s) rows)"
    by (simp add: f sum_list_sort_key comp_def)
  have "0 \<le> res_paid d" unfolding paid using scaled_rows(1) [OF nn b s] by (intro sum_list_nonneg) auto
  with scaled_rows [OF nn b s] show ?thesis by (auto simp: paid f(1,2)) (simp_all add: f(3))
qed

lemma day_books:
  assumes "fair_rates r" "compute_day H day ids pb r = Inr d" "pb \<le> cap_season r"
  shows "pb + res_paid d \<le> cap_season r"
proof -
  have "0 \<le> cap_programme_day r" using assms(1) by (simp add: fair_rates_def)
  from day_budget_bounds [OF this, of pb] compute_day_total [OF assms(2,1)] assms(3) show ?thesis by auto
qed

text \<open>The rank: the amounts paid go down, an equal amount is ordered by identity.\<close>

lemma compute_day_sorted:
  assumes "compute_day H day ids pb r = Inr d"
  shows "sorted (map rank_key (res_rows d)) \<and> distinct (map row_id (res_rows d))
    \<and> mset (map row_id (res_rows d)) = mset (map miner_id ids)"
  using assms
proof (rule compute_day_parts)
  fix rows s
  assume rows: "rows_of r [] ids = Inr rows"
    and res: "res_rows d = sort_key rank_key (map (pay_row s) rows)"
  have ids: "map row_id rows = map miner_id ids" using rows by (rule rows_of_ids)
  have "mset (map row_id (res_rows d)) = mset (map row_id rows)"
    by (simp add: res mset_map [symmetric] comp_def del: mset_map)
      (simp add: multiset.map_comp comp_def)
  moreover have "distinct (map miner_id ids)" using rows by (simp add: rows_of_Inr)
  ultimately show ?thesis using ids
    by (metis mset_eq_imp_distinct_iff res sorted_sort_key)
qed


section \<open>The order of the facts does not matter\<close>

lemma rows_of_map:
  "rows_of r seen is = Inr xs \<longleftrightarrow> distinct (map miner_id is) \<and> set seen \<inter> miner_id ` set is = {}
     \<and> (\<forall>i \<in> set is. row_of i r = Inr (projr (row_of i r))) \<and> xs = map (\<lambda>i. projr (row_of i r)) is"
proof -
  have "list_all2 (\<lambda>i x. row_of i r = Inr x) is xs \<longleftrightarrow>
      (\<forall>i \<in> set is. row_of i r = Inr (projr (row_of i r))) \<and> xs = map (\<lambda>i. projr (row_of i r)) is"
    by (induction "is" arbitrary: xs) (auto simp: list_all2_Cons1)
  then show ?thesis by (auto simp: rows_of_Inr)
qed

lemma rank_key_inj: "distinct (map row_id xs) \<Longrightarrow> inj_on rank_key (set xs)"
  by (auto simp: rank_key_def inj_on_def distinct_map)

lemma rows_of_perm:
  assumes "mset ids = mset ids'" "rows_of r [] ids = Inr rows"
  shows "\<exists>rows'. rows_of r [] ids' = Inr rows' \<and> mset rows' = mset rows"
proof -
  have "distinct (map miner_id ids) \<longleftrightarrow> distinct (map miner_id ids')"
    using assms(1) by (metis mset_eq_imp_distinct_iff mset_map)
  moreover have "set ids = set ids'" using assms(1) by (metis set_mset_mset)
  ultimately have "rows_of r [] ids' = Inr (map (\<lambda>i. projr (row_of i r)) ids')"
    using assms(2) by (simp add: rows_of_map)
  moreover have "rows = map (\<lambda>i. projr (row_of i r)) ids" using assms(2) by (simp add: rows_of_map)
  ultimately show ?thesis using assms(1) by simp
qed

lemma compute_day_perm_Inr:
  assumes "mset ids = mset ids'" "compute_day H day ids pb r = Inr d"
  shows "compute_day H day ids' pb r = Inr d"
proof -
  obtain rows where rows: "rows_of r [] ids = Inr rows"
    using assms(2) by (auto simp: compute_day_def bind_res_eq_Inr)
  obtain rows' where rows': "rows_of r [] ids' = Inr rows'" "mset rows' = mset rows"
    using rows_of_perm [OF assms(1) rows] by blast
  have payable: "sum_list (map row_payable rows') = sum_list (map row_payable rows)"
    using rows'(2) by (metis mset_map sum_mset_sum_list)
  have "distinct (map row_id rows')"
    using rows'(1) rows_of_ids [OF rows'(1)] by (simp add: rows_of_Inr)
  then have inj: "inj_on rank_key (set (map (pay_row s) rows'))" for s
    by (intro rank_key_inj) (simp add: comp_def)
  have "sort_key rank_key (map (pay_row s) rows') = sort_key rank_key (map (pay_row s) rows)" for s
    by (rule sort_key_inj_key_eq [OF _ inj]) (simp_all add: rows'(2))
  then have "compute_day H day ids' pb r = compute_day H day ids pb r"
    by (simp add: compute_day_def rows rows'(1) payable)
  with assms(2) show ?thesis by simp
qed

lemma compute_day_Inl: "compute_day H day ids pb r = Inl e \<Longrightarrow> e = ValueError"
  by (auto simp: compute_day_def bind_res_eq_Inl Let_def dest: rows_of_Inl)

section \<open>A season of days booked one after the other\<close>

text \<open>\<open>ok b d\<close>: day \<open>d\<close> may follow days that paid \<open>b\<close> in all.\<close>

primrec booked :: "(int \<Rightarrow> 'd \<Rightarrow> bool) \<Rightarrow> ('d \<Rightarrow> int) \<Rightarrow> int \<Rightarrow> 'd list \<Rightarrow> bool" where
  "booked ok paid b [] = True"
| "booked ok paid b (d # ds) = (ok b d \<and> booked ok paid (b + paid d) ds)"

lemma booked_append:
  "booked ok paid b (xs @ ys) \<longleftrightarrow> booked ok paid b xs \<and> booked ok paid (b + sum_list (map paid xs)) ys"
  by (induction xs arbitrary: b) (auto simp: add.assoc)

text \<open>
  The contract of a capped programme: a day pays at least nothing, at most its own cap and at most what is
  left of the season's cap. The ranking service and the payer's check both keep it.
\<close>

locale capped_programme =
  fixes ok :: "int \<Rightarrow> 'd \<Rightarrow> bool" and paid :: "'d \<Rightarrow> int" and day_cap :: "'d \<Rightarrow> int" and season_cap :: "'d \<Rightarrow> int"
  assumes paid_nonneg: "ok b d \<Longrightarrow> 0 \<le> paid d"
    and paid_day_cap: "ok b d \<Longrightarrow> paid d \<le> day_cap d"
    and paid_season_cap: "ok b d \<Longrightarrow> paid d \<le> max 0 (season_cap d - b)"
begin

lemma booked_day: "booked ok paid b ds \<Longrightarrow> d \<in> set ds \<Longrightarrow> 0 \<le> paid d \<and> paid d \<le> day_cap d"
  by (induction ds arbitrary: b) (auto dest: paid_nonneg paid_day_cap)

lemma booked_season:
  "booked ok paid b ds \<Longrightarrow> \<forall>d \<in> set ds. season_cap d \<le> cap \<Longrightarrow> b \<le> cap \<Longrightarrow> b + sum_list (map paid ds) \<le> cap"
proof (induction ds arbitrary: b)
  case (Cons d ds)
  have "b + paid d \<le> cap" using Cons.prems paid_season_cap [of b d] by (auto simp: max_def split: if_splits)
  then have "b + paid d + sum_list (map paid ds) \<le> cap" using Cons.prems by (intro Cons.IH) auto
  then show ?case by (simp add: add.assoc)
qed simp

lemma booked_grows:
  assumes "booked ok paid b (xs @ ys)"
  shows "sum_list (map paid xs) \<le> sum_list (map paid (xs @ ys))"
proof -
  have "0 \<le> sum_list (map paid ys)"
    using assms by (intro sum_list_nonneg) (auto simp: booked_append dest: booked_day)
  then show ?thesis by simp
qed

end

text \<open>A day the calculation gives on the facts of its identities, with the set it was ranked under.\<close>

type_synonym ranked_day = "rules \<times> identity list \<times> day_result"

definition ranked :: "host \<Rightarrow> int \<Rightarrow> ranked_day \<Rightarrow> bool" where
  "ranked H b = (\<lambda>(r, ids, d). fair_rates r \<and> compute_day H (res_day d) ids b r = Inr d)"

definition ranked_paid :: "ranked_day \<Rightarrow> int" where
  "ranked_paid = (\<lambda>(r, ids, d). res_paid d)"

interpretation calc: capped_programme "ranked H" ranked_paid
  "\<lambda>(r, ids, d). cap_programme_day r" "\<lambda>(r, ids, d). cap_season r"
proof unfold_locales
  fix b :: int and t :: ranked_day
  assume ok: "ranked H b t"
  obtain r ids d where t: "t = (r, ids, d)" by (cases t)
  have tot: "0 \<le> res_paid d" "res_paid d \<le> day_budget_of r b" "0 \<le> cap_programme_day r"
    using ok compute_day_total [of H "res_day d" ids b r d] by (auto simp: ranked_def t fair_rates_def)
  show "0 \<le> ranked_paid t" using tot by (simp add: ranked_paid_def t)
  show "ranked_paid t \<le> (case t of (r, ids, d) \<Rightarrow> cap_programme_day r)"
    using tot day_budget_bounds [of r b] by (simp add: ranked_paid_def t)
  show "ranked_paid t \<le> max 0 ((case t of (r, ids, d) \<Rightarrow> cap_season r) - b)"
    using tot day_budget_bounds [of r b] by (simp add: ranked_paid_def t)
qed


section \<open>Weekly totals\<close>

definition paid_pairs :: "row list \<Rightarrow> (string \<times> int) list" where
  "paid_pairs xs = map (\<lambda>x. (row_address x, row_paid x)) (filter (\<lambda>x. 0 < row_paid x) xs)"

lemma add_rows_tally:
  "add_rows out xs = (if \<exists>x \<in> set xs. 0 < row_paid x \<and> row_address x = [] then Inl ValueError
     else Inr (tally_from out (paid_pairs xs)))"
  by (induction xs arbitrary: out) (auto simp: paid_pairs_def)

abbreviation week_rows :: "day_result list \<Rightarrow> row list" where
  "week_rows days \<equiv> concat (map res_rows days)"

lemma week_totals_Inr:
  "week_totals days = Inr out \<longleftrightarrow> (\<forall>x \<in> set (week_rows days). 0 < row_paid x \<longrightarrow> row_address x \<noteq> [])
     \<and> out = sorted_items (tally (paid_pairs (week_rows days)))"
  by (auto simp: week_totals_def add_rows_tally)

lemma keys_paid_pairs: "fst ` set (paid_pairs xs) = row_address ` {x \<in> set xs. 0 < row_paid x}"
  by (simp add: paid_pairs_def image_image)

lemma sum_paid_pairs:
  "\<forall>x \<in> set xs. 0 \<le> row_paid x \<Longrightarrow> sum_list (map snd (paid_pairs xs)) = sum_list (map row_paid xs)"
  by (induction xs) (auto simp: paid_pairs_def)

lemma sum_paid_to:
  "sum_list (map snd (filter (\<lambda>p. fst p = a) (paid_pairs xs)))
     = sum_list (map row_paid (filter (\<lambda>x. 0 < row_paid x \<and> row_address x = a) xs))"
  by (induction xs) (auto simp: paid_pairs_def)

lemma week_totals_spec:
  assumes "week_totals days = Inr out"
  shows "wf_dict out \<and> sorted (map fst out)
    \<and> get_or out a 0 = sum_list (map row_paid (filter (\<lambda>x. 0 < row_paid x \<and> row_address x = a) (week_rows days)))
    \<and> dict_sum out = sum_list (map snd (paid_pairs (week_rows days)))
    \<and> fst ` set out = row_address ` {x \<in> set (week_rows days). 0 < row_paid x}"
proof -
  have out: "out = sorted_items (tally (paid_pairs (week_rows days)))"
    using assms by (simp add: week_totals_Inr)
  have "fst ` set out = row_address ` {x \<in> set (week_rows days). 0 < row_paid x}"
    by (simp add: out keys_tally keys_paid_pairs)
  then show ?thesis
    by (simp add: out sorted_fst_sorted_items get_or_tally sum_paid_to dict_sum_tally)
qed

lemma tally_positive:
  assumes "\<forall>p \<in> set kvs. 0 < snd p" "\<forall>p \<in> set d. 0 < (snd p :: int)" "wf_dict d"
  shows "\<forall>p \<in> set (tally_from d kvs). 0 < snd p"
  using assms
proof (induction kvs arbitrary: d)
  case (Cons p kvs)
  obtain k n where p: "p = (k, n)" by force
  have "0 \<le> get_or d k 0"
    using Cons.prems(2,3) by (auto simp: get_or_def wf_dict_map_of_iff split: option.splits)
  then have "\<forall>q \<in> set (bump d k n). 0 < snd q"
    using Cons.prems set_update_subset [of k "get_or d k 0 + n" d] by (auto simp: p bump_def)
  then show ?case using Cons by (simp add: p)
qed simp


section \<open>A season ranked day by day\<close>

text \<open>
  The ranking of consecutive days as \<open>final_season_rank.py\<close> (lines 844 to 847) chains them: \<open>paid_before\<close> is the
  sum of \<open>total_paid_udndr\<close> of the days before.
\<close>

primrec rank_season :: "host \<Rightarrow> int \<Rightarrow> int \<Rightarrow> (rules \<times> identity list) list \<Rightarrow> day_result list result" where
  "rank_season H day paid_before [] = Inr []"
| "rank_season H day paid_before (f # fs) =
     bind_res (compute_day H day (snd f) paid_before (fst f)) (\<lambda>d.
     bind_res (rank_season H (day + 1) (paid_before + res_paid d) fs) (\<lambda>ds. Inr (d # ds)))"

lemma rank_season_booked:
  "rank_season H day b fs = Inr ds \<Longrightarrow> \<forall>f \<in> set fs. fair_rates (fst f) \<Longrightarrow>
     booked (ranked H) ranked_paid b (map2 (\<lambda>f d. (fst f, snd f, d)) fs ds) \<and> length ds = length fs"
proof (induction fs arbitrary: day b ds)
  case (Cons f fs)
  obtain d es where d: "compute_day H day (snd f) b (fst f) = Inr d"
    and es: "rank_season H (day + 1) (b + res_paid d) fs = Inr es" and ds: "ds = d # es"
    using Cons.prems(1) by (auto simp: bind_res_eq_Inr)
  have "res_day d = day" using d by (rule compute_day_parts)
  then show ?case
    using Cons.IH [OF es] Cons.prems(2) d by (simp add: ds ranked_def ranked_paid_def)
qed simp

lemma rank_season_days:
  "rank_season H day b fs = Inr ds \<Longrightarrow> list_all2 (\<lambda>f d. \<exists>n b'. compute_day H n (snd f) b' (fst f) = Inr d) fs ds"
  by (induction fs arbitrary: day b ds) (auto simp: bind_res_eq_Inr)

lemma map2_ranked_paid:
  "length ds = length fs \<Longrightarrow> map ranked_paid (map2 (\<lambda>f d. (fst f, snd f, d)) fs ds) = map res_paid ds"
  by (induction ds fs rule: list_induct2) (auto simp: ranked_paid_def)

text \<open>Days whose rows add up and pay nobody without an address have exact weekly totals.\<close>

definition payable_day :: "day_result \<Rightarrow> bool" where
  "payable_day d \<longleftrightarrow> res_paid d = sum_list (map row_paid (res_rows d))
     \<and> (\<forall>x \<in> set (res_rows d). 0 \<le> row_paid x \<and> (row_address x = [] \<longrightarrow> row_paid x = 0))"

lemma compute_day_payable: "compute_day H day ids b r = Inr d \<Longrightarrow> fair_rates r \<Longrightarrow> payable_day d"
  using compute_day_rows [of H day ids b r d] by (auto simp: payable_day_def elim: compute_day_parts)

lemma week_totals_exact:
  assumes "\<forall>d \<in> set ds. payable_day d"
  shows "week_totals ds = Inr (sorted_items (tally (paid_pairs (week_rows ds))))
    \<and> dict_sum (sorted_items (tally (paid_pairs (week_rows ds)))) = sum_list (map res_paid ds)"
proof -
  have rows: "\<forall>x \<in> set (week_rows ds). 0 \<le> row_paid x \<and> (row_address x = [] \<longrightarrow> row_paid x = 0)"
    using assms by (auto simp: payable_day_def)
  have "sum_list (map row_paid (week_rows ds)) = sum_list (map res_paid ds)"
    using assms by (induction ds) (auto simp: payable_day_def)
  with rows show ?thesis by (force simp: week_totals_Inr dict_sum_tally sum_paid_pairs)
qed

section \<open>Properties\<close>

text \<open>
  C34: the books of a day. Whatever facts are ranked, under a set whose rates are not negative, every row is
  paid between 0 and its payable amount, which never passes its gross; a row without an address is paid nothing;
  the day pays at most its budget, the budget is at most the day's cap, and with what the earlier days paid the
  season's cap holds. When the payable total fits the budget it is paid in full; when it does not, the rounding
  of the pro rata leaves less than one unit per row of the budget unpaid.
\<close>

theorem day_books_balance:
  assumes "fair_rates r" "compute_day H day ids paid_before r = Inr d"
  shows "(\<forall>x \<in> set (res_rows d). 0 \<le> row_paid x \<and> row_paid x \<le> row_payable x \<and> row_payable x \<le> row_gross x
            \<and> (row_address x = [] \<longrightarrow> row_paid x = 0))
    \<and> res_paid d = sum_list (map row_paid (res_rows d)) \<and> res_paid d \<le> res_budget d
    \<and> res_budget d \<le> cap_programme_day r \<and> (paid_before \<le> cap_season r \<longrightarrow> paid_before + res_paid d \<le> cap_season r)
    \<and> (res_payable d \<le> res_budget d \<longrightarrow> res_paid d = res_payable d)
    \<and> (res_budget d < res_payable d \<longrightarrow> res_budget d - res_paid d < max 1 (int (length (res_rows d))))"
proof -
  have cap: "0 \<le> cap_programme_day r" using assms(1) by (simp add: fair_rates_def)
  have "res_paid d = sum_list (map row_paid (res_rows d))" using assms(2) by (rule compute_day_parts)
  then show ?thesis
    using compute_day_rows [OF assms(2,1)] compute_day_total [OF assms(2,1)] day_budget_bounds [OF cap, of paid_before]
    by auto
qed

definition sample_identity :: "string \<Rightarrow> int \<Rightarrow> string \<Rightarrow> identity" where
  "sample_identity m reqs a = \<lparr>miner_id = m, presence = 60, verified_requests = reqs, verdicts = 2,
     payout_address = a, judge_active = 0, probation = PBool False, kit_version = PNone,
     registration_not_dated = PBool False\<rparr>"

definition sample_day :: day_result where
  "sample_day = projr (compute_day sample_host 3 [sample_identity ''m1'' 900 ''a1'', sample_identity ''m2'' 1000 ''a2'']
     (1490 * UDNDR) RULES_17)"

lemma sample_day_computed:
  "compute_day sample_host 3 [sample_identity ''m1'' 900 ''a1'', sample_identity ''m2'' 1000 ''a2'']
     (1490 * UDNDR) RULES_17 = Inr sample_day"
  by (simp add: sample_day_def compute_day_def row_of_def gross_of_def kit_allows_pay_def registration_allows_pay_def
      pays_judge_presence_def sample_identity_def presence_paid_def is_bool_def bool_of_def RULES_17_def Let_def)

lemma RULES_17_fair: "fair_rates RULES_17"
  by (simp add: fair_rates_def RULES_17_def UDNDR_def)

theorem day_books_balance_witness:
  "res_paid sample_day \<le> res_budget sample_day \<and> 1490 * UDNDR + res_paid sample_day \<le> cap_season RULES_17"
  using day_books_balance [OF RULES_17_fair sample_day_computed] by (simp add: RULES_17_def UDNDR_def)

text \<open>
  The pro rata is fair and the ranking is in order. Two rows of a day with the same payable amount are paid the
  same and a larger payable amount is never paid less; the rows are ordered by amount paid, an equal amount by
  identity, and every identity of the facts has exactly one row.
\<close>

theorem day_ranking_fair:
  assumes "fair_rates r" "compute_day H day ids paid_before r = Inr d"
    and "x \<in> set (res_rows d)" "y \<in> set (res_rows d)" "row_payable x \<le> row_payable y"
  shows "row_paid x \<le> row_paid y \<and> sorted (map rank_key (res_rows d)) \<and> distinct (map row_id (res_rows d))
    \<and> mset (map row_id (res_rows d)) = mset (map miner_id ids)"
proof -
  obtain rows s where s: "s = scale_of (sum_list (map row_payable rows)) (day_budget_of r paid_before)"
    and res: "res_rows d = sort_key rank_key (map (pay_row s) rows)"
    using assms(2) by (rule compute_day_parts)
  have s_ok: "0 \<le> fst s \<and> 0 < snd s" by (auto simp: s scale_of_def day_budget_of_def)
  have "row_paid x = row_payable x * fst s div snd s" "row_paid y = row_payable y * fst s div snd s"
    using assms(3,4) res by auto
  moreover have "row_payable x * fst s div snd s \<le> row_payable y * fst s div snd s"
    using s_ok assms(5) by (intro zdiv_mono1 mult_right_mono) auto
  ultimately show ?thesis using compute_day_sorted [OF assms(2)] by simp
qed

lemma sample_day_rows: "map row_id (res_rows sample_day) = [''m2'', ''m1'']"
  by (simp add: sample_day_def compute_day_def row_of_def gross_of_def kit_allows_pay_def registration_allows_pay_def
      pays_judge_presence_def sample_identity_def presence_paid_def is_bool_def bool_of_def RULES_17_def Let_def
      UDNDR_def day_budget_of_def scale_of_def rank_key_def pay_row_def join_def)

theorem day_ranking_fair_witness:
  "row_paid (hd (res_rows sample_day)) \<le> row_paid (hd (res_rows sample_day))
    \<and> distinct (map row_id (res_rows sample_day))"
proof -
  have "res_rows sample_day \<noteq> []" using sample_day_rows by auto
  then have "hd (res_rows sample_day) \<in> set (res_rows sample_day)" by simp
  from day_ranking_fair [OF RULES_17_fair sample_day_computed this this] show ?thesis by simp
qed

text \<open>
  The ranking of a day depends on the facts and not on the order they are read in: for any two orders of the
  same identities the calculation gives the same day, or refuses both.
\<close>

theorem day_order_irrelevant:
  assumes "mset ids = mset ids'"
  shows "compute_day H day ids paid_before r = compute_day H day ids' paid_before r"
proof (cases "compute_day H day ids paid_before r")
  case (Inr d)
  then show ?thesis using compute_day_perm_Inr [OF assms] by simp
next
  case (Inl e)
  have "\<not> (\<exists>d. compute_day H day ids' paid_before r = Inr d)"
    using Inl compute_day_perm_Inr [OF assms [symmetric]] by fastforce
  then obtain e' where "compute_day H day ids' paid_before r = Inl e'"
    by (cases "compute_day H day ids' paid_before r") auto
  then show ?thesis using Inl compute_day_Inl by metis
qed

theorem day_order_irrelevant_witness:
  "compute_day sample_host 3 [sample_identity ''m2'' 1000 ''a2'', sample_identity ''m1'' 900 ''a1''] (1490 * UDNDR) RULES_17
     = Inr sample_day"
  using day_order_irrelevant [of "[sample_identity ''m2'' 1000 ''a2'', sample_identity ''m1'' 900 ''a1'']"
      "[sample_identity ''m1'' 900 ''a1'', sample_identity ''m2'' 1000 ''a2'']" sample_host 3 "1490 * UDNDR" RULES_17]
  by (simp add: sample_day_computed add_mset_commute)

text \<open>
  C33: the programme never overspends. Rank any number of consecutive days, each under any set of the season's
  history in a state the process can reach: no day pays more than the cap of its set, the season never pays more than
  3,000 DNDR in all, and the weekly totals of the days never raise and add up to exactly what they paid.
\<close>

theorem season_never_overspends:
  assumes "rules_reachable H st" "\<forall>f \<in> set facts. fst f \<in> set (RULE_HISTORY st)"
    and "rank_season H first_day 0 facts = Inr ds"
  shows "length ds = length facts \<and> (\<forall>n < length ds. res_paid (ds ! n) \<le> cap_programme_day (fst (facts ! n)))
    \<and> sum_list (map res_paid ds) \<le> 3000 * UDNDR
    \<and> (\<exists>out. week_totals ds = Inr out \<and> dict_sum out = sum_list (map res_paid ds))"
proof -
  have wf: "wf_rules st" using assms(1) by (rule reachable_wf)
  have fair: "\<forall>f \<in> set facts. fair_rates (fst f)" using assms(2) history_fair [OF wf] by blast
  let ?z = "map2 (\<lambda>f d. (fst f, snd f, d)) facts ds"
  note book = conjunct1 [OF rank_season_booked [OF assms(3) fair]]
    and days = rank_season_days [OF assms(3)]
  have len: "length ds = length facts" using days by (simp add: list_all2_lengthD)
  have caps: "\<forall>t \<in> set ?z. (case t of (r, ids, d) \<Rightarrow> cap_season r) \<le> 3000 * UDNDR"
    using assms(2) history_caps [OF wf] by (auto dest!: set_zip_leftD)
  have total: "sum_list (map res_paid ds) \<le> 3000 * UDNDR"
    using calc.booked_season [OF book caps] by (simp add: map2_ranked_paid [OF len] UDNDR_def del: map_map)
  have day: "res_paid (ds ! n) \<le> cap_programme_day (fst (facts ! n))" if n: "n < length ds" for n
  proof -
    have "(facts ! n, ds ! n) \<in> set (zip facts ds)" using n len by (auto simp: set_zip)
    then have "(fst (facts ! n), snd (facts ! n), ds ! n) \<in> set ?z" by force
    from calc.booked_day [OF book this] show ?thesis by (simp add: ranked_paid_def)
  qed
  have "\<forall>d \<in> set ds. payable_day d"
    using days fair by (induction rule: list_all2_induct) (auto dest: compute_day_payable)
  then show ?thesis using len day total week_totals_exact by blast
qed

theorem season_never_overspends_witness:
  "\<exists>st ds. rank_season sample_host 0 0 [(RULES_17, [sample_identity ''m1'' 900 ''a1'']), (RULES, [sample_identity ''m1'' 7 ''a1''])]
      = Inr ds \<and> sum_list (map res_paid ds) \<le> 3000 * UDNDR \<and> rules_reachable sample_host st"
proof -
  let ?facts = "[(RULES_17, [sample_identity ''m1'' 900 ''a1'']), (RULES, [sample_identity ''m1'' 7 ''a1''])]"
  note reach = default_reachable [of sample_host]
  have hist: "\<forall>f \<in> set ?facts. fst f \<in> set (RULE_HISTORY (derived None None None))"
    by (simp add: history_derived PUBLISHED_SETS_def)
  have "\<exists>ds. rank_season sample_host 0 0 ?facts = Inr ds"
    by (simp add: compute_day_def row_of_def gross_of_def kit_allows_pay_def registration_allows_pay_def
        pays_judge_presence_def sample_identity_def presence_paid_def is_bool_def bool_of_def RULES_def RULES_17_def Let_def)
  then obtain ds where ds: "rank_season sample_host 0 0 ?facts = Inr ds" ..
  with season_never_overspends [OF reach hist ds] reach show ?thesis by blast
qed

text \<open>
  The weekly totals are exact and canonical: every address is listed once, in order, with the sum of what the
  rows under that address were paid, no address is listed that was paid nothing, and the totals are refused
  exactly when a paid row has no address.
\<close>

theorem week_totals_canonical:
  "(case week_totals days of
      Inl e \<Rightarrow> e = ValueError \<and> (\<exists>x \<in> set (week_rows days). 0 < row_paid x \<and> row_address x = [])
    | Inr out \<Rightarrow> distinct (map fst out) \<and> sorted (map fst out)
        \<and> fst ` set out = row_address ` {x \<in> set (week_rows days). 0 < row_paid x}
        \<and> (\<forall>(a, v) \<in> set out. v = sum_list (map row_paid (filter (\<lambda>x. 0 < row_paid x \<and> row_address x = a) (week_rows days)))))"
proof (cases "week_totals days")
  case (Inl e)
  then show ?thesis by (auto simp: week_totals_def add_rows_tally split: if_splits)
next
  case (Inr out)
  note spec = week_totals_spec [OF Inr]
  have "v = get_or out a 0" if "(a, v) \<in> set out" for a v
    using that spec by (simp add: get_or_def wf_dict_map_of_iff [THEN iffD2])
  then show ?thesis using Inr spec by (auto simp: wf_dict_def)
qed


theorem week_totals_canonical_witness:
  "distinct (map fst (projr (week_totals [sample_day]))) \<and> week_totals [sample_day] \<noteq> Inl KeyError"
proof -
  have "payable_day sample_day" using compute_day_payable [OF sample_day_computed RULES_17_fair] .
  then have "\<exists>out. week_totals [sample_day] = Inr out" using week_totals_exact [of "[sample_day]"] by auto
  then show ?thesis using week_totals_canonical [of "[sample_day]"] by auto
qed

end
