(* ===== verification/Season_Days.thy ===== *)
theory Season_Days
  imports Season_Calc
begin

text \<open>
  The published days and what the payer checks before it pays, the first part of
  \<open>src/services/final_season_payout.py\<close>: reading a ranking back (\<open>parse_day\<close>), naming its rule set
  (\<open>_set_of_day\<close>), the check of the days (\<open>check_days\<close>) and of the doubled rates (\<open>check_doubled_from\<close>).
  A published figure is a JSON value until it is checked, so the rows and days keep dynamic fields. The publication
  side is the end of \<open>rank_day\<close> in \<open>src/services/final_season_rank.py\<close>.
\<close>

section \<open>Reading a ranking back\<close>

record pub_row =
  p_id :: pyval
  p_address :: pyval
  p_presence :: pyval
  p_requests :: pyval
  p_verdicts :: pyval
  p_gross :: pyval
  p_payable :: pyval
  p_paid :: pyval
  p_reason :: pyval
  p_judge :: pyval
  p_probation :: pyval
  p_kit :: pyval
  p_undated :: pyval

record pub_day =
  pd_day :: pyval
  pd_fp :: pyval
  pd_gross :: pyval
  pd_payable :: pyval
  pd_budget :: pyval
  pd_paid :: pyval
  pd_num :: pyval
  pd_den :: pyval
  pd_rows :: "pub_row list"
  pd_kit_min :: pyval
  pd_jury :: "pydict option"
  pd_evidence :: pyval

text \<open>Iterating over a JSON value, \<open>v[n]\<close> on one, and \<open>v.get\<close> of one that must be an object.\<close>

definition iter_of :: "pyval \<Rightarrow> pyval list result" where
  "iter_of v = (case v of
     PList xs \<Rightarrow> Inr xs | PDict d \<Rightarrow> Inr (map (\<lambda>e. PStr (fst e)) d) | PStr s \<Rightarrow> Inr (map (\<lambda>c. PStr [c]) s)
   | _ \<Rightarrow> Inl TypeError)"

definition vindex :: "pyval \<Rightarrow> nat \<Rightarrow> pyval result" where
  "vindex v n = (case v of
     PList xs \<Rightarrow> if n < length xs then Inr (xs ! n) else Inl IndexError
   | PStr s \<Rightarrow> if n < length s then Inr (PStr [s ! n]) else Inl IndexError
   | PDict d \<Rightarrow> Inl KeyError
   | _ \<Rightarrow> Inl TypeError)"

definition vobj :: "pyval \<Rightarrow> pydict result" where
  "vobj v = (case dict_of v of None \<Rightarrow> Inl AttributeError | Some d \<Rightarrow> Inr d)"

definition parse_row :: "bool \<Rightarrow> pyval \<Rightarrow> pub_row result" where
  "parse_row kit_day x =
     bind_res (vitem x ''miner_id'') (\<lambda>m. bind_res (vitem x ''payout_address'') (\<lambda>a.
     bind_res (vitem x ''presence'') (\<lambda>p. bind_res (vitem x ''verified_requests'') (\<lambda>q.
     bind_res (vitem x ''verdicts'') (\<lambda>v. bind_res (vitem x ''gross_udndr'') (\<lambda>g.
     bind_res (vitem x ''payable_udndr'') (\<lambda>y. bind_res (vitem x ''paid_udndr'') (\<lambda>z.
     bind_res (vitem x ''reason'') (\<lambda>s. bind_res (vobj x) (\<lambda>d.
     bind_res
       (if kit_day then
          bind_res (ditem d ''judge_active'') (\<lambda>j. bind_res (ditem d ''probation'') (\<lambda>b.
          bind_res (ditem d ''kit_version'') (\<lambda>k. bind_res (ditem d ''registration_not_dated'') (\<lambda>u.
          Inr (j, b, k, u)))))
        else Inr (get_or d ''judge_active'' (PInt 0), get_or d ''probation'' (PBool False),
                  dget d ''kit_version'', get_or d ''registration_not_dated'' (PBool False)))
       (\<lambda>(j, b, k, u).
     Inr \<lparr>p_id = m, p_address = a, p_presence = p, p_requests = q, p_verdicts = v, p_gross = g, p_payable = y,
          p_paid = z, p_reason = s, p_judge = j, p_probation = b, p_kit = k, p_undated = u\<rparr>)))))))))))"

definition parse_day :: "pyval \<Rightarrow> (pub_day \<times> int option) result" where
  "parse_day d =
     bind_res (vitem d ''inputs'') (\<lambda>iv. bind_res (vobj iv) (\<lambda>inputs.
     let floor_of = dict_of (dget inputs ''kit_floor''); kit_day = (floor_of \<noteq> None) in
     bind_res (bind_res (vitem d ''ranking'') iter_of) (\<lambda>xs.
     bind_res (map_res (parse_row kit_day) xs) (\<lambda>rows.
     bind_res (ditem inputs ''season_end_height'') (\<lambda>end_v.
     bind_res (ditem inputs ''last_height'') (\<lambda>last_v.
     bind_res (case end_v of PNone \<Rightarrow> Inr None
       | PInt e \<Rightarrow> if last_v = PInt e \<and> 0 < e then Inr (Some e) else Inl ValueError
       | _ \<Rightarrow> Inl ValueError) (\<lambda>season_end.
     let kmin = (case floor_of of None \<Rightarrow> PNone | Some f \<Rightarrow> dget f ''kit_min'');
         jury = map_option (\<lambda>j. [(''kit_min'', kmin), (''fault_periods'', dget j ''fault_periods''),
                                (''fault_payer'', dget j ''fault_payer'')]) (dict_of (dget inputs ''jury'')) in
     bind_res (vitem d ''day'') (\<lambda>n. bind_res (vitem d ''rules_fingerprint'') (\<lambda>fp.
     bind_res (vitem d ''total_gross_udndr'') (\<lambda>g. bind_res (vitem d ''total_payable_udndr'') (\<lambda>y.
     bind_res (vitem d ''day_budget_udndr'') (\<lambda>b. bind_res (vitem d ''total_paid_udndr'') (\<lambda>z.
     bind_res (vitem d ''pro_rata'') (\<lambda>pr. bind_res (vindex pr 0) (\<lambda>num. bind_res (vindex pr 1) (\<lambda>den.
     Inr (\<lparr>pd_day = n, pd_fp = fp, pd_gross = g, pd_payable = y, pd_budget = b, pd_paid = z, pd_num = num,
           pd_den = den, pd_rows = rows, pd_kit_min = kmin, pd_jury = jury,
           pd_evidence = dget inputs ''evidence_sha256''\<rparr>, season_end)))))))))))))))))"

section \<open>The rule set a day names\<close>

definition try_kit_floor :: "host \<Rightarrow> rules_state \<Rightarrow> pub_day \<Rightarrow> rules_state \<times> (nat \<times> rules) option result" where
  "try_kit_floor H st d =
     (case pd_kit_min d of
        PInt k \<Rightarrow>
          if k \<ge> 1 \<and> KIT_MIN st = None \<and> PStr (fingerprint H (kit_set k)) = pd_fp d then
            (let (st1, r) = set_kit_min st (PInt k) in (st1, map_sum id (\<lambda>_. rule_set_of H st1 (pd_fp d)) r))
          else (st, Inr None)
      | _ \<Rightarrow> (st, Inr None))"

definition try_jury :: "host \<Rightarrow> rules_state \<Rightarrow> pub_day \<Rightarrow> rules_state \<times> (nat \<times> rules) option result" where
  "try_jury H st d =
     (case pd_jury d of
        Some j \<Rightarrow>
          if RULES_JURY st = None then
            (let (st1, r) = jury_set_named H st (PDict j) (pd_fp d)
             in (st1, map_sum id (\<lambda>b. case b of None \<Rightarrow> None | Some _ \<Rightarrow> rule_set_of H st1 (pd_fp d)) r))
          else (st, Inr None)
      | None \<Rightarrow> (st, Inr None))"

definition set_of_day :: "host \<Rightarrow> rules_state \<Rightarrow> pub_day \<Rightarrow> rules_state \<times> (nat \<times> rules) option result" where
  "set_of_day H st d =
     (case rule_set_of H st (pd_fp d) of
        Some pr \<Rightarrow> (st, Inr (Some pr))
      | None \<Rightarrow>
          (case try_kit_floor H st d of
             (st1, Inr None) \<Rightarrow> try_jury H st1 d
           | other \<Rightarrow> other))"

section \<open>The check of the days\<close>

datatype violation = WrongDay | UnknownRules | EarlierRules | FloorDiffers | FloorWithoutSet | TotalNotInt
  | RowNotText | RankedTwice | BadCount | BadAmount | BadKitFields | KitFieldsWithoutSet | GrossDiffers
  | PayableDiffers | PaidOutside | TotalsDiffer | BudgetDiffers | OverBudget | ProRataDiffers | OverSeasonCap

text \<open>A checked row, its fields as the types the check establishes; the reason is not checked.\<close>

definition row_view :: "pub_row \<Rightarrow> row option" where
  "row_view x =
     (case (p_id x, p_address x, p_presence x, p_requests x, p_verdicts x, p_gross x, p_payable x, p_paid x,
            p_judge x, p_probation x, p_undated x) of
        (PStr m, PStr a, PInt p, PInt q, PInt v, PInt g, PInt y, PInt z, PInt j, PBool b, PBool u) \<Rightarrow>
          Some \<lparr>row_id = m, row_address = a, row_presence = p, row_requests = q, row_verdicts = v, row_gross = g,
            row_payable = y, row_paid = z, row_reason = (case p_reason x of PStr s \<Rightarrow> s | _ \<Rightarrow> []), row_judge = j,
            row_probation = b, row_kit = p_kit x, row_undated = u\<rparr>
      | _ \<Rightarrow> None)"

definition facts_of_row :: "row \<Rightarrow> identity" where
  "facts_of_row x = \<lparr>miner_id = row_id x, presence = row_presence x, verified_requests = row_requests x,
     verdicts = row_verdicts x, payout_address = row_address x, judge_active = row_judge x,
     probation = PBool (row_probation x), kit_version = row_kit x,
     registration_not_dated = PBool (row_undated x)\<rparr>"

definition good_kit :: "pyval \<Rightarrow> bool" where
  "good_kit v \<longleftrightarrow> (case v of PNone \<Rightarrow> True | PInt k \<Rightarrow> k \<ge> 0 | _ \<Rightarrow> False)"

definition is_whole :: "pyval \<Rightarrow> bool" where
  "is_whole v \<longleftrightarrow> whole_of v \<noteq> None"

definition is_count :: "pyval \<Rightarrow> bool" where
  "is_count v \<longleftrightarrow> (case v of PInt i \<Rightarrow> i \<ge> 0 | _ \<Rightarrow> False)"

text \<open>The amounts of a row whose fields have their types: gross, payable and paid.\<close>

definition check_amounts :: "rules \<Rightarrow> row \<Rightarrow> violation option result" where
  "check_amounts r y =
     bind_res (gross_of (facts_of_row y) r) (\<lambda>g.
     if row_gross y \<noteq> g then Inr (Some GrossDiffers)
     else bind_res (if row_address y \<noteq> [] then kit_allows_pay (facts_of_row y) r else Inr False) (\<lambda>kit_ok.
          bind_res (if kit_ok then registration_allows_pay (facts_of_row y) r else Inr False) (\<lambda>ok.
          let payable = (if ok then g else 0)
          in if row_payable y \<noteq> payable then Inr (Some PayableDiffers)
             else if \<not> (0 \<le> row_paid y \<and> row_paid y \<le> row_payable y) then Inr (Some PaidOutside)
             else Inr None)))"

definition check_row :: "rules \<Rightarrow> bool \<Rightarrow> string list \<Rightarrow> pub_row \<Rightarrow> violation option result" where
  "check_row r kit seen x =
     (case (p_id x, p_address x) of
        (PStr m, PStr a) \<Rightarrow>
          if m \<in> set seen then Inr (Some RankedTwice)
          else if \<not> (is_count (p_presence x) \<and> is_count (p_requests x) \<and> is_count (p_verdicts x)) then Inr (Some BadCount)
          else if \<not> (is_whole (p_gross x) \<and> is_whole (p_payable x) \<and> is_whole (p_paid x)) then Inr (Some BadAmount)
          else if \<not> ((p_judge x = PInt 0 \<or> p_judge x = PInt 1) \<and> is_bool (p_probation x) \<and> is_bool (p_undated x)
                      \<and> good_kit (p_kit x)) then Inr (Some BadKitFields)
          else if \<not> kit \<and> (truthy (p_judge x) \<or> truthy (p_probation x) \<or> p_kit x \<noteq> PNone \<or> truthy (p_undated x))
          then Inr (Some KitFieldsWithoutSet)
          else (case row_view x of None \<Rightarrow> Inl TypeError | Some y \<Rightarrow> check_amounts r y)
      | _ \<Rightarrow> Inr (Some RowNotText))"

fun check_rows :: "rules \<Rightarrow> bool \<Rightarrow> string list \<Rightarrow> pub_row list \<Rightarrow> violation option result" where
  "check_rows r kit seen [] = Inr None"
| "check_rows r kit seen (x # xs) =
     bind_res (check_row r kit seen x) (\<lambda>v. case v of
       Some e \<Rightarrow> Inr (Some e)
     | None \<Rightarrow> check_rows r kit ((case p_id x of PStr m \<Rightarrow> m | _ \<Rightarrow> []) # seen) xs)"

text \<open>A checked day as the calculation's type.\<close>

definition day_view :: "pub_day \<Rightarrow> day_result option" where
  "day_view d =
     (case (pd_fp d, pd_gross d, pd_payable d, pd_budget d, pd_paid d, pd_num d, pd_den d) of
        (PStr fp, PInt g, PInt y, PInt b, PInt z, PInt num, PInt den) \<Rightarrow>
          (if list_all (\<lambda>x. row_view x \<noteq> None) (pd_rows d) then
             Some \<lparr>res_day = (case pd_day d of PInt n \<Rightarrow> n | _ \<Rightarrow> 0), res_fingerprint = fp, res_gross = g,
               res_payable = y, res_budget = b, res_paid = z, res_num = num, res_den = den,
               res_rows = map (\<lambda>x. the (row_view x)) (pd_rows d), res_kit_min = whole_of (pd_kit_min d)\<rparr>
           else None)
      | _ \<Rightarrow> None)"

definition check_totals :: "rules \<Rightarrow> int \<Rightarrow> day_result \<Rightarrow> violation option" where
  "check_totals r paid_before v =
     (if sum_list (map row_paid (res_rows v)) \<noteq> res_paid v \<or> sum_list (map row_payable (res_rows v)) \<noteq> res_payable v
         \<or> sum_list (map row_gross (res_rows v)) \<noteq> res_gross v then Some TotalsDiffer
      else
        (let budget = day_budget_of r paid_before in
         if res_budget v \<noteq> budget then Some BudgetDiffers
         else if \<not> (res_paid v \<le> res_budget v \<and> res_budget v \<le> cap_programme_day r) then Some OverBudget
         else
           (let s = (if res_payable v > budget then (budget, res_payable v) else (1, 1)) in
            if (res_num v, res_den v) \<noteq> s
               \<or> list_ex (\<lambda>x. row_paid x \<noteq> row_payable x * fst s div snd s) (res_rows v) then Some ProRataDiffers
            else if paid_before + res_paid v > cap_season r then Some OverSeasonCap
            else None)))"

definition check_day :: "rules \<Rightarrow> int \<Rightarrow> pub_day \<Rightarrow> violation option result" where
  "check_day r paid_before d =
     bind_res (pays_judge_presence r) (\<lambda>kit.
     if kit \<and> \<not> (case kit_min r of None \<Rightarrow> False | Some k \<Rightarrow> eq_int (pd_kit_min d) k) then Inr (Some FloorDiffers)
     else if \<not> kit \<and> pd_kit_min d \<noteq> PNone then Inr (Some FloorWithoutSet)
     else if \<not> list_all is_whole [pd_gross d, pd_payable d, pd_budget d, pd_paid d, pd_num d, pd_den d]
     then Inr (Some TotalNotInt)
     else bind_res (check_rows r kit [] (pd_rows d)) (\<lambda>e. case e of
         Some v \<Rightarrow> Inr (Some v)
       | None \<Rightarrow> (case day_view d of None \<Rightarrow> Inl TypeError | Some v \<Rightarrow> Inr (check_totals r paid_before v))))"

fun check_from :: "host \<Rightarrow> rules_state \<Rightarrow> int \<Rightarrow> int \<Rightarrow> nat \<Rightarrow> pub_day list
    \<Rightarrow> rules_state \<times> (int \<times> violation) option result" where
  "check_from H st n paid_before prev [] = (st, Inr None)"
| "check_from H st n paid_before prev (d # ds) =
     (if \<not> eq_int (pd_day d) n then (st, Inr (Some (n, WrongDay)))
      else
        (case set_of_day H st d of
           (st1, Inl e) \<Rightarrow> (st1, Inl e)
         | (st1, Inr None) \<Rightarrow> (st1, Inr (Some (n, UnknownRules)))
         | (st1, Inr (Some (pos, r))) \<Rightarrow>
             if pos < prev then (st1, Inr (Some (n, EarlierRules)))
             else (case check_day r paid_before d of
                 Inl e \<Rightarrow> (st1, Inl e)
               | Inr (Some v) \<Rightarrow> (st1, Inr (Some (n, v)))
               | Inr None \<Rightarrow>
                   check_from H st1 (n + 1) (paid_before + (case pd_paid d of PInt z \<Rightarrow> z | _ \<Rightarrow> 0)) pos ds)))"

definition check_days :: "host \<Rightarrow> rules_state \<Rightarrow> pub_day list \<Rightarrow> rules_state \<times> (int \<times> violation) option result" where
  "check_days H st days = check_from H st 0 0 0 days"

section \<open>The doubled rates\<close>

definition sets_to_the_kit :: "rules_state \<Rightarrow> rules list" where
  "sets_to_the_kit st = [RULES_DOUBLED, RULES_MORE_REQUESTS] @ opt_list (RULES_KIT st)"

definition doubled_sets :: "rules_state \<Rightarrow> rules list" where
  "doubled_sets st = sets_to_the_kit st @ opt_list (RULES_JURY st)"

text \<open>
  \<open>any(rules is s ...)\<close> compares objects; the sets of a history differ from each other as values too
  (lemma \<open>doubled_position\<close> of the theory \<open>Season_Plan\<close>), so membership decides the same.
\<close>

fun doubled_days :: "host \<Rightarrow> rules_state \<Rightarrow> int option \<Rightarrow> int \<Rightarrow> pub_day list \<Rightarrow> rules_state \<times> int option result" where
  "doubled_days H st doubled_from n [] = (st, Inr None)"
| "doubled_days H st doubled_from n (d # ds) =
     (case set_of_day H st d of
        (st1, Inl e) \<Rightarrow> (st1, Inl e)
      | (st1, Inr found) \<Rightarrow>
          (let doubled = (case found of None \<Rightarrow> False | Some (pos, r) \<Rightarrow> r \<in> set (doubled_sets st1)) in
           if doubled \<noteq> from_on doubled_from n then (st1, Inr (Some n))
           else doubled_days H st1 doubled_from (n + 1) ds))"

definition check_doubled_from :: "host \<Rightarrow> rules_state \<Rightarrow> pub_day list \<Rightarrow> pyval \<Rightarrow> rules_state \<times> int option result" where
  "check_doubled_from H st days doubled_from =
     (case first_day_of doubled_from of
        Inl e \<Rightarrow> (st, Inl e)
      | Inr f \<Rightarrow> doubled_days H st f 0 days)"


section \<open>The set of a day: what it fixes and what it returns\<close>

lemma rule_set_of_Some:
  assumes "rule_set_of H st fp = Some (n, r)"
  shows "n < length (RULE_HISTORY st) \<and> RULE_HISTORY st ! n = r \<and> fp = PStr (fingerprint H r)"
proof -
  have "(n, r) \<in> set (enumerate 0 (RULE_HISTORY st)) \<and> PStr (fingerprint H r) = fp"
    using assms unfolding rule_set_of_def by (metis (mono_tags, lifting) case_prodD find_Some_iff nth_mem)
  then show ?thesis by (auto simp: in_set_enumerate_eq)
qed

definition names_set :: "host \<Rightarrow> rules_state \<Rightarrow> pub_day \<Rightarrow> nat \<times> rules \<Rightarrow> bool" where
  "names_set H st d = (\<lambda>(pos, r). pos < length (RULE_HISTORY st) \<and> RULE_HISTORY st ! pos = r
     \<and> pd_fp d = PStr (fingerprint H r))"

lemma rule_set_of_names: "rule_set_of H st (pd_fp d) = Some pr \<Longrightarrow> names_set H st d pr"
  using rule_set_of_Some [of H st "pd_fp d"] by (cases pr) (simp add: names_set_def)

lemma try_kit_floor_spec:
  assumes "wf_rules st"
  obtains st' res where "try_kit_floor H st d = (st', Inr res)" "wf_rules st'" "keeps st st'"
    "pred_option (names_set H st' d) res"
proof (cases "\<exists>k. pd_kit_min d = PInt k \<and> 1 \<le> k \<and> KIT_MIN st = None \<and> PStr (fingerprint H (kit_set k)) = pd_fp d")
  case True
  then obtain k where k: "pd_kit_min d = PInt k" "1 \<le> k" "KIT_MIN st = None" "PStr (fingerprint H (kit_set k)) = pd_fp d"
    by blast
  obtain kk ps a where st: "st = derived kk ps a" "settings_ok kk ps a" using assms by (rule wf_rules_cases)
  have set: "set_kit_min st (PInt k) = (derived (Some k) ps a, Inr (kit_set k))"
    using set_kit_min_ok [OF st(2) k(2)] k(3) st(1) by (simp add: fixed_in_def)
  then have "try_kit_floor H st d = (derived (Some k) ps a, Inr (rule_set_of H (derived (Some k) ps a) (pd_fp d)))"
    using k by (simp add: try_kit_floor_def)
  moreover have "wf_rules (derived (Some k) ps a)" "keeps st (derived (Some k) ps a)"
    using set_kit_min_wf [OF assms, of "PInt k"] set by auto
  moreover have "pred_option (names_set H (derived (Some k) ps a) d) (rule_set_of H (derived (Some k) ps a) (pd_fp d))"
    by (auto simp: pred_option_def dest: rule_set_of_names)
  ultimately show ?thesis using that by blast
next
  case False
  then have "try_kit_floor H st d = (st, Inr None)"
    by (auto simp: try_kit_floor_def split: pyval.splits)
  then show ?thesis using that assms by simp
qed

lemma try_jury_spec:
  assumes "wf_rules st"
  obtains st' res where "try_jury H st d = (st', Inr res)" "wf_rules st'" "keeps st st'"
    "pred_option (names_set H st' d) res"
proof (cases "\<exists>j. pd_jury d = Some j \<and> RULES_JURY st = None")
  case True
  then obtain j where j: "pd_jury d = Some j" "RULES_JURY st = None" by blast
  obtain res st' where J: "jury_set_named H st (PDict j) (pd_fp d) = (st', Inr res)" "wf_rules st'" "keeps st st'"
    using jury_set_named_spec [OF assms, of H "PDict j" "pd_fp d"] by blast
  have "try_jury H st d = (st', Inr (case res of None \<Rightarrow> None | Some _ \<Rightarrow> rule_set_of H st' (pd_fp d)))"
    using j J(1) by (simp add: try_jury_def)
  then show ?thesis by (rule that [OF _ J(2,3)]) (auto simp: pred_option_def dest: rule_set_of_names split: option.splits)
next
  case False
  then have "try_jury H st d = (st, Inr None)"
    by (auto simp: try_jury_def split: option.splits)
  then show ?thesis using that assms by simp
qed

lemma set_of_day_spec:
  assumes "wf_rules st"
  obtains st' res where "set_of_day H st d = (st', Inr res)" "wf_rules st'" "keeps st st'"
    "pred_option (names_set H st' d) res"
proof (cases "rule_set_of H st (pd_fp d)")
  case (Some pr)
  then show ?thesis using that [of st "Some pr"] assms rule_set_of_names [OF Some] by (simp add: set_of_day_def)
next
  case None
  obtain st1 res where K: "try_kit_floor H st d = (st1, Inr res)" "wf_rules st1" "keeps st st1"
    "pred_option (names_set H st1 d) res"
    by (rule try_kit_floor_spec [OF assms, of H d])
  show ?thesis
  proof (cases res)
    case (Some pr)
    then show ?thesis using that [of st1 res] K None by (simp add: set_of_day_def)
  next
    case none: None
    obtain st2 res2 where J: "try_jury H st1 d = (st2, Inr res2)" "wf_rules st2" "keeps st1 st2"
      "pred_option (names_set H st2 d) res2"
      by (rule try_jury_spec [OF K(2), of H d])
    have "set_of_day H st d = (st2, Inr res2)" using None none K(1) J(1) by (simp add: set_of_day_def)
    then show ?thesis using that J keeps_trans [OF K(3) J(3)] by blast
  qed
qed

lemma names_set_later:
  "names_set H st d (pos, r) \<Longrightarrow> wf_rules st \<Longrightarrow> wf_rules st' \<Longrightarrow> keeps st st' \<Longrightarrow> names_set H st' d (pos, r)"
  using keeps_history_prefix [of st st' pos] by (auto simp: names_set_def)

lemma names_set_history: "names_set H st d (pos, r) \<Longrightarrow> r \<in> set (RULE_HISTORY st)"
  by (auto simp: names_set_def)

section \<open>What an accepted row and an accepted day guarantee\<close>

definition sound_row :: "rules \<Rightarrow> row \<Rightarrow> bool" where
  "sound_row r y \<longleftrightarrow> gross_of (facts_of_row y) r = Inr (row_gross y)
     \<and> 0 \<le> row_paid y \<and> row_paid y \<le> row_payable y
     \<and> (row_payable y = 0 \<or> row_payable y = row_gross y \<and> row_address y \<noteq> []
          \<and> kit_allows_pay (facts_of_row y) r = Inr True \<and> registration_allows_pay (facts_of_row y) r = Inr True)"

lemma is_count_iff: "is_count v \<longleftrightarrow> (\<exists>i. v = PInt i \<and> 0 \<le> i)"
  by (cases v) (auto simp: is_count_def)

lemma is_whole_iff: "is_whole v \<longleftrightarrow> (\<exists>i. v = PInt i)"
  by (cases v) (auto simp: is_whole_def whole_of_def)

lemma is_bool_iff: "is_bool v \<longleftrightarrow> (\<exists>b. v = PBool b)"
  by (cases v) (auto simp: is_bool_def bool_of_def)

lemma check_amounts_accepts:
  assumes "check_amounts r y = Inr None"
  shows "sound_row r y"
proof -
  obtain g kit_ok ok where *: "gross_of (facts_of_row y) r = Inr g" "row_gross y = g"
    and b: "(if row_address y \<noteq> [] then kit_allows_pay (facts_of_row y) r else Inr False) = Inr kit_ok"
    "(if kit_ok then registration_allows_pay (facts_of_row y) r else Inr False) = Inr ok"
    and c: "(if row_payable y \<noteq> (if ok then g else 0) then Inr (Some PayableDiffers)
             else if \<not> (0 \<le> row_paid y \<and> row_paid y \<le> row_payable y) then Inr (Some PaidOutside)
             else Inr None) = (Inr None :: violation option result)"
    using assms unfolding check_amounts_def Let_def
    by (elim bind_res_InrE) (cases "row_gross y = projr (gross_of (facts_of_row y) r)"; simp add: bind_res_eq_Inr; blast)
  from c have "row_payable y = (if ok then g else 0)" "0 \<le> row_paid y" "row_paid y \<le> row_payable y"
    by (simp_all split: if_splits)
  note b = b * this
  then show ?thesis by (cases ok; cases kit_ok; cases "row_address y = []") (simp_all add: sound_row_def)
qed

lemma check_row_accepts:
  assumes "check_row r kit seen x = Inr None"
  obtains y where "row_view x = Some y" "sound_row r y" "row_id y \<notin> set seen" "p_id x = PStr (row_id y)"
    "p_kit x = row_kit y" "good_kit (row_kit y)"
proof -
  obtain m a where id: "p_id x = PStr m" "p_address x = PStr a" "m \<notin> set seen"
    using assms by (auto simp: check_row_def split: pyval.splits if_splits)
  have shape: "is_count (p_presence x)" "is_count (p_requests x)" "is_count (p_verdicts x)"
    "is_whole (p_gross x)" "is_whole (p_payable x)" "is_whole (p_paid x)"
    "p_judge x = PInt 0 \<or> p_judge x = PInt 1" "is_bool (p_probation x)" "is_bool (p_undated x)" "good_kit (p_kit x)"
    using assms id by (auto simp: check_row_def split: if_splits)
  then obtain y where y: "row_view x = Some y" "row_id y = m" "row_address y = a" "row_kit y = p_kit x"
    using id by (auto simp: row_view_def is_count_iff is_whole_iff is_bool_iff)
  have "check_amounts r y = Inr None"
    using assms unfolding check_row_def by (simp only: id y(1) shape pyval.case prod.case option.case) (simp split: if_splits)
  then have "sound_row r y" by (rule check_amounts_accepts)
  then show ?thesis using that [OF y(1)] y id shape(10) by simp
qed

lemma check_rows_accepts:
  assumes "check_rows r kit seen xs = Inr None"
  shows "list_all (\<lambda>x. \<exists>y. row_view x = Some y \<and> sound_row r y) xs
    \<and> distinct (map (\<lambda>x. row_id (the (row_view x))) xs)
    \<and> set seen \<inter> (\<lambda>x. row_id (the (row_view x))) ` set xs = {}"
  using assms
proof (induction xs arbitrary: seen)
  case (Cons x xs)
  have ok: "check_row r kit seen x = Inr None"
    using Cons.prems by (auto simp: bind_res_eq_Inr split: option.splits)
  then obtain y where y: "row_view x = Some y" "sound_row r y" "row_id y \<notin> set seen" "p_id x = PStr (row_id y)"
    by (rule check_row_accepts)
  have "check_rows r kit (row_id y # seen) xs = Inr None" using Cons.prems ok y(4) by simp
  from Cons.IH [OF this] y show ?case by auto
qed simp

lemma check_totals_None:
  "check_totals r b v = None \<longleftrightarrow>
     res_paid v = sum_list (map row_paid (res_rows v)) \<and> res_payable v = sum_list (map row_payable (res_rows v))
     \<and> res_gross v = sum_list (map row_gross (res_rows v)) \<and> res_budget v = day_budget_of r b
     \<and> res_paid v \<le> res_budget v \<and> res_budget v \<le> cap_programme_day r
     \<and> (res_num v, res_den v) = scale_of (res_payable v) (res_budget v)
     \<and> (\<forall>x \<in> set (res_rows v). row_paid x = row_payable x * res_num v div res_den v)
     \<and> b + res_paid v \<le> cap_season r"
  by (auto simp: check_totals_def Let_def scale_of_def list_ex_iff split: if_splits)

lemma check_day_accepts:
  assumes "check_day r b d = Inr None"
  obtains v where "day_view d = Some v" "check_totals r b v = None" "list_all (sound_row r) (res_rows v)"
    "distinct (map row_id (res_rows v))" "pd_paid d = PInt (res_paid v)"
proof -
  obtain kit where rows: "check_rows r kit [] (pd_rows d) = Inr None"
    and v: "\<exists>v. day_view d = Some v \<and> check_totals r b v = None"
    using assms by (auto simp: check_day_def bind_res_eq_Inr split: if_splits option.splits)
  then obtain v where v: "day_view d = Some v" "check_totals r b v = None" by blast
  have res: "res_rows v = map (\<lambda>x. the (row_view x)) (pd_rows d)" "pd_paid d = PInt (res_paid v)"
    using v(1) by (auto simp: day_view_def split: pyval.splits if_splits)
  have "list_all (sound_row r) (res_rows v)" "distinct (map row_id (res_rows v))"
    using check_rows_accepts [OF rows] by (auto simp: res list_all_iff comp_def)
  then show ?thesis using that v res(2) by blast
qed


section \<open>The check as a contract\<close>

text \<open>A day accepted under the set \<open>r\<close> after days that paid \<open>b\<close>.\<close>

definition accepted :: "int \<Rightarrow> rules \<times> pub_day \<Rightarrow> bool" where
  "accepted b = (\<lambda>(r, d). fair_rates r \<and> check_day r b d = Inr None)"

definition pub_paid :: "pub_day \<Rightarrow> int" where
  "pub_paid d = (case pd_paid d of PInt z \<Rightarrow> z | _ \<Rightarrow> 0)"

lemma accepted_view:
  assumes "accepted b (r, d)"
  obtains v where "day_view d = Some v" "payable_day v" "res_paid v = pub_paid d" "list_all (sound_row r) (res_rows v)"
    "distinct (map row_id (res_rows v))" "check_totals r b v = None"
proof -
  have ok: "check_day r b d = Inr None" using assms by (simp add: accepted_def)
  obtain v where v: "day_view d = Some v" "check_totals r b v = None" "list_all (sound_row r) (res_rows v)"
    "distinct (map row_id (res_rows v))" "pd_paid d = PInt (res_paid v)"
    using ok by (rule check_day_accepts)
  have "payable_day v"
    using v(2,3) by (auto simp: payable_day_def check_totals_None list_all_iff sound_row_def)
  then show ?thesis using that v by (simp add: pub_paid_def)
qed

interpretation payer: capped_programme accepted "\<lambda>(r, d). pub_paid d"
  "\<lambda>(r, d). cap_programme_day r" "\<lambda>(r, d). cap_season r"
proof unfold_locales
  fix b :: int and t :: "rules \<times> pub_day"
  assume ok: "accepted b t"
  obtain r d where t: "t = (r, d)" by force
  obtain v where v: "payable_day v" "res_paid v = pub_paid d" "check_totals r b v = None"
    using ok unfolding t by (rule accepted_view)
  have "0 \<le> res_paid v" using v(1) by (auto simp: payable_day_def intro!: sum_list_nonneg)
  then show "0 \<le> (case t of (r, d) \<Rightarrow> pub_paid d)" using v(2) by (simp add: t)
  show "(case t of (r, d) \<Rightarrow> pub_paid d) \<le> (case t of (r, d) \<Rightarrow> cap_programme_day r)"
    using v(2,3) by (simp add: t check_totals_None)
  have "0 \<le> cap_programme_day r" using ok by (simp add: accepted_def t fair_rates_def)
  then show "(case t of (r, d) \<Rightarrow> pub_paid d) \<le> max 0 ((case t of (r, d) \<Rightarrow> cap_season r) - b)"
    using v(2,3) day_budget_bounds [of r b] by (auto simp: t check_totals_None)
qed

text \<open>The sets the days of an accepted season are checked under, each named by its day, in the order of the history.\<close>

fun under_sets :: "host \<Rightarrow> rules_state \<Rightarrow> nat \<Rightarrow> pub_day list \<Rightarrow> rules list \<Rightarrow> bool" where
  "under_sets H st prev [] [] = True"
| "under_sets H st prev (d # ds) (r # rs) = (\<exists>pos \<ge> prev. names_set H st d (pos, r) \<and> under_sets H st pos ds rs)"
| "under_sets H st prev _ _ = False"

lemma under_sets_later:
  "under_sets H st prev ds rs \<Longrightarrow> wf_rules st \<Longrightarrow> wf_rules st' \<Longrightarrow> keeps st st' \<Longrightarrow> under_sets H st' prev ds rs"
  by (induction H st prev ds rs rule: under_sets.induct) (auto dest: names_set_later)

lemma under_sets_history:
  "under_sets H st prev ds rs \<Longrightarrow> length rs = length ds \<and> set rs \<subseteq> set (RULE_HISTORY st)"
  by (induction H st prev ds rs rule: under_sets.induct) (auto dest: names_set_history)

lemma check_from_accepts:
  assumes "wf_rules st" "check_from H st n b prev ds = (st', Inr None)"
  shows "wf_rules st' \<and> keeps st st' \<and> (\<exists>rs. under_sets H st' prev ds rs
    \<and> booked accepted (\<lambda>(r, d). pub_paid d) b (zip rs ds))"
  using assms
proof (induction ds arbitrary: st n b prev)
  case (Cons d ds)
  obtain st1 res where S: "set_of_day H st d = (st1, Inr res)" "wf_rules st1" "keeps st st1"
    "pred_option (names_set H st1 d) res"
    by (rule set_of_day_spec [OF Cons.prems(1), of H d])
  have "eq_int (pd_day d) n" using Cons.prems(2) by (auto split: if_splits)
  with Cons.prems(2) S(1) obtain pos r where pr: "res = Some (pos, r)" "prev \<le> pos" "check_day r b d = Inr None"
    and rest: "check_from H st1 (n + 1) (b + pub_paid d) pos ds = (st', Inr None)"
    by (auto simp: pub_paid_def split: option.splits if_splits sum.splits)
  have IH: "wf_rules st' \<and> keeps st1 st' \<and> (\<exists>rs. under_sets H st' pos ds rs
      \<and> booked accepted (\<lambda>(r, d). pub_paid d) (b + pub_paid d) (zip rs ds))"
    by (rule Cons.IH [OF S(2) rest])
  then obtain rs where rs: "under_sets H st' pos ds rs" "booked accepted (\<lambda>(r, d). pub_paid d) (b + pub_paid d) (zip rs ds)"
    by blast
  have nm: "names_set H st1 d (pos, r)" using S(4) pr(1) by simp
  have "fair_rates r" using history_fair [OF S(2) names_set_history [OF nm]] .
  then have "accepted b (r, d)" using pr(3) by (simp add: accepted_def)
  moreover have "names_set H st' d (pos, r)" using nm names_set_later S(2) IH by blast
  ultimately have "under_sets H st' prev (d # ds) (r # rs)
      \<and> booked accepted (\<lambda>(r, d). pub_paid d) b (zip (r # rs) (d # ds))"
    using rs pr(2) by auto
  then show ?case using IH keeps_trans [OF S(3)] by blast
qed (auto intro: exI [of _ "[]"])


section \<open>The check always answers\<close>

lemma history_pays:
  assumes "wf_rules st" "r \<in> set (RULE_HISTORY st)"
  obtains kit where "pays_judge_presence r = Inr kit"
proof -
  obtain k ps a where "st = derived k ps a" using assms(1) by (rule wf_rules_cases)
  then have "\<exists>kit. pays_judge_presence r = Inr kit"
    using assms(2) by (auto simp: history_derived PUBLISHED_SETS_def opt_list_def rule_set_defs
        pays_judge_presence_def split: option.splits)
  then show ?thesis using that by blast
qed

lemma gross_of_total:
  assumes "pays_judge_presence r = Inr kit" "judge_active i = 0 \<or> judge_active i = 1"
    and "probation i = PBool b" "registration_not_dated i = PBool u" "kit \<or> judge_active i = 0 \<and> \<not> b \<and> \<not> u"
  shows "\<exists>g. gross_of i r = Inr g"
proof (cases kit)
  case True
  then obtain j bps k where "judge_active_per_day r = Some j" "probation_first_day_bps r = Some bps"
    using assms(1) by (auto simp: pays_judge_presence_True)
  then show ?thesis using assms True
    by (simp add: gross_of_def is_bool_def rkey_def Let_def)
next
  case False
  then show ?thesis using assms by (auto simp: gross_of_def is_bool_def Let_def)
qed

lemma kit_allows_pay_total:
  assumes "pays_judge_presence r = Inr kit" "good_kit (kit_version i)"
  shows "\<exists>b. kit_allows_pay i r = Inr b"
proof (cases kit)
  case True
  then obtain k where "kit_min r = Some k" using assms(1) by (auto simp: pays_judge_presence_True)
  then show ?thesis using assms True
    by (cases "kit_version i") (auto simp: kit_allows_pay_def good_kit_def rkey_def)
next
  case False
  then show ?thesis using assms by (auto simp: kit_allows_pay_def)
qed

lemma registration_allows_pay_total:
  "pays_judge_presence r = Inr kit \<Longrightarrow> \<exists>b. registration_allows_pay i r = Inr b"
  by (simp add: registration_allows_pay_def)

lemma check_amounts_total:
  assumes "pays_judge_presence r = Inr kit" "row_judge y = 0 \<or> row_judge y = 1" "good_kit (row_kit y)"
    and "kit \<or> row_judge y = 0 \<and> \<not> row_probation y \<and> \<not> row_undated y"
  shows "\<exists>v. check_amounts r y = Inr v"
proof -
  obtain g where g: "gross_of (facts_of_row y) r = Inr g"
    using gross_of_total [OF assms(1), of "facts_of_row y" "row_probation y" "row_undated y"] assms(2,4)
    by (auto simp: facts_of_row_def)
  obtain b where "kit_allows_pay (facts_of_row y) r = Inr b"
    using kit_allows_pay_total [OF assms(1), of "facts_of_row y"] assms(3) by (auto simp: facts_of_row_def)
  moreover obtain c where "registration_allows_pay (facts_of_row y) r = Inr c"
    using registration_allows_pay_total [OF assms(1)] by blast
  ultimately show ?thesis
    using g by (cases b; cases "row_address y = []"; cases "row_gross y = g") (auto simp: check_amounts_def Let_def)
qed

lemma check_row_total:
  assumes "pays_judge_presence r = Inr kit"
  shows "\<exists>v. check_row r kit seen x = Inr v"
proof (cases "\<exists>m a. p_id x = PStr m \<and> p_address x = PStr a \<and> m \<notin> set seen \<and> is_count (p_presence x)
    \<and> is_count (p_requests x) \<and> is_count (p_verdicts x) \<and> is_whole (p_gross x) \<and> is_whole (p_payable x)
    \<and> is_whole (p_paid x) \<and> (p_judge x = PInt 0 \<or> p_judge x = PInt 1) \<and> is_bool (p_probation x)
    \<and> is_bool (p_undated x) \<and> good_kit (p_kit x)
    \<and> (kit \<or> \<not> truthy (p_judge x) \<and> \<not> truthy (p_probation x) \<and> p_kit x = PNone \<and> \<not> truthy (p_undated x))")
  case True
  then obtain m a p q v g y z b u where x: "p_id x = PStr m" "p_address x = PStr a" "m \<notin> set seen"
    "p_presence x = PInt p" "0 \<le> p" "p_requests x = PInt q" "0 \<le> q" "p_verdicts x = PInt v" "0 \<le> v"
    "p_gross x = PInt g" "p_payable x = PInt y" "p_paid x = PInt z" "p_probation x = PBool b" "p_undated x = PBool u"
    and j: "p_judge x = PInt 0 \<or> p_judge x = PInt 1" "good_kit (p_kit x)"
    and k: "kit \<or> \<not> truthy (p_judge x) \<and> \<not> truthy (p_probation x) \<and> p_kit x = PNone \<and> \<not> truthy (p_undated x)"
    by (auto simp: is_count_iff is_whole_iff is_bool_iff)
  obtain w where w: "row_view x = Some w" "row_judge w = 0 \<or> row_judge w = 1" "row_kit w = p_kit x"
    "row_probation w = b" "row_undated w = u" "p_judge x = PInt (row_judge w)"
    using x j by (auto simp: row_view_def)
  have "check_row r kit seen x = check_amounts r w"
    using x j k w(1) by (auto simp: check_row_def is_count_iff is_whole_iff is_bool_iff)
  then show ?thesis using check_amounts_total [OF assms w(2)] w j k x by auto
next
  case False
  then show ?thesis by (cases "p_id x"; cases "p_address x") (auto simp: check_row_def)
qed

lemma check_rows_total: "pays_judge_presence r = Inr kit \<Longrightarrow> \<exists>v. check_rows r kit seen xs = Inr v"
proof (induction xs arbitrary: seen)
  case (Cons x xs)
  obtain v where "check_row r kit seen x = Inr v" using check_row_total [OF Cons.prems] by blast
  then show ?case using Cons by (cases v) auto
qed simp

lemma check_day_total:
  assumes "wf_rules st" "names_set H st d (pos, r)"
  shows "\<exists>v. check_day r b d = Inr v"
proof -
  obtain kit where kit: "pays_judge_presence r = Inr kit"
    using history_pays [OF assms(1) names_set_history [OF assms(2)]] by blast
  obtain v where v: "check_rows r kit [] (pd_rows d) = Inr v" using check_rows_total [OF kit] by blast
  show ?thesis
  proof (cases "v = None \<and> list_all is_whole [pd_gross d, pd_payable d, pd_budget d, pd_paid d, pd_num d, pd_den d]")
    case True
    then have rows: "list_all (\<lambda>x. row_view x \<noteq> None) (pd_rows d)"
      using check_rows_accepts [of r kit "[]" "pd_rows d"] v by (auto simp: list_all_iff)
    have "\<exists>w. day_view d = Some w"
      using True rows assms(2) by (auto simp: day_view_def is_whole_iff names_set_def)
    then show ?thesis using kit v True by (auto simp: check_day_def)
  next
    case False
    then show ?thesis using kit v by (cases v) (auto simp: check_day_def)
  qed
qed

lemma check_from_total:
  assumes "wf_rules st"
  shows "\<exists>st' v. check_from H st n b prev ds = (st', Inr v) \<and> wf_rules st' \<and> keeps st st'"
  using assms
proof (induction ds arbitrary: st n b prev)
  case (Cons d ds)
  obtain st1 res where S: "set_of_day H st d = (st1, Inr res)" "wf_rules st1" "keeps st st1"
    "pred_option (names_set H st1 d) res"
    by (rule set_of_day_spec [OF Cons.prems, of H d])
  show ?case
  proof (cases res)
    case None
    then show ?thesis using S Cons.prems by simp
  next
    case (Some pr)
    obtain pos r where pr: "pr = (pos, r)" by force
    have nm: "names_set H st1 d (pos, r)" using S(4) Some pr by simp
    obtain v where v: "check_day r b d = Inr v" using check_day_total [OF S(2) nm] by blast
    let ?b = "b + (case pd_paid d of PInt z \<Rightarrow> z | _ \<Rightarrow> 0)"
    obtain st2 w where IH: "check_from H st1 (n + 1) ?b pos ds = (st2, Inr w)" "wf_rules st2" "keeps st1 st2"
      using Cons.IH [OF S(2), of "n + 1" ?b pos] by blast
    show ?thesis
      using Cons.prems S Some pr v IH keeps_trans [OF S(3) IH(3)] by (cases v) (simp_all del: not_None_eq)
  qed
qed simp

section \<open>Properties of the check\<close>

text \<open>
  Whatever rankings are read, the check of the days always gives an answer: it never raises, and the fixing of
  the kit floor or of the fault commitments it may do on the way leaves the rules module consistent and changes
  nothing that was fixed.
\<close>

theorem check_days_total:
  assumes "rules_reachable H st"
  shows "\<exists>st' v. check_days H st days = (st', Inr v) \<and> wf_rules st' \<and> keeps st st'"
  unfolding check_days_def by (rule check_from_total [OF reachable_wf [OF assms]])

theorem check_days_total_witness:
  "\<exists>st' v. check_days sample_host (derived (Some 3) None None)
     [\<lparr>pd_day = PFloat 0, pd_fp = PNone, pd_gross = PNone, pd_payable = PNone, pd_budget = PNone, pd_paid = PNone,
       pd_num = PNone, pd_den = PNone, pd_rows = [], pd_kit_min = PStr ''x'', pd_jury = None, pd_evidence = PNone\<rparr>]
     = (st', Inr v)"
  using check_days_total [OF kit_reachable [of sample_host]] by blast

lemma sum_list_zip_snd:
  "length rs = length ds \<Longrightarrow> sum_list (map (\<lambda>(r, d). f d) (zip rs ds)) = sum_list (map f ds)"
  for f :: "'a \<Rightarrow> int"
  by (induction rs ds rule: list_induct2) auto

lemma booked_each: "booked ok paid b ts \<Longrightarrow> t \<in> set ts \<Longrightarrow> \<exists>b'. ok b' t"
  by (induction ts arbitrary: b) auto

lemma accepted_zip_view:
  assumes "booked accepted (\<lambda>(r, d). pub_paid d) b (zip rs ds)" "length rs = length ds" "d \<in> set ds"
  shows "\<exists>v r b'. r \<in> set rs \<and> day_view d = Some v \<and> payable_day v \<and> res_paid v = pub_paid d
    \<and> list_all (sound_row r) (res_rows v) \<and> accepted b' (r, d)"
proof -
  obtain n where n: "n < length ds" "d = ds ! n" using assms(3) by (metis in_set_conv_nth)
  then have "(rs ! n, d) \<in> set (zip rs ds)" using assms(2) by (auto simp: set_zip)
  then obtain b' where ok: "accepted b' (rs ! n, d)" using booked_each [OF assms(1)] by blast
  obtain v where "day_view d = Some v" "payable_day v" "res_paid v = pub_paid d" "list_all (sound_row (rs ! n)) (res_rows v)"
    using ok by (rule accepted_view)
  moreover have "rs ! n \<in> set rs" using n assms(2) by simp
  ultimately show ?thesis using ok by blast
qed

definition within_formula :: "rules \<Rightarrow> row \<Rightarrow> bool" where
  "within_formula r x \<longleftrightarrow> 0 \<le> row_paid x \<and> row_paid x \<le> row_gross x
     \<and> gross_of (facts_of_row x) r = Inr (row_gross x) \<and> (row_address x = [] \<longrightarrow> row_paid x = 0)"

lemma accepted_day_bounds:
  assumes "accepted b (r, d)" "cap_programme_day r \<le> cap"
  shows "\<exists>v. day_view d = Some v \<and> 0 \<le> res_paid v \<and> res_paid v \<le> cap \<and> (\<forall>x \<in> set (res_rows v). within_formula r x)"
proof -
  obtain v where v: "day_view d = Some v" "res_paid v = pub_paid d" "list_all (sound_row r) (res_rows v)"
    using assms(1) by (rule accepted_view)
  have g: "fair_rates r" using assms(1) by (simp add: accepted_def)
  have "\<forall>x \<in> set (res_rows v). within_formula r x"
    using v(3) gross_of_nonneg [OF _ g] by (force simp: list_all_iff sound_row_def within_formula_def)
  moreover have "0 \<le> res_paid v" "res_paid v \<le> cap"
    using payer.paid_nonneg [OF assms(1)] payer.paid_day_cap [OF assms(1)] assms(2) v(2) by auto
  ultimately show ?thesis using v by blast
qed

lemma accepted_week_totals:
  assumes "booked accepted (\<lambda>(r, d). pub_paid d) b (zip rs days)" "length rs = length days" "set w \<subseteq> set days"
  shows "\<exists>out. week_totals (map (\<lambda>d. the (day_view d)) w) = Inr out \<and> dict_sum out = sum_list (map pub_paid w)"
proof -
  have each: "payable_day (the (day_view d)) \<and> res_paid (the (day_view d)) = pub_paid d" if "d \<in> set w" for d
  proof -
    have "d \<in> set days" using that assms(3) by blast
    from accepted_zip_view [OF assms(1,2) this] show ?thesis by auto
  qed
  then have "map res_paid (map (\<lambda>d. the (day_view d)) w) = map pub_paid w" by simp
  moreover have "\<forall>v \<in> set (map (\<lambda>d. the (day_view d)) w). payable_day v" using each by auto
  ultimately show ?thesis using week_totals_exact by metis
qed

text \<open>What the days the check accepts pay in all is under the season's cap.\<close>

lemma checked_season_total:
  assumes "wf_rules st" "check_days H st days = (st', Inr None)"
  shows "sum_list (map pub_paid days) \<le> 3000 * UDNDR"
proof -
  obtain rs where st': "wf_rules st'" and us: "under_sets H st' 0 days rs"
    and book: "booked accepted (\<lambda>(r, d). pub_paid d) 0 (zip rs days)"
    using check_from_accepts [OF assms(1)] assms(2) unfolding check_days_def by blast
  have len: "length rs = length days" and hist: "set rs \<subseteq> set (RULE_HISTORY st')"
    using under_sets_history [OF us] by auto
  have "\<forall>t \<in> set (zip rs days). (case t of (r, d) \<Rightarrow> cap_season r) \<le> 3000 * UDNDR"
    using hist history_caps [OF st'] by (auto dest!: set_zip_leftD)
  then show ?thesis
    using payer.booked_season [OF book, of "3000 * UDNDR"] by (simp add: sum_list_zip_snd [OF len] UDNDR_def)
qed


end
