(* ===== verification/Cosmos_Addr.thy ===== *)
theory Cosmos_Addr
  imports Py_Values "HOL-Library.Word"
begin

text \<open>
  Account addresses: bech32 and the address of a public key, \<open>src/services/modea/cosmos_addr.py\<close>, and which
  addresses can be paid, \<open>src/services/final_season_address.py\<close>. Python's integers are \<open>int\<close>, its shifts and
  bitwise operators the library's. The two hash functions are fields of the host.
\<close>

unbundle bit_operations_syntax

section \<open>Bech32\<close>

definition CHARSET :: string where
  "CHARSET = ''qpzry9x8gf2tvdw0s3jn54khce6mua7l''"

definition bech_gen :: "int list" where
  "bech_gen = [0x3B6A57B2, 0x26508E6D, 0x1EA119FA, 0x3D4233DD, 0x2A1462B3]"

definition polymod_step :: "int \<Rightarrow> int \<Rightarrow> int" where
  "polymod_step chk v =
     (let top = drop_bit 25 chk
      in foldl (\<lambda>c i. c XOR (if drop_bit i top AND 1 \<noteq> 0 then bech_gen ! i else 0))
           (push_bit 5 (chk AND 0x1FFFFFF) XOR v) [0, 1, 2, 3, 4])"

definition polymod :: "int list \<Rightarrow> int" where
  "polymod vs = foldl polymod_step 1 vs"

abbreviation ord :: "char \<Rightarrow> int" where
  "ord c \<equiv> of_char c"

definition hrp_expand :: "string \<Rightarrow> int list" where
  "hrp_expand hrp = map (\<lambda>c. drop_bit 5 (ord c)) hrp @ [0] @ map (\<lambda>c. ord c AND 31) hrp"

text \<open>The inner loop of \<open>_convertbits\<close>: the groups of \<open>tobits\<close> bits that are complete (\<open>tobits\<close> is positive).\<close>

function emit :: "int \<Rightarrow> nat \<Rightarrow> nat \<Rightarrow> nat \<times> int list" where
  "emit acc bits tobits =
     (if tobits = 0 \<or> bits < tobits then (bits, [])
      else (let (left, ret) = emit acc (bits - tobits) tobits
            in (left, (drop_bit (bits - tobits) acc AND (2 ^ tobits - 1)) # ret)))"
  by pat_completeness auto
termination
  by (relation "measure (\<lambda>(acc, bits, tobits). bits)") auto

declare emit.simps [simp del]

fun regroup :: "nat \<Rightarrow> nat \<Rightarrow> int \<Rightarrow> nat \<Rightarrow> int list \<Rightarrow> (int \<times> nat \<times> int list) option" where
  "regroup frombits tobits acc bits [] = Some (acc, bits, [])"
| "regroup frombits tobits acc bits (b # bs) =
     (if b < 0 \<or> drop_bit frombits b \<noteq> 0 then None
      else
        (let acc1 = (push_bit frombits acc OR b) AND (2 ^ (frombits + tobits - 1) - 1);
             (bits1, out) = emit acc1 (bits + frombits) tobits
         in case regroup frombits tobits acc1 bits1 bs of
              None \<Rightarrow> None
            | Some (acc2, bits2, ret) \<Rightarrow> Some (acc2, bits2, out @ ret)))"

definition convertbits :: "int list \<Rightarrow> nat \<Rightarrow> nat \<Rightarrow> bool \<Rightarrow> int list option" where
  "convertbits data frombits tobits pad =
     (case regroup frombits tobits 0 0 data of
        None \<Rightarrow> None
      | Some (acc, bits, ret) \<Rightarrow>
          (let tail = push_bit (tobits - bits) acc AND (2 ^ tobits - 1)
           in if pad then Some (if bits \<noteq> 0 then ret @ [tail] else ret)
              else if bits \<ge> frombits \<or> tail \<noteq> 0 then None
              else Some ret))"

definition bech32_encode :: "string \<Rightarrow> int list \<Rightarrow> string" where
  "bech32_encode hrp data =
     (let chk = polymod (hrp_expand hrp @ data @ [0, 0, 0, 0, 0, 0]) XOR 1;
          checksum = map (\<lambda>i. drop_bit (5 * (5 - i)) chk AND 31) [0..<6]
      in hrp @ ''1'' @ map (\<lambda>d. CHARSET ! nat d) (data @ checksum))"

definition lower_char :: "char \<Rightarrow> char" where
  "lower_char c = (if 65 \<le> ord c \<and> ord c \<le> 90 then char_of (of_char c + 32 :: nat) else c)"

definition upper_char :: "char \<Rightarrow> char" where
  "upper_char c = (if 97 \<le> ord c \<and> ord c \<le> 122 then char_of (of_char c - 32 :: nat) else c)"

definition lower :: "string \<Rightarrow> string" where
  "lower s = map lower_char s"

definition upper :: "string \<Rightarrow> string" where
  "upper s = map upper_char s"

text \<open>\<open>s.rfind("1")\<close>: what stands before and after the last \<open>1\<close>.\<close>

definition split_last_one :: "string \<Rightarrow> (string \<times> string) option" where
  "split_last_one s =
     (if CHR ''1'' \<notin> set s then None
      else let data = rev (takeWhile (\<lambda>c. c \<noteq> CHR ''1'') (rev s))
           in Some (take (length s - length data - 1) s, data))"

definition charset_find :: "char \<Rightarrow> int" where
  "charset_find c = int (length (takeWhile (\<lambda>x. x \<noteq> c) CHARSET))"

definition bech32_decode :: "string \<Rightarrow> (string \<times> int list) option" where
  "bech32_decode addr =
     (if list_ex (\<lambda>c. ord c < 33 \<or> ord c > 126) addr then None
      else if lower addr \<noteq> addr \<and> upper addr \<noteq> addr then None
      else (case split_last_one (lower addr) of
          None \<Rightarrow> None
        | Some (hrp, data) \<Rightarrow>
            if length hrp < 1 \<or> length hrp + 7 > length addr \<or> length addr > 90 then None
            else if list_ex (\<lambda>c. c \<notin> set CHARSET) data then None
            else (let dec = map charset_find data
                  in if polymod (hrp_expand hrp @ dec) \<noteq> 1 then None
                     else Some (hrp, take (length dec - 6) dec))))"

section \<open>Bytes from hexadecimal digits\<close>

text \<open>\<open>bytes.fromhex\<close>: pairs of hexadecimal digits of either case, ASCII blanks allowed between them.\<close>

definition hex_blank :: "char \<Rightarrow> bool" where
  "hex_blank c \<longleftrightarrow> (let n = (of_char c :: nat) in (9 \<le> n \<and> n \<le> 13) \<or> n = 32)"

definition hex_nibble :: "char \<Rightarrow> nat option" where
  "hex_nibble c = (let n = of_char (lower_char c) in
     if 48 \<le> n \<and> n \<le> 57 then Some (n - 48) else if 97 \<le> n \<and> n \<le> 102 then Some (n - 87) else None)"

fun from_hex :: "string \<Rightarrow> string option" where
  "from_hex [] = Some []"
| "from_hex [c] = (if hex_blank c then Some [] else None)"
| "from_hex (c # e # s) =
     (if hex_blank c then from_hex (e # s)
      else (case (hex_nibble c, hex_nibble e) of
          (Some a, Some b) \<Rightarrow> map_option ((#) (char_of (16 * a + b))) (from_hex s)
        | _ \<Rightarrow> None))"

lemma hex_digit_facts:
  assumes "n < 16"
  shows "hex_nibble (hex_digit n) = Some n" "\<not> hex_blank (hex_digit n)" "lower_char (hex_digit n) = hex_digit n"
proof -
  have "n \<in> set [0..<16]" using assms by simp
  moreover have "\<forall>n \<in> set [0..<16]. hex_nibble (hex_digit n) = Some n \<and> \<not> hex_blank (hex_digit n) \<and> lower_char (hex_digit n) = hex_digit n"
    by code_simp
  ultimately show "hex_nibble (hex_digit n) = Some n" "\<not> hex_blank (hex_digit n)" "lower_char (hex_digit n) = hex_digit n" by blast+
qed

interpretation hex: codec hexdigest from_hex "\<lambda>bs. True"
proof
  fix bs :: string
  show "from_hex (hexdigest bs) = Some bs"
  proof (induction bs)
    case (Cons c bs)
    let ?n = "of_char c :: nat"
    have "?n div 16 < 16" by (rule less_mult_imp_div_less) (use nat_of_char_less_256 [of c] in simp)
    then have "from_hex (hex_byte c @ hexdigest bs) = Some (c # bs)"
      using Cons by (simp add: hex_byte_def hex_digit_facts)
    then show ?case by (simp add: hexdigest_def)
  qed (simp add: hexdigest_def)
qed

lemma lower_hexdigest: "lower (hexdigest bs) = hexdigest bs"
proof (induction bs)
  case (Cons c bs)
  have "(of_char c :: nat) div 16 < 16" by (rule less_mult_imp_div_less) (use nat_of_char_less_256 [of c] in simp)
  then have "lower (hex_byte c) = hex_byte c" by (simp add: lower_def hex_byte_def hex_digit_facts)
  then show ?case using Cons by (simp add: lower_def hexdigest_def)
qed (simp add: lower_def hexdigest_def)

section \<open>Addresses\<close>

definition octets :: "string \<Rightarrow> int list" where
  "octets bs = map ord bs"

definition address_from_pubkey :: "host \<Rightarrow> string \<Rightarrow> string \<Rightarrow> string \<Rightarrow> string result" where
  "address_from_pubkey H pubkey hrp algo =
     bind_res
       (if algo = ''secp256k1'' then
          (if length pubkey \<noteq> 33 \<or> ord (hd pubkey) \<notin> {2, 3} then Inl ValueError
           else Inr (ripemd160 H (sha256 H pubkey)))
        else if algo = ''ed25519'' then
          (if length pubkey \<noteq> 32 then Inl ValueError else Inr (take 20 (sha256 H pubkey)))
        else Inl ValueError)
       (\<lambda>h. case convertbits (octets h) 8 5 True of
          None \<Rightarrow> Inl ValueError
        | Some five \<Rightarrow> Inr (bech32_encode hrp five))"

definition pubkey_matches_address :: "host \<Rightarrow> string \<Rightarrow> string \<Rightarrow> string \<Rightarrow> bool" where
  "pubkey_matches_address H pubkey address algo =
     (case bech32_decode address of
        None \<Rightarrow> False
      | Some (hrp, data) \<Rightarrow>
          (case address_from_pubkey H pubkey hrp algo of
             Inl e \<Rightarrow> False | Inr a \<Rightarrow> a = lower address))"

definition BLOCKED_MODULES :: "string list" where
  "BLOCKED_MODULES = [''fee_collector'', ''distribution'', ''bonded_tokens_pool'', ''not_bonded_tokens_pool'', ''nft'']"

definition module_address :: "host \<Rightarrow> string \<Rightarrow> string" where
  "module_address H name =
     (case convertbits (octets (take 20 (sha256 H name))) 8 5 True of
        None \<Rightarrow> [] | Some five \<Rightarrow> bech32_encode ''dendra'' five)"

definition BLOCKED_ADDRESSES :: "host \<Rightarrow> string list" where
  "BLOCKED_ADDRESSES H = map (module_address H) BLOCKED_MODULES"

text \<open>Why an address cannot be paid; \<open>None\<close> is the empty string of the code.\<close>

datatype unpayable = NotDendra | WrongLength | ModuleAccount

definition payable_address :: "host \<Rightarrow> pyval \<Rightarrow> unpayable option" where
  "payable_address H v = (case v of
     PStr addr \<Rightarrow>
       (case bech32_decode addr of
          None \<Rightarrow> Some NotDendra
        | Some (hrp, data) \<Rightarrow>
            if hrp \<noteq> ''dendra'' then Some NotDendra
            else (case convertbits data 5 8 False of
                None \<Rightarrow> Some WrongLength
              | Some raw \<Rightarrow>
                  if length raw \<noteq> 20 \<and> length raw \<noteq> 32 then Some WrongLength
                  else if lower addr \<in> set (BLOCKED_ADDRESSES H) then Some ModuleAccount
                  else None))
   | _ \<Rightarrow> Some NotDendra)"


section \<open>The checksum\<close>

text \<open>The feedback of a step, and the step, are linear over exclusive or.\<close>

definition feedback :: "int \<Rightarrow> int" where
  "feedback t = (if bit t 0 then 0x3B6A57B2 else 0) XOR (if bit t 1 then 0x26508E6D else 0)
     XOR (if bit t 2 then 0x1EA119FA else 0) XOR (if bit t 3 then 0x3D4233DD else 0)
     XOR (if bit t 4 then 0x2A1462B3 else 0)"

lemma polymod_step_feedback:
  "polymod_step chk v = push_bit 5 (chk AND 0x1FFFFFF) XOR v XOR feedback (drop_bit 25 chk)"
  by (simp add: polymod_step_def Let_def feedback_def bech_gen_def bit_iff_odd_drop_bit and_one_eq odd_iff_mod_2_eq_one
      xor.assoc)

lemma if_xor: "(if p \<noteq> q then g else 0) = (if p then g else 0) XOR (if q then (g :: int) else 0)"
  by simp

lemma feedback_xor: "feedback (a XOR b) = feedback a XOR feedback b"
  unfolding feedback_def bit_xor_iff if_xor by (simp only: xor.assoc xor.commute xor.left_commute)

lemma polymod_step_xor: "polymod_step (a XOR b) (v XOR w) = polymod_step a v XOR polymod_step b w"
proof -
  have "(a XOR b) AND 0x1FFFFFF = (a AND 0x1FFFFFF) XOR (b AND 0x1FFFFFF)"
    by (rule bit_eqI) (auto simp: bit_simps)
  then show ?thesis
    by (simp only: polymod_step_feedback push_bit_xor drop_bit_xor feedback_xor ac_simps)
qed

lemma foldl_polymod_xor:
  "length vs = length ws \<Longrightarrow>
     foldl polymod_step (a XOR b) (map2 (XOR) vs ws) = foldl polymod_step a vs XOR foldl polymod_step b ws"
  by (induction vs ws arbitrary: a b rule: list_induct2) (simp_all add: polymod_step_xor)

lemma feedback_range: "0 \<le> feedback t \<and> feedback t < 2 ^ 30"
  by (simp add: feedback_def)

lemma xor_less_30: "0 \<le> (a :: int) \<Longrightarrow> a < 2 ^ 30 \<Longrightarrow> 0 \<le> b \<Longrightarrow> b < 2 ^ 30 \<Longrightarrow> 0 \<le> a XOR b \<and> a XOR b < 2 ^ 30"
  using XOR_upper [of a 30 b] by simp

text \<open>Every state of the checksum fits 30 bits.\<close>

lemma and_mask_25: "chk AND 0x1FFFFFF = take_bit 25 (chk :: int)"
  by (simp add: take_bit_eq_mask mask_eq_exp_minus_1)

lemma push_bit_disjoint:
  fixes a v :: int
  assumes "0 \<le> v" "v < 2 ^ k"
  shows "push_bit k a AND v = 0"
proof (rule bit_eqI)
  fix n
  have "take_bit k v = v" using assms by (simp add: take_bit_int_eq_self)
  then have "bit v n \<Longrightarrow> n < k" by (metis bit_take_bit_iff)
  then show "bit (push_bit k a AND v) n = bit 0 n" by (auto simp: bit_simps)
qed

lemma polymod_step_range:
  assumes "0 \<le> v" "v < 32"
  shows "0 \<le> polymod_step chk v \<and> polymod_step chk v < 2 ^ 30"
proof -
  have "0 \<le> take_bit 25 chk" "take_bit 25 chk < 2 ^ 25" by (simp, rule take_bit_int_less_exp)
  then have p: "0 \<le> push_bit 5 (take_bit 25 chk)" "push_bit 5 (take_bit 25 chk) < 2 ^ 30"
    by (simp_all add: push_bit_eq_mult)
  have "0 \<le> v XOR feedback (drop_bit 25 chk) \<and> v XOR feedback (drop_bit 25 chk) < 2 ^ 30"
    using feedback_range [of "drop_bit 25 chk"] assms by (intro xor_less_30) auto
  with p show ?thesis unfolding polymod_step_feedback and_mask_25 by (intro xor_less_30) auto
qed

text \<open>From a state below 2 to the 25 a step only appends its five bits.\<close>

lemma polymod_step_small:
  assumes "0 \<le> a" "a < 2 ^ 25" "0 \<le> v" "v < 32"
  shows "polymod_step a v = 32 * a + v"
proof -
  have "drop_bit 25 a = 0" using assms by (simp add: drop_bit_eq_div)
  moreover have "take_bit 25 a = a" using assms by (simp add: take_bit_int_eq_self)
  moreover have "push_bit 5 a + v = push_bit 5 a XOR v"
    using assms(3,4) by (intro disjunctive_add_eq_xor push_bit_disjoint) auto
  ultimately show ?thesis by (simp add: polymod_step_feedback and_mask_25 feedback_def push_bit_eq_mult)
qed

lemma horner_step:
  fixes x m :: int
  assumes "0 < m"
  shows "32 * (x div (m * 32)) + x div m mod 32 = x div m"
  using assms by (simp add: zdiv_zmult2_eq)

definition five_bits :: "int \<Rightarrow> nat \<Rightarrow> int" where
  "five_bits x k = x div 32 ^ k mod 32"

lemma polymod_digits:
  assumes "0 \<le> x" "x < 2 ^ 30"
  shows "foldl polymod_step 0 (map (five_bits x) [5, 4, 3, 2, 1, 0]) = x"
proof -
  have bound: "0 \<le> x div 32 ^ Suc k \<and> x div 32 ^ Suc k < 2 ^ 25" for k
  proof -
    have "x div 32 ^ Suc k \<le> x div 32" using assms(1) by (intro zdiv_mono2) (auto simp: self_le_power)
    moreover have "x div 32 < 2 ^ 25" using assms by simp
    ultimately show ?thesis using assms(1) by (simp add: pos_imp_zdiv_nonneg_iff)
  qed
  have step: "polymod_step (x div 32 ^ Suc k) (five_bits x k) = x div 32 ^ k" for k
    using bound [of k] horner_step [of "32 ^ k" x]
    by (subst polymod_step_small) (simp_all add: five_bits_def mult.commute)
  have "x div 32 ^ Suc 5 = 0" using assms by simp
  then have "polymod_step 0 (five_bits x 5) = x div 32 ^ 5" using step [of 5] by simp
  then show ?thesis
    using step [of 4] step [of 3] step [of 2] step [of 1] step [of 0] by (simp add: numeral_eq_Suc)
qed

definition checksum_of :: "string \<Rightarrow> int list \<Rightarrow> int list" where
  "checksum_of hrp data = map (five_bits (polymod (hrp_expand hrp @ data @ [0, 0, 0, 0, 0, 0]) XOR 1)) [5, 4, 3, 2, 1, 0]"

lemma bech32_encode_checksum:
  "bech32_encode hrp data = hrp @ ''1'' @ map (\<lambda>d. CHARSET ! nat d) (data @ checksum_of hrp data)"
proof -
  have "drop_bit (5 * k) x AND 31 = five_bits x k" for k and x :: int
  proof -
    have "drop_bit (5 * k) x AND 31 = take_bit 5 (drop_bit (5 * k) x)"
      by (simp add: take_bit_eq_mask mask_eq_exp_minus_1)
    also have "\<dots> = five_bits x k"
      by (simp add: five_bits_def take_bit_eq_mod drop_bit_eq_div power_mult)
    finally show ?thesis .
  qed
  from this [of 5] this [of 4] this [of 3] this [of 2] this [of 1] this [of 0] show ?thesis
    by (simp add: bech32_encode_def Let_def checksum_of_def upt_rec)
qed

lemma foldl_polymod_range:
  "vs \<noteq> [] \<Longrightarrow> \<forall>v \<in> set vs. 0 \<le> v \<and> v < 32 \<Longrightarrow> 0 \<le> foldl polymod_step a vs \<and> foldl polymod_step a vs < 2 ^ 30"
  by (induction vs rule: rev_induct) (simp_all add: polymod_step_range [simplified])

text \<open>The checksum makes the whole a codeword.\<close>

lemma checksum_valid: "polymod (hrp_expand hrp @ data @ checksum_of hrp data) = 1"
proof -
  let ?z = "[0, 0, 0, 0, 0, 0 :: int]" and ?c = "checksum_of hrp data"
  let ?s = "foldl polymod_step 1 (hrp_expand hrp @ data)"
  let ?p = "foldl polymod_step ?s ?z"
  have "0 \<le> ?p \<and> ?p < 2 ^ 30" by (rule foldl_polymod_range) auto
  then have x: "0 \<le> ?p XOR 1 \<and> ?p XOR 1 < 2 ^ 30" by (intro xor_less_30) auto
  have p: "polymod (hrp_expand hrp @ data @ ?z) = ?p" by (simp add: polymod_def)
  have "map2 (XOR) ?z ?c = ?c" by (simp add: checksum_of_def)
  then have "foldl polymod_step ?s ?c = foldl polymod_step (?s XOR 0) (map2 (XOR) ?z ?c)" by simp
  also have "\<dots> = ?p XOR foldl polymod_step 0 ?c"
    by (rule foldl_polymod_xor) (simp add: checksum_of_def)
  also have "foldl polymod_step 0 ?c = ?p XOR 1"
    unfolding checksum_of_def p using x by (intro polymod_digits) auto
  also have "?p XOR (?p XOR 1) = 1" by (simp add: xor.assoc [symmetric])
  finally show ?thesis by (simp add: polymod_def)
qed


section \<open>Decoding what was encoded\<close>

definition address_char :: "char \<Rightarrow> bool" where
  "address_char c \<longleftrightarrow> 33 \<le> ord c \<and> ord c \<le> 126 \<and> lower_char c = c"

definition five_bit :: "int \<Rightarrow> bool" where
  "five_bit d \<longleftrightarrow> 0 \<le> d \<and> d < 32"

definition valid_bech :: "string \<times> int list \<Rightarrow> bool" where
  "valid_bech = (\<lambda>(hrp, data). hrp \<noteq> [] \<and> list_all address_char hrp \<and> list_all five_bit data
     \<and> length hrp + length data + 7 \<le> 90)"

lemma charset_table:
  "list_all (\<lambda>n. charset_find (CHARSET ! n) = int n \<and> address_char (CHARSET ! n) \<and> CHARSET ! n \<noteq> CHR ''1''
     \<and> CHARSET ! n \<in> set CHARSET) [0..<32]"
  by code_simp

lemma charset_at:
  assumes "five_bit d"
  shows "charset_find (CHARSET ! nat d) = d" "address_char (CHARSET ! nat d)" "CHARSET ! nat d \<noteq> CHR ''1''"
    "CHARSET ! nat d \<in> set CHARSET"
  using charset_table assms by (auto simp: list_all_iff five_bit_def)

lemma split_last_one_append:
  assumes "CHR ''1'' \<notin> set data"
  shows "split_last_one (hrp @ ''1'' @ data) = Some (hrp, data)"
proof -
  have "takeWhile (\<lambda>c. c \<noteq> CHR ''1'') (rev data @ CHR ''1'' # rev hrp) = rev data"
    using assms by (subst takeWhile_append2) auto
  then show ?thesis by (simp add: split_last_one_def Let_def)
qed

lemma five_bit_checksum: "list_all five_bit (checksum_of hrp data)"
  by (simp add: checksum_of_def five_bit_def five_bits_def)

lemma lower_id: "list_all address_char s \<Longrightarrow> lower s = s"
  by (induction s) (auto simp: lower_def address_char_def)

lemma bech32_roundtrip:
  assumes "valid_bech (hrp, data)"
  shows "bech32_decode (bech32_encode hrp data) = Some (hrp, data)"
proof -
  let ?full = "data @ checksum_of hrp data" and ?c = "map (\<lambda>d. CHARSET ! nat d)"
  have v: "hrp \<noteq> []" "list_all address_char hrp" "list_all five_bit data" "length hrp + length data + 7 \<le> 90"
    using assms by (auto simp: valid_bech_def)
  have full: "\<forall>d \<in> set ?full. five_bit d"
    using v(3) five_bit_checksum [of hrp data] by (auto simp: list_all_iff)
  have len: "length (checksum_of hrp data) = 6" by (simp add: checksum_of_def)
  have enc: "bech32_encode hrp data = hrp @ ''1'' @ ?c ?full" by (rule bech32_encode_checksum)
  have chars: "list_all address_char (bech32_encode hrp data)"
    using v(2) full charset_at(2) by (auto simp: enc list_all_iff address_char_def [of "CHR ''1''"] lower_char_def)
  have split: "split_last_one (bech32_encode hrp data) = Some (hrp, ?c ?full)"
    unfolding enc using full charset_at(3) by (intro split_last_one_append) force
  have dec: "map charset_find (?c ?full) = ?full"
    unfolding map_map comp_def using full charset_at(1) by (intro map_idI) blast
  have "\<not> list_ex (\<lambda>c. c \<notin> set CHARSET) (?c ?full)"
    using full charset_at(4) by (auto simp: list_ex_iff)
  moreover have "\<not> list_ex (\<lambda>c. ord c < 33 \<or> ord c > 126) (bech32_encode hrp data)"
    using chars by (auto simp: list_ex_iff list_all_iff address_char_def)
  moreover have "polymod (hrp_expand hrp @ ?full) = 1" by (rule checksum_valid)
  moreover have "length (bech32_encode hrp data) = length hrp + length data + 7" by (simp add: enc len)
  moreover have "1 \<le> length hrp" using v(1) by (cases hrp) auto
  ultimately show ?thesis
    unfolding bech32_decode_def lower_id [OF chars] split dec Let_def option.case prod.case
    using v(1,4) len by simp
qed

interpretation bech32: codec "\<lambda>(hrp, data). bech32_encode hrp data" bech32_decode valid_bech
  by unfold_locales (auto simp: bech32_roundtrip)


section \<open>Regrouping bits\<close>

text \<open>The number a list of \<open>b\<close>-bit groups writes, most significant first.\<close>

definition digits_num :: "nat \<Rightarrow> int list \<Rightarrow> int" where
  "digits_num b xs = foldl (\<lambda>a x. a * 2 ^ b + x) 0 xs"

definition group_of :: "nat \<Rightarrow> int \<Rightarrow> bool" where
  "group_of b x \<longleftrightarrow> 0 \<le> x \<and> x < 2 ^ b"

lemma foldl_digits: "foldl (\<lambda>a x. a * 2 ^ b + x) a xs = a * 2 ^ (b * length xs) + digits_num b xs"
proof (induction xs arbitrary: a)
  case (Cons x xs)
  have "digits_num b (x # xs) = x * 2 ^ (b * length xs) + digits_num b xs"
    using Cons.IH [of x] by (simp add: digits_num_def)
  then show ?case using Cons.IH [of "a * 2 ^ b + x"] by (simp add: power_add algebra_simps)
qed (simp add: digits_num_def)

lemma digits_num_Nil [simp]: "digits_num b [] = 0"
  by (simp add: digits_num_def)

lemma digits_num_Cons: "digits_num b (x # xs) = x * 2 ^ (b * length xs) + digits_num b xs"
  using foldl_digits [of b x xs] by (simp add: digits_num_def)

lemma digits_num_append: "digits_num b (xs @ ys) = digits_num b xs * 2 ^ (b * length ys) + digits_num b ys"
  using foldl_digits [of b "digits_num b xs" ys] by (simp add: digits_num_def)

lemma digits_num_range: "list_all (group_of b) xs \<Longrightarrow> 0 \<le> digits_num b xs \<and> digits_num b xs < 2 ^ (b * length xs)"
proof (induction xs)
  case (Cons x xs)
  let ?m = "2 ^ (b * length xs) :: int"
  have x: "0 \<le> x" "x < 2 ^ b" and r: "0 \<le> digits_num b xs" "digits_num b xs < ?m"
    using Cons by (auto simp: group_of_def)
  have "x * ?m + digits_num b xs < (x + 1) * ?m" using r by (simp add: distrib_right)
  also have "\<dots> \<le> 2 ^ b * ?m" using x by (intro mult_right_mono) auto
  finally show ?case using x r by (simp add: digits_num_Cons power_add)
qed simp

lemma digits_num_inj:
  "length xs = length ys \<Longrightarrow> list_all (group_of b) xs \<Longrightarrow> list_all (group_of b) ys \<Longrightarrow>
     digits_num b xs = digits_num b ys \<Longrightarrow> xs = ys"
proof (induction xs ys rule: list_induct2)
  case (Cons x xs y ys)
  let ?m = "2 ^ (b * length xs) :: int"
  have rx: "0 \<le> digits_num b xs" "digits_num b xs < ?m" and ry: "0 \<le> digits_num b ys" "digits_num b ys < ?m"
    using digits_num_range [of b xs] digits_num_range [of b ys] Cons.prems Cons.hyps by auto
  have eq: "x * ?m + digits_num b xs = y * ?m + digits_num b ys"
    using Cons.prems(3) Cons.hyps by (simp add: digits_num_Cons)
  have "(x * ?m + digits_num b xs) div ?m = x" "(y * ?m + digits_num b ys) div ?m = y"
    using rx ry by simp_all
  then have "x = y" using eq by simp
  with eq Cons show ?case by simp
qed simp

lemma split_low_bits:
  fixes acc :: int
  shows "acc mod 2 ^ (l + t) = (acc div 2 ^ l mod 2 ^ t) * 2 ^ l + acc mod 2 ^ l"
  by (simp add: power_add zmod_zmult2_eq mult.commute)

lemma emit_spec:
  assumes "0 < t" "emit acc bits t = (left, out)"
  shows "left < t \<and> bits = t * length out + left \<and> list_all (group_of t) out
    \<and> acc mod 2 ^ bits = digits_num t out * 2 ^ left + acc mod 2 ^ left"
  using assms
proof (induction acc bits t arbitrary: left out rule: emit.induct)
  case (1 acc bits t)
  show ?case
  proof (cases "bits < t")
    case True
    then show ?thesis using "1.prems" by (auto simp: emit.simps [of acc bits t])
  next
    case False
    obtain l o' where rec: "emit acc (bits - t) t = (l, o')" by force
    let ?h = "drop_bit (bits - t) acc AND (2 ^ t - 1)"
    have h: "?h = acc div 2 ^ (bits - t) mod 2 ^ t"
      by (simp add: drop_bit_eq_div mask_eq_exp_minus_1 [symmetric] take_bit_eq_mask [symmetric] take_bit_eq_mod)
    have lo: "left = l" "out = ?h # o'"
      using "1.prems"(2) False rec "1.prems"(1) by (auto simp: emit.simps [of acc bits t])
    have IH: "l < t" "bits - t = t * length o' + l" "list_all (group_of t) o'"
      "acc mod 2 ^ (bits - t) = digits_num t o' * 2 ^ l + acc mod 2 ^ l"
      using "1.IH" False "1.prems"(1) rec by auto
    have "acc mod 2 ^ bits = ?h * 2 ^ (bits - t) + acc mod 2 ^ (bits - t)"
      using split_low_bits [of acc "bits - t" t] False by (simp add: h)
    also have "(2 :: int) ^ (bits - t) = 2 ^ (t * length o') * 2 ^ l"
      by (simp only: IH(2) power_add)
    also have "acc mod (2 ^ (t * length o') * 2 ^ l) = digits_num t o' * 2 ^ l + acc mod 2 ^ l"
      using IH(4) by (simp only: IH(2) power_add)
    finally have "acc mod 2 ^ bits = digits_num t (?h # o') * 2 ^ l + acc mod 2 ^ l"
      by (simp add: digits_num_Cons distrib_right mult.assoc)
    moreover have "group_of t ?h" by (simp add: h group_of_def)
    ultimately show ?thesis using IH lo False by simp
  qed
qed

lemma push_or_low:
  fixes acc b :: int
  assumes "0 \<le> b" "b < 2 ^ f" "bits < t"
  shows "((push_bit f acc OR b) AND (2 ^ (f + t - 1) - 1)) mod 2 ^ (bits + f) = (acc mod 2 ^ bits) * 2 ^ f + b"
proof -
  have "(push_bit f acc OR b) AND (2 ^ (f + t - 1) - 1) = take_bit (f + t - 1) (push_bit f acc OR b)"
    by (simp add: mask_eq_exp_minus_1 [symmetric] take_bit_eq_mask)
  moreover have "push_bit f acc OR b = acc * 2 ^ f + b"
    using disjunctive_add_eq_or [OF push_bit_disjoint [OF assms(1,2)]] by (simp add: push_bit_eq_mult)
  moreover have "take_bit (bits + f) (take_bit (f + t - 1) (x :: int)) = take_bit (bits + f) x" for x
    using assms(3) by (simp add: min_absorb1)
  ultimately have "((push_bit f acc OR b) AND (2 ^ (f + t - 1) - 1)) mod 2 ^ (bits + f) = (acc * 2 ^ f + b) mod 2 ^ (bits + f)"
    by (metis take_bit_eq_mod)
  also have "\<dots> = (acc * 2 ^ f + b) div 2 ^ f mod 2 ^ bits * 2 ^ f + (acc * 2 ^ f + b) mod 2 ^ f"
    using split_low_bits [of "acc * 2 ^ f + b" f bits] by (simp add: add.commute)
  finally show ?thesis using assms(1,2) by simp
qed

lemma regroup_spec:
  assumes "0 < t" "bits < t" "list_all (group_of f) bs"
  shows "\<exists>acc2 bits2 ret. regroup f t acc bits bs = Some (acc2, bits2, ret) \<and> bits2 < t
    \<and> bits + f * length bs = t * length ret + bits2 \<and> list_all (group_of t) ret
    \<and> (acc mod 2 ^ bits) * 2 ^ (f * length bs) + digits_num f bs = digits_num t ret * 2 ^ bits2 + acc2 mod 2 ^ bits2"
  using assms(2,3)
proof (induction bs arbitrary: acc bits)
  case (Cons b bs)
  let ?a = "(push_bit f acc OR b) AND (2 ^ (f + t - 1) - 1)"
  obtain l out where em: "emit ?a (bits + f) t = (l, out)" by force
  have b: "0 \<le> b" "b < 2 ^ f" using Cons.prems(2) by (auto simp: group_of_def)
  note E = emit_spec [OF assms(1) em]
  have "\<exists>acc2 bits2 ret. regroup f t ?a l bs = Some (acc2, bits2, ret) \<and> bits2 < t
    \<and> l + f * length bs = t * length ret + bits2 \<and> list_all (group_of t) ret
    \<and> (?a mod 2 ^ l) * 2 ^ (f * length bs) + digits_num f bs = digits_num t ret * 2 ^ bits2 + acc2 mod 2 ^ bits2"
    using E Cons.prems(2) by (intro Cons.IH) auto
  then obtain acc2 bits2 ret where R: "regroup f t ?a l bs = Some (acc2, bits2, ret)" "bits2 < t"
    "l + f * length bs = t * length ret + bits2" "list_all (group_of t) ret"
    "(?a mod 2 ^ l) * 2 ^ (f * length bs) + digits_num f bs = digits_num t ret * 2 ^ bits2 + acc2 mod 2 ^ bits2"
    by blast
  have "drop_bit f b = 0" using b by (simp add: drop_bit_eq_div)
  then have run: "regroup f t acc bits (b # bs) = Some (acc2, bits2, out @ ret)"
    using b(1) em R(1) by (simp add: Let_def)
  have low: "(acc mod 2 ^ bits) * 2 ^ f + b = digits_num t out * 2 ^ l + ?a mod 2 ^ l"
    using trans [OF push_or_low [OF b Cons.prems(1), of acc, symmetric]] E by blast
  have "(2 :: int) ^ l * 2 ^ (f * length bs) = 2 ^ (t * length ret) * 2 ^ bits2"
    using R(3) by (simp flip: power_add)
  then have val: "digits_num t (out @ ret) * 2 ^ bits2 + acc2 mod 2 ^ bits2
      = digits_num t out * 2 ^ l * 2 ^ (f * length bs) + digits_num t ret * 2 ^ bits2 + acc2 mod 2 ^ bits2"
    by (simp add: digits_num_append distrib_right mult.assoc)
  also have "\<dots> = (digits_num t out * 2 ^ l + ?a mod 2 ^ l) * 2 ^ (f * length bs) + digits_num f bs"
    using R(5) by (simp add: distrib_right)
  also have "\<dots> = (acc mod 2 ^ bits) * 2 ^ (f * length (b # bs)) + digits_num f (b # bs)"
    by (simp only: low [symmetric] digits_num_Cons) (simp add: power_add distrib_right mult.assoc)
  finally show ?case using run R E Cons.prems by (simp add: distrib_left)
qed simp


text \<open>Eight to five bits with padding, then five to eight without: nothing is lost.\<close>

lemma convertbits_8_5:
  assumes "list_all (group_of 8) bs"
  obtains five pad where "convertbits bs 8 5 True = Some five" "list_all (group_of 5) five" "pad < 5"
    "5 * length five = 8 * length bs + pad" "digits_num 5 five = digits_num 8 bs * 2 ^ pad"
proof -
  obtain acc bits ret where R: "regroup 8 5 0 0 bs = Some (acc, bits, ret)" "bits < 5"
    "8 * length bs = 5 * length ret + bits" "list_all (group_of 5) ret"
    "digits_num 8 bs = digits_num 5 ret * 2 ^ bits + acc mod 2 ^ bits"
    using regroup_spec [OF _ _ assms, of 5 0 0] by auto
  show ?thesis
  proof (cases "bits = 0")
    case True
    then show ?thesis using R by (intro that [of ret 0]) (auto simp: convertbits_def)
  next
    case False
    let ?tail = "push_bit (5 - bits) acc AND (2 ^ 5 - 1)"
    have "?tail = take_bit 5 (push_bit (5 - bits) acc)"
      by (simp add: mask_eq_exp_minus_1 take_bit_eq_mask)
    also have "\<dots> = push_bit (5 - bits) (take_bit bits acc)"
      using R(2) by (simp add: take_bit_push_bit)
    finally have tail: "?tail = (acc mod 2 ^ bits) * 2 ^ (5 - bits)"
      by (simp add: push_bit_eq_mult take_bit_eq_mod)
    have p: "(2 :: int) ^ bits * 2 ^ (5 - bits) = 2 ^ 5" using R(2) by (simp flip: power_add)
    have "acc mod 2 ^ bits < 2 ^ bits" by simp
    then have "(acc mod 2 ^ bits) * 2 ^ (5 - bits) < 2 ^ bits * 2 ^ (5 - bits)" by simp
    then have g: "group_of 5 ?tail" by (simp only: tail group_of_def p) simp
    have "digits_num 5 (ret @ [?tail]) = digits_num 5 ret * (2 ^ bits * 2 ^ (5 - bits)) + (acc mod 2 ^ bits) * 2 ^ (5 - bits)"
      by (simp only: digits_num_append p tail) (simp add: digits_num_def)
    also have "\<dots> = digits_num 8 bs * 2 ^ (5 - bits)" by (simp add: R(5) distrib_right mult.assoc)
    finally have num: "digits_num 5 (ret @ [?tail]) = digits_num 8 bs * 2 ^ (5 - bits)" .
    show ?thesis
    proof (rule that [of "ret @ [?tail]" "5 - bits"])
      show "convertbits bs 8 5 True = Some (ret @ [?tail])" using R(1) False by (simp add: convertbits_def Let_def)
    qed (use R g num False in auto)
  qed
qed

lemma convertbits_5_8:
  assumes five: "list_all (group_of 5) five" and bs: "list_all (group_of 8) bs" and "pad < 5"
    and len: "5 * length five = 8 * length bs + pad" and num: "digits_num 5 five = digits_num 8 bs * 2 ^ pad"
  shows "convertbits five 5 8 False = Some bs"
proof -
  obtain acc bits ret where R: "regroup 5 8 0 0 five = Some (acc, bits, ret)" "bits < 8"
    "5 * length five = 8 * length ret + bits" "list_all (group_of 8) ret"
    "digits_num 5 five = digits_num 8 ret * 2 ^ bits + acc mod 2 ^ bits"
    using regroup_spec [OF _ _ five, of 8 0 0] by auto
  have same: "8 * length ret + bits = 8 * length bs + pad" using R(3) len by simp
  have "(8 * length ret + bits) div 8 = length ret" "(8 * length bs + pad) div 8 = length bs"
    using R(2) assms(3) by simp_all
  then have eq: "length ret = length bs" "bits = pad" using same by simp_all
  have val: "digits_num 8 bs * 2 ^ pad = digits_num 8 ret * 2 ^ pad + acc mod 2 ^ pad"
    using R(5) num eq(2) by simp
  then have "(digits_num 8 bs * 2 ^ pad) mod 2 ^ pad = (digits_num 8 ret * 2 ^ pad + acc mod 2 ^ pad) mod 2 ^ pad" by simp
  then have rem: "acc mod 2 ^ pad = 0" by simp
  with val have "digits_num 8 ret = digits_num 8 bs" by simp
  then have "ret = bs" using eq(1) R(4) bs by (intro digits_num_inj)
  have "push_bit (8 - bits) acc AND (2 ^ 8 - 1) = take_bit 8 (push_bit (8 - bits) acc)"
    by (simp add: mask_eq_exp_minus_1 take_bit_eq_mask)
  also have "\<dots> = push_bit (8 - bits) (take_bit bits acc)" using R(2) by (simp add: take_bit_push_bit)
  also have "\<dots> = 0" using rem eq(2) by (simp add: take_bit_eq_mod)
  finally show ?thesis using R(1) eq(2) assms(3) \<open>ret = bs\<close> by (simp add: convertbits_def Let_def)
qed

lemma ord_range: "0 \<le> ord c \<and> ord c < 256"
proof -
  have "ord c = int (of_char c)" by (simp add: of_nat_of_char)
  then show ?thesis using nat_of_char_less_256 [of c] by simp
qed

lemma octets_groups: "list_all (group_of 8) (octets bs)"
  using ord_range by (simp add: octets_def list_all_iff group_of_def)

lemma octets_inj: "octets a = octets b \<Longrightarrow> a = b"
  unfolding octets_def by (rule map_injective [OF _ inj_of_char])

section \<open>Derived addresses\<close>

text \<open>What the code relies on of the host: the lengths of the two digests.\<close>

definition digest_lengths :: "host \<Rightarrow> bool" where
  "digest_lengths H \<longleftrightarrow> (\<forall>x. length (sha256 H x) = 32 \<and> length (ripemd160 H x) = 20)"

definition key_hash :: "host \<Rightarrow> string \<Rightarrow> string \<Rightarrow> string" where
  "key_hash H pubkey algo = (if algo = ''secp256k1'' then ripemd160 H (sha256 H pubkey) else take 20 (sha256 H pubkey))"

definition account_address :: "string \<Rightarrow> string \<Rightarrow> string" where
  "account_address hrp h = bech32_encode hrp (the (convertbits (octets h) 8 5 True))"

definition short_hrp :: "string \<Rightarrow> bool" where
  "short_hrp hrp \<longleftrightarrow> hrp \<noteq> [] \<and> list_all address_char hrp \<and> length hrp \<le> 50"

lemma account_address_decodes:
  assumes "short_hrp hrp" "length h = 20"
  obtains five where "bech32_decode (account_address hrp h) = Some (hrp, five)"
    "convertbits five 5 8 False = Some (octets h)" "valid_bech (hrp, five)"
    "account_address hrp h = bech32_encode hrp five" "convertbits (octets h) 8 5 True = Some five"
proof -
  obtain five pad where F: "convertbits (octets h) 8 5 True = Some five" "list_all (group_of 5) five" "pad < 5"
    "5 * length five = 8 * length (octets h) + pad" "digits_num 5 five = digits_num 8 (octets h) * 2 ^ pad"
    using octets_groups by (rule convertbits_8_5)
  have "length (octets h) = 20" using assms(2) by (simp add: octets_def)
  then have "length five \<le> 32" using F(3,4) by linarith
  then have v: "valid_bech (hrp, five)"
    using assms(1) F(2) by (auto simp: valid_bech_def short_hrp_def list_all_iff five_bit_def group_of_def)
  have a: "account_address hrp h = bech32_encode hrp five" using F(1) by (simp add: account_address_def)
  show ?thesis
    by (rule that [OF _ convertbits_5_8 [OF F(2) octets_groups F(3,4,5)] v a F(1)]) (simp add: a bech32_roundtrip [OF v])
qed

lemma address_from_pubkey_Inr:
  assumes "address_from_pubkey H pubkey hrp algo = Inr a" "digest_lengths H"
  shows "a = account_address hrp (key_hash H pubkey algo) \<and> length (key_hash H pubkey algo) = 20"
proof -
  have "length (key_hash H pubkey algo) = 20"
    using assms(2) by (simp add: key_hash_def digest_lengths_def)
  moreover have "\<exists>five. convertbits (octets h) 8 5 True = Some five" for h
    using convertbits_8_5 [OF octets_groups] by metis
  ultimately show ?thesis
    using assms(1) by (auto simp: address_from_pubkey_def bind_res_eq_Inr key_hash_def account_address_def
        split: if_splits option.splits)
qed

lemma ord_nat: "ord c = int (of_char c)"
  by (simp add: of_nat_of_char)

lemma upper_char_cases:
  obtains "upper_char c = c" "\<not> (97 \<le> ord c \<and> ord c \<le> 122)"
  | "97 \<le> ord c" "ord c \<le> 122" "(of_char (upper_char c) :: nat) = of_char c - 32" "(97::nat) \<le> of_char c"
proof (cases "97 \<le> ord c \<and> ord c \<le> 122")
  case True
  then have "(97::nat) \<le> of_char c" "(of_char c :: nat) \<le> 122" by (simp_all add: ord_nat)
  then have "(of_char (upper_char c) :: nat) = of_char c - 32" using True by (simp add: upper_char_def)
  with True that(2) \<open>(97::nat) \<le> of_char c\<close> show ?thesis by blast
next
  case False
  with that(1) show ?thesis by (simp add: upper_char_def)
qed

lemma char_case:
  "lower_char c = c \<Longrightarrow> lower_char (upper_char c) = c" "upper_char (upper_char c) = upper_char c"
  "33 \<le> ord c \<Longrightarrow> ord c \<le> 126 \<Longrightarrow> 33 \<le> ord (upper_char c) \<and> ord (upper_char c) \<le> 126"
proof -
  show "lower_char c = c \<Longrightarrow> lower_char (upper_char c) = c"
    by (rule upper_char_cases [of c]) (auto simp: lower_char_def ord_nat)
  show "upper_char (upper_char c) = upper_char c"
    by (rule upper_char_cases [of c]) (auto simp: upper_char_def [of "upper_char c"] ord_nat)
  show "33 \<le> ord c \<Longrightarrow> ord c \<le> 126 \<Longrightarrow> 33 \<le> ord (upper_char c) \<and> ord (upper_char c) \<le> 126"
    by (rule upper_char_cases [of c]) (auto simp: ord_nat)
qed

lemma upper_address:
  assumes "list_all address_char s"
  shows "lower (upper s) = s" "upper (upper s) = upper s" "list_all (\<lambda>c. 33 \<le> ord c \<and> ord c \<le> 126) (upper s)"
  using assms char_case by (auto simp: lower_def upper_def list_all_iff address_char_def intro!: map_idI)


section \<open>Only one spelling per account\<close>

lemma foldl_polymod_num:
  "length cs \<le> 6 \<Longrightarrow> list_all five_bit cs \<Longrightarrow> foldl polymod_step 0 cs = digits_num 5 cs"
proof (induction cs rule: rev_induct)
  case (snoc c cs)
  have r: "0 \<le> digits_num 5 cs \<and> digits_num 5 cs < 2 ^ (5 * length cs)"
    using snoc.prems by (intro digits_num_range) (auto simp: list_all_iff five_bit_def group_of_def)
  have "(2 :: int) ^ (5 * length cs) \<le> 2 ^ 25" using snoc.prems by (intro power_increasing) auto
  then have "digits_num 5 cs < 2 ^ 25" using r by linarith
  moreover have "0 \<le> c" "c < 32" using snoc.prems by (auto simp: five_bit_def)
  ultimately show ?case using snoc r by (simp add: polymod_step_small digits_num_def)
qed simp

lemma checksum_unique:
  assumes "polymod (hrp_expand hrp @ data @ cs) = 1" "length cs = 6" "list_all five_bit cs"
  shows "cs = checksum_of hrp data"
proof -
  let ?z = "[0, 0, 0, 0, 0, 0 :: int]" and ?c = "checksum_of hrp data"
  let ?s = "foldl polymod_step 1 (hrp_expand hrp @ data)"
  have zero: "map2 (XOR) ?z xs = xs" if "length xs = 6" for xs :: "int list"
    using that by (auto simp: numeral_eq_Suc length_Suc_conv)
  have run: "foldl polymod_step ?s xs = foldl polymod_step ?s ?z XOR digits_num 5 xs"
    if "length xs = 6" "list_all five_bit xs" for xs
    using foldl_polymod_xor [of ?z xs ?s 0] foldl_polymod_num [of xs] that zero [OF that(1)] by simp
  have len: "length ?c = 6" by (simp add: checksum_of_def)
  have "foldl polymod_step ?s cs = 1" "foldl polymod_step ?s ?c = 1"
    using assms(1) checksum_valid [of hrp data] by (simp_all add: polymod_def)
  then have "digits_num 5 cs = digits_num 5 ?c"
    using run [OF assms(2,3)] run [OF len five_bit_checksum] by (metis xor.left_commute xor.right_neutral xor_self_eq)
  then show ?thesis
    using assms(2,3) len five_bit_checksum [of hrp data]
    by (intro digits_num_inj [of _ _ 5]) (auto simp: list_all_iff five_bit_def group_of_def)
qed

lemma split_last_one_Some:
  assumes "split_last_one t = Some (h, d)"
  shows "t = h @ ''1'' @ d"
proof -
  have one: "CHR ''1'' \<in> set (rev t)" using assms by (auto simp: split_last_one_def split: if_splits)
  then obtain us vs where t: "rev t = us @ CHR ''1'' # vs" "CHR ''1'' \<notin> set us" by (meson split_list_first)
  have "t = rev (us @ CHR ''1'' # vs)" using t(1) by (metis rev_rev_ident)
  then have t': "t = rev vs @ ''1'' @ rev us" by simp
  have "split_last_one t = Some (rev vs, rev us)" unfolding t' using t(2) by (intro split_last_one_append) simp
  then show ?thesis using assms t' by simp
qed

lemma charset_find_inv:
  assumes "c \<in> set CHARSET"
  shows "five_bit (charset_find c) \<and> CHARSET ! nat (charset_find c) = c"
proof -
  have len: "length CHARSET = 32" by (simp add: CHARSET_def)
  obtain n where n: "n < 32" "c = CHARSET ! n" using assms len by (metis in_set_conv_nth)
  then have "charset_find c = int n" using charset_table by (auto simp: list_all_iff)
  then show ?thesis using n by (simp add: five_bit_def)
qed

lemma lower_char_address: "33 \<le> ord c \<Longrightarrow> ord c \<le> 126 \<Longrightarrow> address_char (lower_char c)"
proof -
  assume r: "33 \<le> ord c" "ord c \<le> 126"
  show ?thesis
  proof (cases "65 \<le> ord c \<and> ord c \<le> 90")
    case True
    then have "(65::nat) \<le> of_char c" "(of_char c :: nat) \<le> 90" by (simp_all add: ord_nat)
    then have "(of_char (lower_char c) :: nat) = of_char c + 32" using True by (simp add: lower_char_def)
    with True show ?thesis by (simp add: address_char_def ord_nat lower_char_def [of "lower_char c"])
  next
    case False
    with r show ?thesis by (auto simp: address_char_def lower_char_def)
  qed
qed

lemma bech32_decode_canonical:
  assumes "bech32_decode s = Some (hrp, data)"
  shows "lower s = bech32_encode hrp data \<and> valid_bech (hrp, data)"
proof -
  obtain ds where sp: "split_last_one (lower s) = Some (hrp, ds)"
    and len: "\<not> length hrp < 1" "\<not> length hrp + 7 > length s" "\<not> length s > 90"
    and cs: "\<not> list_ex (\<lambda>c. c \<notin> set CHARSET) ds"
    and poly: "polymod (hrp_expand hrp @ map charset_find ds) = 1"
    and data: "data = take (length ds - 6) (map charset_find ds)"
    and chars: "\<not> list_ex (\<lambda>c. ord c < 33 \<or> ord c > 126) s"
    using assms by (auto simp: bech32_decode_def Let_def split: if_splits option.splits)
  have low: "lower s = hrp @ ''1'' @ ds" using sp by (rule split_last_one_Some)
  have "length (lower s) = length s" by (simp add: lower_def)
  then have l: "length s = length hrp + 1 + length ds" by (simp add: low)
  let ?dec = "map charset_find ds" and ?cs = "drop (length ds - 6) (map charset_find ds)"
  have five: "list_all five_bit ?dec"
    using cs charset_find_inv by (auto simp: list_all_iff list_ex_iff)
  have dec: "?dec = data @ ?cs" by (simp add: data)
  have six: "length ?cs = 6" using l len(2) by simp
  have "list_all five_bit (data @ ?cs)" using five dec by metis
  then have five_cs: "list_all five_bit ?cs" and five_data: "list_all five_bit data" by simp_all
  have chk: "?cs = checksum_of hrp data"
    using poly six dec five_cs by (intro checksum_unique) auto
  have "map (\<lambda>d. CHARSET ! nat d) ?dec = ds"
    unfolding map_map comp_def using cs charset_find_inv by (intro map_idI) (auto simp: list_ex_iff)
  then have enc: "bech32_encode hrp data = lower s"
    using dec by (simp add: bech32_encode_checksum low chk [symmetric])
  have "list_all address_char (lower s)"
    using chars lower_char_address by (auto simp: lower_def list_all_iff list_ex_iff)
  moreover have "length data = length ds - 6" by (simp add: data)
  ultimately show ?thesis
    using enc len l five_data low by (auto simp: valid_bech_def)
qed


section \<open>Properties\<close>

text \<open>
  C22: bech32 is a codec with one spelling per value: whatever the encoder writes for a prefix and five-bit groups of
  a valid size decodes to them, and whatever the decoder accepts is, in lower case, exactly what the encoder writes
  for the value it returns; so two accepted strings with one value differ in case only.
\<close>

theorem bech32_bijective:
  "(valid_bech (hrp, data) \<longrightarrow> bech32_decode (bech32_encode hrp data) = Some (hrp, data))
   \<and> (bech32_decode s = Some (hrp, data) \<longrightarrow> lower s = bech32_encode hrp data \<and> valid_bech (hrp, data))"
  using bech32_roundtrip bech32_decode_canonical by blast

theorem bech32_bijective_witness:
  "bech32_decode (bech32_encode ''dendra'' [0, 14, 31, 7]) = Some (''dendra'', [0, 14, 31, 7])"
  by (rule bech32_bijective [THEN conjunct1, rule_format])
    (simp add: valid_bech_def address_char_def lower_char_def five_bit_def)

lemma dendra_short: "short_hrp ''dendra''"
  by (simp add: short_hrp_def address_char_def lower_char_def)

lemma payable_account:
  assumes "length h = 20"
  shows "payable_address H (PStr (account_address ''dendra'' h))
      = (if account_address ''dendra'' h \<in> set (BLOCKED_ADDRESSES H) then Some ModuleAccount else None)
    \<and> payable_address H (PStr (upper (account_address ''dendra'' h)))
      = payable_address H (PStr (account_address ''dendra'' h))
    \<and> lower (account_address ''dendra'' h) = account_address ''dendra'' h"
proof -
  let ?a = "account_address ''dendra'' h"
  obtain five where D: "bech32_decode ?a = Some (''dendra'', five)" "convertbits five 5 8 False = Some (octets h)"
    "valid_bech (''dendra'', five)" "?a = bech32_encode ''dendra'' five"
    using dendra_short assms by (rule account_address_decodes)
  have chars: "list_all address_char ?a"
  proof -
    have "\<not> list_ex (\<lambda>c. ord c < 33 \<or> ord c > 126) ?a"
      using D(1) by (auto simp: bech32_decode_def split: if_splits)
    then have "list_all address_char (lower ?a)"
      using lower_char_address by (auto simp: lower_def list_all_iff list_ex_iff)
    then show ?thesis using bech32_decode_canonical [OF D(1)] D(4) by simp
  qed
  have low: "lower ?a = ?a" using chars by (rule lower_id)
  have up: "bech32_decode (upper ?a) = bech32_decode ?a"
  proof -
    have "\<not> list_ex (\<lambda>c. ord c < 33 \<or> ord c > 126) (upper ?a)" "\<not> list_ex (\<lambda>c. ord c < 33 \<or> ord c > 126) ?a"
      using upper_address(3) [OF chars] chars by (auto simp: list_ex_iff list_all_iff address_char_def)
    moreover have "length (upper ?a) = length ?a" by (simp add: upper_def)
    ultimately show ?thesis
      by (cases "split_last_one ?a") (simp_all add: bech32_decode_def upper_address(1,2) [OF chars] low split: prod.split)
  qed
  have "length (octets h) = 20" using assms by (simp add: octets_def)
  then show ?thesis using D(1,2) up low upper_address(1) [OF chars] by (simp add: payable_address_def)
qed

text \<open>
  A derived account address is good for payment. With digests of the documented lengths, the address derived from
  a public key under the chain's prefix matches that key, decodes to the key's 20-byte hash, can be paid unless it is
  one of the blocked module accounts, and its spelling in capitals gets the same answer; and two keys share an
  address only if their hashes collide.
\<close>

theorem derived_address_payable:
  assumes "digest_lengths H" "address_from_pubkey H pubkey ''dendra'' algo = Inr a"
  shows "pubkey_matches_address H pubkey a algo
    \<and> payable_address H (PStr a) = (if a \<in> set (BLOCKED_ADDRESSES H) then Some ModuleAccount else None)
    \<and> payable_address H (PStr (upper a)) = payable_address H (PStr a)
    \<and> (address_from_pubkey H pubkey' ''dendra'' algo' = Inr a \<longrightarrow> key_hash H pubkey' algo' = key_hash H pubkey algo)"
proof -
  have a: "a = account_address ''dendra'' (key_hash H pubkey algo)" "length (key_hash H pubkey algo) = 20"
    using address_from_pubkey_Inr [OF assms(2,1)] by auto
  obtain five where D: "bech32_decode a = Some (''dendra'', five)"
    "convertbits five 5 8 False = Some (octets (key_hash H pubkey algo))"
    using account_address_decodes [OF dendra_short a(2)] a(1) by metis
  note P = payable_account [OF a(2), of H, folded a(1)]
  have same: "key_hash H pubkey' algo' = key_hash H pubkey algo"
    if o: "address_from_pubkey H pubkey' ''dendra'' algo' = Inr a"
  proof -
    have "a = account_address ''dendra'' (key_hash H pubkey' algo')" "length (key_hash H pubkey' algo') = 20"
      using address_from_pubkey_Inr [OF o assms(1)] by auto
    then obtain five' where "bech32_decode a = Some (''dendra'', five')"
      "convertbits five' 5 8 False = Some (octets (key_hash H pubkey' algo'))"
      using account_address_decodes [OF dendra_short] by metis
    with D have "octets (key_hash H pubkey' algo') = octets (key_hash H pubkey algo)" by simp
    then show ?thesis by (rule octets_inj)
  qed
  have "pubkey_matches_address H pubkey a algo"
    using D(1) assms(2) P by (simp add: pubkey_matches_address_def)
  with P same show ?thesis by blast
qed

lemma sample_digest_lengths: "digest_lengths sample_host"
  by (simp add: digest_lengths_def sample_host_def min_def)

theorem derived_address_payable_witness:
  "pubkey_matches_address sample_host (replicate 32 (CHR ''k''))
     (account_address ''dendra'' (key_hash sample_host (replicate 32 (CHR ''k'')) ''ed25519'')) ''ed25519''"
proof -
  let ?k = "replicate 32 (CHR ''k'')"
  obtain five where "convertbits (octets (key_hash sample_host ?k ''ed25519'')) 8 5 True = Some five"
    using convertbits_8_5 [OF octets_groups] by metis
  then have "address_from_pubkey sample_host ?k ''dendra'' ''ed25519''
      = Inr (account_address ''dendra'' (key_hash sample_host ?k ''ed25519''))"
    by (simp add: address_from_pubkey_def key_hash_def account_address_def)
  from derived_address_payable [OF sample_digest_lengths this] show ?thesis by blast
qed

end
