(* ===== verification/Season_Payout.thy ===== *)
theory Season_Payout
  imports Season_Days Cosmos_Addr
begin

text \<open>
  The weekly payment, the second part of \<open>src/services/final_season_payout.py\<close>: the days of a week, its plan and its
  parts, the memos, the search of the payout account's transactions on chain, the decision on what is left to send,
  the walk over the weeks that are due, and the runs of the payer as a state machine over the chain's ledger.
  The source of the rankings and the chain's search are parameters: what a day's file answers (\<open>fetch\<close>) and the pages
  the node serves.
\<close>

section \<open>Weeks, plans and parts\<close>

definition BATCH :: nat where
  "BATCH = 100"

definition payable_val :: "(string, int) dict \<Rightarrow> pyval" where
  "payable_val items = PList (map (\<lambda>(a, v). PList [PStr a, PInt v]) items)"

definition plan_digest :: "host \<Rightarrow> (string, int) dict \<Rightarrow> string" where
  "plan_digest H payable = take 12 (hexdigest (sha256 H (dumps_compact H (payable_val (sorted_items payable)))))"

definition WEEK_MEMO :: string where
  "WEEK_MEMO = ''dendra-final-season-week-''"

definition week_memo :: "nat \<Rightarrow> string \<Rightarrow> nat \<Rightarrow> string" where
  "week_memo week digest part = print_memo WEEK_MEMO (week, digest, part)"

definition week_days :: "int \<Rightarrow> int option \<Rightarrow> int list result" where
  "week_days week last_day =
     (if week < 0 then Inl SystemExit
      else
        (let days = map (\<lambda>i. 7 * week + int i) [0..<7] in
         case last_day of
           None \<Rightarrow> Inr days
         | Some l \<Rightarrow>
             (let kept = filter (\<lambda>d. d \<le> l) days in
              if kept = [] then Inl (PastSeasonEnd l) else Inr kept)))"

text \<open>\<open>week_plan\<close>: what each address earned, split on whether it can receive a transfer.\<close>

definition week_plan :: "host \<Rightarrow> day_result list \<Rightarrow> ((string, int) dict \<times> (string, int) dict) result" where
  "week_plan H days = bind_res (week_totals days) (\<lambda>totals.
     Inr (filter (\<lambda>(a, v). payable_address H (PStr a) = None) totals,
          filter (\<lambda>(a, v). payable_address H (PStr a) \<noteq> None) totals))"

definition parts :: "(string, int) dict \<Rightarrow> (string, int) dict list" where
  "parts payable = slices BATCH (sorted_items payable)"

section \<open>Planning a week\<close>

text \<open>What a read of a day's ranking gives: its JSON value, the answer that it does not exist, or any other failure.\<close>

datatype fetch = Found pyval | NotPublished | ReadFailed

text \<open>The loop over the days of a plan: a day not published yet or unreadable stops it.\<close>

fun load_days :: "(nat \<Rightarrow> fetch) \<Rightarrow> nat \<Rightarrow> nat \<Rightarrow> (pub_day list \<times> int option) result" where
  "load_days src d 0 = Inr ([], None)"
| "load_days src d (Suc n) =
     (case src d of
        NotPublished \<Rightarrow> Inl (NotRankedYet (int d))
      | ReadFailed \<Rightarrow> Inl (DayUnreadable (int d))
      | Found v \<Rightarrow>
          (case parse_day v of
             Inl e \<Rightarrow> Inl (DayUnreadable (int d))
           | Inr (day, Some season_end) \<Rightarrow> Inr ([day], Some (int d))
           | Inr (day, None) \<Rightarrow> bind_res (load_days src (Suc d) n) (\<lambda>(days, l). Inr (day # days, l))))"

definition views :: "pub_day list \<Rightarrow> day_result list result" where
  "views days = map_res (\<lambda>d. case day_view d of None \<Rightarrow> Inl TypeError | Some v \<Rightarrow> Inr v) days"

text \<open>\<open>loaded[wd[0]:wd[-1] + 1]\<close>\<close>

definition days_of_week :: "int list \<Rightarrow> 'a list \<Rightarrow> 'a list" where
  "days_of_week wd loaded = take (nat (last wd + 1) - nat (hd wd)) (drop (nat (hd wd)) loaded)"

definition week_refused :: "host \<Rightarrow> rules_state \<Rightarrow> pub_day list \<Rightarrow> pyval \<Rightarrow> rules_state \<times> bool result" where
  "week_refused H st loaded doubled_from =
     (case check_days H st loaded of
        (st1, Inl e) \<Rightarrow> (st1, Inl e)
      | (st1, Inr (Some bad)) \<Rightarrow> (st1, Inr True)
      | (st1, Inr None) \<Rightarrow>
          (case check_doubled_from H st1 loaded doubled_from of
             (st2, Inl e) \<Rightarrow> (st2, Inl e)
           | (st2, Inr bad) \<Rightarrow> (st2, Inr (bad \<noteq> None))))"

text \<open>
  \<open>plan_days\<close>; \<open>amended\<close> is the refusal of the frozen amendments on the loaded days and the days of the week
  (\<open>amended_rows_refusal (load_amendments ...)\<close>, modelled with the amendments).
\<close>

definition plan_days :: "host \<Rightarrow> rules_state \<Rightarrow> (pub_day list \<Rightarrow> int list \<Rightarrow> bool result) \<Rightarrow> int \<Rightarrow> (nat \<Rightarrow> fetch) \<Rightarrow> pyval
    \<Rightarrow> rules_state \<times> ((string, int) dict \<times> (string, int) dict \<times> int list) result" where
  "plan_days H st amended week src doubled_from =
     (case bind_res (week_days week None) (\<lambda>_. bind_res (first_day_of doubled_from) (\<lambda>_.
             bind_res (load_days src 0 (nat (7 * week + 7))) (\<lambda>(loaded, l).
             bind_res (week_days week l) (\<lambda>wd. Inr (loaded, wd)))))
      of Inl e \<Rightarrow> (st, Inl e)
       | Inr (loaded, wd) \<Rightarrow>
          (case week_refused H st loaded doubled_from of
             (st1, Inl e) \<Rightarrow> (st1, Inl e)
           | (st1, Inr True) \<Rightarrow> (st1, Inl PlanRefused)
           | (st1, Inr False) \<Rightarrow>
               (st1,
                case bind_res (views (days_of_week wd loaded)) (\<lambda>vs. bind_res (week_plan H vs) (\<lambda>p.
                       bind_res (amended loaded wd) (\<lambda>bad. Inr (p, bad)))) of
                  Inl e \<Rightarrow> Inl (if e = ValueError \<or> e = OSError then PlanRefused else e)
                | Inr ((payable, aside), bad) \<Rightarrow> if bad then Inl PlanRefused else Inr (payable, aside, wd))))"

definition late_from :: "pyval \<Rightarrow> int \<Rightarrow> int result" where
  "late_from prev day =
     (let inputs = (case prev of PDict d \<Rightarrow> dget d ''inputs'' | _ \<Rightarrow> PNone);
          get = (\<lambda>k. case inputs of PDict i \<Rightarrow> dget i k | _ \<Rightarrow> PNone)
      in case (get ''start_height'', get ''finality_blocks'') of
           (PInt start, PInt fin) \<Rightarrow>
             if start > 0 \<and> fin > 0 then bind_res (day_bounds (day + 1) start RULES None) (\<lambda>(a, b). Inr (b + fin))
             else Inl ValueError
         | _ \<Rightarrow> Inl ValueError)"

section \<open>The chain as the ledger\<close>

text \<open>\<open>int(v)\<close> on a JSON value: a number, or a string of decimal digits with a sign, spaces around and single
  underscores between digits.\<close>

fun digits_grouped :: "string \<Rightarrow> bool" where
  "digits_grouped [] = False"
| "digits_grouped [c] = is_digit c"
| "digits_grouped (c # d # s) =
     (is_digit c \<and> (if d = CHR ''_'' then digits_grouped s else digits_grouped (d # s)))"

definition int_text :: "string \<Rightarrow> int option" where
  "int_text s =
     (let t = strip s;
          neg = (t \<noteq> [] \<and> hd t = CHR ''-'');
          u = (if t \<noteq> [] \<and> (hd t = CHR ''-'' \<or> hd t = CHR ''+'') then tl t else t)
      in if digits_grouped u then Some ((if neg then - 1 else 1) * int (read_nat (filter is_digit u))) else None)"

definition py_int :: "pyval \<Rightarrow> int result" where
  "py_int v = (case v of
     PInt i \<Rightarrow> Inr i | PBool b \<Rightarrow> Inr (if b then 1 else 0)
   | PFloat q \<Rightarrow> Inr (if q < 0 then \<lceil>q\<rceil> else \<lfloor>q\<rfloor>)
   | PStr s \<Rightarrow> (case int_text s of None \<Rightarrow> Inl ValueError | Some i \<Rightarrow> Inr i)
   | _ \<Rightarrow> Inl TypeError)"

text \<open>\<open>v or {}\<close>, then \<open>.get\<close>: an object is needed unless the value is falsy.\<close>

definition or_empty :: "pyval \<Rightarrow> pydict result" where
  "or_empty v = (if truthy v then vobj v else Inr [])"

definition executed :: "pydict \<Rightarrow> bool result" where
  "executed t = bind_res (py_int (let c = get_or t ''code'' (PInt 0) in if truthy c then c else PInt 0)) (\<lambda>c. Inr (c = 0))"

definition tx_body :: "pydict \<Rightarrow> pydict result" where
  "tx_body t = bind_res (or_empty (dget t ''tx'')) (\<lambda>x. or_empty (dget x ''body''))"

definition body_memo :: "pydict \<Rightarrow> string result" where
  "body_memo body = (case get_or body ''memo'' (PStr []) of PStr s \<Rightarrow> Inr s | _ \<Rightarrow> Inl TypeError)"

record page =
  pg_txs :: "pydict list"
  pg_total :: "pyval option"

fun keep_executed :: "pydict list \<Rightarrow> pydict list result" where
  "keep_executed [] = Inr []"
| "keep_executed (t # ts) = bind_res (executed t) (\<lambda>ok. bind_res (keep_executed ts) (\<lambda>out.
     Inr (if ok then t # out else out)))"

text \<open>
  \<open>_payer_txs\<close>: page after page until the count the node gives is reached. A node that keeps raising its count could
  serve pages forever, so not returning is \<open>None\<close>.
\<close>

partial_function (option) payer_txs :: "(nat \<Rightarrow> page result) \<Rightarrow> nat \<Rightarrow> nat \<Rightarrow> pydict list result option" where
  "payer_txs search pg served =
     (case search pg of
        Inl e \<Rightarrow> Some (Inl e)
      | Inr p \<Rightarrow>
          (case keep_executed (pg_txs p) of
             Inl e \<Rightarrow> Some (Inl e)
           | Inr out \<Rightarrow>
               (case pg_total p of
                  None \<Rightarrow> Some (Inl RuntimeError)
                | Some c \<Rightarrow>
                    (case py_int c of
                       Inl e \<Rightarrow> Some (Inl RuntimeError)
                     | Inr n \<Rightarrow>
                         if int (served + length (pg_txs p)) \<ge> n then Some (Inr out)
                         else if pg_txs p = [] then Some (Inl RuntimeError)
                         else Option.bind (payer_txs search (Suc pg) (served + length (pg_txs p))) (\<lambda>r.
                           Some (bind_res r (\<lambda>rest. Inr (out @ rest))))))))"

definition tx_memo :: "pydict \<Rightarrow> string result" where
  "tx_memo t = bind_res (tx_body t) body_memo"

type_synonym parts_paid = "(nat, string \<times> pyval) dict"

fun parts_from :: "string \<Rightarrow> nat \<Rightarrow> parts_paid \<Rightarrow> pydict list \<Rightarrow> parts_paid result" where
  "parts_from prefix n found [] = Inr found"
| "parts_from prefix n found (t # ts) =
     bind_res (tx_memo t) (\<lambda>m.
     case match_memo prefix m of
       Some (k, dg, i) \<Rightarrow>
         if k = n then parts_from prefix n (AList.update i (dg, get_or t ''txhash'' (PStr [])) found) ts
         else parts_from prefix n found ts
     | None \<Rightarrow> parts_from prefix n found ts)"

definition paid_parts :: "(nat \<Rightarrow> page result) \<Rightarrow> nat \<Rightarrow> parts_paid result option" where
  "paid_parts search week = map_option (\<lambda>r. bind_res r (parts_from WEEK_MEMO week [])) (payer_txs search 1 0)"

fun weeks_from :: "nat list \<Rightarrow> pydict list \<Rightarrow> nat list result" where
  "weeks_from ws [] = Inr ws"
| "weeks_from ws (t # ts) =
     bind_res (tx_memo t) (\<lambda>m. case match_memo WEEK_MEMO m of
       Some (k, dg, i) \<Rightarrow> weeks_from (List.insert k ws) ts | None \<Rightarrow> weeks_from ws ts)"

definition weeks_on_chain :: "(nat \<Rightarrow> page result) \<Rightarrow> nat list result option" where
  "weeks_on_chain search = map_option (\<lambda>r. bind_res r (weeks_from [])) (payer_txs search 1 0)"

section \<open>What is left to send\<close>

datatype verdict = Pay "nat list" | Done | Stop "nat list"

definition decide_parts :: "string \<Rightarrow> nat \<Rightarrow> parts_paid \<Rightarrow> verdict" where
  "decide_parts digest num_parts found =
     (let conflict = sort (map fst (filter (\<lambda>(p, (dg, h)). dg \<noteq> digest) found)) in
      if conflict \<noteq> [] then Stop conflict
      else (let todo = filter (\<lambda>i. i \<notin> set (map fst found)) [0..<num_parts] in
            if todo \<noteq> [] then Pay todo else Done))"

definition decide :: "host \<Rightarrow> (string, int) dict \<Rightarrow> parts_paid \<Rightarrow> verdict" where
  "decide H payable found = decide_parts (plan_digest H payable) (length (parts payable)) found"

section \<open>The walk over the weeks that are due\<close>

text \<open>
  One turn of the loop of \<open>_due_main\<close>: what it does with a week, from what planning it gave, the weeks and parts the
  chain answers, the ranking of the day before a missing one and the chain's height. \<open>Halt3\<close> is the exit with
  status 3 and no later week paid, \<open>Escapes\<close> an exception the loop does not catch.
\<close>

datatype due_action = Halt3 | Waits int | SeasonOver | AlreadyPaid | WouldSend "nat list" | Sends "nat list" | Escapes exc

definition caught_read :: "exc \<Rightarrow> bool" where
  "caught_read e \<longleftrightarrow> e \<in> {RuntimeError, ValueError, OSError, ChainUnreadable}"

definition caught_late :: "exc \<Rightarrow> bool" where
  "caught_late e \<longleftrightarrow> e \<in> {RuntimeError, ValueError, KeyError, TypeError, OSError, ChainUnreadable}"

definition due_step :: "host \<Rightarrow> bool \<Rightarrow> nat
    \<Rightarrow> ((string, int) dict \<times> (string, int) dict \<times> int list) result
    \<Rightarrow> nat list result \<Rightarrow> pyval result \<Rightarrow> int result \<Rightarrow> parts_paid result \<Rightarrow> due_action" where
  "due_step H yes week planned weeks prev_ranking height found =
     (case planned of
        Inl (NotRankedYet d) \<Rightarrow>
          (case weeks of
             Inl e \<Rightarrow> if caught_read e then Halt3 else Escapes e
           | Inr ws \<Rightarrow>
               if list_ex (\<lambda>w. w \<ge> week) ws then Halt3
               else if d = 0 then Waits 0
               else (case bind_res prev_ranking (\<lambda>v. bind_res (late_from v d) (\<lambda>late. bind_res height (\<lambda>now. Inr (late, now)))) of
                   Inl e \<Rightarrow> if caught_late e then Halt3 else Escapes e
                 | Inr (late, now) \<Rightarrow> if now \<ge> late then Halt3 else Waits d))
      | Inl (PastSeasonEnd l) \<Rightarrow> SeasonOver
      | Inl (DayUnreadable d) \<Rightarrow> Halt3
      | Inl PlanRefused \<Rightarrow> Halt3
      | Inl e \<Rightarrow> Escapes e
      | Inr (payable, aside, wd) \<Rightarrow>
          (case found of
             Inl e \<Rightarrow> if caught_read e then Halt3 else Escapes e
           | Inr done_parts \<Rightarrow>
               (case decide H payable done_parts of
                  Stop which \<Rightarrow> Halt3
                | Done \<Rightarrow> AlreadyPaid
                | Pay which \<Rightarrow> if yes then Sends which else WouldSend which)))"


section \<open>Parts, plans and memos\<close>

lemma concat_parts: "concat (parts payable) = sorted_items payable"
  by (simp add: parts_def BATCH_def concat_slices)

lemma parts_bounds: "c \<in> set (parts payable) \<Longrightarrow> c \<noteq> [] \<and> length c \<le> 100"
  using slices_bounds [of c BATCH "sorted_items payable"] by (simp add: parts_def BATCH_def)

lemma week_plan_Inr:
  assumes "week_plan H days = Inr (payable, aside)"
  obtains totals where "week_totals days = Inr totals" "mset totals = mset payable + mset aside"
    "payable = filter (\<lambda>(a, v). payable_address H (PStr a) = None) totals"
    "aside = filter (\<lambda>(a, v). payable_address H (PStr a) \<noteq> None) totals"
proof -
  obtain totals where t: "week_totals days = Inr totals"
    "payable = filter (\<lambda>(a, v). payable_address H (PStr a) = None) totals"
    "aside = filter (\<lambda>(a, v). payable_address H (PStr a) \<noteq> None) totals"
    using assms by (auto simp: week_plan_def bind_res_eq_Inr)
  have "mset totals = mset payable + mset aside"
    unfolding t(2,3) using multiset_partition [of "mset totals" "\<lambda>(a, v). payable_address H (PStr a) = None"]
    by (simp add: case_prod_unfold)
  then show ?thesis using that t by blast
qed

lemma length_hexdigest: "length (hexdigest bs) = 2 * length bs"
  by (induction bs) (auto simp: hexdigest_def hex_byte_def)

lemma hex_digit_lower: "is_lower_hex (hex_digit n)"
proof -
  have "list_all is_lower_hex ''0123456789abcdef''" by (simp add: is_lower_hex_def is_digit_def)
  moreover have "n mod 16 < length ''0123456789abcdef''" by simp
  ultimately show ?thesis unfolding hex_digit_def list_all_length by blast
qed

lemma hexdigest_lower: "list_all is_lower_hex (hexdigest bs)"
  by (induction bs) (auto simp: hexdigest_def hex_byte_def hex_digit_lower)

lemma plan_digest_valid:
  assumes "digest_lengths H"
  shows "valid_memo (n, plan_digest H payable, i)"
proof -
  have "length (hexdigest (sha256 H x)) = 64" for x using assms by (simp add: digest_lengths_def length_hexdigest)
  moreover have "list_all is_lower_hex (take 12 (hexdigest x))" for x
    using hexdigest_lower [of x] by (auto simp: list_all_iff dest: in_set_takeD)
  ultimately show ?thesis by (simp add: valid_memo_def plan_digest_def)
qed

lemma week_memo_match: "digest_lengths H \<Longrightarrow>
    match_memo WEEK_MEMO (week_memo n (plan_digest H payable) i) = Some (n, plan_digest H payable, i)"
  unfolding week_memo_def by (rule memo.dec_enc [OF plan_digest_valid])

section \<open>The search is complete or refused\<close>

text \<open>A node that keeps the whole history answers with pages of 100 and the number of transactions.\<close>

definition index_of :: "pydict list \<Rightarrow> nat \<Rightarrow> page result" where
  "index_of txs pg = Inr \<lparr>pg_txs = take 100 (drop (100 * (pg - 1)) txs), pg_total = Some (PStr (show_nat (length txs)))\<rparr>"

lemma digits_grouped_all: "s \<noteq> [] \<Longrightarrow> list_all is_digit s \<Longrightarrow> digits_grouped s"
proof (induction s rule: digits_grouped.induct)
  case (3 c d s)
  have "d \<noteq> CHR ''_''" using "3.prems" by (auto simp: is_digit_def)
  then show ?case using 3 by simp
qed auto

lemma strip_no_space: "s \<noteq> [] \<Longrightarrow> list_all (\<lambda>c. \<not> is_space c) s \<Longrightarrow> strip s = s"
proof -
  assume s: "s \<noteq> []" "list_all (\<lambda>c. \<not> is_space c) s"
  have "hd s \<in> set s" "last s \<in> set s" using s(1) by simp_all
  then have "\<not> is_space (hd s)" "\<not> is_space (last s)" using s(2) by (auto simp: list_all_iff)
  then have "dropWhile is_space s = s" "dropWhile is_space (rev s) = rev s"
    using s(1) by (simp_all add: dropWhile_eq_self_iff hd_rev)
  then show ?thesis by (simp add: strip_def)
qed

lemma py_int_show_nat [simp]: "py_int (PStr (show_nat n)) = Inr (int n)"
proof -
  have d: "list_all is_digit (show_nat n)" using show_nat_digits [of n] by (simp add: list_all_iff)
  have "\<not> is_space c" if "is_digit c" for c using that by (auto simp: is_digit_def is_space_def Let_def)
  then have st: "strip (show_nat n) = show_nat n"
    using d by (intro strip_no_space) (auto simp: list_all_iff)
  have "is_digit (hd (show_nat n))" using d by (cases "show_nat n") auto
  then have "hd (show_nat n) \<noteq> CHR ''-''" "hd (show_nat n) \<noteq> CHR ''+''" by (auto simp: is_digit_def)
  moreover have "filter is_digit (show_nat n) = show_nat n" using d by (simp add: filter_id_conv list_all_iff)
  ultimately have "int_text (show_nat n) = Some (int n)"
    using st digits_grouped_all [OF _ d] by (simp add: int_text_def)
  then show ?thesis by (simp add: py_int_def)
qed

lemma keep_executed_append:
  "keep_executed (xs @ ys) = bind_res (keep_executed xs) (\<lambda>a. bind_res (keep_executed ys) (\<lambda>b. Inr (a @ b)))"
proof (induction xs)
  case (Cons x xs)
  then show ?case by (cases "executed x"; cases "keep_executed xs"; cases "keep_executed ys") auto
next
  case Nil
  then show ?case by (cases "keep_executed ys") auto
qed

text \<open>On such a node the search returns exactly the executed transactions of the whole history.\<close>

lemma payer_txs_index:
  assumes "keep_executed txs = Inr all_ok"
  shows "payer_txs (index_of txs) (Suc pg) (min (100 * pg) (length txs)) = Some (keep_executed (drop (100 * pg) txs))"
proof (induction "length txs - 100 * pg" arbitrary: pg rule: less_induct)
  case less
  let ?rest = "drop (100 * pg) txs" and ?n = "length txs"
  have split: "txs = take (100 * pg) txs @ take 100 ?rest @ drop (100 * Suc pg) txs"
    by (metis add.commute append_take_drop_id drop_drop mult_Suc_right)
  obtain a b where ab: "keep_executed (take 100 ?rest) = Inr a" "keep_executed (drop (100 * Suc pg) txs) = Inr b"
    using assms by (subst (asm) split) (auto simp: keep_executed_append bind_res_eq_Inr)
  have rest: "keep_executed ?rest = Inr (a @ b)"
  proof -
    have e: "drop 100 ?rest = drop (100 * Suc pg) txs" by (simp add: drop_drop add.commute)
    have "keep_executed (take 100 ?rest @ drop 100 ?rest) = Inr (a @ b)"
      unfolding keep_executed_append e ab by simp
    then show ?thesis by (simp only: append_take_drop_id)
  qed
  have served: "min (100 * pg) ?n + length (take 100 ?rest) = min (100 * Suc pg) ?n" by auto
  show ?case
  proof (cases "?n \<le> 100 * Suc pg")
    case True
    then have "b = []" using ab(2) by simp
    then show ?thesis using ab(1) rest True served
      by (subst payer_txs.simps) (simp add: index_of_def)
  next
    case False
    then have "take 100 ?rest \<noteq> []" by auto
    moreover have IH: "payer_txs (index_of txs) (Suc (Suc pg)) (min (100 * Suc pg) ?n) = Some (Inr b)"
      using less.hyps [of "Suc pg"] False ab(2) by simp
    ultimately show ?thesis using ab(1) rest False served
      by (subst payer_txs.simps) (simp add: index_of_def add.commute [of "100 * pg"])
  qed
qed

lemma payer_txs_whole:
  assumes "keep_executed txs = Inr out"
  shows "payer_txs (index_of txs) 1 0 = Some (Inr out)"
  using payer_txs_index [OF assms, of 0] assms by simp


section \<open>Runs of the payer over the chain\<close>

text \<open>A part as \<open>_send_tx\<close> broadcasts it and the index returns it once it is in a block.\<close>

definition send_msg :: "string \<Rightarrow> string \<times> int \<Rightarrow> pyval" where
  "send_msg payer = (\<lambda>(a, v). PDict [(''@type'', PStr ''/cosmos.bank.v1beta1.MsgSend''), (''from_address'', PStr payer),
     (''to_address'', PStr a), (''amount'', PList [PDict [(''denom'', PStr ''udndr''), (''amount'', PStr (show_int v))]])])"

definition sent_tx :: "string \<Rightarrow> string \<Rightarrow> (string, int) dict \<Rightarrow> string \<Rightarrow> pydict" where
  "sent_tx payer memo_text chunk h = [(''txhash'', PStr h), (''code'', PInt 0),
     (''tx'', PDict [(''body'', PDict [(''messages'', PList (map (send_msg payer) chunk)), (''memo'', PStr memo_text),
        (''timeout_height'', PStr ''0''), (''extension_options'', PList []),
        (''non_critical_extension_options'', PList [])])])]"

definition send_part :: "host \<Rightarrow> string \<Rightarrow> nat \<Rightarrow> (string, int) dict \<Rightarrow> (nat \<Rightarrow> string) \<Rightarrow> nat \<Rightarrow> pydict" where
  "send_part H payer week payable hashes i =
     sent_tx payer (week_memo week (plan_digest H payable) i) (parts payable ! i) (hashes i)"

definition readable_tx :: "pydict \<Rightarrow> bool" where
  "readable_tx t \<longleftrightarrow> (case (executed t, tx_memo t) of (Inr _, Inr _) \<Rightarrow> True | _ \<Rightarrow> False)"

text \<open>The week, digest and part an executed transaction carries.\<close>

definition tx_tag :: "string \<Rightarrow> pydict \<Rightarrow> (nat \<times> string \<times> nat) option" where
  "tx_tag prefix t = (case (executed t, tx_memo t) of (Inr True, Inr m) \<Rightarrow> match_memo prefix m | _ \<Rightarrow> None)"

text \<open>
  A run pays week \<open>week\<close> under the plan it computed (a plan of \<open>P\<close>): it reads the chain, decides, and sends the parts
  that are missing in order; it may be cut at any point, so any number \<open>k\<close> of them are in a block when the next run
  reads. Between runs the account may execute transactions that carry no week's memo, and transactions of any memo
  that fail in their block.
\<close>

inductive paying :: "host \<Rightarrow> string \<Rightarrow> (string, int) dict set \<Rightarrow> pydict list \<Rightarrow> pydict list \<Rightarrow> bool" for H payer P where
  run: "paid_parts (index_of txs) week = Some (Inr found) \<Longrightarrow> payable \<in> P \<Longrightarrow> decide H payable found = Pay which \<Longrightarrow>
        k \<le> length which \<Longrightarrow> paying H payer P txs (txs @ map (send_part H payer week payable hashes) (take k which))"
| other: "readable_tx t \<Longrightarrow> tx_tag WEEK_MEMO t = None \<Longrightarrow> paying H payer P txs (txs @ [t])"

inductive_cases payingE: "paying H payer P txs txs'"

definition week_tags :: "nat \<Rightarrow> pydict list \<Rightarrow> (string \<times> nat) list" where
  "week_tags week txs = map snd (filter (\<lambda>tg. fst tg = week) (List.map_filter (tx_tag WEEK_MEMO) txs))"

lemma week_tags_append: "week_tags w (xs @ ys) = week_tags w xs @ week_tags w ys"
  by (simp add: week_tags_def List.map_filter_def)

lemma readable_keep:
  "list_all readable_tx txs \<Longrightarrow> keep_executed txs = Inr (filter (\<lambda>t. executed t = Inr True) txs)"
  by (induction txs) (auto simp: readable_tx_def split: sum.splits)

lemma parts_from_tags:
  assumes "list_all readable_tx txs" "\<forall>t \<in> set txs. executed t = Inr True"
  shows "\<exists>found. parts_from prefix n acc txs = Inr found
    \<and> set (map fst found) = set (map fst acc) \<union> {i. \<exists>t \<in> set txs. \<exists>dg. tx_tag prefix t = Some (n, dg, i)}
    \<and> (\<forall>(i, (dg, h)) \<in> set found. (\<exists>h'. (i, (dg, h')) \<in> set acc) \<or> (\<exists>t \<in> set txs. tx_tag prefix t = Some (n, dg, i)))"
  using assms
proof (induction txs arbitrary: acc)
  case (Cons t ts)
  obtain m where m: "tx_memo t = Inr m" using Cons.prems(1) by (auto simp: readable_tx_def split: sum.splits)
  have tag: "tx_tag prefix t = match_memo prefix m" using Cons.prems(2) m by (simp add: tx_tag_def)
  show ?case
  proof (cases "\<exists>dg i. tx_tag prefix t = Some (n, dg, i)")
    case True
    then obtain dg i where t: "tx_tag prefix t = Some (n, dg, i)" by blast
    let ?acc = "AList.update i (dg, get_or t ''txhash'' (PStr [])) acc"
    have run: "parts_from prefix n acc (t # ts) = parts_from prefix n ?acc ts" using m t tag by simp
    obtain found where F: "parts_from prefix n ?acc ts = Inr found"
      "set (map fst found) = set (map fst ?acc) \<union> {i. \<exists>t \<in> set ts. \<exists>dg. tx_tag prefix t = Some (n, dg, i)}"
      "\<forall>(i, (dg, h)) \<in> set found. (\<exists>h'. (i, (dg, h')) \<in> set ?acc) \<or> (\<exists>t \<in> set ts. tx_tag prefix t = Some (n, dg, i))"
      using Cons.IH [of ?acc] Cons.prems by auto
    have keys: "set (map fst ?acc) = insert i (set (map fst acc))" by (simp add: set_keys_update)
    have sub: "set ?acc \<subseteq> insert (i, (dg, get_or t ''txhash'' (PStr []))) (set acc)" by (rule set_update_subset)
    have "\<forall>(j, (dg', h)) \<in> set found. (\<exists>h'. (j, (dg', h')) \<in> set acc) \<or> (\<exists>u \<in> set (t # ts). tx_tag prefix u = Some (n, dg', j))"
      using F(3) sub t by fastforce
    moreover have "set (map fst found) = set (map fst acc) \<union> {i. \<exists>u \<in> set (t # ts). \<exists>dg. tx_tag prefix u = Some (n, dg, i)}"
      unfolding F(2) keys using t by auto
    ultimately show ?thesis using F(1) run by auto
  next
    case False
    then have "parts_from prefix n acc (t # ts) = parts_from prefix n acc ts"
      using m tag by (auto split: option.splits)
    moreover have "{i. \<exists>u \<in> set (t # ts). \<exists>dg. tx_tag prefix u = Some (n, dg, i)} = {i. \<exists>u \<in> set ts. \<exists>dg. tx_tag prefix u = Some (n, dg, i)}"
      using False by auto
    ultimately show ?thesis using Cons.IH [of acc] Cons.prems by fastforce
  qed
qed auto


lemma set_week_tags: "(dg, i) \<in> set (week_tags w txs) \<longleftrightarrow> (\<exists>t \<in> set txs. tx_tag WEEK_MEMO t = Some (w, dg, i))"
  by (force simp: week_tags_def List.map_filter_def)

lemma tx_tag_executed: "tx_tag prefix t = Some x \<Longrightarrow> executed t = Inr True"
  by (auto simp: tx_tag_def split: sum.splits bool.splits)

lemma paid_parts_index:
  assumes "list_all readable_tx txs"
  obtains found where "paid_parts (index_of txs) w = Some (Inr found)"
    "set (map fst found) = snd ` set (week_tags w txs)" "\<forall>i dg h. (i, (dg, h)) \<in> set found \<longrightarrow> (dg, i) \<in> set (week_tags w txs)"
proof -
  let ?ok = "filter (\<lambda>t. executed t = Inr True) txs"
  have r: "list_all readable_tx ?ok" "\<forall>t \<in> set ?ok. executed t = Inr True" using assms by (auto simp: list_all_iff)
  obtain found where F: "parts_from WEEK_MEMO w [] ?ok = Inr found"
    "set (map fst found) = {i. \<exists>t \<in> set ?ok. \<exists>dg. tx_tag WEEK_MEMO t = Some (w, dg, i)}"
    "\<forall>(i, (dg, h)) \<in> set found. \<exists>t \<in> set ?ok. tx_tag WEEK_MEMO t = Some (w, dg, i)"
    using parts_from_tags [OF r, of WEEK_MEMO w "[]"] by auto
  have "paid_parts (index_of txs) w = Some (Inr found)"
    using payer_txs_whole [OF readable_keep [OF assms]] F(1) by (simp add: paid_parts_def)
  moreover have "set (map fst found) = snd ` set (week_tags w txs)"
  proof -
    have "i \<in> snd ` set (week_tags w txs) \<longleftrightarrow> (\<exists>dg. (dg, i) \<in> set (week_tags w txs))" for i by force
    then have "snd ` set (week_tags w txs) = {i. \<exists>dg. \<exists>t \<in> set txs. tx_tag WEEK_MEMO t = Some (w, dg, i)}"
      by (intro set_eqI) (simp only: mem_Collect_eq set_week_tags)
    also have "\<dots> = {i. \<exists>t \<in> set ?ok. \<exists>dg. tx_tag WEEK_MEMO t = Some (w, dg, i)}"
      by (auto dest: tx_tag_executed)
    finally show ?thesis by (simp only: F(2))
  qed
  moreover have "\<forall>i dg h. (i, (dg, h)) \<in> set found \<longrightarrow> (dg, i) \<in> set (week_tags w txs)"
    using F(3) by (auto simp: set_week_tags)
  ultimately show ?thesis by (rule that)
qed

definition one_digest :: "(string \<times> nat) list \<Rightarrow> bool" where
  "one_digest tags \<longleftrightarrow> (\<forall>x \<in> set tags. \<forall>y \<in> set tags. fst x = fst y) \<and> distinct (map snd tags)"

definition from_plan :: "host \<Rightarrow> string \<Rightarrow> (string, int) dict set \<Rightarrow> pydict \<Rightarrow> bool" where
  "from_plan H payer P t \<longleftrightarrow> (\<forall>w dg i. tx_tag WEEK_MEMO t = Some (w, dg, i) \<longrightarrow>
     (\<exists>payable \<in> P. \<exists>hashes. dg = plan_digest H payable \<and> i < length (parts payable) \<and> t = send_part H payer w payable hashes i))"

definition ledger_ok :: "host \<Rightarrow> string \<Rightarrow> (string, int) dict set \<Rightarrow> pydict list \<Rightarrow> bool" where
  "ledger_ok H payer P txs \<longleftrightarrow> list_all readable_tx txs \<and> (\<forall>w. one_digest (week_tags w txs))
     \<and> (\<forall>t \<in> set txs. from_plan H payer P t)"

lemma sent_tx_reads: "executed (sent_tx payer m c h) = Inr True" "tx_memo (sent_tx payer m c h) = Inr m"
  by (simp_all add: executed_def sent_tx_def get_or_def py_int_def tx_memo_def tx_body_def or_empty_def dget_def
      vobj_def body_memo_def Let_def)

lemma send_part_tag:
  "digest_lengths H \<Longrightarrow> tx_tag WEEK_MEMO (send_part H payer w payable hashes i) = Some (w, plan_digest H payable, i)"
  by (simp add: tx_tag_def send_part_def sent_tx_reads week_memo_match)

lemma sort_Nil_iff: "sort xs = [] \<longleftrightarrow> xs = []"
  by (metis length_0_conv length_sort)

lemma decide_Pay:
  assumes "decide H payable found = Pay which"
  shows "\<forall>(i, (dg, h)) \<in> set found. dg = plan_digest H payable" "distinct which"
    "set which = {i. i < length (parts payable)} - set (map fst found)" "sorted which"
proof -
  have c: "filter (\<lambda>(p, (dg, h)). dg \<noteq> plan_digest H payable) found = []"
    and w: "which = filter (\<lambda>i. i \<notin> set (map fst found)) [0..<length (parts payable)]"
    using assms by (auto simp: decide_def decide_parts_def Let_def sort_Nil_iff split: if_splits)
  show "\<forall>(i, (dg, h)) \<in> set found. dg = plan_digest H payable"
    using c by (auto simp: filter_empty_conv)
  show "distinct which" "set which = {i. i < length (parts payable)} - set (map fst found)" "sorted which"
    by (auto simp: w sorted_wrt_filter)
qed

lemma week_tags_sent:
  assumes "digest_lengths H"
  shows "week_tags w (map (send_part H payer week payable hashes) xs)
    = (if w = week then map (\<lambda>i. (plan_digest H payable, i)) xs else [])"
  by (induction xs) (auto simp: week_tags_def List.map_filter_def send_part_tag [OF assms])

lemma agreeing_tags:
  assumes "ledger_ok H payer P txs" "paid_parts (index_of txs) week = Some (Inr found)"
    and agree: "\<forall>(i, (dg, h)) \<in> set found. dg = plan_digest H payable"
  shows "\<forall>x \<in> set (week_tags week txs). fst x = plan_digest H payable" "set (map fst found) = snd ` set (week_tags week txs)"
proof -
  have r: "list_all readable_tx txs" and one: "one_digest (week_tags week txs)" using assms(1) by (auto simp: ledger_ok_def)
  obtain f where f: "paid_parts (index_of txs) week = Some (Inr f)" "set (map fst f) = snd ` set (week_tags week txs)"
    "\<forall>i dg h. (i, (dg, h)) \<in> set f \<longrightarrow> (dg, i) \<in> set (week_tags week txs)"
    by (rule paid_parts_index [OF r, of week])
  have ff: "f = found" using f(1) assms(2) by simp
  then show "set (map fst found) = snd ` set (week_tags week txs)" using f(2) by simp
  show "\<forall>x \<in> set (week_tags week txs). fst x = plan_digest H payable"
  proof
    fix x assume x: "x \<in> set (week_tags week txs)"
    then have "snd x \<in> set (map fst f)" using f(2) by simp
    then obtain dg h where e: "(snd x, (dg, h)) \<in> set f" by force
    then have "(dg, snd x) \<in> set (week_tags week txs)" "dg = plan_digest H payable" using f(3) agree ff by auto
    then show "fst x = plan_digest H payable" using one x unfolding one_digest_def by fastforce
  qed
qed

lemma ledger_ok_run:
  assumes H: "digest_lengths H" and ok: "ledger_ok H payer P txs" and found: "paid_parts (index_of txs) week = Some (Inr found)"
    and "payable \<in> P" and pay: "decide H payable found = Pay which"
  shows "ledger_ok H payer P (txs @ map (send_part H payer week payable hashes) (take k which))"
proof -
  let ?sent = "map (send_part H payer week payable hashes) (take k which)" and ?dg = "plan_digest H payable"
  have r: "list_all readable_tx txs" and one: "\<And>w. one_digest (week_tags w txs)" using ok by (auto simp: ledger_ok_def)
  note D = decide_Pay [OF pay]
  note same = agreeing_tags [OF ok found D(1)]
  have fresh: "set (take k which) \<inter> snd ` set (week_tags week txs) = {}"
    using D(3) same(2) by (auto dest: in_set_takeD)
  have "one_digest (week_tags w (txs @ ?sent))" for w
  proof (cases "w = week")
    case True
    have "distinct (map snd (week_tags week txs @ map (\<lambda>i. (?dg, i)) (take k which)))"
      using one [of week] D(2) fresh by (auto simp: one_digest_def comp_def)
    moreover have "\<forall>x \<in> set (week_tags week txs @ map (\<lambda>i. (?dg, i)) (take k which)). fst x = ?dg" using same(1) by auto
    ultimately show ?thesis using True by (simp add: week_tags_append week_tags_sent [OF H] one_digest_def)
  next
    case False
    then show ?thesis using one [of w] by (simp add: week_tags_append week_tags_sent [OF H])
  qed
  moreover have "list_all readable_tx ?sent"
    by (simp add: list_all_iff readable_tx_def send_part_def sent_tx_reads)
  moreover have "\<forall>t \<in> set ?sent. from_plan H payer P t"
  proof
    fix t assume "t \<in> set ?sent"
    then obtain i where i: "i \<in> set which" "t = send_part H payer week payable hashes i" by (auto dest: in_set_takeD)
    then have "i < length (parts payable)" using D(3) by auto
    then show "from_plan H payer P t" using i(2) assms(4) by (auto simp: from_plan_def send_part_tag [OF H])
  qed
  ultimately show ?thesis using ok r by (auto simp: ledger_ok_def)
qed

lemma ledger_ok_other:
  assumes "ledger_ok H payer P txs" "readable_tx t" "tx_tag WEEK_MEMO t = None"
  shows "ledger_ok H payer P (txs @ [t])"
proof -
  have "week_tags w [t] = []" for w using assms(3) by (simp add: week_tags_def List.map_filter_def)
  then show ?thesis using assms by (simp add: ledger_ok_def week_tags_append from_plan_def)
qed

lemma ledger_invariant:
  assumes "digest_lengths H" "(paying H payer P)\<^sup>*\<^sup>* [] txs"
  shows "ledger_ok H payer P txs"
  using assms(2)
proof (induction rule: rtranclp_induct)
  case base
  then show ?case by (simp add: ledger_ok_def one_digest_def week_tags_def List.map_filter_def)
next
  case (step txs txs')
  from step.hyps(2) step.IH show ?case
    by (elim payingE) (auto intro: ledger_ok_run [OF assms(1)] ledger_ok_other)
qed


section \<open>What the ledger of a week holds\<close>

definition week_txs :: "nat \<Rightarrow> pydict list \<Rightarrow> pydict list" where
  "week_txs w txs = filter (\<lambda>t. case tx_tag WEEK_MEMO t of Some (w', dg, i) \<Rightarrow> w' = w | None \<Rightarrow> False) txs"

definition tag_part :: "pydict \<Rightarrow> nat" where
  "tag_part t = (case tx_tag WEEK_MEMO t of Some (w, dg, i) \<Rightarrow> i | None \<Rightarrow> 0)"

lemma week_tags_parts: "map snd (week_tags w txs) = map tag_part (week_txs w txs)"
proof (induction txs)
  case (Cons t txs)
  show ?case
  proof (cases "tx_tag WEEK_MEMO t")
    case None
    then show ?thesis using Cons by (simp add: week_tags_def week_txs_def List.map_filter_def)
  next
    case (Some x)
    obtain w' dg i where "x = (w', dg, i)" by (cases x)
    then show ?thesis using Cons Some by (auto simp: week_tags_def week_txs_def List.map_filter_def tag_part_def)
  qed
qed (simp add: week_tags_def week_txs_def List.map_filter_def)

lemma ledger_week_plan:
  assumes "ledger_ok H payer P txs" "inj_on (plan_digest H) P" "week_txs w txs \<noteq> []"
  obtains p where "p \<in> P" "\<forall>t \<in> set (week_txs w txs). \<exists>hashes. tag_part t < length (parts p)
      \<and> t = send_part H payer w p hashes (tag_part t)"
proof -
  let ?from = "\<lambda>t p. \<exists>hashes. tag_part t < length (parts p) \<and> t = send_part H payer w p hashes (tag_part t)"
  have each: "\<exists>p \<in> P. ?from t p \<and> (plan_digest H p, tag_part t) \<in> set (week_tags w txs)" if t: "t \<in> set (week_txs w txs)" for t
  proof -
    obtain dg i where tg: "tx_tag WEEK_MEMO t = Some (w, dg, i)" and t': "t \<in> set txs"
      using t by (auto simp: week_txs_def split: option.splits)
    moreover have "from_plan H payer P t" using assms(1) t' by (simp add: ledger_ok_def)
    ultimately obtain p hashes where "p \<in> P" "dg = plan_digest H p" "i < length (parts p)" "t = send_part H payer w p hashes i"
      by (auto simp: from_plan_def)
    moreover have "tag_part t = i" using tg by (simp add: tag_part_def)
    ultimately show ?thesis using tg t' by (auto simp: set_week_tags)
  qed
  obtain t0 where "t0 \<in> set (week_txs w txs)" using assms(3) by (cases "week_txs w txs") auto
  then obtain p where p: "p \<in> P" "(plan_digest H p, tag_part t0) \<in> set (week_tags w txs)" using each by blast
  have "?from t p" if t: "t \<in> set (week_txs w txs)" for t
  proof -
    obtain q where q: "q \<in> P" "?from t q" "(plan_digest H q, tag_part t) \<in> set (week_tags w txs)" using each [OF t] by blast
    have "plan_digest H p = plan_digest H q"
      using assms(1) p(2) q(3) by (force simp: ledger_ok_def one_digest_def)
    then have "p = q" using assms(2) p(1) q(1) by (simp add: inj_on_def)
    then show ?thesis using q(2) by simp
  qed
  then show ?thesis using that p(1) by blast
qed

text \<open>What a week's transactions on chain send to an address, part by part.\<close>

definition sent_to :: "string \<Rightarrow> (string, int) dict list \<Rightarrow> nat list \<Rightarrow> int" where
  "sent_to a chunks is = sum_list (map (\<lambda>i. sum_list (map snd (filter (\<lambda>p. fst p = a) (chunks ! i)))) is)"

lemma sent_to_all:
  fixes chunks :: "(string, int) dict list"
  shows "sent_to a chunks [0..<length chunks] = sum_list (map snd (filter (\<lambda>p. fst p = a) (concat chunks)))"
proof -
  have "sum_list (map snd (filter (\<lambda>p. fst p = a) (concat cs))) = sum_list (map (\<lambda>c. sum_list (map snd (filter (\<lambda>p. fst p = a) c))) cs)"
    for cs :: "(string, int) dict list" by (induction cs) auto
  moreover have "map (\<lambda>i. sum_list (map snd (filter (\<lambda>p. fst p = a) (chunks ! i)))) [0..<length chunks]
      = map (\<lambda>c. sum_list (map snd (filter (\<lambda>p. fst p = a) c))) chunks"
    by (rule nth_equalityI) auto
  ultimately show ?thesis by (simp add: sent_to_def)
qed

lemma sent_to_mset: "mset is = mset js \<Longrightarrow> sent_to a chunks is = sent_to a chunks js"
  unfolding sent_to_def by (simp flip: sum_mset_sum_list add: mset_map)

lemma sent_to_le:
  fixes chunks :: "(string, int) dict list"
  assumes "distinct is" "set is \<subseteq> {i. i < length chunks}" "\<forall>p \<in> set (concat chunks). 0 \<le> snd p"
  shows "sent_to a chunks is \<le> sum_list (map snd (filter (\<lambda>p. fst p = a) (concat chunks)))"
proof -
  let ?f = "\<lambda>i. sum_list (map snd (filter (\<lambda>p. fst p = a) (chunks ! i)))"
  have "sent_to a chunks is = sum ?f (set is)"
    using assms(1) by (simp add: sent_to_def sum_list_distinct_conv_sum_set)
  also have "\<dots> \<le> sum ?f {..<length chunks}"
  proof (rule sum_mono2)
    show "0 \<le> ?f i" if "i \<in> {..<length chunks} - set is" for i
      using assms(3) that by (intro sum_list_nonneg) auto
  qed (use assms(2) in auto)
  also have "\<dots> = sent_to a chunks [0..<length chunks]"
    by (simp add: sent_to_def sum_list_distinct_conv_sum_set lessThan_atLeast0)
  finally show ?thesis by (simp only: sent_to_all)
qed

lemma sent_to_plan:
  "wf_dict p \<Longrightarrow> sum_list (map snd (filter (\<lambda>e. fst e = a) (concat (parts p)))) = get_or p a (0 :: int)"
  using get_or_tally_items [of "sorted_items p" a] by (simp add: concat_parts get_or_tally)

text \<open>A run of the payer that is not cut: it reads the chain and sends every part that is missing.\<close>

definition full_run :: "host \<Rightarrow> string \<Rightarrow> nat \<Rightarrow> (string, int) dict \<Rightarrow> (nat \<Rightarrow> string) \<Rightarrow> pydict list \<Rightarrow> pydict list" where
  "full_run H payer week payable hashes txs =
     (case paid_parts (index_of txs) week of
        Some (Inr found) \<Rightarrow>
          (case decide H payable found of
             Pay which \<Rightarrow> txs @ map (send_part H payer week payable hashes) which
           | Done \<Rightarrow> txs
           | Stop which \<Rightarrow> txs)
      | _ \<Rightarrow> txs)"

lemma decide_agreeing:
  assumes "\<forall>(i, (dg, h)) \<in> set found. dg = plan_digest H p"
  shows "decide H p found = (let todo = filter (\<lambda>i. i \<notin> set (map fst found)) [0..<length (parts p)] in if todo \<noteq> [] then Pay todo else Done)"
proof -
  have "filter (\<lambda>(q, (dg, h)). dg \<noteq> plan_digest H p) found = []" using assms by (auto simp: filter_empty_conv)
  then show ?thesis by (simp only: decide_def decide_parts_def Let_def) simp
qed

lemma decide_conflicting:
  assumes "(i, (dg, h)) \<in> set found" "dg \<noteq> plan_digest H p"
  shows "\<exists>which. decide H p found = Stop which"
proof -
  have "filter (\<lambda>(q, (dg, h)). dg \<noteq> plan_digest H p) found \<noteq> []" using assms by (auto simp: filter_empty_conv)
  then show ?thesis by (simp add: decide_def decide_parts_def Let_def sort_Nil_iff)
qed

lemma full_run_conflict:
  assumes "ledger_ok H payer P txs" "(dg, i) \<in> set (week_tags w txs)" "dg \<noteq> plan_digest H p"
  shows "full_run H payer w p hashes txs = txs"
proof -
  have one: "one_digest (week_tags w txs)" and r: "list_all readable_tx txs" using assms(1) by (simp_all add: ledger_ok_def)
  obtain f where f: "paid_parts (index_of txs) w = Some (Inr f)" "set (map fst f) = snd ` set (week_tags w txs)"
    "\<forall>i dg h. (i, (dg, h)) \<in> set f \<longrightarrow> (dg, i) \<in> set (week_tags w txs)"
    by (rule paid_parts_index [OF r])
  have "i \<in> set (map fst f)" using f(2) assms(2) by force
  then obtain dg' h where e: "(i, (dg', h)) \<in> set f" by force
  then have "(dg', i) \<in> set (week_tags w txs)" using f(3) by blast
  with one assms(2) have "fst (dg', i) = fst (dg, i)" unfolding one_digest_def by blast
  then have "dg' = dg" by simp
  then show ?thesis using decide_conflicting [OF e, of H p] assms(3) f(1) by (auto simp: full_run_def)
qed

lemma full_run_complete:
  fixes hashes :: "nat \<Rightarrow> string"
  assumes H: "digest_lengths H" and "ledger_ok H payer P txs" "p \<in> P" "inj_on (plan_digest H) P"
    and same: "\<forall>x \<in> set (week_tags w txs). fst x = plan_digest H p"
  defines "txs' \<equiv> full_run H payer w p hashes txs"
  shows "(paying H payer P)\<^sup>*\<^sup>* txs txs'" "snd ` set (week_tags w txs') = {..<length (parts p)}"
    "\<forall>x \<in> set (week_tags w txs'). fst x = plan_digest H p" "ledger_ok H payer P txs'"
proof -
  let ?n = "length (parts p)"
  have r: "list_all readable_tx txs" using assms(2) by (simp add: ledger_ok_def)
  obtain f where f: "paid_parts (index_of txs) w = Some (Inr f)" "set (map fst f) = snd ` set (week_tags w txs)"
    "\<forall>i dg h. (i, (dg, h)) \<in> set f \<longrightarrow> (dg, i) \<in> set (week_tags w txs)"
    by (rule paid_parts_index [OF r])
  have "dg = plan_digest H p" if "(i, (dg, h)) \<in> set f" for i dg h using that f(3) same by fastforce
  then have dec: "decide H p f = (let todo = filter (\<lambda>i. i \<notin> set (map fst f)) [0..<?n] in if todo \<noteq> [] then Pay todo else Done)"
    by (intro decide_agreeing) blast
  define todo where "todo = filter (\<lambda>i. i \<notin> set (map fst f)) [0..<?n]"
  have run: "txs' = txs @ map (send_part H payer w p hashes) todo"
    unfolding txs'_def full_run_def using f(1) dec by (simp add: todo_def Let_def)
  have step: "paying H payer P txs txs' \<or> txs' = txs"
  proof (cases "todo = []")
    case False
    then have "decide H p f = Pay todo" using dec by (simp add: todo_def Let_def)
    then show ?thesis using paying.run [OF f(1) assms(3), of H todo "length todo" payer hashes] run by simp
  qed (simp add: run)
  then show "(paying H payer P)\<^sup>*\<^sup>* txs txs'" by auto
  show "ledger_ok H payer P txs'"
    using step
  proof
    assume "paying H payer P txs txs'"
    then show ?thesis using assms(2) by (elim payingE) (auto intro: ledger_ok_run [OF H] ledger_ok_other)
  qed (use assms(2) in simp)
  have tags: "week_tags w txs' = week_tags w txs @ map (\<lambda>i. (plan_digest H p, i)) todo"
    by (simp add: run week_tags_append week_tags_sent [OF H])
  then show "\<forall>x \<in> set (week_tags w txs'). fst x = plan_digest H p" using same by auto
  have "i < ?n" if i: "(dg, i) \<in> set (week_tags w txs)" for dg i
  proof -
    obtain t where t: "t \<in> set txs" "tx_tag WEEK_MEMO t = Some (w, dg, i)" using i by (auto simp: set_week_tags)
    then obtain q where q: "q \<in> P" "dg = plan_digest H q" "i < length (parts q)"
      using assms(2) unfolding ledger_ok_def from_plan_def by metis
    then have "q = p" using same i assms(3,4) by (fastforce simp: inj_on_def)
    then show ?thesis using q(3) by simp
  qed
  moreover have "snd ` set (week_tags w txs') = snd ` set (week_tags w txs) \<union> set todo"
    by (auto simp: tags image_Un image_image)
  ultimately show "snd ` set (week_tags w txs') = {..<?n}" using f(2) by (auto simp: todo_def)
qed

section \<open>Properties\<close>

text \<open>
  C12: no part of a week is ever paid twice. From an empty ledger, after any number of runs of the payer, each with the
  plan it then computes, each cut at any point, interleaved with any other transactions of the account, every week's
  payments on chain belong to one plan, are parts of it, each at most once; so no address has received more for the
  week than that plan gives it. Assumed: digests have their length, the plans ever computed have different digests,
  and every broadcast part is in a block, or dropped, before the next run reads the chain.
\<close>

theorem no_part_paid_twice:
  assumes "digest_lengths H" "inj_on (plan_digest H) P" "(paying H payer P)\<^sup>*\<^sup>* [] txs" "week_txs w txs \<noteq> []"
    and "\<forall>p \<in> P. wf_dict p \<and> (\<forall>e \<in> set p. 0 \<le> snd e)"
  shows "distinct (map tag_part (week_txs w txs))
    \<and> (\<exists>p \<in> P. (\<forall>t \<in> set (week_txs w txs). \<exists>hashes. tag_part t < length (parts p) \<and> t = send_part H payer w p hashes (tag_part t))
          \<and> (\<forall>a. sent_to a (parts p) (map tag_part (week_txs w txs)) \<le> get_or p a 0))"
proof -
  note ok = ledger_invariant [OF assms(1,3)]
  then have d: "distinct (map tag_part (week_txs w txs))"
    by (auto simp: ledger_ok_def one_digest_def simp flip: week_tags_parts)
  obtain p where p: "p \<in> P" "\<forall>t \<in> set (week_txs w txs). \<exists>hashes. tag_part t < length (parts p)
      \<and> t = send_part H payer w p hashes (tag_part t)"
    using ok assms(2,4) by (rule ledger_week_plan)
  have amount: "sent_to a (parts p) (map tag_part (week_txs w txs)) \<le> get_or p a 0" for a
  proof -
    have "sent_to a (parts p) (map tag_part (week_txs w txs)) \<le> sum_list (map snd (filter (\<lambda>e. fst e = a) (concat (parts p))))"
      using d p assms(5) by (intro sent_to_le) (auto simp: concat_parts)
    also have "\<dots> = get_or p a 0" using assms(5) p(1) by (simp add: sent_to_plan)
    finally show ?thesis .
  qed
  show ?thesis using d p amount by blast
qed

lemma sample_paying:
  "(paying sample_host ''p'' {[(''a'', 5)]})\<^sup>*\<^sup>* [] [send_part sample_host ''p'' 0 [(''a'', 5)] (\<lambda>i. []) 0]"
proof -
  have none: "paid_parts (index_of []) 0 = Some (Inr [])"
    using payer_txs_whole [of "[]" "[]"] by (simp add: paid_parts_def)
  have "parts [(''a'', 5)] = [[(''a'', 5)]]" by (simp add: parts_def sorted_items_def BATCH_def slices.simps)
  then have "decide sample_host [(''a'', 5)] [] = Pay [0]" by (simp add: decide_def decide_parts_def)
  from paying.run [OF none _ this, of "{[(''a'', 5)]}" "Suc 0" "''p''" "\<lambda>i. []"]
  have "paying sample_host ''p'' {[(''a'', 5)]} [] [send_part sample_host ''p'' 0 [(''a'', 5)] (\<lambda>i. []) 0]" by simp
  then show ?thesis by auto
qed

theorem no_part_paid_twice_witness:
  "\<exists>txs. week_txs 0 txs \<noteq> [] \<and> distinct (map tag_part (week_txs 0 txs))
     \<and> sent_to ''a'' (parts [(''a'', 5)]) (map tag_part (week_txs 0 txs)) \<le> 5"
proof -
  let ?txs = "[send_part sample_host ''p'' 0 [(''a'', 5)] (\<lambda>i. []) 0]" and ?P = "{[(''a'', 5)]} :: (string, int) dict set"
  have ne: "week_txs 0 ?txs \<noteq> []" by (simp add: week_txs_def send_part_tag [OF sample_digest_lengths])
  have "\<forall>p \<in> ?P. wf_dict p \<and> (\<forall>e \<in> set p. 0 \<le> snd e)" by (simp add: wf_dict_def)
  from no_part_paid_twice [OF sample_digest_lengths _ sample_paying ne this]
  have d: "distinct (map tag_part (week_txs 0 ?txs))"
    and le: "sent_to ''a'' (parts [(''a'', 5)]) (map tag_part (week_txs 0 ?txs)) \<le> get_or [(''a'', 5)] ''a'' 0" by auto
  have "get_or [(''a'', 5 :: int)] ''a'' 0 = 5" by (simp add: get_or_def)
  then show ?thesis using ne d le by (intro exI [of _ ?txs] conjI) (assumption | simp)+
qed

text \<open>
  C16: a run that is cut is finished by the next one, and a plan that changed pays nothing. After any number of runs, an
  uncut run for the same plan leaves each part of the week on chain exactly once, every address with exactly what the plan
  gives it, and the run after it finds nothing to do; a run whose plan is not the one of the parts on chain sends nothing.
\<close>

theorem week_paid_exactly_once:
  assumes "digest_lengths H" "inj_on (plan_digest H) P" "(paying H payer P)\<^sup>*\<^sup>* [] txs" "p \<in> P" "wf_dict p"
  shows "(if \<forall>x \<in> set (week_tags w txs). fst x = plan_digest H p
          then let txs' = full_run H payer w p hashes txs in
            (paying H payer P)\<^sup>*\<^sup>* [] txs'
            \<and> mset (map tag_part (week_txs w txs')) = mset [0..<length (parts p)]
            \<and> (\<forall>a. sent_to a (parts p) (map tag_part (week_txs w txs')) = get_or p a 0)
            \<and> (\<exists>found. paid_parts (index_of txs') w = Some (Inr found) \<and> decide H p found = Done)
            \<and> full_run H payer w p hashes txs' = txs'
          else full_run H payer w p hashes txs = txs)"
proof -
  note ok = ledger_invariant [OF assms(1,3)]
  show ?thesis
  proof (cases "\<forall>x \<in> set (week_tags w txs). fst x = plan_digest H p")
    case False
    then show ?thesis using full_run_conflict [OF ok, of _ _ w p hashes] by (simp only: if_False) force
  next
    case True
    let ?txs = "full_run H payer w p hashes txs" and ?n = "length (parts p)"
    note F = full_run_complete [OF assms(1) ok assms(4,2) True, of hashes]
    have reach: "(paying H payer P)\<^sup>*\<^sup>* [] ?txs" using assms(3) F(1) by (rule rtranclp_trans)
    have d: "distinct (map tag_part (week_txs w ?txs))"
      using F(4) by (auto simp: ledger_ok_def one_digest_def simp flip: week_tags_parts)
    have "set (map tag_part (week_txs w ?txs)) = set [0..<?n]"
      using F(2) by (auto simp flip: week_tags_parts)
    then have m: "mset (map tag_part (week_txs w ?txs)) = mset [0..<?n]"
      using d by (simp only: set_eq_iff_mset_eq_distinct [symmetric] distinct_upt)
    have amounts: "sent_to a (parts p) (map tag_part (week_txs w ?txs)) = get_or p a 0" for a
      using sent_to_mset [OF m] by (simp add: sent_to_all sent_to_plan [OF assms(5)])
    have r: "list_all readable_tx ?txs" using F(4) by (simp add: ledger_ok_def)
    obtain f where f: "paid_parts (index_of ?txs) w = Some (Inr f)" "set (map fst f) = snd ` set (week_tags w ?txs)"
      "\<forall>i dg h. (i, (dg, h)) \<in> set f \<longrightarrow> (dg, i) \<in> set (week_tags w ?txs)"
      by (rule paid_parts_index [OF r])
    have "\<forall>(i, (dg, h)) \<in> set f. dg = plan_digest H p" using f(3) F(3) by fastforce
    from decide_agreeing [OF this] have fin: "decide H p f = Done" using f(2) F(2) by simp
    then have "full_run H payer w p hashes ?txs = ?txs" using f(1) by (simp add: full_run_def)
    then show ?thesis
      unfolding if_P [OF True] Let_def using reach m amounts f(1) fin by blast
  qed
qed

theorem week_paid_exactly_once_witness:
  "mset (map tag_part (week_txs 0 (full_run sample_host ''p'' 0 [(''a'', 5)] (\<lambda>i. []) []))) = mset [0..<length (parts [(''a'', 5)])]"
proof -
  have inj: "inj_on (plan_digest sample_host) {[(''a'', 5)]}" by simp
  have wf: "wf_dict [(''a'', 5 :: int)]" by (simp add: wf_dict_def)
  have none: "\<forall>x \<in> set (week_tags 0 []). fst x = plan_digest sample_host [(''a'', 5)]"
    by (simp add: week_tags_def List.map_filter_def)
  show ?thesis
    using week_paid_exactly_once [OF sample_digest_lengths inj rtranclp.rtrancl_refl singletonI wf, of 0 "''p''" "\<lambda>i. []"]
    unfolding if_P [OF none] Let_def by blast
qed

end
