(* ===== verification/Season_Publish.thy ===== *)
theory Season_Publish
  imports Season_Days
begin

text \<open>
  The publication of a ranked day, the end of \<open>rank_day\<close> in \<open>src/services/final_season_rank.py\<close>, and the
  refinement between the two sides of the season: what an honest service publishes is read back by the payer
  and accepted, the payer learning the kit floor and the fault commitments from the days themselves.
\<close>

section \<open>What a ranking publishes\<close>

record ranking_inputs =
  ri_evidence :: string
  ri_generator :: pyval
  ri_start :: int
  ri_finality :: int
  ri_epoch :: pyval
  ri_last :: int
  ri_end :: "int option"
  ri_verdicts :: pydict
  ri_unwound_from :: pyval
  ri_unwound :: "pyval option"
  ri_judge :: pyval
  ri_reports :: pyval
  ri_registered :: pyval
  ri_first_day :: pyval
  ri_not_dated :: pyval
  ri_jury_from :: pyval
  ri_jury_proof :: pyval
  ri_reveals :: pyval
  ri_reveals_source :: pyval
  ri_contradicted :: pyval
  ri_faults :: pyval

definition opt_val :: "('a \<Rightarrow> pyval) \<Rightarrow> 'a option \<Rightarrow> pyval" where
  "opt_val f x = (case x of None \<Rightarrow> PNone | Some y \<Rightarrow> f y)"

definition jury_inputs :: "rules \<Rightarrow> ranking_inputs \<Rightarrow> pydict" where
  "jury_inputs r i = [(''rule'', opt_val PStr (juror_rule r)), (''from_day'', ri_jury_from i),
     (''kit_min'', opt_val PInt (kit_min r)), (''fault_payer'', opt_val PStr (fault_payer r)),
     (''fault_periods'', opt_val (\<lambda>ps. PList (map period_obj ps)) (fault_periods r)),
     (''verdicts'', ri_jury_proof i), (''reveals'', ri_reveals i), (''reveals_source'', ri_reveals_source i),
     (''contradicted'', ri_contradicted i), (''faults'', ri_faults i)]"

definition day_inputs :: "rules \<Rightarrow> bool \<Rightarrow> bool \<Rightarrow> ranking_inputs \<Rightarrow> int \<Rightarrow> pydict" where
  "day_inputs r kit jury i paid_before =
     [(''evidence_sha256'', PStr (ri_evidence i)), (''generator'', ri_generator i), (''start_height'', PInt (ri_start i)),
      (''finality_blocks'', PInt (ri_finality i)), (''avail_epoch_blocks'', ri_epoch i),
      (''paid_before_udndr'', PInt paid_before), (''last_height'', PInt (ri_last i)),
      (''season_end_height'', opt_val PInt (ri_end i))]
   @ (if ri_verdicts i \<noteq> [] then [(''verdicts'', PDict (ri_verdicts i))] else [])
   @ (case ri_unwound i of None \<Rightarrow> [] | Some proof \<Rightarrow>
        [(''unwound_audit_work'', PDict [(''rule'', opt_val PStr (unwound_audit_work r)),
           (''from_day'', ri_unwound_from i), (''jobs'', proof)])])
   @ (if kit then
        [(''judge_presence'', ri_judge i),
         (''kit_floor'', PDict [(''kit_min'', opt_val PInt (kit_min r)), (''reports'', ri_reports i)]),
         (''probation'', PDict [(''bps'', opt_val PInt (probation_first_day_bps r)), (''registered_at'', ri_registered i),
            (''first_full_day'', ri_first_day i), (''not_dated'', ri_not_dated i)])]
      else [])
   @ (if jury then [(''jury'', PDict (jury_inputs r i))] else [])"

definition publish_day :: "host \<Rightarrow> rules_state \<Rightarrow> rules \<Rightarrow> ranking_inputs \<Rightarrow> int \<Rightarrow> day_result \<Rightarrow> pydict result" where
  "publish_day H st r i paid_before d =
     bind_res (pays_judge_presence r) (\<lambda>kit. bind_res (pays_jury_rule r) (\<lambda>jury.
     bind_res (to_json H st d) (\<lambda>out. Inr (out @ [(''inputs'', PDict (day_inputs r kit jury i paid_before))]))))"

section \<open>Reading it back\<close>

definition pub_of_row :: "bool \<Rightarrow> row \<Rightarrow> pub_row" where
  "pub_of_row kit x = \<lparr>p_id = PStr (row_id x), p_address = PStr (row_address x), p_presence = PInt (row_presence x),
     p_requests = PInt (row_requests x), p_verdicts = PInt (row_verdicts x), p_gross = PInt (row_gross x),
     p_payable = PInt (row_payable x), p_paid = PInt (row_paid x), p_reason = PStr (row_reason x),
     p_judge = PInt (if kit then row_judge x else 0), p_probation = PBool (kit \<and> row_probation x),
     p_kit = (if kit then row_kit x else PNone), p_undated = PBool (kit \<and> row_undated x)\<rparr>"

lemma parse_row_json: "parse_row kit (row_json kit n x) = Inr (pub_of_row kit x)"
  by (cases kit) (simp_all add: parse_row_def row_json_def pub_of_row_def vitem_def ditem_def vobj_def get_or_def dget_def)

definition pub_of_day :: "rules \<Rightarrow> bool \<Rightarrow> bool \<Rightarrow> string \<Rightarrow> day_result \<Rightarrow> pub_day" where
  "pub_of_day r kit jury ev d = \<lparr>pd_day = PInt (res_day d), pd_fp = PStr (res_fingerprint d), pd_gross = PInt (res_gross d),
     pd_payable = PInt (res_payable d), pd_budget = PInt (res_budget d), pd_paid = PInt (res_paid d),
     pd_num = PInt (res_num d), pd_den = PInt (res_den d), pd_rows = map (pub_of_row kit) (res_rows d),
     pd_kit_min = (if kit then opt_val PInt (kit_min r) else PNone),
     pd_jury = (if jury then Some [(''kit_min'', if kit then opt_val PInt (kit_min r) else PNone),
        (''fault_periods'', opt_val (\<lambda>ps. PList (map period_obj ps)) (fault_periods r)),
        (''fault_payer'', opt_val PStr (fault_payer r))] else None),
     pd_evidence = PStr ev\<rparr>"

lemma map_res_rows_json:
  "map_res (parse_row kit) (map (\<lambda>(n, x). row_json kit n x) (enumerate m xs)) = Inr (map (pub_of_row kit) xs)"
  by (induction xs arbitrary: m) (simp_all add: parse_row_json)

lemma day_inputs_get:
  "dget (day_inputs r kit jury i b) ''kit_floor''
     = (if kit then PDict [(''kit_min'', opt_val PInt (kit_min r)), (''reports'', ri_reports i)] else PNone)"
  "dget (day_inputs r kit jury i b) ''jury'' = (if jury then PDict (jury_inputs r i) else PNone)"
  "dget (day_inputs r kit jury i b) ''evidence_sha256'' = PStr (ri_evidence i)"
  "ditem (day_inputs r kit jury i b) ''season_end_height'' = Inr (opt_val PInt (ri_end i))"
  "ditem (day_inputs r kit jury i b) ''last_height'' = Inr (PInt (ri_last i))"
  by (simp_all add: day_inputs_def dget_def ditem_def get_or_def split: option.splits)

lemma jury_inputs_get:
  "dget (jury_inputs r i) ''fault_periods'' = opt_val (\<lambda>ps. PList (map period_obj ps)) (fault_periods r)"
  "dget (jury_inputs r i) ''fault_payer'' = opt_val PStr (fault_payer r)"
  by (simp_all add: jury_inputs_def dget_def get_or_def)

lemma publish_then_parse:
  assumes "publish_day H st r i b d = Inr out" "publishes_kit_fields H st (res_fingerprint d) = pays_judge_presence r"
    and "pays_judge_presence r = Inr kit" "pays_jury_rule r = Inr jury"
    and "pred_option (\<lambda>e. 0 < e \<and> e = ri_last i) (ri_end i)"
  shows "parse_day (PDict out) = Inr (pub_of_day r kit jury (ri_evidence i) d, ri_end i)"
proof -
  have out: "out = [(''season'', PStr (season RULES)), (''day'', PInt (res_day d)),
       (''rules_fingerprint'', PStr (res_fingerprint d)), (''total_gross_udndr'', PInt (res_gross d)),
       (''total_payable_udndr'', PInt (res_payable d)), (''day_budget_udndr'', PInt (res_budget d)),
       (''total_paid_udndr'', PInt (res_paid d)),
       (''pro_rata'', PList [PInt (res_num d), PInt (res_den d)]),
       (''ranking'', PList (map (\<lambda>(n, x). row_json kit n x) (enumerate 0 (res_rows d)))),
       (''inputs'', PDict (day_inputs r kit jury i b))]"
    using assms(1-4) by (simp add: publish_day_def to_json_def)
  have season_end: "(case opt_val PInt (ri_end i) of PNone \<Rightarrow> Inr None
       | PInt e \<Rightarrow> if PInt (ri_last i) = PInt e \<and> 0 < e then Inr (Some e) else Inl ValueError
       | _ \<Rightarrow> Inl ValueError) = (Inr (ri_end i) :: int option result)"
    using assms(5) by (cases "ri_end i") (simp_all add: opt_val_def)
  show ?thesis
    by (cases kit; cases jury) (simp_all add: out parse_day_def vitem_def ditem_def [of "_ # _"] vobj_def iter_of_def
        map_res_rows_json day_inputs_get jury_inputs_get season_end Let_def pub_of_day_def vindex_def dget_def [of "_ # _"] get_or_def
        dict_of_def)
qed


section \<open>An honest day passes the check\<close>

definition measured :: "identity \<Rightarrow> bool" where
  "measured i \<longleftrightarrow> 0 \<le> presence i \<and> 0 \<le> verified_requests i \<and> 0 \<le> verdicts i"

text \<open>The row the payer sees: under a set without kit fields the kit is not published.\<close>

definition seen_row :: "bool \<Rightarrow> row \<Rightarrow> row" where
  "seen_row kit x = (if kit then x else x\<lparr>row_kit := PNone\<rparr>)"

lemma gross_of_flags:
  assumes "gross_of i r = Inr g" "pays_judge_presence r = Inr kit"
  shows "is_bool (probation i)" "is_bool (registration_not_dated i)" "judge_active i = 0 \<or> judge_active i = 1"
    and "\<not> kit \<Longrightarrow> judge_active i = 0 \<and> \<not> truthy (probation i) \<and> \<not> truthy (registration_not_dated i)"
proof -
  show "is_bool (probation i)" "is_bool (registration_not_dated i)" "judge_active i = 0 \<or> judge_active i = 1"
    using assms(1) by (auto simp: gross_of_def split: if_splits)
  show "\<not> kit \<Longrightarrow> judge_active i = 0 \<and> \<not> truthy (probation i) \<and> \<not> truthy (registration_not_dated i)"
    using assms by (auto simp: gross_of_def Let_def split: if_splits)
qed

lemma kit_allows_pay_good:
  "kit_allows_pay i r = Inr b \<Longrightarrow> pays_judge_presence r = Inr True \<Longrightarrow> good_kit (kit_version i)"
  by (cases "kit_version i") (auto simp: kit_allows_pay_def good_kit_def split: if_splits)

lemma facts_of_seen_row:
  assumes "row_of i r = Inr x" "pays_judge_presence r = Inr kit"
    and "row_id y = row_id x" "row_address y = row_address x" "row_presence y = row_presence x"
    "row_requests y = row_requests x" "row_verdicts y = row_verdicts x" "row_judge y = row_judge x"
    "row_probation y = row_probation x" "row_kit y = row_kit x" "row_undated y = row_undated x"
  shows "facts_of_row (seen_row kit y) = (if kit then i else i\<lparr>kit_version := PNone\<rparr>)"
  using assms(1)
proof (rule row_of_spec)
  assume g: "gross_of i r = Inr (row_gross x)"
    and f: "row_id x = miner_id i" "row_address x = payout_address i" "row_presence x = presence i"
      "row_requests x = verified_requests i" "row_verdicts x = verdicts i" "row_judge x = judge_active i"
      "row_probation x = truthy (probation i)" "row_kit x = kit_version i"
      "row_undated x = truthy (registration_not_dated i)"
  have "PBool (truthy (probation i)) = probation i" "PBool (truthy (registration_not_dated i)) = registration_not_dated i"
    using gross_of_flags(1,2) [OF g assms(2)] by (auto simp: is_bool_iff)
  then show ?thesis using assms(3-) f by (simp add: facts_of_row_def seen_row_def)
qed

lemma gross_of_kit_irrelevant: "gross_of (i\<lparr>kit_version := v\<rparr>) r = gross_of i r"
  by (simp add: gross_of_def presence_paid_def Let_def cong: if_cong)

lemma honest_row_checks:
  assumes row: "row_of i r = Inr x" and kit: "pays_judge_presence r = Inr kit" and "measured i"
    and paid: "0 \<le> row_payable x * fst s div snd s" "row_payable x * fst s div snd s \<le> row_payable x"
    and "row_id x \<notin> set seen"
  shows "check_row r kit seen (pub_of_row kit (pay_row s x)) = Inr None
    \<and> row_view (pub_of_row kit (pay_row s x)) = Some (seen_row kit (pay_row s x))"
  using row
proof (rule row_of_spec)
  fix kit_ok reg_ok
  assume g: "gross_of i r = Inr (row_gross x)" and k: "kit_allows_pay i r = Inr kit_ok"
    and u: "registration_allows_pay i r = Inr reg_ok"
    and p: "row_payable x = (if payout_address i \<noteq> [] \<and> kit_ok \<and> reg_ok then row_gross x else 0)"
    and f: "row_id x = miner_id i" "row_address x = payout_address i" "row_presence x = presence i"
      "row_requests x = verified_requests i" "row_verdicts x = verdicts i" "row_judge x = judge_active i"
      "row_probation x = truthy (probation i)" "row_kit x = kit_version i"
      "row_undated x = truthy (registration_not_dated i)"
  let ?y = "pay_row s x"
  note flags = gross_of_flags [OF g kit]
  have view: "row_view (pub_of_row kit ?y) = Some (seen_row kit ?y)"
    using flags(4) f by (cases kit) (auto simp: row_view_def pub_of_row_def seen_row_def)
  have facts: "facts_of_row (seen_row kit ?y) = (if kit then i else i\<lparr>kit_version := PNone\<rparr>)"
    by (rule facts_of_seen_row [OF row kit]) simp_all
  have pays: "kit_allows_pay (facts_of_row (seen_row kit ?y)) r = Inr kit_ok"
    "registration_allows_pay (facts_of_row (seen_row kit ?y)) r = Inr reg_ok"
    "gross_of (facts_of_row (seen_row kit ?y)) r = Inr (row_gross x)"
    using g k u kit by (auto simp: facts gross_of_kit_irrelevant kit_allows_pay_def registration_allows_pay_def)
  have sel: "row_address (seen_row kit ?y) = payout_address i" "row_gross (seen_row kit ?y) = row_gross x"
    "row_payable (seen_row kit ?y) = row_payable x" "row_paid (seen_row kit ?y) = row_payable x * fst s div snd s"
    using f by (simp_all add: seen_row_def)
  have "check_amounts r (seen_row kit ?y) = Inr None"
    using paid p by (cases kit_ok; cases reg_ok; cases "payout_address i = []") (simp_all add: check_amounts_def pays sel)
  moreover have "good_kit (if kit then row_kit x else PNone)"
    using kit_allows_pay_good [OF k] kit f by (auto simp: good_kit_def)
  ultimately show ?thesis
    using view assms(3,6) flags f
    by (cases kit) (auto simp: check_row_def pub_of_row_def is_count_def is_whole_def is_bool_def measured_def)
qed


definition honest_row :: "rules \<Rightarrow> int \<times> int \<Rightarrow> row \<Rightarrow> bool" where
  "honest_row r s y \<longleftrightarrow> (\<exists>i x. y = pay_row s x \<and> row_of i r = Inr x \<and> measured i
     \<and> 0 \<le> row_payable x * fst s div snd s \<and> row_payable x * fst s div snd s \<le> row_payable x)"

lemma honest_rows_check:
  assumes "pays_judge_presence r = Inr kit"
  shows "list_all (honest_row r s) ys \<Longrightarrow> distinct (map row_id ys) \<Longrightarrow> set seen \<inter> row_id ` set ys = {} \<Longrightarrow>
    check_rows r kit seen (map (pub_of_row kit) ys) = Inr None
    \<and> list_all (\<lambda>y. row_view (pub_of_row kit y) = Some (seen_row kit y)) ys"
proof (induction ys arbitrary: seen)
  case (Cons y ys)
  obtain i x where y: "y = pay_row s x" "row_of i r = Inr x" "measured i"
    "0 \<le> row_payable x * fst s div snd s" "row_payable x * fst s div snd s \<le> row_payable x"
    using Cons.prems(1) by (auto simp: honest_row_def)
  have ok: "check_row r kit seen (pub_of_row kit y) = Inr None \<and> row_view (pub_of_row kit y) = Some (seen_row kit y)"
    unfolding y(1) by (rule honest_row_checks [OF y(2) assms y(3-5)]) (use Cons.prems(3) y(1) in auto)
  have "check_rows r kit (row_id y # seen) (map (pub_of_row kit) ys) = Inr None
      \<and> list_all (\<lambda>y. row_view (pub_of_row kit y) = Some (seen_row kit y)) ys"
    using Cons.prems by (intro Cons.IH) auto
  moreover have "p_id (pub_of_row kit y) = PStr (row_id y)" by (simp add: pub_of_row_def)
  ultimately show ?case using ok by simp
qed simp

lemma computed_rows_honest:
  assumes "compute_day H day ids b r = Inr d" "fair_rates r" "\<forall>i \<in> set ids. measured i"
  shows "list_all (honest_row r (res_num d, res_den d)) (res_rows d) \<and> check_totals r b d = (if b + res_paid d > cap_season r then Some OverSeasonCap else None)"
  using assms(1)
proof (rule compute_day_parts)
  fix rows s
  assume rows: "rows_of r [] ids = Inr rows"
    and s: "s = scale_of (sum_list (map row_payable rows)) (day_budget_of r b)"
    and d: "res_payable d = sum_list (map row_payable rows)" "res_budget d = day_budget_of r b"
      "res_rows d = sort_key rank_key (map (pay_row s) rows)" "res_gross d = sum_list (map row_gross (res_rows d))"
      "res_paid d = sum_list (map row_paid (res_rows d))" "res_num d = fst s" "res_den d = snd s"
  have nn: "\<forall>x \<in> set rows. 0 \<le> row_payable x"
    using rows_of_in [OF rows] row_of_amounts [OF _ assms(2)] by metis
  have "0 \<le> day_budget_of r b" by (simp add: day_budget_of_def)
  note scaled = scaled_rows(1) [OF nn this s]
  have honest: "honest_row r s (pay_row s x)" if x: "x \<in> set rows" for x
  proof -
    obtain i where "i \<in> set ids" "row_of i r = Inr x" using rows x by (rule rows_of_in)
    then show ?thesis using scaled x assms(3) unfolding honest_row_def by blast
  qed
  have payable: "res_payable d = sum_list (map row_payable (res_rows d))"
    by (simp add: d(1,3) sum_list_sort_key comp_def)
  have "0 \<le> cap_programme_day r" using assms(2) by (simp add: fair_rates_def)
  then have "res_paid d \<le> res_budget d" "res_budget d \<le> cap_programme_day r"
    using compute_day_total [OF assms(1,2)] day_budget_bounds [of r b] by auto
  moreover have "(res_num d, res_den d) = scale_of (res_payable d) (res_budget d)" using d s by simp
  moreover have "\<forall>x \<in> set (res_rows d). row_paid x = row_payable x * res_num d div res_den d" by (auto simp: d)
  ultimately have "check_totals r b d = (if b + res_paid d > cap_season r then Some OverSeasonCap else None)"
    using payable d(2,4,5) by (auto simp: check_totals_def Let_def scale_of_def list_ex_iff)
  then show ?thesis using honest d(6,7) by (auto simp: d(3) list_all_iff)
qed

lemma honest_day_checks:
  assumes "compute_day H day ids b r = Inr d" "fair_rates r" "\<forall>i \<in> set ids. measured i"
    and kit: "pays_judge_presence r = Inr kit" and "b \<le> cap_season r"
  shows "check_day r b (pub_of_day r kit jury ev d) = Inr None \<and> pub_paid (pub_of_day r kit jury ev d) = res_paid d"
proof -
  let ?p = "pub_of_day r kit jury ev d"
  note ranked = compute_day_sorted [OF assms(1)] and honest = computed_rows_honest [OF assms(1-3)]
  have rows: "check_rows r kit [] (map (pub_of_row kit) (res_rows d)) = Inr None"
    "list_all (\<lambda>y. row_view (pub_of_row kit y) = Some (seen_row kit y)) (res_rows d)"
    using honest_rows_check [OF kit, of "(res_num d, res_den d)" "res_rows d" "[]"] ranked honest by auto
  define v where "v = d\<lparr>res_rows := map (seen_row kit) (res_rows d), res_kit_min := whole_of (pd_kit_min ?p)\<rparr>"
  have "day_view ?p = Some v"
    using rows(2) by (auto simp: day_view_def pub_of_day_def v_def list_all_iff)
  moreover have "check_totals r b v = None"
  proof -
    have "row_paid (seen_row kit x) = row_paid x" "row_payable (seen_row kit x) = row_payable x"
      "row_gross (seen_row kit x) = row_gross x" for x by (simp_all add: seen_row_def)
    then have "check_totals r b v = check_totals r b d"
      by (simp add: check_totals_def v_def comp_def Let_def list_ex_iff)
    moreover have "b + res_paid d \<le> cap_season r"
      using day_books [OF assms(2,1) assms(5)] .
    ultimately show ?thesis using honest by simp
  qed
  moreover have "kit \<Longrightarrow> \<exists>k. kit_min r = Some k" using kit by (auto simp: pays_judge_presence_True)
  ultimately show ?thesis
    using kit rows(1) by (cases kit) (auto simp: check_day_def pub_of_day_def is_whole_def opt_val_def pub_paid_def)
qed


section \<open>The payer learns the sets from the days\<close>

text \<open>What is assumed of the digest: the sets of the season have different fingerprints.\<close>

definition no_collision :: "host \<Rightarrow> rules_state \<Rightarrow> bool" where
  "no_collision H st \<longleftrightarrow> distinct (map (fingerprint H) (RULE_HISTORY st))"

lemma find_enumerate:
  "distinct (map f xs) \<Longrightarrow> n < length xs \<Longrightarrow> find (\<lambda>(i, x). f x = f (xs ! n)) (enumerate m xs) = Some (m + n, xs ! n)"
proof (induction xs arbitrary: m n)
  case (Cons x xs)
  show ?case
  proof (cases n)
    case 0
    then show ?thesis by simp
  next
    case (Suc k)
    have "f (xs ! k) \<in> f ` set xs" using Cons.prems(2) Suc by simp
    then have "f x \<noteq> f (xs ! k)" using Cons.prems(1) by auto
    with Cons.IH [of k "Suc m"] Cons.prems Suc show ?thesis by simp
  qed
qed simp

lemma rule_set_of_at:
  assumes "no_collision H st" "n < length (RULE_HISTORY st)"
  shows "rule_set_of H st (PStr (fingerprint H (RULE_HISTORY st ! n))) = Some (n, RULE_HISTORY st ! n)"
  using find_enumerate [of "fingerprint H" "RULE_HISTORY st" n 0] assms
  by (simp add: rule_set_of_def no_collision_def)

lemma history_prefix:
  assumes "wf_rules st" "wf_rules st'" "keeps st st'"
  shows "\<exists>ext. RULE_HISTORY st' = RULE_HISTORY st @ ext"
proof -
  obtain k ps a k' ps' a' where st: "st = derived k ps a" "st' = derived k' ps' a'"
    using assms(1,2) by (metis wf_rules_cases)
  show ?thesis
    using assms(3) by (cases k; cases ps; cases a; cases k'; cases ps'; cases a')
      (auto simp: st history_derived opt_list_def keeps_def fixed_in_def)
qed

lemma no_collision_earlier: "wf_rules st \<Longrightarrow> wf_rules st' \<Longrightarrow> keeps st st' \<Longrightarrow> no_collision H st' \<Longrightarrow> no_collision H st"
  using history_prefix [of st st'] by (auto simp: no_collision_def)

lemma rule_set_of_unknown:
  assumes "wf_rules st" "wf_rules st'" "keeps st st'" "no_collision H st'"
    and "n < length (RULE_HISTORY st')" "length (RULE_HISTORY st) \<le> n"
  shows "rule_set_of H st (PStr (fingerprint H (RULE_HISTORY st' ! n))) = None"
proof (rule ccontr)
  assume "\<not> ?thesis"
  then obtain i r where "rule_set_of H st (PStr (fingerprint H (RULE_HISTORY st' ! n))) = Some (i, r)" by auto
  then have i: "i < length (RULE_HISTORY st)" "RULE_HISTORY st ! i = r"
    "fingerprint H (RULE_HISTORY st' ! n) = fingerprint H r"
    using rule_set_of_Some by fastforce+
  have "i < length (RULE_HISTORY st')" "RULE_HISTORY st' ! i = r"
    using keeps_history_prefix [OF assms(1-3) i(1)] i(2) by auto
  then have "i = n" using assms(4,5) i(3)
    by (metis length_map no_collision_def nth_eq_iff_index_eq nth_map)
  with i(1) assms(6) show False by simp
qed

lemma check_periods_triples:
  "map period_triple xs = map period_triple ys \<Longrightarrow> check_periods prev seen xs = check_periods prev seen ys"
proof (induction xs arbitrary: ys prev seen)
  case (Cons x xs)
  then obtain y zs where ys: "ys = y # zs" "period_triple y = period_triple x" "map period_triple xs = map period_triple zs"
    by (cases ys) auto
  have "check_periods p s xs = check_periods p s zs" for p s using Cons.IH [OF ys(3)] .
  then show ?case by (simp add: ys(1,2) split: option.split prod.split pyval.split)
qed simp

lemma check_fault_periods_objs:
  assumes "valid_periods ps"
  shows "check_fault_periods (PList (map period_obj (map period_rec ps))) = Inr ps"
proof -
  have "period_triple (period_obj (period_rec p)) = period_triple (period_val p)" for p
    by (cases p) (auto simp: period_obj_def period_rec_def period_val_def period_triple_def has_keys_def dget_def get_or_def)
  then have "check_periods (- 1) [] (map period_obj (map period_rec ps)) = check_periods (- 1) [] (map period_val ps)"
    by (intro check_periods_triples) simp
  moreover have "ps \<noteq> []" using assms by (simp add: valid_periods_def)
  ultimately show ?thesis
    using check_fault_periods_val [OF assms] by (simp add: check_fault_periods_def periods_val_def)
qed

lemma learn_kit:
  assumes "wf_rules st" "wf_rules srv" "keeps st srv" "no_collision H srv" "KIT_MIN srv = Some k" "KIT_MIN st = None"
    and "pd_fp d = PStr (fingerprint H (kit_set k))" "pd_kit_min d = PInt k"
  shows "\<exists>st'. set_of_day H st d = (st', Inr (Some (4, kit_set k))) \<and> wf_rules st' \<and> keeps st st' \<and> keeps st' srv"
proof -
  obtain kk ps a where st: "st = derived kk ps a" "settings_ok kk ps a" using assms(1) by (rule wf_rules_cases)
  have none: "kk = None" using assms(6) st(1) by simp
  have srv: "srv = derived (Some k) (FAULT_PERIODS srv) (FAULT_PAYER srv)" "1 \<le> k"
    using assms(2,5) by (auto simp: wf_rules_def settings_ok_def)
  have hist: "length (RULE_HISTORY st) = 4" "RULE_HISTORY srv ! 4 = kit_set k" "4 < length (RULE_HISTORY srv)"
    by (simp add: st(1) none history_derived PUBLISHED_SETS_def opt_list_def)
      (subst srv(1), simp add: history_derived PUBLISHED_SETS_def opt_list_def)+
  let ?st = "derived (Some k) ps a"
  have set: "set_kit_min st (PInt k) = (?st, Inr (kit_set k))"
    using set_kit_min_ok [OF st(2) srv(2)] none st(1) by (simp add: fixed_in_def)
  have wf': "wf_rules ?st" and k1: "keeps st ?st" using set_kit_min_wf [OF assms(1), of "PInt k"] set by auto
  have k2: "keeps ?st srv" using assms(3,5) st(1) by (simp add: keeps_def fixed_in_def)
  have "rule_set_of H st (pd_fp d) = None"
    using rule_set_of_unknown [OF assms(1-4) hist(3)] hist assms(7) by simp
  moreover have "rule_set_of H ?st (pd_fp d) = Some (4, kit_set k)"
    using rule_set_of_at [OF no_collision_earlier [OF wf' assms(2) k2 assms(4)], of 4] assms(7)
    by (simp add: history_derived PUBLISHED_SETS_def opt_list_def)
  ultimately have "set_of_day H st d = (?st, Inr (Some (4, kit_set k)))"
    using assms(6-8) srv(2) set by (simp add: set_of_day_def try_kit_floor_def)
  then show ?thesis using wf' k1 k2 by blast
qed

lemma learn_jury:
  assumes "wf_rules st" "wf_rules srv" "keeps st srv" "no_collision H srv" "srv = derived (Some k) (Some ps) (Some a)"
    and "length (RULE_HISTORY st) \<le> 5" "pd_fp d = PStr (fingerprint H (jury_set k ps a))" "pd_kit_min d = PInt k"
    and "pd_jury d = Some [(''kit_min'', PInt k), (''fault_periods'', PList (map period_obj (map period_rec ps))),
           (''fault_payer'', PStr a)]"
  shows "\<exists>st'. set_of_day H st d = (st', Inr (Some (5, jury_set k ps a))) \<and> wf_rules st' \<and> keeps st st' \<and> keeps st' srv"
proof -
  obtain kk pp aa where st: "st = derived kk pp aa" "settings_ok kk pp aa" using assms(1) by (rule wf_rules_cases)
  have ok: "1 \<le> k" "valid_periods ps" "is_payer a" using assms(2) by (auto simp: assms(5) wf_rules_def settings_ok_def)
  have hist: "RULE_HISTORY srv ! 5 = jury_set k ps a" "5 < length (RULE_HISTORY srv)" "RULE_HISTORY srv ! 4 = kit_set k"
    by (simp_all add: assms(5) history_derived PUBLISHED_SETS_def opt_list_def)
  have sub: "fixed_in kk (Some k)" "fixed_in pp (Some ps)" "fixed_in aa (Some a)"
    using assms(3) by (simp_all add: st(1) assms(5) keeps_def)
  have nojury: "RULES_JURY st = None"
    using assms(6) by (auto simp: st(1) derived_def Let_def history_derived PUBLISHED_SETS_def opt_list_def split: option.splits)
  have unknown: "rule_set_of H st (pd_fp d) = None"
    using rule_set_of_unknown [OF assms(1-4) hist(2) assms(6)] hist(1) assms(7) by simp
  have "fingerprint H (kit_set k) \<noteq> fingerprint H (jury_set k ps a)"
    using assms(4) hist nth_eq_iff_index_eq [of "map (fingerprint H) (RULE_HISTORY srv)" 4 5]
    by (simp add: no_collision_def)
  then have kit: "try_kit_floor H st d = (st, Inr None)" using assms(7,8) by (simp add: try_kit_floor_def)
  have J: "jury_rules (PInt k) (PList (map period_obj (map period_rec ps))) (PStr a) = Inr (jury_set k ps a)"
    using ok check_fault_periods_objs [OF ok(2)] by (simp only: jury_rules_Inr) blast
  have mid: "(if KIT_MIN st = None then set_kit_min st (PInt k) else (st, Inr (jury_set k ps a)))
      = (derived (Some k) pp aa, Inr (if KIT_MIN st = None then kit_set k else jury_set k ps a))"
    using set_kit_min_ok [OF st(2) ok(1) sub(1)] sub(1) by (auto simp: st(1) fixed_in_def)
  have "settings_ok (Some k) pp aa" using st(2) ok by (simp add: settings_ok_def)
  note fin = set_fault_commitments_ok [OF this check_fault_periods_objs [OF ok(2)] ok(3) sub(2,3)]
  have "jury_set_named H st (PDict (the (pd_jury d))) (pd_fp d) = (srv, Inr (Some (jury_set k ps a)))"
    using nojury sub J check_fault_periods_objs [OF ok(2)] mid fin
    by (auto simp: jury_set_named_def assms(5,7,9) dget_def get_or_def Let_def st(1) fixed_in_def simp del: map_map)
  moreover have "rule_set_of H srv (pd_fp d) = Some (5, jury_set k ps a)"
    using rule_set_of_at [OF assms(4) hist(2)] hist(1) assms(7) by simp
  ultimately have "set_of_day H st d = (srv, Inr (Some (5, jury_set k ps a)))"
    using unknown kit nojury assms(9) by (simp add: set_of_day_def try_jury_def)
  then show ?thesis using assms(2,3) by auto
qed


lemma payer_learns:
  assumes "wf_rules st" "wf_rules srv" "keeps st srv" "no_collision H srv" "pos < length (RULE_HISTORY srv)"
    and r: "r = RULE_HISTORY srv ! pos" and "pays_judge_presence r = Inr kit" "pays_jury_rule r = Inr jury"
    and fp: "res_fingerprint d = fingerprint H r"
  shows "\<exists>st'. set_of_day H st (pub_of_day r kit jury ev d) = (st', Inr (Some (pos, r))) \<and> wf_rules st'
    \<and> keeps st st' \<and> keeps st' srv"
proof (cases "pos < length (RULE_HISTORY st)")
  case True
  then have "RULE_HISTORY st ! pos = r" using keeps_history_prefix [OF assms(1-3) True] r by simp
  then have "set_of_day H st (pub_of_day r kit jury ev d) = (st, Inr (Some (pos, r)))"
    using rule_set_of_at [OF no_collision_earlier [OF assms(1-4)] True] fp by (simp add: set_of_day_def pub_of_day_def)
  then show ?thesis using assms(1,3) by auto
next
  case False
  obtain k ps a where srv: "srv = derived k ps a" using assms(2) by (rule wf_rules_cases)
  obtain kk pp aa where st: "st = derived kk pp aa" using assms(1) by (rule wf_rules_cases)
  have four: "4 \<le> length (RULE_HISTORY st)" by (simp add: st history_derived PUBLISHED_SETS_def)
  with False assms(5) obtain n where k: "k = Some n"
    by (cases k) (auto simp: srv history_derived PUBLISHED_SETS_def opt_list_def)
  consider "pos = 4" | "pos = 5" "\<exists>p s. ps = Some p \<and> a = Some s"
    using False four assms(5) by (cases ps; cases a) (auto simp: srv k history_derived PUBLISHED_SETS_def opt_list_def, linarith)
  then show ?thesis
  proof cases
    case 1
    have rk: "r = kit_set n" by (simp add: r 1 srv k history_derived PUBLISHED_SETS_def opt_list_def)
    have "kit" using assms(7) by (simp add: rk rule_set_defs pays_judge_presence_def)
    moreover have "KIT_MIN st = None" using False 1
      by (cases kk) (auto simp: st history_derived PUBLISHED_SETS_def opt_list_def)
    moreover have "kit_min (kit_set n) = Some n" by (simp add: kit_set_def)
    ultimately show ?thesis
      using learn_kit [OF assms(1-4), of n "pub_of_day r kit jury ev d"] fp
      by (simp add: srv k rk 1 pub_of_day_def opt_val_def)
  next
    case 2
    then obtain p s where ps: "ps = Some p" "a = Some s" by blast
    have rj: "r = jury_set n p s" by (simp add: r 2 srv k ps history_derived PUBLISHED_SETS_def opt_list_def)
    have "kit" using assms(7) by (simp add: rj rule_set_defs pays_judge_presence_def)
    moreover have "jury" using assms(8)
      by (simp add: rj rule_set_defs pays_jury_rule_def pays_judge_presence_def)
    moreover have "kit_min (jury_set n p s) = Some n" "fault_payer (jury_set n p s) = Some s"
      "fault_periods (jury_set n p s) = Some (map period_rec p)" by (simp_all add: jury_set_def kit_set_def)
    moreover have "length (RULE_HISTORY st) \<le> 5" using False 2 by simp
    ultimately show ?thesis
      using learn_jury [OF assms(1-4), of n p s "pub_of_day r kit jury ev d"] fp
      by (simp add: srv k ps rj 2 pub_of_day_def opt_val_def)
  qed
qed

section \<open>A season served and read\<close>

type_synonym day_facts = "rules \<times> identity list \<times> ranking_inputs"

primrec serve_season :: "host \<Rightarrow> rules_state \<Rightarrow> int \<Rightarrow> int \<Rightarrow> day_facts list \<Rightarrow> pydict list result" where
  "serve_season H srv day paid_before [] = Inr []"
| "serve_season H srv day paid_before (f # fs) =
     (let (r, ids, i) = f in
      bind_res (compute_day H day ids paid_before r) (\<lambda>d.
      bind_res (publish_day H srv r i paid_before d) (\<lambda>doc.
      bind_res (serve_season H srv (day + 1) (paid_before + res_paid d) fs) (\<lambda>docs. Inr (doc # docs)))))"

text \<open>Facts an honest service can have: measured counts, a set of its history at a position that does not go back,
  and a season end, where it names one, that is the day's last block.\<close>

fun honest_facts :: "rules_state \<Rightarrow> nat \<Rightarrow> day_facts list \<Rightarrow> bool" where
  "honest_facts srv prev [] = True"
| "honest_facts srv prev ((r, ids, i) # fs) =
     (list_all measured ids \<and> pred_option (\<lambda>e. 0 < e \<and> e = ri_last i) (ri_end i)
      \<and> list_ex (\<lambda>pos. prev \<le> pos \<and> RULE_HISTORY srv ! pos = r \<and> honest_facts srv pos fs) [0..<length (RULE_HISTORY srv)])"

lemma history_caps_mono:
  assumes "wf_rules st" "i \<le> j" "j < length (RULE_HISTORY st)"
  shows "cap_season (RULE_HISTORY st ! i) \<le> cap_season (RULE_HISTORY st ! j)"
proof -
  obtain k ps a where st: "st = derived k ps a" using assms(1) by (rule wf_rules_cases)
  have "sorted (map cap_season (RULE_HISTORY st))"
    by (auto simp: st history_derived PUBLISHED_SETS_def opt_list_def rule_set_defs split: option.splits)
  then show ?thesis using assms(2,3) by (simp add: sorted_iff_nth_mono)
qed

lemma no_jury_keys: "juror_rule r = None \<Longrightarrow> fault_periods r = None \<Longrightarrow> fault_payer r = None \<Longrightarrow> pays_jury_rule r = Inr False"
  by (simp add: pays_jury_rule_def)

lemma jury_set_pays: "pays_jury_rule (jury_set k ps a) = Inr True"
  by (simp add: pays_jury_rule_def pays_judge_presence_def jury_set_def kit_set_def)

lemma history_pays_jury:
  assumes "wf_rules st" "r \<in> set (RULE_HISTORY st)"
  shows "\<exists>jury. pays_jury_rule r = Inr jury"
proof -
  obtain k ps a where "st = derived k ps a" using assms(1) by (rule wf_rules_cases)
  then have "r \<in> set PUBLISHED_SETS \<or> (\<exists>n. r = kit_set n) \<or> (\<exists>n p s. r = jury_set n p s)"
    using assms(2) by (auto simp: history_derived opt_list_def split: option.splits)
  moreover have "pays_jury_rule r = Inr False" if "r \<in> set PUBLISHED_SETS \<or> (\<exists>n. r = kit_set n)"
    using that by (intro no_jury_keys) (auto simp: PUBLISHED_SETS_def rule_set_defs)
  ultimately show ?thesis using jury_set_pays by blast
qed

text \<open>One served day, as the payer reads and checks it.\<close>

lemma served_day:
  assumes "wf_rules st" "wf_rules srv" "keeps st srv" "no_collision H srv" "pos < length (RULE_HISTORY srv)"
    and r: "RULE_HISTORY srv ! pos = r" and "\<forall>x \<in> set ids. measured x" "pred_option (\<lambda>e. 0 < e \<and> e = ri_last i) (ri_end i)"
    and d: "compute_day H n ids b r = Inr d" and doc: "publish_day H srv r i b d = Inr doc" and "b \<le> cap_season r"
  obtains p st' where "parse_day (PDict doc) = Inr (p, ri_end i)" "pd_day p = PInt n" "pub_paid p = res_paid d"
    "set_of_day H st p = (st', Inr (Some (pos, r)))" "wf_rules st'" "keeps st' srv" "check_day r b p = Inr None"
    "pd_paid p = PInt (res_paid d)"
proof -
  have hist: "r \<in> set (RULE_HISTORY srv)" using assms(5) r by auto
  obtain kit where kit: "pays_judge_presence r = Inr kit" using history_pays [OF assms(2) hist] by blast
  obtain jury where jury: "pays_jury_rule r = Inr jury" using history_pays_jury [OF assms(2) hist] by blast
  have fp: "res_fingerprint d = fingerprint H r" and day: "res_day d = n" using d by (auto elim: compute_day_parts)
  have "publishes_kit_fields H srv (res_fingerprint d) = pays_judge_presence r"
    using rule_set_of_at [OF assms(4,5)] r fp by (simp add: publishes_kit_fields_def)
  note parsed = publish_then_parse [OF doc this kit jury assms(8)]
  let ?p = "pub_of_day r kit jury (ri_evidence i) d"
  obtain st' where st': "set_of_day H st ?p = (st', Inr (Some (pos, r)))" "wf_rules st'" "keeps st' srv"
    using payer_learns [OF assms(1-5) r [symmetric] kit jury fp] by blast
  note ok = honest_day_checks [OF d history_fair [OF assms(2) hist] assms(7) kit assms(11), of jury "ri_evidence i"]
  show ?thesis
    by (rule that [OF parsed _ _ st'(1,2,3)]) (use ok day in \<open>simp_all add: pub_of_day_def\<close>)
qed

lemma served_season_accepted:
  assumes "wf_rules srv" "no_collision H srv"
  shows "wf_rules st \<Longrightarrow> keeps st srv \<Longrightarrow> honest_facts srv prev fs \<Longrightarrow> serve_season H srv n b fs = Inr docs \<Longrightarrow>
    prev < length (RULE_HISTORY srv) \<Longrightarrow> b \<le> cap_season (RULE_HISTORY srv ! prev) \<Longrightarrow>
    \<exists>days st'. map_res parse_day (map PDict docs) = Inr days \<and> map snd days = map (\<lambda>(r, ids, i). ri_end i) fs
      \<and> check_from H st n b prev (map fst days) = (st', Inr None) \<and> keeps st' srv"
proof (induction fs arbitrary: st prev n b docs)
  case (Cons f fs)
  obtain r ids i where f: "f = (r, ids, i)" by (cases f)
  obtain d doc rest where D: "compute_day H n ids b r = Inr d" "publish_day H srv r i b d = Inr doc"
    "serve_season H srv (n + 1) (b + res_paid d) fs = Inr rest" "docs = doc # rest"
    using Cons.prems(4) by (auto simp: f bind_res_eq_Inr)
  obtain pos where pos: "pos < length (RULE_HISTORY srv)" "prev \<le> pos" "RULE_HISTORY srv ! pos = r" "honest_facts srv pos fs"
    and m: "\<forall>x \<in> set ids. measured x" "pred_option (\<lambda>e. 0 < e \<and> e = ri_last i) (ri_end i)"
    using Cons.prems(3) by (auto simp: f list_ex_iff list_all_iff)
  have b: "b \<le> cap_season r" using Cons.prems(6) history_caps_mono [OF assms(1) pos(2,1)] pos(3) by simp
  obtain p st1 where P: "parse_day (PDict doc) = Inr (p, ri_end i)" "pd_day p = PInt n" "pub_paid p = res_paid d"
    "set_of_day H st p = (st1, Inr (Some (pos, r)))" "wf_rules st1" "keeps st1 srv" "check_day r b p = Inr None"
    "pd_paid p = PInt (res_paid d)"
    by (rule served_day [OF Cons.prems(1) assms(1) Cons.prems(2) assms(2) pos(1,3) m D(1,2) b])
  have "fair_rates r" using history_fair [OF assms(1), of r] pos(1,3) by auto
  then have "b + res_paid d \<le> cap_season (RULE_HISTORY srv ! pos)" using day_books [OF _ D(1) b] pos(3) by simp
  from Cons.IH [OF P(5,6) pos(4) D(3) pos(1) this] obtain days st' where
    R: "map_res parse_day (map PDict rest) = Inr days" "map snd days = map (\<lambda>(r, ids, i). ri_end i) fs"
      "check_from H st1 (n + 1) (b + res_paid d) pos (map fst days) = (st', Inr None)" "keeps st' srv"
    by blast
  have "check_from H st n b prev (map fst ((p, ri_end i) # days)) = (st', Inr None)"
    using P R(3) pos(2) by simp
  then show ?case using P(1) R D(4) f by (intro exI [of _ "(p, ri_end i) # days"] exI [of _ st']) simp
qed auto


section \<open>Properties\<close>

text \<open>
  C13: the two sides of the season agree. Whatever an honest service serves (days ranked in order on measured facts,
  under sets of its history that never go back, with the season's end on its own day) the payer reads back, day by day
  and with its season end, and its check accepts, provided the digest does not confuse two sets of the season; the
  payer need not know the kit floor, the fault periods or the fault payer beforehand, it learns them from the days and
  never contradicts the service's.
\<close>

theorem honest_season_accepted:
  assumes "rules_reachable H srv" "rules_reachable H st" "keeps st srv" "no_collision H srv"
    and "honest_facts srv 0 facts" "serve_season H srv 0 0 facts = Inr docs"
  shows "\<exists>days st'. map_res parse_day (map PDict docs) = Inr days \<and> map snd days = map (\<lambda>(r, ids, i). ri_end i) facts
    \<and> check_days H st (map fst days) = (st', Inr None) \<and> keeps st' srv"
proof -
  have wf: "wf_rules srv" "wf_rules st" using assms(1,2) by (auto intro: reachable_wf)
  obtain k ps a where srv: "srv = derived k ps a" using wf(1) by (rule wf_rules_cases)
  have "0 < length (RULE_HISTORY srv)" "0 \<le> cap_season (RULE_HISTORY srv ! 0)"
    by (simp_all add: srv history_derived PUBLISHED_SETS_def rule_set_defs)
  with served_season_accepted [OF wf(1) assms(4) wf(2) assms(3,5,6)] show ?thesis unfolding check_days_def by blast
qed

lemmas dumps_eval = rules_obj_def opt_key_def show_int_def show_nat.simps digit_char_def join_def json_str_def
  json_char_def sample_sum_def

lemma sample_sums:
  "sample_sum (dumps_compact H (PDict (rules_obj RULES_17))) = 21338"
  "sample_sum (dumps_compact H (PDict (rules_obj RULES))) = 33775"
  "sample_sum (dumps_compact H (PDict (rules_obj RULES_DOUBLED))) = 33909"
  "sample_sum (dumps_compact H (PDict (rules_obj RULES_MORE_REQUESTS))) = 33912"
  "sample_sum (dumps_compact H (PDict (rules_obj (kit_set 3)))) = 40258"
  by (simp_all add: dumps_eval rule_set_defs UNWOUND_AUDIT_WORK_def FINALITY_def)

lemma sample_fingerprint_neq:
  assumes "sample_sum (dumps_compact sample_host (PDict (rules_obj r))) = n" "length (show_nat n) = 5"
    and "sample_sum (dumps_compact sample_host (PDict (rules_obj r'))) = m" "length (show_nat m) = 5" "n \<noteq> m"
  shows "fingerprint sample_host r \<noteq> fingerprint sample_host r'"
proof
  assume eq: "fingerprint sample_host r = fingerprint sample_host r'"
  have "fingerprint sample_host r = hexdigest (take 32 (show_nat (sample_sum (dumps_compact sample_host (PDict (rules_obj r))))
      @ replicate 32 (CHR ''x'')))" for r
    by (simp add: fingerprint_def sample_host_def)
  then have "take 32 (show_nat n @ replicate 32 (CHR ''x'')) = take 32 (show_nat m @ replicate 32 (CHR ''x''))"
    using eq assms(1,3) by (simp only: hexdigest_inj)
  then have "take 5 (take 32 (show_nat n @ replicate 32 (CHR ''x''))) = take 5 (take 32 (show_nat m @ replicate 32 (CHR ''x'')))"
    by (rule arg_cong)
  then have "show_nat n = show_nat m" using assms(2,4) by (simp add: take_append)
  then have "read_nat (show_nat n) = read_nat (show_nat m)" by (rule arg_cong)
  with assms(5) show False by simp
qed

lemma sample_lengths:
  "length (show_nat 21338) = 5" "length (show_nat 33775) = 5" "length (show_nat 33909) = 5"
  "length (show_nat 33912) = 5" "length (show_nat 40258) = 5"
  by (simp_all add: show_nat.simps)

lemma sample_no_collision: "no_collision sample_host (derived (Some 3) None None)"
proof -
  note n = sample_fingerprint_neq [OF sample_sums(1) sample_lengths(1)] sample_fingerprint_neq [OF sample_sums(2) sample_lengths(2)]
    sample_fingerprint_neq [OF sample_sums(3) sample_lengths(3)] sample_fingerprint_neq [OF sample_sums(4) sample_lengths(4)]
  show ?thesis
    using n(1) [OF sample_sums(2) sample_lengths(2)] n(1) [OF sample_sums(3) sample_lengths(3)]
      n(1) [OF sample_sums(4) sample_lengths(4)] n(1) [OF sample_sums(5) sample_lengths(5)]
      n(2) [OF sample_sums(3) sample_lengths(3)] n(2) [OF sample_sums(4) sample_lengths(4)]
      n(2) [OF sample_sums(5) sample_lengths(5)] n(3) [OF sample_sums(4) sample_lengths(4)]
      n(3) [OF sample_sums(5) sample_lengths(5)] n(4) [OF sample_sums(5) sample_lengths(5)]
    by (simp add: no_collision_def history_derived PUBLISHED_SETS_def opt_list_def)
qed

definition sample_inputs :: ranking_inputs where
  "sample_inputs = \<lparr>ri_evidence = ''e'', ri_generator = PStr ''g'', ri_start = 10, ri_finality = 300, ri_epoch = PInt 60,
     ri_last = 17289, ri_end = None, ri_verdicts = [], ri_unwound_from = PNone, ri_unwound = None, ri_judge = PDict [],
     ri_reports = PDict [], ri_registered = PDict [], ri_first_day = PDict [], ri_not_dated = PDict [],
     ri_jury_from = PNone, ri_jury_proof = PDict [], ri_reveals = PDict [], ri_reveals_source = PNone,
     ri_contradicted = PList [], ri_faults = PNone\<rparr>"

definition sample_facts :: "day_facts list" where
  "sample_facts = [(RULES_17, [sample_identity ''m1'' 9 ''a1''], sample_inputs),
     (kit_set 3, [sample_identity ''m1'' 7 ''a1'', (sample_identity ''m2'' 5 ''a2'')\<lparr>kit_version := PInt 4\<rparr>],
      sample_inputs\<lparr>ri_end := Some 17289\<rparr>)]"

lemma sample_served: "\<exists>docs. serve_season sample_host (derived (Some 3) None None) 0 0 sample_facts = Inr docs"
proof -
  have kit: "pays_judge_presence RULES_17 = Inr False" "pays_judge_presence (kit_set 3) = Inr True"
    "pays_jury_rule RULES_17 = Inr False" "pays_jury_rule (kit_set 3) = Inr False"
    by (simp_all add: rule_set_defs pays_judge_presence_def pays_jury_rule_def)
  have fields: "publishes_kit_fields sample_host (derived (Some 3) None None) (fingerprint sample_host RULES_17) = Inr False"
    "publishes_kit_fields sample_host (derived (Some 3) None None) (fingerprint sample_host (kit_set 3)) = Inr True"
    using rule_set_of_at [OF sample_no_collision, of 0] rule_set_of_at [OF sample_no_collision, of 4] kit
    by (simp_all add: publishes_kit_fields_def history_derived PUBLISHED_SETS_def opt_list_def)
  have keys: "kit_min (kit_set 3) = Some 3" "judge_active_per_day (kit_set 3) = Some 500000"
    by (simp_all add: rule_set_defs)
  have rows: "\<exists>d. compute_day sample_host 0 [sample_identity ''m1'' 9 ''a1''] 0 RULES_17 = Inr d"
    "\<exists>d. compute_day sample_host n [sample_identity ''m1'' 7 ''a1'', (sample_identity ''m2'' 5 ''a2'')\<lparr>kit_version := PInt 4\<rparr>] b
       (kit_set 3) = Inr d" for n b
    by (simp_all add: compute_day_def row_of_def gross_of_def kit_allows_pay_def registration_allows_pay_def
        kit sample_identity_def presence_paid_def is_bool_def bool_of_def keys rkey_def kit_note_def Let_def bind_res_def)
  have pub: "\<exists>doc. publish_day sample_host (derived (Some 3) None None) r i b d = Inr doc"
    if "compute_day sample_host n ids b r = Inr d" "r = RULES_17 \<or> r = kit_set 3" for n ids b r i d
  proof -
    have "res_fingerprint d = fingerprint sample_host r" using that(1) by (rule compute_day_parts)
    then show ?thesis using that(2) kit fields by (auto simp: publish_day_def to_json_def)
  qed
  obtain d0 where d0: "compute_day sample_host 0 [sample_identity ''m1'' 9 ''a1''] 0 RULES_17 = Inr d0" using rows(1) by blast
  obtain d1 where d1: "compute_day sample_host 1 [sample_identity ''m1'' 7 ''a1'',
      (sample_identity ''m2'' 5 ''a2'')\<lparr>kit_version := PInt 4\<rparr>] (res_paid d0) (kit_set 3) = Inr d1" using rows(2) by blast
  obtain p0 p1 where "publish_day sample_host (derived (Some 3) None None) RULES_17 sample_inputs 0 d0 = Inr p0"
    "publish_day sample_host (derived (Some 3) None None) (kit_set 3) (sample_inputs\<lparr>ri_end := Some 17289\<rparr>) (res_paid d0) d1 = Inr p1"
    using pub [OF d0] pub [OF d1] by blast
  then show ?thesis using d0 d1 by (simp add: sample_facts_def)
qed

lemma sample_honest: "honest_facts (derived (Some 3) None None) 0 sample_facts"
  by (simp add: sample_facts_def sample_inputs_def sample_identity_def measured_def history_derived PUBLISHED_SETS_def
      opt_list_def upt_rec)

theorem honest_season_accepted_witness:
  "\<exists>docs days st'. serve_season sample_host (derived (Some 3) None None) 0 0 sample_facts = Inr docs
     \<and> map_res parse_day (map PDict docs) = Inr days
     \<and> check_days sample_host (derived None None None) (map fst days) = (st', Inr None)"
proof -
  obtain docs where docs: "serve_season sample_host (derived (Some 3) None None) 0 0 sample_facts = Inr docs"
    using sample_served by blast
  have "keeps (derived None None None) (derived (Some 3) None None)" by (simp add: keeps_def fixed_in_def)
  from honest_season_accepted [OF kit_reachable default_reachable this sample_no_collision sample_honest docs] docs
  show ?thesis by blast
qed


end
