(* ===== verification/Season_Plan.thy ===== *)
theory Season_Plan
  imports Season_Payout Season_Publish
begin

text \<open>
  What a plan of the payer stands on: the search of the account's transactions is complete or refused, the days under
  the doubled rates are those the payer names, and a week that is planned is owed, all its days published and
  accepted, and no more than the rules give.
\<close>

section \<open>The doubled rates\<close>

lemma doubled_position:
  assumes "wf_rules st" "pos < length (RULE_HISTORY st)"
  shows "RULE_HISTORY st ! pos \<in> set (doubled_sets st) \<longleftrightarrow> 2 \<le> pos"
proof -
  have st: "st = derived (KIT_MIN st) (FAULT_PERIODS st) (FAULT_PAYER st)" using assms(1) by (simp add: wf_rules_def)
  have sets: "set (doubled_sets st) = set (drop 2 (RULE_HISTORY st))"
    by (subst (1 2) st) (simp add: derived_def Let_def doubled_sets_def sets_to_the_kit_def PUBLISHED_SETS_def)
  have rates: "\<forall>r \<in> set (drop 2 (RULE_HISTORY st)). presence_per_window r = 4000"
    by (subst st) (auto simp: derived_def Let_def PUBLISHED_SETS_def kit_set_def jury_set_def RULES_MORE_REQUESTS_def
        RULES_DOUBLED_def opt_list_def split: option.splits)
  have early: "\<forall>n < 2. presence_per_window (RULE_HISTORY st ! n) = 2000"
    by (subst st) (auto simp: derived_def Let_def PUBLISHED_SETS_def nth_append less_2_cases_iff RULES_def RULES_17_def)
  show ?thesis
  proof (cases "2 \<le> pos")
    case True
    then obtain k where k: "pos = 2 + k" by (auto dest: le_Suc_ex)
    then have "RULE_HISTORY st ! pos = drop 2 (RULE_HISTORY st) ! k" "k < length (drop 2 (RULE_HISTORY st))"
      using assms(2) by simp_all
    then show ?thesis using True unfolding sets by (metis nth_mem)
  next
    case False
    then show ?thesis using early rates unfolding sets by fastforce
  qed
qed

lemma rule_set_found:
  assumes "names_set H st d (pos, r)"
  shows "\<exists>pr. rule_set_of H st (pd_fp d) = Some pr"
proof -
  have "(pos, r) \<in> set (enumerate 0 (RULE_HISTORY st))" "PStr (fingerprint H r) = pd_fp d"
    using assms by (auto simp: names_set_def in_set_enumerate_eq)
  then have "rule_set_of H st (pd_fp d) \<noteq> None" by (auto simp: rule_set_of_def find_None_iff)
  then show ?thesis by simp
qed

lemma doubled_days_accepts:
  assumes "wf_rules st" "\<forall>d \<in> set ds. \<exists>pr. names_set H st d pr" "doubled_days H st f n ds = (st', Inr None)" "i < length ds"
  shows "\<exists>pos r. names_set H st (ds ! i) (pos, r) \<and> (2 \<le> pos \<longleftrightarrow> from_on f (n + int i))"
  using assms(2-)
proof (induction ds arbitrary: n i)
  case (Cons d ds)
  obtain pos r where pr: "rule_set_of H st (pd_fp d) = Some (pos, r)" using Cons.prems(1) rule_set_found by fastforce
  then have set: "set_of_day H st d = (st, Inr (Some (pos, r)))" by (simp add: set_of_day_def)
  have nm: "names_set H st d (pos, r)" using rule_set_of_names [OF pr] .
  have head: "r \<in> set (doubled_sets st) \<longleftrightarrow> from_on f n" and rest: "doubled_days H st f (n + 1) ds = (st', Inr None)"
    using Cons.prems(2) set by (auto simp: Let_def split: if_splits)
  show ?case
  proof (cases i)
    case 0
    then show ?thesis using nm head doubled_position [OF assms(1)] by (auto simp: names_set_def)
  next
    case (Suc j)
    have "n + int (Suc j) = (n + 1) + int j" by simp
    then show ?thesis using Cons.IH [OF _ rest, of j] Cons.prems(1,3) Suc by (metis nth_Cons_Suc Suc_less_eq length_Cons list.set_intros(2))
  qed
qed simp

lemma under_sets_names: "under_sets H st prev ds rs \<Longrightarrow> d \<in> set ds \<Longrightarrow> \<exists>pr. names_set H st d pr"
  by (induction H st prev ds rs rule: under_sets.induct) auto

text \<open>
  The days paid at the doubled rates are exactly those the payer names. When the check of the days and the check of
  the doubled rates both accept, every day names a set of the history, and the set carries the doubled rates (it is
  not one of the two first sets) if and only if the day is the named first day or a later one.
\<close>

theorem doubled_rates_from_their_day:
  assumes "rules_reachable H st" "check_days H st days = (st1, Inr None)" "check_doubled_from H st1 days df = (st2, Inr None)"
  shows "\<exists>f. first_day_of df = Inr f \<and> (\<forall>n < length days. \<exists>pos r. names_set H st1 (days ! n) (pos, r)
    \<and> (2 \<le> pos \<longleftrightarrow> from_on f (int n)))"
proof -
  have "wf_rules st" using assms(1) by (rule reachable_wf)
  then obtain rs where st1: "wf_rules st1" "under_sets H st1 0 days rs"
    using check_from_accepts assms(2) unfolding check_days_def by blast
  obtain f where f: "first_day_of df = Inr f" "doubled_days H st1 f 0 days = (st2, Inr None)"
    using assms(3) by (auto simp: check_doubled_from_def split: sum.splits)
  have "\<forall>d \<in> set days. \<exists>pr. names_set H st1 d pr" using under_sets_names [OF st1(2)] by blast
  from doubled_days_accepts [OF st1(1) this f(2)] show ?thesis using f(1) by auto
qed

section \<open>A planned week\<close>

lemma accepted_week:
  assumes "wf_rules st" "check_days H st days = (st', Inr None)" "set w \<subseteq> set days"
  shows "views w = Inr (map (\<lambda>d. the (day_view d)) w)" "\<forall>d \<in> set w. 0 \<le> pub_paid d \<and> pub_paid d \<le> 100 * UDNDR"
    "\<exists>out. week_totals (map (\<lambda>d. the (day_view d)) w) = Inr out \<and> dict_sum out = sum_list (map pub_paid w)"
proof -
  obtain rs where st': "wf_rules st'" and us: "under_sets H st' 0 days rs"
    and book: "booked accepted (\<lambda>(r, d). pub_paid d) 0 (zip rs days)"
    using check_from_accepts [OF assms(1)] assms(2) unfolding check_days_def by blast
  have len: "length rs = length days" and hist: "set rs \<subseteq> set (RULE_HISTORY st')"
    using under_sets_history [OF us] by auto
  have each: "\<exists>v. day_view d = Some v \<and> 0 \<le> pub_paid d \<and> pub_paid d \<le> 100 * UDNDR" if d: "d \<in> set w" for d
  proof -
    have "d \<in> set days" using d assms(3) by blast
    from accepted_zip_view [OF book len this]
    obtain v r b where v: "r \<in> set rs" "day_view d = Some v" "res_paid v = pub_paid d" "accepted b (r, d)" by blast
    then have "r \<in> set (RULE_HISTORY st')" using hist by blast
    from accepted_day_bounds [OF v(4) history_day_cap [OF st' this]] v show ?thesis by auto
  qed
  show "\<forall>d \<in> set w. 0 \<le> pub_paid d \<and> pub_paid d \<le> 100 * UDNDR" using each by blast
  have "\<forall>d \<in> set w. \<exists>v. day_view d = Some v" using each by blast
  then show "views w = Inr (map (\<lambda>d. the (day_view d)) w)" unfolding views_def by (induction w) auto
  show "\<exists>out. week_totals (map (\<lambda>d. the (day_view d)) w) = Inr out \<and> dict_sum out = sum_list (map pub_paid w)"
    by (rule accepted_week_totals [OF book len assms(3)])
qed

lemma set_days_of_week: "set (days_of_week wd loaded) \<subseteq> set loaded"
  by (auto simp: days_of_week_def dest: in_set_takeD in_set_dropD)

lemma plan_days_Inr:
  assumes "plan_days H st amended week src df = (st', Inr (payable, aside, wd))"
  obtains loaded l st1 vs where "load_days src 0 (nat (7 * week + 7)) = Inr (loaded, l)" "week_days week l = Inr wd" "0 \<le> week"
    "check_days H st loaded = (st1, Inr None)" "check_doubled_from H st1 loaded df = (st', Inr None)"
    "views (days_of_week wd loaded) = Inr vs" "week_plan H vs = Inr (payable, aside)" "amended loaded wd = Inr False"
  using assms
  by (auto simp: plan_days_def week_refused_def bind_res_eq_Inr week_days_def
      split: sum.splits prod.splits bool.splits option.splits if_splits)

lemma plan_days_succeeds:
  assumes "wf_rules st" "0 \<le> week" "first_day_of df = Inr f" "load_days src 0 (nat (7 * week + 7)) = Inr (loaded, l)"
    and "week_days week l = Inr wd" "check_days H st loaded = (st1, Inr None)" "check_doubled_from H st1 loaded df = (st2, Inr None)"
    and "amended loaded wd = Inr False"
  shows "\<exists>payable aside. plan_days H st amended week src df = (st2, Inr (payable, aside, wd))"
proof -
  let ?w = "days_of_week wd loaded"
  note A = accepted_week [OF assms(1,6) set_days_of_week [of wd]]
  obtain payable aside where "week_plan H (map (\<lambda>d. the (day_view d)) ?w) = Inr (payable, aside)"
    using A(3) by (auto simp: week_plan_def)
  moreover have "week_days week None = Inr (map (\<lambda>i. 7 * week + int i) [0..<7])" using assms(2) by (simp add: week_days_def Let_def)
  moreover have "week_refused H st loaded df = (st2, Inr False)" using assms(6,7) by (simp add: week_refused_def)
  ultimately show ?thesis using assms(3-5,8) A(1) by (simp add: plan_days_def)
qed

lemma load_days_length: "load_days src d n = Inr (ds, l) \<Longrightarrow>
    (case l of None \<Rightarrow> length ds = n | Some x \<Rightarrow> int d \<le> x \<and> int (length ds) = x - int d + 1)"
proof (induction src d n arbitrary: ds l rule: load_days.induct)
  case (2 src d n)
  obtain v where v: "src d = Found v" using "2.prems"(1) by (auto split: fetch.splits)
  show ?case
  proof (cases "parse_day v")
    case (Inr x)
    obtain day e where x: "x = (day, e)" by (cases x)
    show ?thesis
    proof (cases e)
      case None
      then obtain rest where r: "load_days src (Suc d) n = Inr (rest, l)" "ds = day # rest"
        using "2.prems"(1) v Inr x by (auto simp: bind_res_eq_Inr)
      then show ?thesis using "2.IH" [OF v Inr x [symmetric] None r(1)] by (auto split: option.splits)
    qed (use "2.prems"(1) v Inr x in auto)
  qed (use "2.prems"(1) v in auto)
qed simp

lemma week_days_shape:
  assumes "week_days week l = Inr wd" "0 \<le> week"
  shows "\<exists>n. 0 < n \<and> n \<le> 7 \<and> wd = map (\<lambda>i. 7 * week + int i) [0..<n]
    \<and> (case l of None \<Rightarrow> n = 7 | Some x \<Rightarrow> int n = min 7 (x - 7 * week + 1))"
proof (cases l)
  case None
  then show ?thesis using assms by (intro exI [of _ 7]) (auto simp: week_days_def)
next
  case (Some x)
  let ?n = "nat (min 7 (x - 7 * week + 1))"
  have kept: "filter (\<lambda>d. d \<le> x) (map (\<lambda>i. 7 * week + int i) [0..<7]) = map (\<lambda>i. 7 * week + int i) [0..<?n]"
  proof -
    have "filter (\<lambda>i. 7 * week + int i \<le> x) [0..<7] = filter (\<lambda>i. i < ?n) [0..<7]"
      by (intro filter_cong) auto
    also have "\<dots> = [0..<?n]"
    proof -
      have "[0..<7] = [0..<?n] @ [?n..<7]" using upt_add_eq_append [of 0 ?n "7 - ?n"] by simp
      then show ?thesis by (simp only: filter_append) (auto simp: filter_empty_conv filter_id_conv)
    qed
    finally show ?thesis by (simp add: filter_map comp_def)
  qed
  then have "[0..<?n] \<noteq> []" "wd = map (\<lambda>i. 7 * week + int i) [0..<?n]"
    using assms Some by (auto simp: week_days_def Let_def split: if_splits)
  then show ?thesis using Some by (intro exI [of _ ?n]) auto
qed

lemma days_of_week_length:
  assumes "load_days src 0 (nat (7 * week + 7)) = Inr (loaded, l)" "week_days week l = Inr wd" "0 \<le> week"
  shows "length (days_of_week wd loaded) = length wd \<and> length wd \<le> 7"
proof -
  obtain n where n: "0 < n" "n \<le> 7" "wd = map (\<lambda>i. 7 * week + int i) [0..<n]"
    "case l of None \<Rightarrow> n = 7 | Some x \<Rightarrow> int n = min 7 (x - 7 * week + 1)"
    using week_days_shape [OF assms(2,3)] by blast
  have e: "hd wd = 7 * week" "last wd = 7 * week + int n - 1" using n(1) by (simp_all add: n(3) hd_map last_map)
  have "nat (7 * week) + n \<le> length loaded"
    using load_days_length [OF assms(1)] n assms(3) by (cases l) (auto simp: nat_add_distrib nat_le_iff)
  moreover have "nat (7 * week + int n - 1 + 1) - nat (7 * week) = n" using assms(3) by simp
  ultimately have "length (days_of_week wd loaded) = n" unfolding days_of_week_def e by simp
  then show ?thesis using n(2,3) by simp
qed

text \<open>
  C20: a week that is planned is owed. A plan exists only when every day of the week is published (up to the season's
  last one), the whole season up to them is accepted, the doubled rates start on the day the payer names and no frozen
  amendment refuses the days; then what is paid and what is set aside add up to exactly the total the week's days pay,
  at most 700 DNDR; every address of the plan can receive a transfer and no address set aside can; and the parts hold
  the plan, each address once, in parts of at most 100 transfers.
\<close>

theorem planned_week_is_owed:
  assumes "rules_reachable H st" "plan_days H st amended week src df = (st', Inr (payable, aside, wd))"
  shows "\<exists>loaded l st1. load_days src 0 (nat (7 * week + 7)) = Inr (loaded, l) \<and> week_days week l = Inr wd
    \<and> check_days H st loaded = (st1, Inr None) \<and> check_doubled_from H st1 loaded df = (st', Inr None)
    \<and> amended loaded wd = Inr False
    \<and> length (days_of_week wd loaded) = length wd
    \<and> dict_sum payable + dict_sum aside = sum_list (map pub_paid (days_of_week wd loaded))
    \<and> dict_sum payable + dict_sum aside \<le> 700 * UDNDR
    \<and> (\<forall>(a, v) \<in> set payable. payable_address H (PStr a) = None \<and> 0 < v)
    \<and> (\<forall>(a, v) \<in> set aside. payable_address H (PStr a) \<noteq> None \<and> 0 < v)
    \<and> wf_dict payable \<and> concat (parts payable) = sorted_items payable
    \<and> (\<forall>c \<in> set (parts payable). c \<noteq> [] \<and> length c \<le> 100)"
proof -
  have wf: "wf_rules st" using assms(1) by (rule reachable_wf)
  obtain loaded l st1 vs where L: "load_days src 0 (nat (7 * week + 7)) = Inr (loaded, l)" "week_days week l = Inr wd" "0 \<le> week"
    "check_days H st loaded = (st1, Inr None)" "check_doubled_from H st1 loaded df = (st', Inr None)"
    "views (days_of_week wd loaded) = Inr vs" "week_plan H vs = Inr (payable, aside)" "amended loaded wd = Inr False"
    by (rule plan_days_Inr [OF assms(2)])
  let ?w = "days_of_week wd loaded"
  note A = accepted_week [OF wf L(4) set_days_of_week [of wd]] and D = days_of_week_length [OF L(1-3)]
  obtain totals where T: "week_totals vs = Inr totals" "mset totals = mset payable + mset aside"
    "payable = filter (\<lambda>(a, v). payable_address H (PStr a) = None) totals"
    "aside = filter (\<lambda>(a, v). payable_address H (PStr a) \<noteq> None) totals"
    by (rule week_plan_Inr [OF L(7)])
  have vs: "vs = map (\<lambda>d. the (day_view d)) ?w" using A(1) L(6) by simp
  have out: "totals = sorted_items (tally (paid_pairs (week_rows vs)))" using T(1) by (simp add: week_totals_Inr)
  have "\<forall>p \<in> set totals. 0 < snd p"
    using tally_positive [of "paid_pairs (week_rows vs)" "[]"] by (auto simp: out paid_pairs_def)
  then have pos: "\<forall>(a, v) \<in> set totals. 0 < v" by auto
  have sum: "dict_sum payable + dict_sum aside = sum_list (map pub_paid ?w)"
  proof -
    have "dict_sum totals = dict_sum payable + dict_sum aside"
      using T(2) by (simp add: dict_sum_def flip: sum_mset_sum_list)
    then show ?thesis using A(3) T(1) vs by simp
  qed
  have "sum_list (map pub_paid ?w) \<le> int (length ?w) * (100 * UDNDR)"
    using A(2) sum_list_mono [of ?w pub_paid "\<lambda>d. 100 * UDNDR"] by (simp add: sum_list_triv)
  also have "\<dots> \<le> 700 * UDNDR" using D by (simp add: UDNDR_def)
  finally have bound: "dict_sum payable + dict_sum aside \<le> 700 * UDNDR" using sum by simp
  have "wf_dict totals" by (simp add: out)
  then have "wf_dict payable" unfolding T(3) wf_dict_def by (simp add: distinct_map_filter)
  then show ?thesis
    using L D sum bound pos T(3,4) parts_bounds [of _ payable] concat_parts [of payable]
    by (intro exI [of _ loaded] exI [of _ l] exI [of _ st1]) auto
qed

text \<open>A season of one day: planned, and its doubled rates named.\<close>

definition one_day_facts :: "day_facts list" where
  "one_day_facts = [(RULES_17, [sample_identity ''m1'' 9 ''a1''], sample_inputs\<lparr>ri_end := Some 17289\<rparr>)]"

lemma one_day_served: "\<exists>doc. serve_season sample_host (derived (Some 3) None None) 0 0 one_day_facts = Inr [doc]"
proof -
  obtain docs where "serve_season sample_host (derived (Some 3) None None) 0 0 sample_facts = Inr docs"
    using sample_served by blast
  then obtain d doc where d: "compute_day sample_host 0 [sample_identity ''m1'' 9 ''a1''] 0 RULES_17 = Inr d"
    "publish_day sample_host (derived (Some 3) None None) RULES_17 sample_inputs 0 d = Inr doc"
    by (auto simp: sample_facts_def bind_res_eq_Inr)
  then have "\<exists>doc. publish_day sample_host (derived (Some 3) None None) RULES_17 (sample_inputs\<lparr>ri_end := Some 17289\<rparr>) 0 d = Inr doc"
    by (auto simp: publish_day_def bind_res_eq_Inr)
  then show ?thesis using d(1) by (auto simp: one_day_facts_def)
qed

text \<open>A day an honest service served alone is planned.\<close>

lemma one_day_accepted:
  assumes doc: "serve_season sample_host (derived (Some 3) None None) 0 0 [(r, ids, i)] = Inr [doc]"
    and h: "honest_facts (derived (Some 3) None None) 0 [(r, ids, i)]" and fin: "ri_end i = Some e"
  obtains day df st1 st2 where "parse_day (PDict doc) = Inr (day, Some e)"
    "check_days sample_host (derived None None None) [day] = (st1, Inr None)"
    "check_doubled_from sample_host st1 [day] df = (st2, Inr None)" "\<exists>f. first_day_of df = Inr f"
proof -
  let ?srv = "derived (Some 3) None None"
  have wf: "wf_rules ?srv" "wf_rules (derived None None None)" using reachable_wf kit_reachable default_reachable by blast+
  have k: "keeps (derived None None None) ?srv" by (simp add: keeps_def fixed_in_def)
  have "0 \<le> cap_season (RULE_HISTORY ?srv ! 0)" "0 < length (RULE_HISTORY ?srv)"
    by (simp_all add: history_derived PUBLISHED_SETS_def rule_set_defs)
  then obtain days st1 where D: "map_res parse_day (map PDict [doc]) = Inr days" "map snd days = [Some e]"
    "check_days sample_host (derived None None None) (map fst days) = (st1, Inr None)"
    using served_season_accepted [OF wf(1) sample_no_collision wf(2) k h doc] fin unfolding check_days_def by auto
  obtain day where day: "days = [(day, Some e)]" using D(2) by (cases days) (auto simp: map_eq_Cons_conv)
  then have p: "parse_day (PDict doc) = Inr (day, Some e)" "check_days sample_host (derived None None None) [day] = (st1, Inr None)"
    using D by (auto simp: bind_res_eq_Inr)
  obtain rs where st1: "wf_rules st1" "under_sets sample_host st1 0 [day] rs"
    using check_from_accepts [OF wf(2)] p(2) unfolding check_days_def by blast
  obtain pos q where "rule_set_of sample_host st1 (pd_fp day) = Some (pos, q)"
    using under_sets_names [OF st1(2), of day] rule_set_found by fastforce
  then have s: "set_of_day sample_host st1 day = (st1, Inr (Some (pos, q)))" by (simp add: set_of_day_def)
  show thesis
  proof (cases "q \<in> set (doubled_sets st1)")
    case True
    then have "check_doubled_from sample_host st1 [day] (PInt 0) = (st1, Inr None)"
      using s by (simp add: check_doubled_from_def first_day_of_def whole_of_def from_on_def)
    then show thesis using that [OF p] by (auto simp: first_day_of_def whole_of_def)
  next
    case False
    then have "check_doubled_from sample_host st1 [day] PNone = (st1, Inr None)"
      using s by (simp add: check_doubled_from_def first_day_of_def from_on_def)
    then show thesis using that [OF p] by (auto simp: first_day_of_def)
  qed
qed

lemma one_day_plan:
  obtains day v df st1 st2 where "parse_day v = Inr (day, Some 17289)"
    "check_days sample_host (derived None None None) [day] = (st1, Inr None)"
    "check_doubled_from sample_host st1 [day] df = (st2, Inr None)" "\<exists>f. first_day_of df = Inr f"
proof -
  obtain doc where doc: "serve_season sample_host (derived (Some 3) None None) 0 0 one_day_facts = Inr [doc]" using one_day_served by blast
  have h: "honest_facts (derived (Some 3) None None) 0 one_day_facts"
    using sample_honest by (simp add: one_day_facts_def sample_facts_def) (auto simp: sample_inputs_def list_ex_iff)
  have fin: "ri_end (sample_inputs\<lparr>ri_end := Some 17289\<rparr>) = Some 17289" by simp
  show thesis by (rule one_day_accepted [OF doc [unfolded one_day_facts_def] h [unfolded one_day_facts_def] fin], rule that)
qed

text \<open>The plan of a season of one day.\<close>

lemma one_day_planned:
  assumes "parse_day v = Inr (day, Some e)" "check_days sample_host (derived None None None) [day] = (st1, Inr None)"
    and "check_doubled_from sample_host st1 [day] df = (st2, Inr None)" "\<exists>f. first_day_of df = Inr f" "amended [day] [0] = Inr False"
  obtains payable aside where "plan_days sample_host (derived None None None) amended 0 (\<lambda>d. Found v) df = (st2, Inr (payable, aside, [0]))"
    "load_days (\<lambda>d. Found v) 0 (nat (7 * 0 + 7)) = Inr ([day], Some 0)"
proof -
  have wf: "wf_rules (derived None None None)" by (rule reachable_wf [OF default_reachable])
  have seven: "nat (7 * 0 + 7) = Suc 6" by simp
  have ld: "load_days (\<lambda>d. Found v) 0 (nat (7 * 0 + 7)) = Inr ([day], Some 0)" unfolding seven load_days.simps(2) using assms(1) by simp
  have wd: "week_days 0 (Some 0) = Inr [0]" by (simp add: week_days_def Let_def upt_rec)
  obtain f where "first_day_of df = Inr f" using assms(4) by blast
  from plan_days_succeeds [of "derived None None None" 0 df _ "\<lambda>d. Found v" "[day]" "Some 0" "[0]" sample_host st1 st2 amended,
      OF wf _ this ld wd assms(2,3,5)]
  show thesis using that ld by auto
qed

theorem planned_week_is_owed_witness:
  "\<exists>src df st' payable aside. plan_days sample_host (derived None None None) (\<lambda>loaded wd. Inr False) 0 src df = (st', Inr (payable, aside, [0]))
     \<and> dict_sum payable + dict_sum aside \<le> 700 * UDNDR"
proof -
  obtain day v df st1 st2 where D: "parse_day v = Inr (day, Some 17289)"
    "check_days sample_host (derived None None None) [day] = (st1, Inr None)"
    "check_doubled_from sample_host st1 [day] df = (st2, Inr None)" "\<exists>f. first_day_of df = Inr f" by (rule one_day_plan)
  obtain payable aside where
    pl: "plan_days sample_host (derived None None None) (\<lambda>loaded wd. Inr False) 0 (\<lambda>d. Found v) df = (st2, Inr (payable, aside, [0]))"
    by (rule one_day_planned [OF D refl])
  from planned_week_is_owed [OF default_reachable pl] have "dict_sum payable + dict_sum aside \<le> 700 * UDNDR" by blast
  with pl show ?thesis by blast
qed

theorem doubled_rates_from_their_day_witness:
  "\<exists>day st1 df f pos r. check_days sample_host (derived None None None) [day] = (st1, Inr None) \<and> first_day_of df = Inr f
     \<and> names_set sample_host st1 day (pos, r) \<and> (2 \<le> pos \<longleftrightarrow> from_on f 0)"
proof -
  obtain day v df st1 st2 where D: "check_days sample_host (derived None None None) [day] = (st1, Inr None)"
    "check_doubled_from sample_host st1 [day] df = (st2, Inr None)" by (rule one_day_plan)
  from doubled_rates_from_their_day [OF default_reachable D] obtain f where
    "first_day_of df = Inr f" "\<exists>pos r. names_set sample_host st1 day (pos, r) \<and> (2 \<le> pos \<longleftrightarrow> from_on f 0)" by auto
  with D(1) show ?thesis by blast
qed

section \<open>The search\<close>

text \<open>A search's answer stands for consecutive pages whose transactions reach the last page's count.\<close>

definition pages_read :: "(nat \<Rightarrow> page result) \<Rightarrow> nat \<Rightarrow> nat \<Rightarrow> pydict list result \<Rightarrow> bool" where
  "pages_read search pg served r \<longleftrightarrow> (\<forall>out. r = Inr out \<longrightarrow> (\<exists>ps. ps \<noteq> [] \<and> (\<forall>i < length ps. search (pg + i) = Inr (ps ! i))
    \<and> keep_executed (concat (map pg_txs ps)) = Inr out
    \<and> (\<exists>c k. pg_total (last ps) = Some c \<and> py_int c = Inr k \<and> k \<le> int (served + length (concat (map pg_txs ps))))))"

lemma pages_read_step:
  assumes p: "search pg = Inr p" "keep_executed (pg_txs p) = Inr o1" "out = o1 @ rest"
    and "pages_read search (Suc pg) (served + length (pg_txs p)) (Inr rest)"
  shows "pages_read search pg served (Inr out)"
proof -
  obtain ps where ps: "ps \<noteq> []" "\<forall>i < length ps. search (Suc pg + i) = Inr (ps ! i)"
    "keep_executed (concat (map pg_txs ps)) = Inr rest"
    "\<exists>c k. pg_total (last ps) = Some c \<and> py_int c = Inr k \<and> k \<le> int (served + length (pg_txs p) + length (concat (map pg_txs ps)))"
    using assms(4) by (auto simp: pages_read_def)
  have "\<forall>i < length (p # ps). search (pg + i) = Inr ((p # ps) ! i)"
    using p(1) ps(2) by (auto simp: less_Suc_eq_0_disj)
  then show ?thesis unfolding pages_read_def using ps p(2,3)
    by (intro allI impI exI [of _ "p # ps"]) (simp add: keep_executed_append add.assoc)
qed

lemma payer_txs_pages: "payer_txs search pg served = Some r \<Longrightarrow> pages_read search pg served r"
proof (erule payer_txs.raw_induct [rotated])
  fix F search pg served y
  assume IH: "\<And>search pg served y. F search pg served = Some y \<Longrightarrow> pages_read search pg served y"
    and run: "(case search pg of Inl e \<Rightarrow> Some (Inl e)
      | Inr p \<Rightarrow> (case keep_executed (pg_txs p) of Inl e \<Rightarrow> Some (Inl e)
         | Inr out \<Rightarrow> (case pg_total p of None \<Rightarrow> Some (Inl RuntimeError)
            | Some c \<Rightarrow> (case py_int c of Inl e \<Rightarrow> Some (Inl RuntimeError)
               | Inr n \<Rightarrow> if int (served + length (pg_txs p)) \<ge> n then Some (Inr out)
                   else if pg_txs p = [] then Some (Inl RuntimeError)
                   else Option.bind (F search (Suc pg) (served + length (pg_txs p))) (\<lambda>r. Some (bind_res r (\<lambda>rest. Inr (out @ rest)))))))) = Some y"
  show "pages_read search pg served y"
  proof (cases y)
    case (Inr out)
    obtain p o1 c k where p: "search pg = Inr p" "keep_executed (pg_txs p) = Inr o1" "pg_total p = Some c" "py_int c = Inr k"
      using run Inr by (auto split: sum.splits option.splits)
    show ?thesis
    proof (cases "int (served + length (pg_txs p)) \<ge> k")
      case True
      then have "o1 = out" using run p Inr by simp
      then show ?thesis using p True Inr unfolding pages_read_def by (intro allI impI exI [of _ "[p]"]) simp
    next
      case False
      then obtain rest where rest: "F search (Suc pg) (served + length (pg_txs p)) = Some (Inr rest)" "out = o1 @ rest"
        using run p Inr by (auto simp: bind_eq_Some_conv bind_res_eq_Inr split: if_splits)
      show ?thesis using pages_read_step [OF p(1,2) rest(2) IH [OF rest(1)]] Inr by simp
    qed
  qed (simp add: pages_read_def)
qed

text \<open>
  C21: the search of the chain is complete or refused, never a part of the history taken for the whole. When it returns,
  it is every executed transaction of the consecutive pages from the first one, and their number reaches the count the
  node gave; and on a node that keeps the whole history it does return, with every executed transaction.
\<close>

theorem search_complete_or_refused:
  "(\<forall>out. payer_txs search 1 0 = Some (Inr out) \<longrightarrow>
      (\<exists>ps. ps \<noteq> [] \<and> (\<forall>i < length ps. search (1 + i) = Inr (ps ! i)) \<and> keep_executed (concat (map pg_txs ps)) = Inr out
         \<and> (\<exists>c k. pg_total (last ps) = Some c \<and> py_int c = Inr k \<and> k \<le> int (length (concat (map pg_txs ps))))))
   \<and> (\<forall>out. keep_executed txs = Inr out \<longrightarrow> payer_txs (index_of txs) 1 0 = Some (Inr out))"
  using payer_txs_pages [of search 1 0] payer_txs_whole [of txs] by (simp add: pages_read_def)

theorem search_complete_or_refused_witness:
  "payer_txs (index_of [[(''code'', PInt 0), (''txhash'', PStr ''A'')], [(''code'', PInt 5)]]) 1 0
     = Some (Inr [[(''code'', PInt 0), (''txhash'', PStr ''A'')]])"
proof -
  have "keep_executed [[(''code'', PInt 0), (''txhash'', PStr ''A'')], [(''code'', PInt 5)]] = Inr [[(''code'', PInt 0), (''txhash'', PStr ''A'')]]"
    by (simp add: executed_def get_or_def py_int_def Let_def)
  then show ?thesis using search_complete_or_refused [of "\<lambda>i. Inl OSError"] by blast
qed

end
