(* ===== verification/Season_Amend.thy ===== *)
theory Season_Amend
  imports Season_Plan
begin

text \<open>
  Amendments, the third part of \<open>src/services/final_season_payout.py\<close>: a frozen file that pays rows a day's ranking
  left unpaid only because the kit floor found no capacity report. The form of a file and its digest, the reading of
  the directory, the refusals an amendment is checked with against the published days, and what the payment of a week
  asks of the frozen amendments. The directory is what \<open>os.listdir\<close> and the reads of its files answer.
\<close>

section \<open>The file of an amendment\<close>

definition AMENDMENT_SCHEMA :: int where "AMENDMENT_SCHEMA = 1"

definition AMEND_KEYS :: "string list" where
  "AMEND_KEYS = [''schema'', ''id'', ''decision'', ''reason'', ''rows'', ''set_apart'']"

definition ROW_KEYS :: "string list" where
  "ROW_KEYS = [''day'', ''miner_id'', ''address'', ''udndr'', ''kit_proof'']"

definition PROOF_KEYS :: "string list" where
  "PROOF_KEYS = [''job_id'', ''kit_version'']"

definition APART_KEYS :: "string list" where
  "APART_KEYS = [''day'', ''miner_id'', ''address'', ''udndr'', ''why'']"

text \<open>\<open>^[A-Za-z0-9_-]{1,128}$\<close>: \<open>$\<close> also matches before a final newline.\<close>

definition before_newline :: "string \<Rightarrow> string" where
  "before_newline s = (if s \<noteq> [] \<and> last s = CHR 0x0A then butlast s else s)"

definition is_safe_id :: "string \<Rightarrow> bool" where
  "is_safe_id s \<longleftrightarrow> (let t = before_newline s in
     1 \<le> length t \<and> length t \<le> 128 \<and> list_all (\<lambda>c. is_alnum c \<or> c \<in> set ''_-'') t)"

definition is_text :: "pyval \<Rightarrow> bool" where
  "is_text v = (case v of PStr s \<Rightarrow> strip s \<noteq> [] | _ \<Rightarrow> False)"

datatype amend_problem = BadKeys | BadSchema | BadId | NoReason | BadLists | BadRow | OutOfOrder
  | UnsafeIdentity | UnpayableRow | BadProof | NoWhy

definition row_bad :: "string list \<Rightarrow> pyval \<Rightarrow> bool" where
  "row_bad keys row = (case row of
     PDict r \<Rightarrow> \<not> has_keys r keys
       \<or> \<not> (case dget r ''day'' of PInt d \<Rightarrow> d \<ge> 0 | _ \<Rightarrow> False)
       \<or> \<not> is_text (dget r ''miner_id'')
       \<or> \<not> (case dget r ''udndr'' of PInt u \<Rightarrow> u > 0 | _ \<Rightarrow> False)
       \<or> text_of (dget r ''address'') = None
   | _ \<Rightarrow> True)"

text \<open>The key a row is sorted by, of a row that is not \<open>row_bad\<close>.\<close>

definition int_at :: "pyval \<Rightarrow> string \<Rightarrow> int" where
  "int_at v k = (case v of PDict r \<Rightarrow> (case dget r k of PInt i \<Rightarrow> i | _ \<Rightarrow> 0) | _ \<Rightarrow> 0)"

definition text_at :: "pyval \<Rightarrow> string \<Rightarrow> string" where
  "text_at v k = (case v of PDict r \<Rightarrow> (case dget r k of PStr s \<Rightarrow> s | _ \<Rightarrow> []) | _ \<Rightarrow> [])"

definition val_at :: "pyval \<Rightarrow> string \<Rightarrow> pyval" where
  "val_at v k = (case v of PDict r \<Rightarrow> dget r k | _ \<Rightarrow> PNone)"

definition row_key :: "pyval \<Rightarrow> int \<times> string" where
  "row_key row = (int_at row ''day'', text_at row ''miner_id'')"

fun check_listed :: "string list \<Rightarrow> (int \<times> string) list \<Rightarrow> (int \<times> string) option \<Rightarrow> pyval list
    \<Rightarrow> amend_problem + (int \<times> string) list" where
  "check_listed keys seen before [] = Inr seen"
| "check_listed keys seen before (row # rows) =
     (if row_bad keys row then Inl BadRow
      else if row_key row \<in> set seen \<or> (case before of None \<Rightarrow> False | Some k \<Rightarrow> row_key row \<le> k) then Inl OutOfOrder
      else check_listed keys (row_key row # seen) (Some (row_key row)) rows)"

definition proof_ok :: "pyval \<Rightarrow> bool" where
  "proof_ok v = (case v of
     PDict p \<Rightarrow> has_keys p PROOF_KEYS
       \<and> (case dget p ''job_id'' of PStr j \<Rightarrow> is_safe_id j | _ \<Rightarrow> False)
       \<and> (case dget p ''kit_version'' of PInt k \<Rightarrow> k \<ge> 0 | _ \<Rightarrow> False)
   | _ \<Rightarrow> False)"

definition paid_row_problem :: "host \<Rightarrow> pyval \<Rightarrow> amend_problem option" where
  "paid_row_problem H row =
     (if \<not> is_safe_id (text_at row ''miner_id'') then Some UnsafeIdentity
      else if payable_address H (val_at row ''address'') \<noteq> None then Some UnpayableRow
      else if \<not> proof_ok (val_at row ''kit_proof'') then Some BadProof
      else None)"

definition amendment_problem :: "host \<Rightarrow> pyval \<Rightarrow> int \<Rightarrow> amend_problem option" where
  "amendment_problem H doc n = (case doc of
     PDict d \<Rightarrow>
       if \<not> has_keys d AMEND_KEYS then Some BadKeys
       else if dget d ''schema'' \<noteq> PInt AMENDMENT_SCHEMA then Some BadSchema
       else if dget d ''id'' \<noteq> PInt n \<or> \<not> (1 \<le> n \<and> n \<le> 999) then Some BadId
       else if \<not> (is_text (dget d ''decision'') \<and> is_text (dget d ''reason'')) then Some NoReason
       else (case (dget d ''rows'', dget d ''set_apart'') of
           (PList rows, PList apart) \<Rightarrow>
             if rows = [] then Some BadLists
             else (case bind_res (check_listed ROW_KEYS [] None rows) (\<lambda>seen. check_listed APART_KEYS seen None apart) of
                 Inl p \<Rightarrow> Some p
               | Inr seen \<Rightarrow>
                   (case find (\<lambda>r. paid_row_problem H r \<noteq> None) rows of
                       Some r \<Rightarrow> paid_row_problem H r
                     | None \<Rightarrow> if list_all (\<lambda>r. is_text (val_at r ''why'')) apart then None else Some NoWhy))
         | _ \<Rightarrow> Some BadLists)
   | _ \<Rightarrow> Some BadKeys)"

text \<open>A well formed file, read by its fields.\<close>

record paid_row =
  ar_day :: int
  ar_miner :: string
  ar_address :: string
  ar_udndr :: int
  ar_job :: string
  ar_kit :: int

record apart_row =
  ap_day :: int
  ap_miner :: string
  ap_address :: string
  ap_udndr :: int
  ap_why :: string

record amendment =
  am_decision :: string
  am_reason :: string
  am_rows :: "paid_row list"
  am_apart :: "apart_row list"

definition paid_row_of :: "pyval \<Rightarrow> paid_row" where
  "paid_row_of v = \<lparr>ar_day = int_at v ''day'', ar_miner = text_at v ''miner_id'', ar_address = text_at v ''address'',
     ar_udndr = int_at v ''udndr'', ar_job = text_at (val_at v ''kit_proof'') ''job_id'',
     ar_kit = int_at (val_at v ''kit_proof'') ''kit_version''\<rparr>"

definition apart_row_of :: "pyval \<Rightarrow> apart_row" where
  "apart_row_of v = \<lparr>ap_day = int_at v ''day'', ap_miner = text_at v ''miner_id'', ap_address = text_at v ''address'',
     ap_udndr = int_at v ''udndr'', ap_why = text_at v ''why''\<rparr>"

definition amendment_of :: "pyval \<Rightarrow> amendment" where
  "amendment_of doc = \<lparr>am_decision = text_at doc ''decision'', am_reason = text_at doc ''reason'',
     am_rows = (case val_at doc ''rows'' of PList rs \<Rightarrow> map paid_row_of rs | _ \<Rightarrow> []),
     am_apart = (case val_at doc ''set_apart'' of PList rs \<Rightarrow> map apart_row_of rs | _ \<Rightarrow> [])\<rparr>"

definition stable_bytes :: "host \<Rightarrow> pyval \<Rightarrow> string" where
  "stable_bytes H doc = dumps_indent H 0 doc @ [CHR 0x0A]"

definition amendment_digest :: "host \<Rightarrow> pyval \<Rightarrow> string" where
  "amendment_digest H doc = take 12 (hexdigest (sha256 H (stable_bytes H doc)))"

definition AMEND_MEMO :: string where
  "AMEND_MEMO = ''dendra-final-season-amend-''"

definition amend_memo :: "nat \<Rightarrow> string \<Rightarrow> nat \<Rightarrow> string" where
  "amend_memo n digest part = print_memo AMEND_MEMO (n, digest, part)"

definition paid_pairs_of :: "amendment \<Rightarrow> (string \<times> int) list" where
  "paid_pairs_of a = map (\<lambda>r. (ar_address r, ar_udndr r)) (am_rows a)"

definition amendment_payable :: "amendment \<Rightarrow> (string, int) dict" where
  "amendment_payable a = sorted_items (tally (paid_pairs_of a))"

section \<open>The directory of the frozen amendments\<close>

type_synonym frozen = "int \<times> amendment \<times> string"

text \<open>\<open>^amendment-([0-9]{3})[.]json$\<close>\<close>

definition amend_file :: "string \<Rightarrow> int option" where
  "amend_file name = Option.bind (drop_prefix ''amendment-'' (before_newline name)) (\<lambda>s.
     if length s = 8 \<and> list_all is_digit (take 3 s) \<and> drop 3 s = ''.json'' then Some (int (read_nat (take 3 s))) else None)"

text \<open>A name of the directory, whether it is a file, and its content as the JSON reader answers it.\<close>

record amend_entry =
  ae_name :: string
  ae_isfile :: bool
  ae_content :: "pyval result"

definition load_amendment :: "host \<Rightarrow> amend_entry \<Rightarrow> frozen result" where
  "load_amendment H e = (case amend_file (ae_name e) of
     None \<Rightarrow> Inl ValueError
   | Some n \<Rightarrow>
       if \<not> ae_isfile e then Inl ValueError
       else bind_res (ae_content e) (\<lambda>doc.
         if amendment_problem H doc n \<noteq> None then Inl ValueError else Inr (n, amendment_of doc, amendment_digest H doc)))"

definition load_amendments :: "host \<Rightarrow> amend_entry list option \<Rightarrow> frozen list result" where
  "load_amendments H dir = (case dir of None \<Rightarrow> Inr [] | Some es \<Rightarrow> map_res (load_amendment H) (sort_key ae_name es))"

section \<open>Whether an amendment still matches the rankings\<close>

text \<open>\<open>^probation: first full day after registration, \d+ percent of the gross$\<close>\<close>

definition is_probation_note :: "string \<Rightarrow> bool" where
  "is_probation_note s = (case Option.bind (drop_prefix ''probation: first full day after registration, '' s) take_digits of
     None \<Rightarrow> False
   | Some (n, t) \<Rightarrow> before_newline t = '' percent of the gross'')"

definition refused_for_the_report_alone :: "pub_row \<Rightarrow> bool result" where
  "refused_for_the_report_alone x =
     (if p_kit x \<noteq> PNone then Inr False
      else if p_reason x = PStr NO_KIT_REPORT then Inr True
      else (case p_reason x of
          PStr s \<Rightarrow> Inr (case py_split ''; '' s of
              [a, b] \<Rightarrow> p_probation x = PBool True \<and> b = NO_KIT_REPORT \<and> is_probation_note a
            | _ \<Rightarrow> False)
        | _ \<Rightarrow> Inl AttributeError))"

definition reaches_floor :: "pub_day \<Rightarrow> int \<Rightarrow> bool" where
  "reaches_floor day kit = (case pd_kit_min day of PInt k \<Rightarrow> kit \<ge> k | _ \<Rightarrow> False)"

definition row_refused :: "pub_day list \<Rightarrow> paid_row \<Rightarrow> bool result" where
  "row_refused days row =
     (if ar_day row \<ge> int (length days) then Inr True
      else (let day = days ! nat (ar_day row) in
        case filter (\<lambda>x. p_id x = PStr (ar_miner row)) (pd_rows day) of
          [x] \<Rightarrow> bind_res (refused_for_the_report_alone x) (\<lambda>alone. Inr
            (\<not> alone \<or> \<not> eq_int (p_payable x) 0 \<or> \<not> eq_int (p_paid x) 0 \<or> \<not> eq_int (p_gross x) (ar_udndr row)
             \<or> p_address x \<noteq> PStr (ar_address row) \<or> \<not> reaches_floor day (ar_kit row)))
        | _ \<Rightarrow> Inr True))"

text \<open>A loop that stops at the first refusal.\<close>

fun any_res :: "('a \<Rightarrow> bool result) \<Rightarrow> 'a list \<Rightarrow> bool result" where
  "any_res f [] = Inr False"
| "any_res f (x # xs) = bind_res (f x) (\<lambda>b. if b then Inr True else any_res f xs)"

datatype amend_refusal = NotFrozen | PaidTwice | RowRefused | OverDayCap | OverSeasonCap

definition frozen_rows :: "frozen list \<Rightarrow> paid_row list" where
  "frozen_rows am = concat (map (\<lambda>(k, a, dg). am_rows a) am)"

definition frozen_doc :: "frozen list \<Rightarrow> int \<Rightarrow> amendment option" where
  "frozen_doc am n = map_of (rev (map (\<lambda>(k, a, dg). (k, a)) am)) n"

definition paid_key :: "paid_row \<Rightarrow> int \<times> string" where
  "paid_key r = (ar_day r, ar_miner r)"

definition day_rules :: "host \<Rightarrow> rules_state \<Rightarrow> pub_day \<Rightarrow> rules_state \<times> rules result" where
  "day_rules H st d = (case set_of_day H st d of
     (st1, Inl e) \<Rightarrow> (st1, Inl e) | (st1, Inr None) \<Rightarrow> (st1, Inl TypeError) | (st1, Inr (Some (pos, r))) \<Rightarrow> (st1, Inr r))"

definition paid_total :: "pub_day \<Rightarrow> int result" where
  "paid_total d = (case pd_paid d of PInt z \<Rightarrow> Inr z | _ \<Rightarrow> Inl TypeError)"

fun over_day_caps :: "host \<Rightarrow> rules_state \<Rightarrow> pub_day list \<Rightarrow> (int, int) dict \<Rightarrow> int list \<Rightarrow> rules_state \<times> bool result" where
  "over_day_caps H st days per_day [] = (st, Inr False)"
| "over_day_caps H st days per_day (d # ds) =
     (case day_rules H st (days ! nat d) of
        (st1, Inl e) \<Rightarrow> (st1, Inl e)
      | (st1, Inr r) \<Rightarrow>
          (case paid_total (days ! nat d) of
             Inl e \<Rightarrow> (st1, Inl e)
           | Inr z \<Rightarrow> if z + get_or per_day d 0 > cap_programme_day r then (st1, Inr True)
                     else over_day_caps H st1 days per_day ds))"

definition amendment_refusal :: "host \<Rightarrow> rules_state \<Rightarrow> int \<Rightarrow> frozen list \<Rightarrow> pub_day list
    \<Rightarrow> rules_state \<times> amend_refusal option result" where
  "amendment_refusal H st n am days = (case frozen_doc am n of
     None \<Rightarrow> (st, Inr (Some NotFrozen))
   | Some doc \<Rightarrow>
       if \<not> distinct (map paid_key (frozen_rows am)) then (st, Inr (Some PaidTwice))
       else (case any_res (row_refused days) (am_rows doc) of
           Inl e \<Rightarrow> (st, Inl e)
         | Inr True \<Rightarrow> (st, Inr (Some RowRefused))
         | Inr False \<Rightarrow>
             (case over_day_caps H st days (tally (map (\<lambda>r. (ar_day r, ar_udndr r)) (frozen_rows am)))
                     (sort (remdups (map ar_day (am_rows doc)))) of
                (st1, Inl e) \<Rightarrow> (st1, Inl e)
              | (st1, Inr True) \<Rightarrow> (st1, Inr (Some OverDayCap))
              | (st1, Inr False) \<Rightarrow>
                  if days = [] then (st1, Inl IndexError)
                  else (case day_rules H st1 (last days) of
                      (st2, Inl e) \<Rightarrow> (st2, Inl e)
                    | (st2, Inr r) \<Rightarrow>
                        (st2, bind_res (map_res paid_total days) (\<lambda>zs.
                           Inr (if sum_list zs + sum_list (map ar_udndr (frozen_rows am)) > cap_season r
                                then Some OverSeasonCap else None))))))) "

section \<open>What a week and a payment ask of the frozen amendments\<close>

definition amended_rows_refusal :: "frozen list \<Rightarrow> pub_day list \<Rightarrow> int list \<Rightarrow> bool result" where
  "amended_rows_refusal am days wd = any_res (row_refused days) (filter (\<lambda>r. ar_day r \<in> set wd) (frozen_rows am))"

text \<open>A transaction of the payout account that carries a part: the number of its week or amendment, digest, part and transfers.\<close>

record transfer =
  tr_id :: nat
  tr_plan :: string
  tr_part :: nat
  tr_hash :: pyval
  tr_sends :: "(string \<times> int) list"

definition amendment_parts :: "transfer list \<Rightarrow> (nat, (nat, string \<times> pyval) dict) dict" where
  "amendment_parts ts = foldl (\<lambda>out t.
     AList.update (tr_id t) (AList.update (tr_part t) (tr_plan t, tr_hash t) (get_or out (tr_id t) [])) out) [] ts"

definition frozen_digest :: "frozen list \<Rightarrow> int \<Rightarrow> string option" where
  "frozen_digest am n = map_of (rev (map (\<lambda>(k, a, dg). (k, dg)) am)) n"

datatype chain_refusal = StrayAmendment "nat list" | ChangedFile nat

definition amendment_chain_refusal :: "int \<Rightarrow> frozen list \<Rightarrow> (nat, (nat, string \<times> pyval) dict) dict \<Rightarrow> chain_refusal option" where
  "amendment_chain_refusal n am on_chain =
     (let stray = sort (filter (\<lambda>k. frozen_digest am (int k) = None) (map fst on_chain)) in
      if stray \<noteq> [] then Some (StrayAmendment stray)
      else map_option ChangedFile (find (\<lambda>k. int k \<noteq> n
             \<and> list_ex (\<lambda>(p, (dg, h)). Some dg \<noteq> frozen_digest am (int k)) (get_or on_chain k [])) (sort (map fst on_chain))))"

section \<open>A well formed amendment\<close>

text \<open>What the check of a file establishes of the rows it reads.\<close>

definition payable_row :: "host \<Rightarrow> paid_row \<Rightarrow> bool" where
  "payable_row H r \<longleftrightarrow> 0 \<le> ar_day r \<and> 0 < ar_udndr r \<and> is_safe_id (ar_miner r) \<and> payable_address H (PStr (ar_address r)) = None
     \<and> is_safe_id (ar_job r) \<and> 0 \<le> ar_kit r"

definition apart_key :: "apart_row \<Rightarrow> int \<times> string" where
  "apart_key r = (ap_day r, ap_miner r)"

definition wf_amendment :: "host \<Rightarrow> amendment \<Rightarrow> bool" where
  "wf_amendment H a \<longleftrightarrow> am_rows a \<noteq> [] \<and> sorted_wrt (<) (map paid_key (am_rows a)) \<and> sorted_wrt (<) (map apart_key (am_apart a))
     \<and> set (map paid_key (am_rows a)) \<inter> set (map apart_key (am_apart a)) = {} \<and> list_all (payable_row H) (am_rows a)
     \<and> list_all (\<lambda>r. 0 \<le> ap_day r \<and> 0 < ap_udndr r \<and> strip (ap_why r) \<noteq> []) (am_apart a)
     \<and> strip (am_decision a) \<noteq> [] \<and> strip (am_reason a) \<noteq> []"

lemma paid_key_of [simp]: "paid_key (paid_row_of v) = row_key v"
  by (simp add: paid_key_def paid_row_of_def row_key_def)

lemma apart_key_of [simp]: "apart_key (apart_row_of v) = row_key v"
  by (simp add: apart_key_def apart_row_of_def row_key_def)

lemma row_badD:
  assumes "\<not> row_bad keys row"
  shows "0 \<le> int_at row ''day''" "0 < int_at row ''udndr''" "val_at row ''address'' = PStr (text_at row ''address'')"
  using assms by (auto simp: row_bad_def int_at_def text_at_def val_at_def text_of_def split: pyval.splits)

lemma proof_okD: "proof_ok v \<Longrightarrow> is_safe_id (text_at v ''job_id'') \<and> 0 \<le> int_at v ''kit_version''"
  by (cases v) (auto simp: proof_ok_def text_at_def int_at_def split: pyval.splits)

lemma check_listed_Inr:
  assumes "check_listed keys seen before rows = Inr out"
  shows "list_all (\<lambda>r. \<not> row_bad keys r) rows \<and> sorted_wrt (<) (map row_key rows) \<and> set out = set seen \<union> set (map row_key rows)
    \<and> set seen \<inter> set (map row_key rows) = {} \<and> (\<forall>k. before = Some k \<longrightarrow> (\<forall>r \<in> set rows. k < row_key r))"
  using assms
proof (induction keys seen before rows rule: check_listed.induct)
  case (2 keys seen before row rows)
  have c: "\<not> row_bad keys row" "row_key row \<notin> set seen" "case before of None \<Rightarrow> True | Some k \<Rightarrow> k < row_key row"
    "check_listed keys (row_key row # seen) (Some (row_key row)) rows = Inr out"
    using "2.prems" by (auto split: if_splits option.splits)
  have ih: "list_all (\<lambda>r. \<not> row_bad keys r) rows" "sorted_wrt (<) (map row_key rows)"
    "set out = insert (row_key row) (set seen) \<union> set (map row_key rows)"
    "insert (row_key row) (set seen) \<inter> set (map row_key rows) = {}" "\<forall>r \<in> set rows. row_key row < row_key r"
    using "2.IH" [OF c(1) _ c(4)] c(2,3) by (auto split: option.splits)
  show ?case using c(1,2,3) ih by (auto split: option.splits intro: order.strict_trans)
qed auto

lemma find_holds: "find P xs = Some x \<Longrightarrow> P x"
  by (auto simp: find_Some_iff)

lemma amendment_problem_None:
  assumes "amendment_problem H doc n = None"
  shows "wf_amendment H (amendment_of doc) \<and> 1 \<le> n \<and> n \<le> 999"
proof -
  from assms obtain d where d: "doc = PDict d" by (auto simp: amendment_problem_def split: pyval.splits)
  from assms d obtain rows apart where r: "dget d ''rows'' = PList rows" "dget d ''set_apart'' = PList apart"
    by (auto simp: amendment_problem_def split: if_splits pyval.splits)
  have c: "rows \<noteq> []" "is_text (dget d ''decision'')" "is_text (dget d ''reason'')" "1 \<le> n \<and> n \<le> 999"
    using assms d r by (auto simp: amendment_problem_def split: if_splits)
  obtain s1 s2 where s: "check_listed ROW_KEYS [] None rows = Inr s1" "check_listed APART_KEYS s1 None apart = Inr s2"
    "find (\<lambda>r. paid_row_problem H r \<noteq> None) rows = None" "list_all (\<lambda>r. is_text (val_at r ''why'')) apart"
    using assms d r by (auto simp: amendment_problem_def bind_res_eq_Inr split: if_splits sum.splits option.splits dest: find_holds)
  note R = check_listed_Inr [OF s(1)] and A = check_listed_Inr [OF s(2)]
  have "payable_row H (paid_row_of v)" if v: "v \<in> set rows" for v
  proof -
    have "paid_row_problem H v = None" using s(3) v by (auto simp: find_None_iff)
    moreover have "\<not> row_bad ROW_KEYS v" using R v by (auto simp: list_all_iff)
    moreover from calculation have "is_safe_id (text_at v ''miner_id'')" "payable_address H (val_at v ''address'') = None"
      "proof_ok (val_at v ''kit_proof'')" by (auto simp: paid_row_problem_def split: if_splits)
    ultimately show ?thesis using row_badD [of ROW_KEYS v] proof_okD [of "val_at v ''kit_proof''"]
      by (simp add: payable_row_def paid_row_of_def)
  qed
  moreover have "0 \<le> ap_day (apart_row_of v) \<and> 0 < ap_udndr (apart_row_of v) \<and> strip (ap_why (apart_row_of v)) \<noteq> []"
    if v: "v \<in> set apart" for v
  proof -
    have "\<not> row_bad APART_KEYS v" "is_text (val_at v ''why'')" using A s(4) v by (auto simp: list_all_iff)
    then show ?thesis using row_badD [of APART_KEYS v]
      by (auto simp: apart_row_of_def is_text_def text_at_def val_at_def split: pyval.splits)
  qed
  moreover have "strip (text_at doc ''decision'') \<noteq> []" "strip (text_at doc ''reason'') \<noteq> []"
    using c(2,3) by (auto simp: d is_text_def text_at_def split: pyval.splits)
  moreover have "map paid_key (am_rows (amendment_of doc)) = map row_key rows" "map apart_key (am_apart (amendment_of doc)) = map row_key apart"
    "am_rows (amendment_of doc) = map paid_row_of rows" "am_apart (amendment_of doc) = map apart_row_of apart"
    using r by (simp_all add: amendment_of_def d val_at_def comp_def)
  ultimately show ?thesis using R A c
    by (auto simp: wf_amendment_def list_all_iff amendment_of_def comp_def)
qed

lemma load_amendments_wf:
  assumes "load_amendments H dir = Inr am" "(n, a, dg) \<in> set am"
  shows "wf_amendment H a \<and> 1 \<le> n \<and> n \<le> 999 \<and> length dg \<le> 12"
proof -
  obtain es where es: "map_res (load_amendment H) es = Inr am"
    using assms by (auto simp: load_amendments_def split: option.splits)
  then obtain e where "load_amendment H e = Inr (n, a, dg)"
    using assms(2) by (auto simp: map_res_Inr_list_all2 list_all2_conv_all_nth in_set_conv_nth)
  then obtain doc where "amendment_problem H doc n = None" "a = amendment_of doc" "dg = amendment_digest H doc"
    by (auto simp: load_amendment_def bind_res_eq_Inr split: option.splits if_splits)
  then show ?thesis using amendment_problem_None by (auto simp: amendment_digest_def)
qed

section \<open>What an accepted amendment pays\<close>

lemma any_res_False: "any_res f xs = Inr False \<longleftrightarrow> (\<forall>x \<in> set xs. f x = Inr False)"
  by (induction xs) (auto simp: bind_res_eq_Inr)

text \<open>The row of the ranking an amendment pays: unique, unpaid for want of a report alone, its gross the amount and its address the same.\<close>

definition unpaid_for_report :: "pub_day list \<Rightarrow> paid_row \<Rightarrow> pub_row \<Rightarrow> bool" where
  "unpaid_for_report days r x \<longleftrightarrow> ar_day r < int (length days)
     \<and> filter (\<lambda>y. p_id y = PStr (ar_miner r)) (pd_rows (days ! nat (ar_day r))) = [x]
     \<and> refused_for_the_report_alone x = Inr True \<and> eq_int (p_payable x) 0 \<and> eq_int (p_paid x) 0 \<and> eq_int (p_gross x) (ar_udndr r)
     \<and> p_address x = PStr (ar_address r) \<and> reaches_floor (days ! nat (ar_day r)) (ar_kit r)"

lemma row_refused_False: "row_refused days r = Inr False \<longleftrightarrow> (\<exists>x. unpaid_for_report days r x)"
  by (auto simp: row_refused_def unpaid_for_report_def Let_def bind_res_eq_Inr split: list.splits if_splits)

lemma day_rules_spec:
  assumes "wf_rules st" "day_rules H st d = (st1, res)"
  shows "wf_rules st1 \<and> keeps st st1 \<and> (\<forall>r. res = Inr r \<longrightarrow> (\<exists>pos. names_set H st1 d (pos, r)))"
proof -
  obtain s2 q where S: "set_of_day H st d = (s2, Inr q)" "wf_rules s2" "keeps st s2" "pred_option (names_set H s2 d) q"
    by (rule set_of_day_spec [OF assms(1), of H d])
  then show ?thesis using assms(2) by (auto simp: day_rules_def split: option.splits)
qed

definition within_day_cap :: "host \<Rightarrow> rules_state \<Rightarrow> pub_day list \<Rightarrow> (int, int) dict \<Rightarrow> int \<Rightarrow> bool" where
  "within_day_cap H st days per_day d \<longleftrightarrow> (\<exists>pos r z. names_set H st (days ! nat d) (pos, r) \<and> pd_paid (days ! nat d) = PInt z
     \<and> z + get_or per_day d 0 \<le> cap_programme_day r)"

lemma paid_total_Inr: "paid_total d = Inr z \<longleftrightarrow> pd_paid d = PInt z"
  by (simp add: paid_total_def split: pyval.splits)

lemma within_day_cap_later:
  "within_day_cap H st days per_day d \<Longrightarrow> wf_rules st \<Longrightarrow> wf_rules st' \<Longrightarrow> keeps st st' \<Longrightarrow> within_day_cap H st' days per_day d"
  unfolding within_day_cap_def using names_set_later by blast

lemma over_day_caps_False:
  assumes "wf_rules st" "over_day_caps H st days per_day ds = (st', Inr False)"
  shows "wf_rules st' \<and> keeps st st' \<and> (\<forall>d \<in> set ds. within_day_cap H st' days per_day d)"
  using assms
proof (induction ds arbitrary: st)
  case (Cons d ds)
  obtain st1 res where S: "day_rules H st (days ! nat d) = (st1, res)" by force
  note R = day_rules_spec [OF Cons.prems(1) S]
  obtain r where r: "res = Inr r" using Cons.prems(2) S by (cases res) auto
  obtain z where z: "paid_total (days ! nat d) = Inr z" using Cons.prems(2) S r by (cases "paid_total (days ! nat d)") auto
  have le: "z + get_or per_day d 0 \<le> cap_programme_day r" and rest: "over_day_caps H st1 days per_day ds = (st', Inr False)"
    using Cons.prems(2) S r z by (auto split: if_splits)
  have ih: "wf_rules st' \<and> keeps st1 st' \<and> (\<forall>d \<in> set ds. within_day_cap H st' days per_day d)"
    using Cons.IH [OF _ rest] R by blast
  have "within_day_cap H st1 days per_day d" unfolding within_day_cap_def using R r z le by (auto simp: paid_total_Inr)
  then have "within_day_cap H st' days per_day d" using within_day_cap_later R ih by blast
  then show ?case using ih R keeps_trans by auto
qed (simp add: keeps_refl)

lemma amendment_refusal_None:
  assumes "wf_rules st" "amendment_refusal H st n am days = (st', Inr None)"
  obtains doc pos r where "frozen_doc am n = Some doc" "distinct (map paid_key (frozen_rows am))"
    "\<forall>row \<in> set (am_rows doc). \<exists>x. unpaid_for_report days row x"
    "\<forall>row \<in> set (am_rows doc). within_day_cap H st' days (tally (map (\<lambda>r. (ar_day r, ar_udndr r)) (frozen_rows am))) (ar_day row)"
    "days \<noteq> []" "names_set H st' (last days) (pos, r)" "\<forall>d \<in> set days. \<exists>z. pd_paid d = PInt z"
    "sum_list (map pub_paid days) + sum_list (map ar_udndr (frozen_rows am)) \<le> cap_season r" "wf_rules st'" "keeps st st'"
proof -
  let ?per = "tally (map (\<lambda>r. (ar_day r, ar_udndr r)) (frozen_rows am))"
  obtain doc where doc: "frozen_doc am n = Some doc" using assms(2) by (cases "frozen_doc am n") (auto simp: amendment_refusal_def)
  have dist: "distinct (map paid_key (frozen_rows am))"
    using assms(2) doc by (auto simp: amendment_refusal_def split: if_splits)
  have rows: "any_res (row_refused days) (am_rows doc) = Inr False"
    using assms(2) doc dist by (auto simp: amendment_refusal_def split: sum.splits bool.splits)
  obtain st1 where caps: "over_day_caps H st days ?per (sort (remdups (map ar_day (am_rows doc)))) = (st1, Inr False)"
    using assms(2) doc dist rows by (auto simp: amendment_refusal_def split: sum.splits bool.splits prod.splits)
  have ne: "days \<noteq> []" using assms(2) doc dist rows caps by (auto simp: amendment_refusal_def)
  obtain r where r: "day_rules H st1 (last days) = (st', Inr r)"
    using assms(2) doc dist rows caps ne by (auto simp: amendment_refusal_def split: sum.splits prod.splits)
  obtain zs where zs: "map_res paid_total days = Inr zs" "sum_list zs + sum_list (map ar_udndr (frozen_rows am)) \<le> cap_season r"
    using assms(2) doc dist rows caps ne r by (auto simp: amendment_refusal_def bind_res_eq_Inr split: if_splits)
  note C = over_day_caps_False [OF assms(1) caps]
  note R = day_rules_spec [OF conjunct1 [OF C] r]
  obtain pos where pos: "names_set H st' (last days) (pos, r)" using R by blast
  have "list_all2 (\<lambda>d z. pd_paid d = PInt z) days zs"
    using zs(1) by (simp add: map_res_Inr_list_all2 paid_total_Inr)
  then have "zs = map pub_paid days" "\<forall>d \<in> set days. \<exists>z. pd_paid d = PInt z"
    by (induction rule: list_all2_induct) (auto simp: pub_paid_def)
  moreover have "\<forall>row \<in> set (am_rows doc). within_day_cap H st' days ?per (ar_day row)"
    using C R within_day_cap_later [of H st1 days ?per _ st'] by auto
  moreover have "wf_rules st'" "keeps st st'" using C R keeps_trans by blast+
  ultimately show thesis
    using that [OF doc dist _ _ ne pos] rows zs(2) by (simp add: any_res_False row_refused_False)
qed

section \<open>What an amendment pays is what the report would have paid\<close>

text \<open>A separator none of the parts begins to hold splits back what was joined with it.\<close>

lemma split_acc_part:
  "c \<notin> set w \<Longrightarrow> split_acc (c # t) acc (w @ (c # t) @ rest) = (rev acc @ w) # split_acc (c # t) [] rest"
proof (induction w arbitrary: acc)
  case Nil
  show ?case by (subst split_acc.simps) (simp add: starts_def)
next
  case (Cons a w)
  then have "\<not> starts ((a # w) @ (c # t) @ rest) (c # t)" by (auto simp: starts_def)
  then show ?case using Cons by (subst split_acc.simps) simp
qed

lemma split_acc_end: "c \<notin> set w \<Longrightarrow> split_acc (c # t) acc w = [rev acc @ w]"
proof (induction w arbitrary: acc)
  case Nil
  show ?case by (subst split_acc.simps) simp
next
  case (Cons a w)
  then have "\<not> starts (a # w) (c # t)" by (auto simp: starts_def)
  then show ?case using Cons by (subst split_acc.simps) simp
qed

lemma join_Cons2: "join sep (x # y # ys) = x @ sep @ join sep (y # ys)"
  by (simp add: join_def)

lemma split_join:
  assumes "ws \<noteq> []" "\<forall>w \<in> set ws. c \<notin> set w"
  shows "py_split (c # t) (join (c # t) ws) = ws"
  using assms
proof (induction ws rule: induct_list012)
  case (2 w)
  then show ?case by (simp add: py_split_def join_def split_acc_end)
next
  case (3 w v ws)
  then have "py_split (c # t) (join (c # t) (v # ws)) = v # ws" by simp
  then show ?case using 3 unfolding join_Cons2 py_split_def by (simp add: split_acc_part del: append_Cons append.simps)
qed simp

text \<open>The reasons of a row, in the order the calculation lists them.\<close>

lemma semicolon_show_int: "CHR '';'' \<notin> set (show_int n)"
proof -
  have "CHR '';'' \<notin> set (show_nat k)" for k using show_nat_digits [of k] by (auto simp: is_digit_def)
  then show ?thesis by (simp add: show_int_def)
qed

lemma reported_notes:
  assumes "ws = A @ P @ B @ K @ C" "A = [] \<or> A = [''presence not paid: no verified request counted that day'']"
    and "P = [] \<or> (\<exists>n. P = [''probation: first full day after registration, '' @ show_int n @ '' percent of the gross''])"
    and "B = [] \<or> B = [''no payout address known'']" "K = [] \<or> K = [NO_KIT_REPORT]"
    and "C = [] \<or> C = [''registration not datable: not paid'']"
    and "join ''; '' ws = NO_KIT_REPORT \<or> (\<exists>a. py_split ''; '' (join ''; '' ws) = [a, NO_KIT_REPORT] \<and> is_probation_note a)"
  shows "A = [] \<and> B = [] \<and> C = [] \<and> K = [NO_KIT_REPORT]"
proof -
  have neq: "\<not> is_probation_note ''presence not paid: no verified request counted that day''"
    "\<not> is_probation_note ''no payout address known''" "\<not> is_probation_note NO_KIT_REPORT"
    "\<not> is_probation_note ''registration not datable: not paid''"
    by (simp_all add: is_probation_note_def drop_prefix_def starts_def NO_KIT_REPORT_def)
  have no: "\<forall>w \<in> set ws. CHR '';'' \<notin> set w"
    using assms(2-6) semicolon_show_int by (auto simp: assms(1) NO_KIT_REPORT_def)
  have kit: "CHR '';'' \<notin> set NO_KIT_REPORT" by (simp add: NO_KIT_REPORT_def)
  have other: "NO_KIT_REPORT \<notin> set A" "NO_KIT_REPORT \<notin> set P" "NO_KIT_REPORT \<notin> set B" "NO_KIT_REPORT \<notin> set C"
    using assms(2-4,6) by (auto simp: NO_KIT_REPORT_def)
  have nonote: "\<forall>w \<in> set A \<union> set B \<union> set K \<union> set C. \<not> is_probation_note w" using assms(2,4-6) neq by auto
  have len: "K = [] \<or> K = [NO_KIT_REPORT]" by (rule assms(5))
  have ne: "ws \<noteq> []"
  proof
    assume "ws = []"
    then have "join ''; '' ws = []" "py_split ''; '' [] = [[]]" by (simp_all add: join_def py_split_def split_acc.simps)
    then show False using assms(7) by (simp add: NO_KIT_REPORT_def)
  qed
  have "ws = [NO_KIT_REPORT] \<or> (\<exists>a. ws = [a, NO_KIT_REPORT] \<and> is_probation_note a)"
    using assms(7)
  proof
    assume "join ''; '' ws = NO_KIT_REPORT"
    then have "py_split ''; '' (join ''; '' ws) = py_split ''; '' (join ''; '' [NO_KIT_REPORT])" by (simp add: join_def)
    then show ?thesis using split_join [OF ne no] split_join [of "[NO_KIT_REPORT]"] kit by simp
  next
    assume "\<exists>a. py_split ''; '' (join ''; '' ws) = [a, NO_KIT_REPORT] \<and> is_probation_note a"
    then show ?thesis using split_join [OF ne no] by simp
  qed
  then show ?thesis
  proof
    assume "ws = [NO_KIT_REPORT]"
    then show ?thesis using len other unfolding assms(1) by (auto simp: append_eq_Cons_conv)
  next
    assume "\<exists>a. ws = [a, NO_KIT_REPORT] \<and> is_probation_note a"
    then show ?thesis using len other nonote unfolding assms(1) by (auto simp: append_eq_Cons_conv)
  qed
qed

lemma refused_row_missed:
  assumes "row_of i r = Inr y" "pays_judge_presence r = Inr True" "refused_for_the_report_alone (pub_of_row True (pay_row s y)) = Inr True"
    and "kit_min r = Some k" "k \<le> v" "0 \<le> v"
  shows "kit_version i = PNone \<and> row_payable y = 0
    \<and> (\<exists>z. row_of (i\<lparr>kit_version := PInt v\<rparr>) r = Inr z \<and> row_payable z = row_gross y \<and> row_address z = row_address y)"
proof -
  obtain kit_ok reg_ok where G: "gross_of i r = Inr (row_gross y)" "kit_allows_pay i r = Inr kit_ok"
    "registration_allows_pay i r = Inr reg_ok" "row_payable y = (if payout_address i \<noteq> [] \<and> kit_ok \<and> reg_ok then row_gross y else 0)"
    "row_address y = payout_address i" "row_kit y = kit_version i"
    using assms(1) by (rule row_of_spec)
  let ?g = "row_gross y"
  have "kit_version i = PNone"
    using assms(3) G(6) by (auto simp: refused_for_the_report_alone_def pub_of_row_def split: if_splits)
  moreover from this have ok: "\<not> kit_ok" using G(2) assms(2) by (simp add: kit_allows_pay_def)
  ultimately have none: "kit_version i = PNone" "row_payable y = 0" "row_reason (pay_row s y) = row_reason y"
    using G(4) by (auto simp: pay_row_def Let_def)
  obtain P where P: "(if truthy (probation i) \<and> ?g \<noteq> 0 then map_sum id (\<lambda>t. [t]) (probation_note r) else Inr []) = Inr P"
    using assms(1,2) G(1) by (auto simp: row_of_def bind_res_eq_Inr split: if_splits)
  define A where "A = (if presence i > 0 \<and> verified_requests i < 1 then [''presence not paid: no verified request counted that day''] else [])"
  define B where "B = (if ?g \<noteq> 0 \<and> payout_address i = [] then [''no payout address known''] else [])"
  define K where "K = (if ?g \<noteq> 0 then [NO_KIT_REPORT] else [])"
  define C where "C = (if ?g \<noteq> 0 \<and> \<not> reg_ok then [''registration not datable: not paid''] else [])"
  have kitn: "kit_note i r = Inr NO_KIT_REPORT" using none(1) by (simp add: kit_note_def)
  have "row_reason (projr (row_of i r)) = join ''; '' (A @ P @ B @ K @ C)"
    using P ok kitn unfolding row_of_def G(1-3) assms(2) bind_res_Inr Let_def A_def B_def K_def C_def by simp
  then have reason: "row_reason y = join ''; '' (A @ P @ B @ K @ C)" by (simp add: assms(1))
  have Pcases: "P = [] \<or> (\<exists>n. P = [''probation: first full day after registration, '' @ show_int n @ '' percent of the gross''])"
    using P by (auto simp: probation_note_def bind_res_def split: if_splits sum.splits)
  have "join ''; '' (A @ P @ B @ K @ C) = NO_KIT_REPORT
      \<or> (\<exists>a. py_split ''; '' (join ''; '' (A @ P @ B @ K @ C)) = [a, NO_KIT_REPORT] \<and> is_probation_note a)"
    using assms(3) none(3) reason
    by (auto simp: refused_for_the_report_alone_def pub_of_row_def split: if_splits list.splits)
  then have "A = [] \<and> B = [] \<and> C = [] \<and> K = [NO_KIT_REPORT]"
    by (rule reported_notes [OF refl _ Pcases _ _ _, rotated -1]) (simp_all add: A_def B_def K_def C_def)
  then have g: "?g \<noteq> 0" "payout_address i \<noteq> []" "reg_ok" by (auto simp: B_def K_def C_def split: if_splits)
  let ?i = "i\<lparr>kit_version := PInt v\<rparr>"
  have "kit_allows_pay ?i r = Inr True" using assms(2,4-6) by (simp add: kit_allows_pay_def rkey_def)
  moreover have "registration_allows_pay ?i r = Inr reg_ok" using G(3) by (simp add: registration_allows_pay_def)
  ultimately have "\<exists>z. row_of ?i r = Inr z \<and> row_payable z = ?g \<and> row_address z = row_address y"
    using G(1,5) P g assms(2) by (simp add: row_of_def gross_of_kit_irrelevant Let_def)
  with none show ?thesis by blast
qed

text \<open>
  C19: an amendment pays exactly what the report would have paid. On a day ranked under the kit floor, a row whose reasons the payer reads as
  "refused for the report alone" belongs to an identity that was paid nothing and that, with a report of any kit at or above the floor and
  nothing else changed, the calculation would have made payable for the whole of its gross, at the same address. Neither the note of the
  presence, nor a missing address, nor an undated registration is taken for a missing report.
\<close>

theorem report_alone_was_missing:
  assumes "compute_day H day ids b r = Inr d" "pays_judge_presence r = Inr True" "x \<in> set (res_rows d)"
    and "refused_for_the_report_alone (pub_of_row True x) = Inr True" "kit_min r = Some k" "k \<le> v" "0 \<le> v"
  shows "row_paid x = 0 \<and> row_payable x = 0
    \<and> (\<exists>i \<in> set ids. miner_id i = row_id x \<and> kit_version i = PNone
         \<and> (\<exists>z. row_of (i\<lparr>kit_version := PInt v\<rparr>) r = Inr z \<and> row_payable z = row_gross x \<and> row_address z = row_address x))"
proof -
  obtain rows s where rows: "rows_of r [] ids = Inr rows" and res: "res_rows d = sort_key rank_key (map (pay_row s) rows)"
    using assms(1) by (rule compute_day_parts)
  obtain y where y: "y \<in> set rows" "x = pay_row s y" using assms(3) res by auto
  obtain i where i: "i \<in> set ids" "row_of i r = Inr y" using rows y(1) by (rule rows_of_in)
  have "row_id y = miner_id i" using i(2) by (rule row_of_spec)
  with refused_row_missed [OF i(2) assms(2) _ assms(5-7), of s] assms(4) i(1) show ?thesis by (auto simp: y(2))
qed


text \<open>
  A row an amendment pays is never paid by its week too. When a week is planned beside the frozen amendments, every frozen row on one
  of its days is, in the ranking the week is paid from, a row of nothing paid: the week's plan holds nothing of it, and the amendment pays
  exactly its gross, to its address.
\<close>

theorem week_and_amendment_disjoint:
  assumes "plan_days H st (amended_rows_refusal am) week src df = (st', Inr (payable, aside, wd))"
    and "row \<in> set (frozen_rows am)" "ar_day row \<in> set wd"
  shows "\<exists>loaded l x. load_days src 0 (nat (7 * week + 7)) = Inr (loaded, l) \<and> ar_day row < int (length loaded)
    \<and> filter (\<lambda>y. p_id y = PStr (ar_miner row)) (pd_rows (loaded ! nat (ar_day row))) = [x]
    \<and> eq_int (p_paid x) 0 \<and> eq_int (p_gross x) (ar_udndr row) \<and> p_address x = PStr (ar_address row)"
proof -
  obtain loaded l where L: "load_days src 0 (nat (7 * week + 7)) = Inr (loaded, l)" "amended_rows_refusal am loaded wd = Inr False"
    using assms(1) by (rule plan_days_Inr)
  then obtain x where "unpaid_for_report loaded row x"
    using assms(2,3) by (auto simp: amended_rows_refusal_def any_res_False row_refused_False)
  then show ?thesis using L(1) by (auto simp: unpaid_for_report_def)
qed

text \<open>
  C35: a frozen file is well formed. Every amendment the directory gives is numbered 1 to 999, has at least one row, lists its rows and the
  rows it sets apart each in strict order of day and identity with no pair in both, pays each row a whole amount above 0 to an address
  that can receive a transfer, and names for each an identity and a job a relay deposit can name; one file out of form refuses them all.
\<close>

theorem frozen_amendments_well_formed:
  assumes "load_amendments H dir = Inr am" "(n, a, dg) \<in> set am"
  shows "1 \<le> n \<and> n \<le> 999 \<and> am_rows a \<noteq> [] \<and> sorted_wrt (<) (map paid_key (am_rows a)) \<and> sorted_wrt (<) (map apart_key (am_apart a))
    \<and> set (map paid_key (am_rows a)) \<inter> set (map apart_key (am_apart a)) = {} \<and> list_all (payable_row H) (am_rows a)"
  using load_amendments_wf [OF assms] by (auto simp: wf_amendment_def)

section \<open>A day with a row its report was missing for\<close>

definition sample_kit_ids :: "identity list" where
  "sample_kit_ids = [sample_identity ''m1'' 7 ''a1'', (sample_identity ''m2'' 5 ''a2'')\<lparr>kit_version := PInt 4\<rparr>]"

definition sample_unreported :: row where
  "sample_unreported = \<lparr>row_id = ''m1'', row_address = ''a1'', row_presence = 60, row_requests = 7, row_verdicts = 2, row_gross = 932000,
     row_payable = 0, row_paid = 0, row_reason = NO_KIT_REPORT, row_judge = 0, row_probation = False, row_kit = PNone, row_undated = False\<rparr>"

definition sample_kit_rows :: "row list" where
  "sample_kit_rows = projr (rows_of (kit_set 3) [] sample_kit_ids)"

definition sample_frozen_row :: paid_row where
  "sample_frozen_row = \<lparr>ar_day = 0, ar_miner = ''m1'', ar_address = ''a1'', ar_udndr = 932000, ar_job = ''j1'', ar_kit = 3\<rparr>"

definition sample_frozen :: "frozen list" where
  "sample_frozen = [(1, \<lparr>am_decision = ''d'', am_reason = ''r'', am_rows = [sample_frozen_row], am_apart = []\<rparr>, ''000000000000'')]"

lemma sample_kit_computed: "\<exists>d. compute_day sample_host 0 sample_kit_ids 0 (kit_set 3) = Inr d
    \<and> res_fingerprint d = fingerprint sample_host (kit_set 3) \<and> res_rows d = sort_key rank_key (map (pay_row (1, 1)) sample_kit_rows)"
proof -
  have "case rows_of (kit_set 3) [] sample_kit_ids of Inl e \<Rightarrow> False | Inr x \<Rightarrow> True" by code_simp
  then have "rows_of (kit_set 3) [] sample_kit_ids = Inr sample_kit_rows" by (auto simp: sample_kit_rows_def split: sum.splits)
  moreover have "scale_of (sum_list (map row_payable sample_kit_rows)) (day_budget_of (kit_set 3) 0) = (1, 1)" by code_simp
  ultimately show ?thesis by (simp add: compute_day_def Let_def)
qed

lemma sample_kit_row:
  "filter (\<lambda>y. p_id y = PStr ''m1'') (map (pub_of_row True) (sort_key rank_key (map (pay_row (1, 1)) sample_kit_rows)))
     = [pub_of_row True sample_unreported]"
  by code_simp

lemma sample_row_in: "sample_unreported \<in> set (sort_key rank_key (map (pay_row (1, 1)) sample_kit_rows))"
  by code_simp

lemma sample_row_alone: "refused_for_the_report_alone (pub_of_row True sample_unreported) = Inr True"
  by (simp add: refused_for_the_report_alone_def pub_of_row_def sample_unreported_def)

lemma sample_row_unpaid:
  assumes "pd_rows day = map (pub_of_row True) (sort_key rank_key (map (pay_row (1, 1)) sample_kit_rows))" "pd_kit_min day = PInt 3"
  shows "unpaid_for_report [day] sample_frozen_row (pub_of_row True sample_unreported)"
proof -
  have "p_payable (pub_of_row True sample_unreported) = PInt 0" "p_paid (pub_of_row True sample_unreported) = PInt 0"
    "p_gross (pub_of_row True sample_unreported) = PInt 932000" "p_address (pub_of_row True sample_unreported) = PStr ''a1''"
    by (simp_all add: pub_of_row_def sample_unreported_def)
  then show ?thesis using assms sample_kit_row sample_row_alone
    by (simp add: unpaid_for_report_def sample_frozen_row_def reaches_floor_def)
qed

theorem report_alone_was_missing_witness:
  "\<exists>i \<in> set sample_kit_ids. kit_version i = PNone \<and> (\<exists>z. row_of (i\<lparr>kit_version := PInt 5\<rparr>) (kit_set 3) = Inr z \<and> row_payable z = 932000)"
proof -
  obtain d where d: "compute_day sample_host 0 sample_kit_ids 0 (kit_set 3) = Inr d"
    "res_rows d = sort_key rank_key (map (pay_row (1, 1)) sample_kit_rows)" using sample_kit_computed by blast
  have k: "pays_judge_presence (kit_set 3) = Inr True" "kit_min (kit_set 3) = Some 3"
    by (simp_all add: rule_set_defs pays_judge_presence_def)
  have x: "sample_unreported \<in> set (res_rows d)" unfolding d(2) by (rule sample_row_in)
  have v: "(3::int) \<le> 5" "(0::int) \<le> 5" by simp_all
  from report_alone_was_missing [OF d(1) k(1) x sample_row_alone k(2) v]
  obtain i z where "i \<in> set sample_kit_ids" "kit_version i = PNone" "row_of (i\<lparr>kit_version := PInt 5\<rparr>) (kit_set 3) = Inr z"
    "row_payable z = row_gross sample_unreported" by blast
  moreover have "row_gross sample_unreported = 932000" by (simp add: sample_unreported_def)
  ultimately show ?thesis by metis
qed

text \<open>The day as the payer reads it.\<close>

lemma sample_kit_day:
  obtains v day df st1 st2 where "parse_day v = Inr (day, Some 17289)" "check_days sample_host (derived None None None) [day] = (st1, Inr None)"
    "check_doubled_from sample_host st1 [day] df = (st2, Inr None)" "\<exists>f. first_day_of df = Inr f"
    "pd_rows day = map (pub_of_row True) (sort_key rank_key (map (pay_row (1, 1)) sample_kit_rows))" "pd_kit_min day = PInt 3"
proof -
  let ?srv = "derived (Some 3) None None" and ?i = "sample_inputs\<lparr>ri_end := Some 17289\<rparr>"
  obtain d where d: "compute_day sample_host 0 sample_kit_ids 0 (kit_set 3) = Inr d"
    "res_fingerprint d = fingerprint sample_host (kit_set 3)" "res_rows d = sort_key rank_key (map (pay_row (1, 1)) sample_kit_rows)"
    using sample_kit_computed by blast
  have kit: "pays_judge_presence (kit_set 3) = Inr True" "pays_jury_rule (kit_set 3) = Inr False" "kit_min (kit_set 3) = Some 3"
    by (simp_all add: rule_set_defs pays_judge_presence_def pays_jury_rule_def)
  have fields: "publishes_kit_fields sample_host ?srv (fingerprint sample_host (kit_set 3)) = Inr True"
    using rule_set_of_at [OF sample_no_collision, of 4] kit
    by (simp add: publishes_kit_fields_def history_derived PUBLISHED_SETS_def opt_list_def)
  obtain doc where doc: "publish_day sample_host ?srv (kit_set 3) ?i 0 d = Inr doc"
    using d(2) kit fields by (auto simp: publish_day_def to_json_def)
  have serve: "serve_season sample_host ?srv 0 0 [(kit_set 3, sample_kit_ids, ?i)] = Inr [doc]" using d(1) doc by simp
  have fin: "ri_end ?i = Some 17289" by simp
  have h: "honest_facts ?srv 0 [(kit_set 3, sample_kit_ids, ?i)]"
    by (simp add: sample_inputs_def sample_kit_ids_def sample_identity_def measured_def history_derived PUBLISHED_SETS_def opt_list_def upt_rec)
  have p: "parse_day (PDict doc) = Inr (pub_of_day (kit_set 3) True False (ri_evidence ?i) d, ri_end ?i)"
    using publish_then_parse [OF doc _ kit(1,2)] d(2) kit fields by (simp add: sample_inputs_def)
  show thesis
  proof (rule one_day_accepted [OF serve h fin])
    fix day df st1 st2
    assume D: "parse_day (PDict doc) = Inr (day, Some 17289)" "check_days sample_host (derived None None None) [day] = (st1, Inr None)"
      "check_doubled_from sample_host st1 [day] df = (st2, Inr None)" "\<exists>f. first_day_of df = Inr f"
    have "day = pub_of_day (kit_set 3) True False (ri_evidence ?i) d" using D(1) p by simp
    then have "pd_rows day = map (pub_of_row True) (sort_key rank_key (map (pay_row (1, 1)) sample_kit_rows))" "pd_kit_min day = PInt 3"
      using d(3) kit(3) by (simp_all add: pub_of_day_def opt_val_def)
    with D show thesis by (rule that)
  qed
qed

lemma sample_frozen_rows [simp]: "frozen_rows sample_frozen = [sample_frozen_row]"
  by (simp add: frozen_rows_def sample_frozen_def)

theorem week_and_amendment_disjoint_witness:
  "\<exists>src df st' payable aside loaded l x. plan_days sample_host (derived None None None) (amended_rows_refusal sample_frozen) 0 src df
       = (st', Inr (payable, aside, [0])) \<and> load_days src 0 (nat (7 * 0 + 7)) = Inr (loaded, l)
     \<and> filter (\<lambda>y. p_id y = PStr ''m1'') (pd_rows (loaded ! 0)) = [x] \<and> eq_int (p_paid x) 0 \<and> eq_int (p_gross x) 932000"
proof -
  obtain v day df st1 st2 where D: "parse_day v = Inr (day, Some 17289)" "check_days sample_host (derived None None None) [day] = (st1, Inr None)"
    "check_doubled_from sample_host st1 [day] df = (st2, Inr None)" "\<exists>f. first_day_of df = Inr f"
    and R: "pd_rows day = map (pub_of_row True) (sort_key rank_key (map (pay_row (1, 1)) sample_kit_rows))" "pd_kit_min day = PInt 3"
    by (rule sample_kit_day)
  have ok: "amended_rows_refusal sample_frozen [day] [0] = Inr False"
    using sample_row_unpaid [OF R] by (auto simp: amended_rows_refusal_def any_res_False row_refused_False)
  obtain payable aside where
    pl: "plan_days sample_host (derived None None None) (amended_rows_refusal sample_frozen) 0 (\<lambda>d. Found v) df = (st2, Inr (payable, aside, [0]))"
    by (rule one_day_planned [where amended = "amended_rows_refusal sample_frozen", OF D ok])
  have "ar_day sample_frozen_row = 0" "ar_miner sample_frozen_row = ''m1''" "ar_udndr sample_frozen_row = 932000"
    by (simp_all add: sample_frozen_row_def)
  with week_and_amendment_disjoint [OF pl, of sample_frozen_row] pl show ?thesis by fastforce
qed


text \<open>A directory of one file.\<close>

definition sample_payable :: string where
  "sample_payable = account_address ''dendra'' (replicate 20 (CHR ''k''))"

lemma sample_payable_ok: "payable_address sample_host (PStr sample_payable) = None"
  unfolding sample_payable_def by code_simp

definition sample_file :: pyval where
  "sample_file = PDict [(''schema'', PInt 1), (''id'', PInt 7), (''decision'', PStr ''d''), (''reason'', PStr ''r''),
     (''rows'', PList [PDict [(''day'', PInt 16), (''miner_id'', PStr ''m1''), (''address'', PStr sample_payable), (''udndr'', PInt 5),
        (''kit_proof'', PDict [(''job_id'', PStr ''j1''), (''kit_version'', PInt 3)])]]),
     (''set_apart'', PList [])]"

definition sample_dir :: "amend_entry list" where
  "sample_dir = [\<lparr>ae_name = ''amendment-007.json'', ae_isfile = True, ae_content = Inr sample_file\<rparr>]"

lemma sample_file_ok: "amendment_problem sample_host sample_file 7 = None"
  using sample_payable_ok
  by (simp add: amendment_problem_def sample_file_def has_keys_def AMEND_KEYS_def ROW_KEYS_def PROOF_KEYS_def AMENDMENT_SCHEMA_def
      dget_def get_or_def is_text_def strip_def is_space_def row_bad_def text_of_def paid_row_problem_def text_at_def val_at_def
      is_safe_id_def before_newline_def is_alnum_def is_lower_alnum_def is_digit_def proof_ok_def insert_commute)

theorem frozen_amendments_well_formed_witness:
  "\<exists>a dg. load_amendments sample_host (Some sample_dir) = Inr [(7, a, dg)] \<and> list_all (payable_row sample_host) (am_rows a) \<and> am_rows a \<noteq> []"
proof -
  have "amend_file ''amendment-007.json'' = Some 7" by code_simp
  then have l: "load_amendments sample_host (Some sample_dir) = Inr [(7, amendment_of sample_file, amendment_digest sample_host sample_file)]"
    using sample_file_ok by (simp add: load_amendments_def sample_dir_def load_amendment_def)
  from frozen_amendments_well_formed [OF l, of 7] l show ?thesis by auto
qed

end
