(* ===== verification/Season_List.thy ===== *)
theory Season_List
  imports Season_Amend
begin

text \<open>
  The season's list of payments, \<open>season_list\<close> of \<open>src/services/final_season_payout.py\<close>: the rankings of the whole season, the
  transfers of the payout account by memo, and the list of what each address was sent, checked against the plans of the weeks and
  the frozen amendments. The files of the rankings, the JSON reader and the pages of the chain's search are parameters.
\<close>

section \<open>The transfers of the payout account\<close>

definition SEND :: string where
  "SEND = ''/cosmos.bank.v1beta1.MsgSend''"

definition udndr_send :: "string \<Rightarrow> pyval \<Rightarrow> (string \<times> int) option" where
  "udndr_send payer msg = (case msg of
     PDict m \<Rightarrow>
       if dget m ''@type'' \<noteq> PStr SEND \<or> dget m ''from_address'' \<noteq> PStr payer then None
       else (case (dget m ''amount'', dget m ''to_address'') of
           (PList [PDict c], PStr to) \<Rightarrow>
             if dget c ''denom'' \<noteq> PStr ''udndr'' \<or> to = [] then None
             else (case dget c ''amount'' of
                 PStr a \<Rightarrow> if a \<noteq> [] \<and> list_all is_digit a \<and> read_nat a > 0 then Some (to, int (read_nat a)) else None
               | _ \<Rightarrow> None)
         | _ \<Rightarrow> None)
   | _ \<Rightarrow> None)"

definition tx_sends :: "string \<Rightarrow> pyval \<Rightarrow> (string \<times> int) list option" where
  "tx_sends payer msgs = (case msgs of
     PList ms \<Rightarrow>
       if ms = [] then None
       else if list_ex (\<lambda>m. udndr_send payer m = None) ms then None
       else Some (map (\<lambda>m. the (udndr_send payer m)) ms)
   | _ \<Rightarrow> None)"

fun transfers_of :: "string \<Rightarrow> string \<Rightarrow> pydict list \<Rightarrow> transfer list result" where
  "transfers_of prefix payer [] = Inr []"
| "transfers_of prefix payer (t # ts) =
     bind_res (tx_body t) (\<lambda>body.
     bind_res (body_memo body) (\<lambda>m.
     case match_memo prefix m of
       None \<Rightarrow> transfers_of prefix payer ts
     | Some (n, dg, i) \<Rightarrow>
         (case tx_sends payer (dget body ''messages'') of
            None \<Rightarrow> Inl RuntimeError
          | Some sends \<Rightarrow>
              bind_res (transfers_of prefix payer ts) (\<lambda>out.
                Inr (\<lparr>tr_id = n, tr_plan = dg, tr_part = i, tr_hash = get_or t ''txhash'' (PStr []), tr_sends = sends\<rparr> # out)))))"

definition memo_transfers :: "(nat \<Rightarrow> page result) \<Rightarrow> string \<Rightarrow> string \<Rightarrow> transfer list result option" where
  "memo_transfers search payer prefix = map_option (\<lambda>r. bind_res r (transfers_of prefix payer)) (payer_txs search 1 0)"

definition payout_transfers :: "(nat \<Rightarrow> page result) \<Rightarrow> string \<Rightarrow> transfer list result option" where
  "payout_transfers search payer = memo_transfers search payer WEEK_MEMO"

definition amendment_transfers :: "(nat \<Rightarrow> page result) \<Rightarrow> string \<Rightarrow> transfer list result option" where
  "amendment_transfers search payer = memo_transfers search payer AMEND_MEMO"

section \<open>The rankings of the whole season\<close>

text \<open>
  A file of the rankings answers its bytes, that it does not exist, or a failure. \<open>show3\<close> is the format \<open>03d\<close>. A service that kept
  publishing days without the season's end would be read forever: then the reading does not return.
\<close>

definition show3 :: "nat \<Rightarrow> string" where
  "show3 n = (let s = show_nat n in replicate (3 - length s) (CHR ''0'') @ s)"

definition ranking_name :: "nat \<Rightarrow> string" where
  "ranking_name n = ''day-'' @ show3 n @ ''.json''"

partial_function (option) season_days :: "host \<Rightarrow> (string \<Rightarrow> pyval result) \<Rightarrow> (nat \<Rightarrow> string option result)
    \<Rightarrow> pub_day list \<Rightarrow> (string, string) dict \<Rightarrow> (pub_day list \<times> (string, string) dict \<times> int) result option" where
  "season_days H loads src days digests =
     (case src (length days) of
        Inl e \<Rightarrow> Some (Inl e)
      | Inr None \<Rightarrow> Some (Inl SystemExit)
      | Inr (Some raw) \<Rightarrow>
          (case bind_res (loads raw) parse_day of
             Inl e \<Rightarrow> Some (Inl e)
           | Inr (day, fin) \<Rightarrow>
               if \<not> eq_int (pd_day day) (int (length days)) then Some (Inl ValueError)
               else
                 (let days1 = days @ [day]; digests1 = AList.update (ranking_name (length days)) (hexdigest (sha256 H raw)) digests in
                  case fin of
                    Some e \<Rightarrow> Some (Inr (days1, digests1, e))
                  | None \<Rightarrow> season_days H loads src days1 digests1)))"

section \<open>The list\<close>

text \<open>The transfers by number and part: a part on chain twice is refused.\<close>

fun index_parts :: "(nat, (nat, transfer) dict) dict \<Rightarrow> transfer list \<Rightarrow> (nat, (nat, transfer) dict) dict option" where
  "index_parts on_chain [] = Some on_chain"
| "index_parts on_chain (t # ts) =
     (let found = get_or on_chain (tr_id t) [] in
      if map_of found (tr_part t) \<noteq> None then None
      else index_parts (AList.update (tr_id t) (AList.update (tr_part t) t found) on_chain) ts)"

text \<open>The parts found are the plan's, each under its digest, none missing, none beyond it, each with exactly its transfers.\<close>

definition paid_as_planned :: "string \<Rightarrow> (string, int) dict list \<Rightarrow> (nat, transfer) dict \<Rightarrow> bool" where
  "paid_as_planned digest chunks found \<longleftrightarrow>
     list_all (\<lambda>(p, t). tr_plan t = digest) found
     \<and> list_all (\<lambda>i. map_of found i \<noteq> None) [0..<length chunks]
     \<and> list_all (\<lambda>(p, t). p < length chunks) found
     \<and> list_all (\<lambda>i. tr_sends (the (map_of found i)) = chunks ! i) [0..<length chunks]"

record week_payment =
  wp_week :: nat
  wp_plan :: string
  wp_txs :: "pyval list"

record amend_payment =
  py_id :: int
  py_plan :: string
  py_decision :: string
  py_total :: int
  py_txs :: "pyval list"

definition part_hashes :: "(string, int) dict list \<Rightarrow> (nat, transfer) dict \<Rightarrow> pyval list" where
  "part_hashes chunks found = map (\<lambda>i. tr_hash (the (map_of found i))) [0..<length chunks]"

text \<open>One week of the list: its plan from the rankings, its payment from the chain.\<close>

definition list_week :: "host \<Rightarrow> pub_day list \<Rightarrow> (nat, (nat, transfer) dict) dict \<Rightarrow> nat
    \<Rightarrow> ((string, int) dict \<times> (string, int) dict \<times> week_payment) result" where
  "list_week H days on_chain k =
     bind_res (week_days (int k) (Some (int (length days) - 1))) (\<lambda>wd.
     bind_res (views (days_of_week wd days)) (\<lambda>vs.
     bind_res (week_plan H vs) (\<lambda>(payable, aside).
       let digest = plan_digest H payable; chunks = parts payable; found = get_or on_chain k [] in
       if \<not> paid_as_planned digest chunks found then Inl ValueError
       else Inr (payable, aside, \<lparr>wp_week = k, wp_plan = digest, wp_txs = part_hashes chunks found\<rparr>))))"

text \<open>One amendment of the list: it still matches the rankings, and its payment is its file's.\<close>

definition list_amendment :: "host \<Rightarrow> frozen list \<Rightarrow> pub_day list \<Rightarrow> (nat, (nat, transfer) dict) dict \<Rightarrow> rules_state \<Rightarrow> frozen
    \<Rightarrow> rules_state \<times> ((string, int) dict \<times> amend_payment) result" where
  "list_amendment H am days on_chain st = (\<lambda>(n, doc, dg).
     case amendment_refusal H st n am days of
       (st1, Inl e) \<Rightarrow> (st1, Inl e)
     | (st1, Inr (Some bad)) \<Rightarrow> (st1, Inl ValueError)
     | (st1, Inr None) \<Rightarrow>
         (let payable = amendment_payable doc; chunks = parts payable; found = get_or on_chain (nat n) [] in
          (st1, if \<not> paid_as_planned dg chunks found then Inl ValueError
                else Inr (payable, \<lparr>py_id = n, py_plan = dg, py_decision = am_decision doc, py_total = dict_sum payable,
                                     py_txs = part_hashes chunks found\<rparr>))))"

fun list_amendments :: "host \<Rightarrow> frozen list \<Rightarrow> pub_day list \<Rightarrow> (nat, (nat, transfer) dict) dict \<Rightarrow> rules_state \<Rightarrow> frozen list
    \<Rightarrow> rules_state \<times> ((string, int) dict \<times> amend_payment) list result" where
  "list_amendments H am days on_chain st [] = (st, Inr [])"
| "list_amendments H am days on_chain st (f # fs) =
     (case list_amendment H am days on_chain st f of
        (st1, Inl e) \<Rightarrow> (st1, Inl e)
      | (st1, Inr x) \<Rightarrow>
          (case list_amendments H am days on_chain st1 fs of
             (st2, Inl e) \<Rightarrow> (st2, Inl e) | (st2, Inr xs) \<Rightarrow> (st2, Inr (x # xs))))"

definition amendments_paid :: "host \<Rightarrow> rules_state \<Rightarrow> pub_day list \<Rightarrow> frozen list \<Rightarrow> transfer list
    \<Rightarrow> rules_state \<times> ((string, int) dict \<times> amend_payment) list result" where
  "amendments_paid H st days am amended = (case index_parts [] amended of
     None \<Rightarrow> (st, Inl ValueError)
   | Some on_chain \<Rightarrow>
       if \<not> list_all (\<lambda>k. int k \<in> set (map fst am)) (map fst on_chain) then (st, Inl ValueError)
       else list_amendments H am days on_chain st am)"

record season_doc =
  sl_payer :: string
  sl_end :: int
  sl_last_day :: int
  sl_paid :: "(string, int) dict"
  sl_total :: int
  sl_aside :: "(string, int) dict"
  sl_total_aside :: int
  sl_ranked :: int
  sl_digests :: "(string, string) dict"
  sl_payments :: "week_payment list"
  sl_amendments :: "amend_payment list"
  sl_total_amended :: int

text \<open>Every transfer of the season, and the two sums the list is compared on.\<close>

definition all_sends :: "transfer list \<Rightarrow> (string \<times> int) list" where
  "all_sends ts = concat (map tr_sends ts)"

definition season_of :: "(string, string) dict \<Rightarrow> int \<Rightarrow> string \<Rightarrow> pub_day list \<Rightarrow> ((string, int) dict \<times> (string, int) dict \<times> week_payment) list
    \<Rightarrow> ((string, int) dict \<times> amend_payment) list \<Rightarrow> int \<Rightarrow> season_doc" where
  "season_of digests end_height payer days weeks ams booked_total =
     (let listed = tally (concat (map fst weeks) @ concat (map fst ams)); aside = tally (concat (map (\<lambda>(p, a, y). a) weeks)) in
      \<lparr>sl_payer = payer, sl_end = end_height, sl_last_day = int (length days) - 1, sl_paid = sorted_items listed,
       sl_total = dict_sum listed, sl_aside = sorted_items aside, sl_total_aside = dict_sum aside, sl_ranked = booked_total,
       sl_digests = sorted_items digests, sl_payments = map (\<lambda>(p, a, y). y) weeks, sl_amendments = map snd ams,
       sl_total_amended = sum_list (map (\<lambda>(p, y). dict_sum p) ams)\<rparr>)"

definition sums_differ :: "transfer list \<Rightarrow> season_doc \<Rightarrow> bool" where
  "sums_differ ts l \<longleftrightarrow>
     (let sent = tally (all_sends ts) in
      sl_total l \<noteq> dict_sum sent \<or> sorted_items sent \<noteq> sl_paid l
      \<or> sl_total l - sl_total_amended l + sl_total_aside l \<noteq> sl_ranked l)"

definition season_list :: "host \<Rightarrow> rules_state \<Rightarrow> pub_day list \<Rightarrow> (string, string) dict \<Rightarrow> int \<Rightarrow> transfer list \<Rightarrow> pyval \<Rightarrow> string
    \<Rightarrow> frozen list \<Rightarrow> transfer list \<Rightarrow> rules_state \<times> season_doc result" where
  "season_list H st days digests end_height transfers doubled_from payer am amended =
     (case week_refused H st days doubled_from of
        (st1, Inl e) \<Rightarrow> (st1, Inl e)
      | (st1, Inr True) \<Rightarrow> (st1, Inl ValueError)
      | (st1, Inr False) \<Rightarrow>
          (let weeks = nat ((int (length days) - 1) div 7 + 1) in
           if \<not> list_all (\<lambda>t. tr_id t < weeks) transfers then (st1, Inl ValueError)
           else (case index_parts [] transfers of
               None \<Rightarrow> (st1, Inl ValueError)
             | Some on_chain \<Rightarrow>
                 (case map_res (list_week H days on_chain) [0..<weeks] of
                    Inl e \<Rightarrow> (st1, Inl e)
                  | Inr ws \<Rightarrow>
                      (case amendments_paid H st1 days am amended of
                         (st2, Inl e) \<Rightarrow> (st2, Inl e)
                       | (st2, Inr ams) \<Rightarrow>
                           (st2, bind_res (map_res paid_total days) (\<lambda>zs.
                              let l = season_of digests end_height payer days ws ams (sum_list zs) in
                              if sums_differ (transfers @ amended) l then Inl ValueError else Inr l)))))))"

section \<open>What the index of the parts holds\<close>

lemma map_value_update: "map (\<lambda>(k, v). (k, g v)) (AList.update k v d) = AList.update k (g v) (map (\<lambda>(k, v). (k, g v)) d)"
  by (induction d) auto

lemma keys_map_value: "map fst (map (\<lambda>(k, v). (k, g v)) d) = map fst d"
  by (simp add: case_prod_beta comp_def)

lemma wf_map_value [simp]: "wf_dict (map (\<lambda>(k, v). (k, g v)) d) = wf_dict d"
  by (simp add: wf_dict_def keys_map_value case_prod_beta comp_def)

lemma get_or_map_value: "g x = y \<Longrightarrow> get_or (map (\<lambda>(k, v). (k, g v)) d) k y = g (get_or d k x)"
  by (simp add: get_or_def map_of_map split: option.splits)

text \<open>The transfers an index holds, as a multiset.\<close>

definition held :: "(nat, (nat, transfer) dict) dict \<Rightarrow> transfer multiset" where
  "held d = dict_sum (map (\<lambda>(k, found). (k, mset (map snd found))) d)"

definition indexed :: "(nat, (nat, transfer) dict) dict \<Rightarrow> bool" where
  "indexed d \<longleftrightarrow> wf_dict d \<and> (\<forall>(k, found) \<in> set d. wf_dict found \<and> (\<forall>(p, t) \<in> set found. tr_id t = k \<and> tr_part t = p))"

lemma indexed_get:
  "indexed d \<Longrightarrow> wf_dict (get_or d k []) \<and> (\<forall>(p, t) \<in> set (get_or d k []). tr_id t = k \<and> tr_part t = p)"
  by (auto simp: indexed_def get_or_def dest!: map_of_SomeD split: option.splits)

lemma index_parts_held:
  assumes "index_parts d ts = Some d'" "indexed d"
  shows "indexed d' \<and> held d' = held d + mset ts \<and> fst ` set d' = fst ` set d \<union> tr_id ` set ts"
  using assms
proof (induction d ts rule: index_parts.induct)
  case (2 d t ts)
  let ?f = "get_or d (tr_id t) []" and ?d = "AList.update (tr_id t) (AList.update (tr_part t) t (get_or d (tr_id t) [])) d"
  have new: "map_of ?f (tr_part t) = None" and rest: "index_parts ?d ts = Some d'"
    using "2.prems"(1) by (auto simp: Let_def split: if_splits)
  note f = indexed_get [OF "2.prems"(2), of "tr_id t"]
  have app: "AList.update (tr_part t) t ?f = ?f @ [(tr_part t, t)]" using new by (intro update_new) (simp add: map_of_eq_None_iff)
  have "indexed ?d" unfolding indexed_def
  proof (intro conjI ballI)
    show "wf_dict ?d" using "2.prems"(2) by (simp add: indexed_def)
    fix x assume "x \<in> set ?d"
    then have "x = (tr_id t, AList.update (tr_part t) t ?f) \<or> x \<in> set d" using set_update_subset by fastforce
    moreover have "wf_dict (AList.update (tr_part t) t ?f)" using f by simp
    ultimately show "case x of (k, found) \<Rightarrow> wf_dict found \<and> (\<forall>(p, t) \<in> set found. tr_id t = k \<and> tr_part t = p)"
      using f "2.prems"(2) by (auto simp: indexed_def app)
  qed
  moreover have "held ?d = held d + {#t#}"
  proof -
    let ?g = "\<lambda>found. mset (map snd found)" and ?m = "map (\<lambda>(k, found). (k, mset (map snd found))) d"
    have wf: "wf_dict ?m" using "2.prems"(2) by (simp add: indexed_def)
    have g: "get_or ?m (tr_id t) 0 = ?g ?f" by (rule get_or_map_value) simp
    have "held ?d + get_or ?m (tr_id t) 0 = held d + ?g (AList.update (tr_part t) t ?f)"
      unfolding held_def map_value_update [of ?g] by (rule dict_sum_update [OF wf])
    also have "\<dots> = held d + {#t#} + ?g ?f" by (simp add: app)
    finally show ?thesis unfolding g by simp
  qed
  moreover have "fst ` set ?d = insert (tr_id t) (fst ` set d)" by (rule set_keys_update)
  ultimately show ?case using "2.IH" [OF refl _ rest] new by auto
qed simp

lemma dict_sum_over:
  fixes d :: "('k, 'n::comm_monoid_add) dict"
  assumes "wf_dict d" "fst ` set d \<subseteq> set ks" "distinct ks"
  shows "dict_sum d = sum_list (map (\<lambda>k. get_or d k 0) ks)"
proof -
  have "sum_list (map (\<lambda>k. get_or d k 0) ks) = (\<Sum>k \<in> set ks. get_or d k 0)" using assms(3) by (rule sum_list_distinct_conv_sum_set)
  also have "\<dots> = (\<Sum>k \<in> fst ` set d. get_or d k 0)"
    by (rule sum.mono_neutral_right) (use assms(2) in \<open>auto simp: get_or_def dest: map_of_SomeD split: option.splits\<close>, force dest: map_of_SomeD)
  also have "\<dots> = (\<Sum>p \<in> set d. get_or d (fst p) 0)"
    using assms(1) by (intro sum.reindex_cong [OF _ refl]) (auto simp: wf_dict_def distinct_map)
  also have "\<dots> = (\<Sum>p \<in> set d. snd p)"
    using assms(1) by (intro sum.cong refl) (auto simp: get_or_def wf_dict_def)
  also have "\<dots> = dict_sum d" using assms(1)
    by (simp add: dict_sum_def wf_dict_def distinct_map sum_list_distinct_conv_sum_set)
  finally show ?thesis ..
qed

lemma held_over:
  assumes "indexed d" "fst ` set d \<subseteq> set ks" "distinct ks"
  shows "held d = sum_list (map (\<lambda>k. mset (map snd (get_or d k []))) ks)"
proof -
  have g: "get_or (map (\<lambda>(k, found). (k, mset (map snd found))) d) k 0 = mset (map snd (get_or d k []))" for k
    by (rule get_or_map_value) simp
  have "fst ` set (map (\<lambda>(k, found). (k, mset (map snd found))) d) \<subseteq> set ks" using assms(2) by (auto simp: case_prod_beta)
  moreover have "wf_dict (map (\<lambda>(k, found). (k, mset (map snd found))) d)" using assms(1) by (simp only: indexed_def wf_map_value)
  ultimately have "held d = sum_list (map (\<lambda>k. get_or (map (\<lambda>(k, found). (k, mset (map snd found))) d) k 0) ks)"
    unfolding held_def using assms(3) by (intro dict_sum_over)
  then show ?thesis by (simp only: g)
qed

text \<open>The transfers of a plan paid as planned are the plan's, whatever the order they are found in.\<close>

lemma paid_as_planned_sends:
  assumes "paid_as_planned dg chunks found" "wf_dict found"
  shows "mset (concat (map tr_sends (map snd found))) = mset (concat chunks)"
proof -
  let ?n = "length chunks" and ?t = "\<lambda>i. the (map_of found i)"
  have P: "\<forall>i < ?n. map_of found i \<noteq> None" "\<forall>(p, t) \<in> set found. p < ?n" "\<forall>i < ?n. tr_sends (?t i) = chunks ! i"
    using assms(1) by (auto simp: paid_as_planned_def list_all_iff)
  have "set found = (\<lambda>i. (i, ?t i)) ` {0..<?n}"
  proof (intro set_eqI iffI)
    fix x assume x: "x \<in> set found"
    then have "map_of found (fst x) = Some (snd x)" using assms(2) by (simp add: wf_dict_map_of_iff)
    then show "x \<in> (\<lambda>i. (i, ?t i)) ` {0..<?n}" using P(2) x by (intro image_eqI [of _ _ "fst x"]) (auto simp: case_prod_beta)
  next
    fix x assume "x \<in> (\<lambda>i. (i, ?t i)) ` {0..<?n}"
    then obtain i where i: "i < ?n" "x = (i, ?t i)" by auto
    then obtain t where "map_of found i = Some t" using P(1) by blast
    then show "x \<in> set found" using i(2) by (simp add: map_of_SomeD)
  qed
  then have S: "set found = set (map (\<lambda>i. (i, ?t i)) [0..<?n])" by simp
  have "mset found = mset (map (\<lambda>i. (i, ?t i)) [0..<?n])"
  proof (intro set_eq_iff_mset_eq_distinct [THEN iffD1])
    show "distinct found" using assms(2) by (simp add: wf_dict_def distinct_map)
    show "distinct (map (\<lambda>i. (i, ?t i)) [0..<?n])" by (simp add: distinct_map inj_on_def)
    show "set found = set (map (\<lambda>i. (i, ?t i)) [0..<?n])" by (rule S)
  qed
  then have "mset (map (tr_sends \<circ> snd) found) = mset (map (tr_sends \<circ> snd) (map (\<lambda>i. (i, ?t i)) [0..<?n]))"
    by (simp only: mset_map)
  also have "map (tr_sends \<circ> snd) (map (\<lambda>i. (i, ?t i)) [0..<?n]) = map (\<lambda>i. chunks ! i) [0..<?n]" using P(3) by simp
  also have "\<dots> = chunks" by (rule map_nth)
  finally have "mset (map (tr_sends \<circ> snd) found) = mset chunks" .
  then have "mset (concat (map (tr_sends \<circ> snd) found)) = mset (concat chunks)" by (metis mset_concat mset_map sum_mset_sum_list)
  then show ?thesis by (simp add: comp_def)
qed

section \<open>The weeks cover the season\<close>

lemma sum_slices:
  fixes f :: "'a \<Rightarrow> 'n::comm_monoid_add"
  shows "sum_list (map (\<lambda>k. sum_list (map f (take m (drop (m * k) xs)))) [0..<n]) = sum_list (map f (take (m * n) xs))"
proof (induction n)
  case (Suc n)
  have "take (m * Suc n) xs = take (m * n) xs @ take m (drop (m * n) xs)"
    unfolding mult_Suc_right add.commute [of m] by (rule take_add)
  then show ?case using Suc by simp
qed simp

lemma week_of_season:
  assumes "week_days (int k) (Some (int (length days) - 1)) = Inr wd"
  shows "days_of_week wd days = take 7 (drop (7 * k) days)"
proof -
  obtain n where n: "0 < n" "n \<le> 7" "wd = map (\<lambda>i. 7 * int k + int i) [0..<n]"
    "int n = min 7 (int (length days) - 1 - 7 * int k + 1)"
    using week_days_shape [OF assms] by auto
  have e: "hd wd = 7 * int k" "last wd = 7 * int k + int n - 1" using n(1) by (simp_all add: n(3) hd_map last_map)
  have s: "nat (hd wd) = 7 * k" "nat (last wd + 1) - nat (hd wd) = n" unfolding e using n(1) by simp_all
  have u: "days_of_week wd days = take n (drop (7 * k) days)" unfolding days_of_week_def s(2) by (simp only: s(1))
  have "take n (drop (7 * k) days) = take 7 (drop (7 * k) days)"
  proof (cases "n = 7")
    case False
    then have "length (drop (7 * k) days) \<le> n" using n(4) by simp
    then show ?thesis using n(2) by simp
  qed simp
  then show ?thesis unfolding u .
qed

lemma sum_weeks:
  assumes "weeks = nat ((int (length days) - 1) div 7 + 1)"
  shows "sum_list (map (\<lambda>k. sum_list (map f (take 7 (drop (7 * k) days)))) [0..<weeks]) = (sum_list (map f days) :: int)"
proof -
  have "length days \<le> 7 * weeks"
  proof (cases "days = []")
    case False
    then have "0 \<le> int (length days) - 1" by (cases days) auto
    then have "int weeks = (int (length days) - 1) div 7 + 1" by (simp add: assms)
    then show ?thesis by linarith
  qed simp
  then show ?thesis by (simp add: sum_slices)
qed

section \<open>The list is what was sent\<close>

lemma tally_same_pairs:
  fixes xs ys :: "('k::linorder \<times> int) list"
  assumes "mset xs = mset ys"
  shows "sorted_items (tally xs) = sorted_items (tally ys)" "dict_sum (tally xs) = dict_sum (tally ys)"
proof -
  have f: "sum_list (map snd (filter P xs)) = sum_list (map snd (filter P ys))" for P
    using assms by (metis mset_filter mset_map sum_mset_sum_list)
  have k: "fst ` set (tally xs) = fst ` set (tally ys)" using mset_eq_setD [OF assms] by (simp add: tally_simps)
  have m: "map_of (tally xs) a = map_of (tally ys) a" for a
  proof (cases "a \<in> fst ` set (tally xs)")
    case True
    then obtain u v where "map_of (tally xs) a = Some u" "map_of (tally ys) a = Some v"
      using k by (metis map_of_eq_None_iff not_None_eq)
    moreover have "get_or (tally xs) a 0 = get_or (tally ys) a 0" by (simp add: get_or_tally f)
    ultimately show ?thesis by (simp add: get_or_def)
  next
    case False
    then show ?thesis using k by (metis map_of_eq_None_iff)
  qed
  have wf: "wf_dict (tally xs)" "wf_dict (tally ys)" by simp_all
  have "set (tally xs) = set (tally ys)" using m wf by (metis map_of_inject_set wf_dict_def ext)
  then have e: "mset (tally xs) = mset (tally ys)"
    using wf by (auto simp: wf_dict_def distinct_map set_eq_iff_mset_eq_distinct)
  then show "sorted_items (tally xs) = sorted_items (tally ys)" unfolding sorted_items_def by (metis sorted_list_of_multiset_mset)
  show "dict_sum (tally xs) = dict_sum (tally ys)" using e by (rule dict_sum_mset)
qed

lemma list_week_Inr:
  assumes "list_week H days oc k = Inr (payable, aside, y)" "wf_rules st" "check_days H st days = (st1, Inr None)" "indexed oc"
  shows "mset (all_sends (map snd (get_or oc k []))) = mset payable
    \<and> dict_sum payable + dict_sum aside = sum_list (map pub_paid (take 7 (drop (7 * k) days)))
    \<and> wf_dict payable \<and> (\<forall>(a, v) \<in> set payable. payable_address H (PStr a) = None)"
proof -
  obtain wd vs where w: "week_days (int k) (Some (int (length days) - 1)) = Inr wd" "views (days_of_week wd days) = Inr vs"
    "week_plan H vs = Inr (payable, aside)" "paid_as_planned (plan_digest H payable) (parts payable) (get_or oc k [])"
    using assms(1) by (auto simp: list_week_def bind_res_eq_Inr Let_def split: if_splits)
  note A = accepted_week [OF assms(2,3) set_days_of_week [of wd]]
  obtain totals where T: "week_totals vs = Inr totals" "mset totals = mset payable + mset aside"
    "payable = filter (\<lambda>(a, v). payable_address H (PStr a) = None) totals" by (rule week_plan_Inr [OF w(3)])
  have vs: "vs = map (\<lambda>d. the (day_view d)) (days_of_week wd days)" using A(1) w(2) by simp
  have "dict_sum totals = dict_sum payable + dict_sum aside"
    using T(2) by (simp add: dict_sum_def flip: sum_mset_sum_list)
  then have s: "dict_sum payable + dict_sum aside = sum_list (map pub_paid (days_of_week wd days))" using A(3) T(1) vs by simp
  have "wf_dict totals" using T(1) by (auto simp: week_totals_Inr)
  then have "wf_dict payable" unfolding T(3) wf_dict_def by (simp add: distinct_map_filter)
  moreover have "mset (all_sends (map snd (get_or oc k []))) = mset payable"
    using paid_as_planned_sends [OF w(4)] indexed_get [OF assms(4), of k] concat_parts [of payable] by (simp add: all_sends_def)
  ultimately show ?thesis using s week_of_season [OF w(1)] T(3) by auto
qed

lemma mset_sends: "mset (all_sends ts) = (\<Sum>t \<in># mset ts. mset (tr_sends t))"
  by (induction ts) (simp_all add: all_sends_def)

lemma sends_of_sum:
  "mset ts = sum_list (map (\<lambda>k. mset (g k)) ks) \<Longrightarrow> mset (all_sends ts) = sum_list (map (\<lambda>k. mset (all_sends (g k))) ks)"
proof -
  have "(\<Sum>t \<in># sum_list (map (\<lambda>k. mset (g k)) ks). mset (tr_sends t)) = sum_list (map (\<lambda>k. \<Sum>t \<in># mset (g k). mset (tr_sends t)) ks)"
    by (induction ks) simp_all
  moreover assume "mset ts = sum_list (map (\<lambda>k. mset (g k)) ks)"
  ultimately show ?thesis by (simp only: mset_sends)
qed

text \<open>What was sent under a number is what its plan pays, for every number of a plan.\<close>

lemma sent_as_planned:
  assumes "index_parts [] ts = Some oc" "tr_id ` set ts \<subseteq> set ks" "distinct ks"
    and "list_all2 (\<lambda>k p. mset (all_sends (map snd (get_or oc k []))) = mset p) ks ps"
  shows "mset (all_sends ts) = mset (concat ps)"
proof -
  have i: "indexed oc" "held oc = mset ts" "fst ` set oc \<subseteq> set ks"
    using index_parts_held [OF assms(1)] assms(2) by (auto simp: indexed_def held_def)
  have "mset ts = sum_list (map (\<lambda>k. mset (map snd (get_or oc k []))) ks)" using held_over [OF i(1,3) assms(3)] i(2) by simp
  then have "mset (all_sends ts) = sum_list (map (\<lambda>k. mset (all_sends (map snd (get_or oc k [])))) ks)" by (rule sends_of_sum)
  also have "\<dots> = mset (concat ps)" using assms(4) by (induction rule: list_all2_induct) simp_all
  finally show ?thesis .
qed

text \<open>An amendment of the list: accepted on the days, and sent as its file lists it.\<close>

definition paid_amendment :: "host \<Rightarrow> frozen list \<Rightarrow> pub_day list \<Rightarrow> (nat, (nat, transfer) dict) dict \<Rightarrow> frozen
    \<Rightarrow> (string, int) dict \<times> amend_payment \<Rightarrow> bool" where
  "paid_amendment H am days oc f x \<longleftrightarrow> fst x = amendment_payable (fst (snd f))
     \<and> mset (all_sends (map snd (get_or oc (nat (fst f)) []))) = mset (fst x)
     \<and> (\<exists>sa sb. wf_rules sa \<and> amendment_refusal H sa (fst f) am days = (sb, Inr None))"

lemma list_amendment_Inr:
  assumes "list_amendment H am days oc st f = (st', Inr x)" "indexed oc" "wf_rules st"
  shows "paid_amendment H am days oc f x \<and> wf_rules st'"
proof -
  obtain n doc dg where f: "f = (n, doc, dg)" by (cases f)
  let ?c = "parts (amendment_payable doc)" and ?found = "get_or oc (nat n) []"
  have R: "amendment_refusal H st n am days = (st', Inr None)" "paid_as_planned dg ?c ?found" "fst x = amendment_payable doc"
    using assms(1) by (auto simp: f list_amendment_def Let_def split: prod.splits sum.splits option.splits if_splits)
  have "mset (all_sends (map snd ?found)) = mset (fst x)"
    using paid_as_planned_sends [OF R(2)] indexed_get [OF assms(2), of "nat n"] concat_parts by (simp add: all_sends_def R(3))
  moreover have "wf_rules st'" using assms(3) R(1) by (rule amendment_refusal_None)
  ultimately show ?thesis using R assms(3) by (auto simp: paid_amendment_def f)
qed

lemma list_amendments_Inr:
  "list_amendments H am days oc st fs = (st', Inr ams) \<Longrightarrow> indexed oc \<Longrightarrow> wf_rules st
     \<Longrightarrow> list_all2 (paid_amendment H am days oc) fs ams"
proof (induction fs arbitrary: st ams)
  case (Cons f fs)
  obtain st1 x xs where S: "list_amendment H am days oc st f = (st1, Inr x)" "list_amendments H am days oc st1 fs = (st', Inr xs)" "ams = x # xs"
    using Cons.prems(1) by (auto split: prod.splits sum.splits)
  then show ?case using list_amendment_Inr [OF S(1) Cons.prems(2,3)] Cons.IH [OF S(2) Cons.prems(2)] by simp
qed simp

lemma amendments_paid_Inr:
  assumes "amendments_paid H st days am amended = (st', Inr ams)" "wf_rules st" "distinct (map fst am)" "\<forall>f \<in> set am. 0 \<le> fst f"
  obtains oc where "list_all2 (paid_amendment H am days oc) am ams" "mset (all_sends amended) = mset (concat (map fst ams))"
proof -
  obtain oc where oc: "index_parts [] amended = Some oc" "list_all (\<lambda>k. int k \<in> set (map fst am)) (map fst oc)"
    "list_amendments H am days oc st am = (st', Inr ams)"
    using assms(1) by (auto simp: amendments_paid_def split: option.splits if_splits)
  have i: "indexed oc" "fst ` set oc = tr_id ` set amended" using index_parts_held [OF oc(1)] by (auto simp: indexed_def)
  note A = list_amendments_Inr [OF oc(3) i(1) assms(2)]
  have ids: "tr_id ` set amended \<subseteq> set (map (nat \<circ> fst) am)"
  proof
    fix k assume "k \<in> tr_id ` set amended"
    then have "int k \<in> fst ` set am" using oc(2) unfolding i(2) [symmetric] by (auto simp: list_all_iff)
    then have "nat (int k) \<in> nat ` fst ` set am" by (rule imageI)
    then show "k \<in> set (map (nat \<circ> fst) am)" by (simp add: image_comp)
  qed
  have "inj_on nat (fst ` set am)"
  proof (rule inj_onI)
    fix x y assume "x \<in> fst ` set am" "y \<in> fst ` set am" "nat x = nat y"
    moreover from this have "0 \<le> x" "0 \<le> y" using assms(4) by blast+
    ultimately show "x = y" by simp
  qed
  then have "distinct (map (nat \<circ> fst) am)" using assms(3) by (auto simp: distinct_map comp_inj_on)
  moreover have "list_all2 (\<lambda>k p. mset (all_sends (map snd (get_or oc k []))) = mset p) (map (nat \<circ> fst) am) (map fst ams)"
    using A by (auto simp: list_all2_map1 list_all2_map2 paid_amendment_def elim!: list_all2_mono)
  ultimately have "mset (all_sends amended) = mset (concat (map fst ams))" by (rule sent_as_planned [OF oc(1) ids])
  with A show thesis by (rule that)
qed

section \<open>What every check before the sums already gives\<close>

lemma week_refused_False:
  "week_refused H st days df = (st', Inr False) \<Longrightarrow> \<exists>st1. check_days H st days = (st1, Inr None) \<and> check_doubled_from H st1 days df = (st', Inr None)"
  by (auto simp: week_refused_def split: prod.splits sum.splits option.splits)

lemma check_doubled_from_wf: "wf_rules st \<Longrightarrow> check_doubled_from H st days df = (st', Inr v) \<Longrightarrow> wf_rules st'"
proof -
  have "wf_rules st \<Longrightarrow> doubled_days H st f n days = (st', Inr v) \<Longrightarrow> wf_rules st'" for f n
  proof (induction days arbitrary: st n)
    case (Cons d days)
    obtain s q where S: "set_of_day H st d = (s, Inr q)" "wf_rules s" by (rule set_of_day_spec [OF Cons.prems(1), of H d])
    then show ?case using Cons.prems(2) Cons.IH [OF S(2)] by (auto simp: Let_def split: if_splits)
  qed simp
  then show "wf_rules st \<Longrightarrow> check_doubled_from H st days df = (st', Inr v) \<Longrightarrow> wf_rules st'"
    by (auto simp: check_doubled_from_def split: sum.splits)
qed

lemma listed_weeks:
  assumes "map_res (list_week H days oc) [0..<weeks] = Inr ws" "wf_rules st" "check_days H st days = (st1, Inr None)"
    and "weeks = nat ((int (length days) - 1) div 7 + 1)" "index_parts [] transfers = Some oc" "list_all (\<lambda>t. tr_id t < weeks) transfers"
  shows "mset (all_sends transfers) = mset (concat (map fst ws))"
    "sum_list (map (\<lambda>(p, a, y). dict_sum p + dict_sum a) ws) = sum_list (map pub_paid days)"
proof -
  have i: "indexed oc" using index_parts_held [OF assms(5)] by (simp add: indexed_def)
  have W: "list_all2 (\<lambda>k w. list_week H days oc k = Inr w) [0..<weeks] ws" using assms(1) by (simp add: map_res_Inr_list_all2)
  have "list_all2 (\<lambda>k p. mset (all_sends (map snd (get_or oc k []))) = mset p) [0..<weeks] (map fst ws)"
    using W list_week_Inr [OF _ assms(2,3) i] by (auto simp: list_all2_map2 elim!: list_all2_mono)
  moreover have "tr_id ` set transfers \<subseteq> set [0..<weeks]" using assms(6) by (auto simp: list_all_iff)
  ultimately show "mset (all_sends transfers) = mset (concat (map fst ws))" by (intro sent_as_planned [OF assms(5)]) simp_all
  have "list_all2 (\<lambda>k w. (case w of (p, a, y) \<Rightarrow> dict_sum p + dict_sum a) = sum_list (map pub_paid (take 7 (drop (7 * k) days)))) [0..<weeks] ws"
    using W list_week_Inr [OF _ assms(2,3) i] by (auto elim!: list_all2_mono)
  then have "map (\<lambda>(p, a, y). dict_sum p + dict_sum a) ws = map (\<lambda>k. sum_list (map pub_paid (take 7 (drop (7 * k) days)))) [0..<weeks]"
    by (induction rule: list_all2_induct) auto
  then show "sum_list (map (\<lambda>(p, a, y). dict_sum p + dict_sum a) ws) = sum_list (map pub_paid days)"
    using sum_weeks [OF assms(4), of pub_paid] by simp
qed

text \<open>The sums of a list made of the weeks and the amendments.\<close>

lemma sum_concat_dicts: "sum_list (map snd (concat ds)) = sum_list (map dict_sum ds)"
  by (induction ds) (simp_all add: dict_sum_def)

lemma season_of_sums:
  fixes ws :: "((string, int) dict \<times> (string, int) dict \<times> week_payment) list"
  shows "sl_total_amended (season_of digests e payer days ws ams z) = sum_list (map (dict_sum \<circ> fst) ams)"
    "sl_total (season_of digests e payer days ws ams z) = sum_list (map (dict_sum \<circ> fst) ws) + sum_list (map (dict_sum \<circ> fst) ams)"
    "sl_total_aside (season_of digests e payer days ws ams z) = sum_list (map (\<lambda>(p, a, y). dict_sum a) ws)"
    "sl_ranked (season_of digests e payer days ws ams z) = z"
    "sl_paid (season_of digests e payer days ws ams z) = sorted_items (tally (concat (map fst ws) @ concat (map fst ams)))"
  by (simp_all add: season_of_def Let_def dict_sum_tally sum_concat_dicts comp_def case_prod_unfold)

lemma split_sums: "sum_list (map (\<lambda>(p, a, y). dict_sum p + dict_sum a) ws)
    = sum_list (map (dict_sum \<circ> fst) ws) + sum_list (map (\<lambda>(p, a, y). dict_sum (a :: ('k, int) dict)) ws)"
  by (induction ws) auto

lemma checks_imply_sums:
  assumes "wf_rules st" "week_refused H st days df = (st1, Inr False)" "weeks = nat ((int (length days) - 1) div 7 + 1)"
    and "list_all (\<lambda>t. tr_id t < weeks) transfers" "index_parts [] transfers = Some oc" "map_res (list_week H days oc) [0..<weeks] = Inr ws"
    and "amendments_paid H st1 days am amended = (st2, Inr ams)" "distinct (map fst am)" "\<forall>f \<in> set am. 0 \<le> fst f"
  shows "\<not> sums_differ (transfers @ amended) (season_of digests e payer days ws ams (sum_list (map pub_paid days)))"
    "mset (all_sends (transfers @ amended)) = mset (concat (map fst ws) @ concat (map fst ams))"
proof -
  obtain st0 where C: "check_days H st days = (st0, Inr None)" "check_doubled_from H st0 days df = (st1, Inr None)"
    using week_refused_False [OF assms(2)] by blast
  note W = listed_weeks [OF assms(6,1) C(1) assms(3,5,4)]
  have "wf_rules st0" using check_from_accepts [OF assms(1)] C(1) unfolding check_days_def by blast
  then have "wf_rules st1" using C(2) by (rule check_doubled_from_wf)
  obtain oa where A: "mset (all_sends amended) = mset (concat (map fst ams))"
    by (rule amendments_paid_Inr [OF assms(7) \<open>wf_rules st1\<close> assms(8,9)])
  show m: "mset (all_sends (transfers @ amended)) = mset (concat (map fst ws) @ concat (map fst ams))"
    using W(1) A by (simp add: all_sends_def)
  show "\<not> sums_differ (transfers @ amended) (season_of digests e payer days ws ams (sum_list (map pub_paid days)))"
  proof -
    have "dict_sum (tally (all_sends (transfers @ amended))) = sum_list (map (dict_sum \<circ> fst) ws) + sum_list (map (dict_sum \<circ> fst) ams)"
      unfolding tally_same_pairs(2) [OF m] by (simp add: dict_sum_tally sum_concat_dicts)
    then show ?thesis
      using tally_same_pairs(1) [OF m] W(2) by (simp add: sums_differ_def season_of_sums split_sums)
  qed
qed

lemma amendment_total: "dict_sum (amendment_payable a) = sum_list (map ar_udndr (am_rows a))"
  unfolding amendment_payable_def dict_sum_mset [OF mset_sorted_items] by (simp add: dict_sum_tally paid_pairs_of_def comp_def)

lemma frozen_total: "sum_list (map (\<lambda>f. dict_sum (amendment_payable (fst (snd f)))) am) = sum_list (map ar_udndr (frozen_rows am))"
  by (induction am) (auto simp: frozen_rows_def amendment_total)

lemma amendments_paid_total:
  assumes "amendments_paid H st days am amended = (st', Inr ams)" "wf_rules st" "check_days H st0 days = (st1, Inr None)" "wf_rules st0"
    and "distinct (map fst am)" "\<forall>f \<in> set am. 0 \<le> fst f"
  shows "sum_list (map (dict_sum \<circ> fst) ams) = sum_list (map ar_udndr (frozen_rows am))"
    "sum_list (map pub_paid days) + sum_list (map ar_udndr (frozen_rows am)) \<le> 3000 * UDNDR"
proof -
  obtain oc where A: "list_all2 (paid_amendment H am days oc) am ams" by (rule amendments_paid_Inr [OF assms(1,2,5,6)])
  then have "map (dict_sum \<circ> fst) ams = map (\<lambda>f. dict_sum (amendment_payable (fst (snd f)))) am"
    by (induction rule: list_all2_induct) (auto simp: paid_amendment_def)
  then show "sum_list (map (dict_sum \<circ> fst) ams) = sum_list (map ar_udndr (frozen_rows am))" by (simp add: frozen_total)
  show "sum_list (map pub_paid days) + sum_list (map ar_udndr (frozen_rows am)) \<le> 3000 * UDNDR"
  proof (cases am)
    case Nil
    then show ?thesis using checked_season_total [OF assms(4,3)] by (simp add: frozen_rows_def)
  next
    case (Cons f fs)
    then obtain x where "paid_amendment H am days oc f x" using A by (auto simp: list_all2_Cons1)
    then obtain sa sb where "wf_rules sa" "amendment_refusal H sa (fst f) am days = (sb, Inr None)" by (auto simp: paid_amendment_def)
    then obtain pos r where "names_set H sb (last days) (pos, r)" "wf_rules sb"
      "sum_list (map pub_paid days) + sum_list (map ar_udndr (frozen_rows am)) \<le> cap_season r"
      by (rule amendment_refusal_None)
    then show ?thesis using history_caps [OF _ names_set_history] by fastforce
  qed
qed

lemma paid_totals: "map_res paid_total days = Inr zs \<Longrightarrow> zs = map pub_paid days"
proof -
  assume "map_res paid_total days = Inr zs"
  then have "list_all2 (\<lambda>d z. pd_paid d = PInt z) days zs" by (simp add: map_res_Inr_list_all2 paid_total_Inr)
  then show ?thesis by (induction rule: list_all2_induct) (auto simp: pub_paid_def)
qed

lemma views_paid: "views days = Inr vs \<Longrightarrow> map_res paid_total days = Inr (map pub_paid days)"
  unfolding views_def
  by (induction days arbitrary: vs) (auto simp: bind_res_eq_Inr paid_total_def pub_paid_def day_view_def split: option.splits pyval.splits)

lemma season_list_Inr:
  assumes "season_list H st days digests e transfers df payer am amended = (st', Inr l)"
  obtains st1 oc ws ams where "week_refused H st days df = (st1, Inr False)" "list_all (\<lambda>t. tr_id t < nat ((int (length days) - 1) div 7 + 1)) transfers"
    "index_parts [] transfers = Some oc" "map_res (list_week H days oc) [0..<nat ((int (length days) - 1) div 7 + 1)] = Inr ws"
    "amendments_paid H st1 days am amended = (st', Inr ams)"
    "l = season_of digests e payer days ws ams (sum_list (map pub_paid days))"
  using assms
  by (fastforce simp: season_list_def Let_def bind_res_eq_Inr split: prod.splits sum.splits bool.splits option.splits if_splits dest: paid_totals)

text \<open>
  C17: the list of the season is what was sent. When the list is written, each address stands in it with exactly the sum of what the
  transactions of the payout account sent it under a week's or an amendment's memo, and no other address does; the weeks and the amounts set
  aside add up to what the rankings paid, the amendments to the rows of their frozen files; and all of it together is at most 3000 DNDR.
\<close>

theorem season_list_is_what_was_sent:
  assumes "rules_reachable H st" "distinct (map fst am)" "\<forall>f \<in> set am. 0 \<le> fst f"
    and "season_list H st days digests e transfers df payer am amended = (st', Inr l)"
  shows "(\<forall>a. get_or (sl_paid l) a 0 = sum_list (map snd (filter (\<lambda>p. fst p = a) (all_sends (transfers @ amended)))))
    \<and> fst ` set (sl_paid l) = fst ` set (all_sends (transfers @ amended))
    \<and> sl_total l - sl_total_amended l + sl_total_aside l = sum_list (map pub_paid days)
    \<and> sl_total_amended l = sum_list (map ar_udndr (frozen_rows am))
    \<and> sl_total l + sl_total_aside l \<le> 3000 * UDNDR"
proof -
  have wf: "wf_rules st" using assms(1) by (rule reachable_wf)
  obtain st1 oc ws ams where L: "week_refused H st days df = (st1, Inr False)"
    "list_all (\<lambda>t. tr_id t < nat ((int (length days) - 1) div 7 + 1)) transfers" "index_parts [] transfers = Some oc"
    "map_res (list_week H days oc) [0..<nat ((int (length days) - 1) div 7 + 1)] = Inr ws" "amendments_paid H st1 days am amended = (st', Inr ams)"
    "l = season_of digests e payer days ws ams (sum_list (map pub_paid days))"
    by (rule season_list_Inr [OF assms(4)])
  obtain st0 where C: "check_days H st days = (st0, Inr None)" "wf_rules st1"
    using week_refused_False [OF L(1)] check_from_accepts [OF wf] check_doubled_from_wf unfolding check_days_def by metis
  note m = checks_imply_sums(2) [OF wf L(1) refl L(2-5) assms(2,3)]
  note A = amendments_paid_total [OF L(5) C(2,1) wf assms(2,3)]
  have sums: "\<not> sums_differ (transfers @ amended) l" unfolding L(6) by (rule checks_imply_sums(1) [OF wf L(1) refl L(2-5) assms(2,3)])
  then have paid: "sl_paid l = sorted_items (tally (all_sends (transfers @ amended)))"
    and total: "sl_total l - sl_total_amended l + sl_total_aside l = sum_list (map pub_paid days)"
    by (simp_all add: sums_differ_def Let_def L(6) season_of_sums(4))
  have am: "sl_total_amended l = sum_list (map ar_udndr (frozen_rows am))" using A(1) by (simp add: L(6) season_of_sums)
  have "get_or (sl_paid l) a 0 = sum_list (map snd (filter (\<lambda>p. fst p = a) (all_sends (transfers @ amended))))" for a
    unfolding paid by (simp add: get_or_sorted_items get_or_tally)
  moreover have "fst ` set (sl_paid l) = fst ` set (all_sends (transfers @ amended))" unfolding paid by (simp add: keys_tally)
  ultimately show ?thesis using total am A(2) by auto
qed

text \<open>
  The two sums compared at the end restate the check of the parts. Once the days are accepted, every transaction names a week of the
  season, no part is on chain twice, and every week and every frozen amendment is on chain exactly as planned, the comparison of the sums
  never refuses: the list is written.
\<close>

theorem sums_restate_the_parts:
  assumes "rules_reachable H st" "distinct (map fst am)" "\<forall>f \<in> set am. 0 \<le> fst f"
    and "week_refused H st days df = (st1, Inr False)" "list_all (\<lambda>t. tr_id t < nat ((int (length days) - 1) div 7 + 1)) transfers"
    and "index_parts [] transfers = Some oc" "map_res (list_week H days oc) [0..<nat ((int (length days) - 1) div 7 + 1)] = Inr ws"
    and "amendments_paid H st1 days am amended = (st2, Inr ams)"
  shows "season_list H st days digests e transfers df payer am amended
    = (st2, Inr (season_of digests e payer days ws ams (sum_list (map pub_paid days))))"
proof -
  have wf: "wf_rules st" using assms(1) by (rule reachable_wf)
  obtain st0 where C: "check_days H st days = (st0, Inr None)" using week_refused_False [OF assms(4)] by blast
  have "map_res paid_total days = Inr (map pub_paid days)"
    using accepted_week(1) [OF wf C subset_refl] by (rule views_paid)
  then show ?thesis
    using checks_imply_sums(1) [OF wf assms(4) refl assms(5-8,2,3)] assms(4-8) by (simp add: season_list_def Let_def)
qed

section \<open>The reading of the rankings ends\<close>

text \<open>
  The reading of the rankings ends. However many days are published, the reading returns: it ends at the first ranking that is
  missing, cannot be read, is not its own day, or carries the season's last block; and what it returns without a refusal is the days from
  0 on, each with the digest of its bytes under its own name.
\<close>

theorem season_days_ends:
  assumes "\<forall>x. src n \<noteq> Inr (Some x)" "length days \<le> n"
  shows "\<exists>r. season_days H loads src days digests = Some r
    \<and> (\<forall>ds gs e. r = Inr (ds, gs, e) \<longrightarrow> take (length days) ds = days \<and> length days < length ds \<and> length ds \<le> n
         \<and> (\<forall>i \<in> {length days..<length ds}. eq_int (pd_day (ds ! i)) (int i)))"
  using assms(2)
proof (induction "n - length days" arbitrary: days digests rule: less_induct)
  case less
  show ?case
  proof (cases "src (length days)")
    case (Inl e)
    then show ?thesis by (subst season_days.simps) simp
  next
    case (Inr y)
    show ?thesis
    proof (cases y)
      case None
      then show ?thesis using Inr by (subst season_days.simps) simp
    next
      case (Some raw)
      then have lt: "length days < n" using Inr assms(1) less.prems by (metis le_neq_implies_less)
      show ?thesis
      proof (cases "bind_res (loads raw) parse_day")
        case (Inl e)
        then show ?thesis using Inr Some by (subst season_days.simps) simp
      next
        case P: (Inr z)
        obtain day fin where z: "z = (day, fin)" by (cases z)
        let ?ds = "days @ [day]" and ?gs = "AList.update (ranking_name (length days)) (hexdigest (sha256 H raw)) digests"
        have step: "season_days H loads src days digests = (if \<not> eq_int (pd_day day) (int (length days)) then Some (Inl ValueError)
            else case fin of Some e \<Rightarrow> Some (Inr (?ds, ?gs, e)) | None \<Rightarrow> season_days H loads src ?ds ?gs)"
          using Inr Some P z by (subst season_days.simps) (simp add: Let_def)
        obtain r where r: "season_days H loads src ?ds ?gs = Some r" "\<And>ds gs e. r = Inr (ds, gs, e) \<Longrightarrow> take (length ?ds) ds = ?ds
            \<and> length ?ds < length ds \<and> length ds \<le> n \<and> (\<forall>i \<in> {length ?ds..<length ds}. eq_int (pd_day (ds ! i)) (int i))"
        proof -
          have "n - length ?ds < n - length days" "length ?ds \<le> n" using lt by simp_all
          from less.hyps [OF this, of ?gs] show thesis using that by blast
        qed
        show ?thesis
        proof (cases "eq_int (pd_day day) (int (length days)) \<and> fin = None")
          case True
          have "take (length days) ds = days \<and> length days < length ds \<and> length ds \<le> n
              \<and> (\<forall>i \<in> {length days..<length ds}. eq_int (pd_day (ds ! i)) (int i))" if e: "r = Inr (ds, gs, e)" for ds gs e
          proof -
            note R = r(2) [OF e]
            obtain us where us: "ds = ?ds @ us" using R by (metis append_take_drop_id)
            have "eq_int (pd_day (ds ! i)) (int i)" if "length days \<le> i" "i < length ds" for i
              using that R True by (cases "i = length days") (auto simp: us)
            then show ?thesis using R by (auto simp: us)
          qed
          then show ?thesis using step r(1) True by auto
        next
          case False
          then show ?thesis using step lt by (auto simp: nth_append split: option.splits)
        qed
      qed
    qed
  qed
qed

section \<open>A season of one day, paid and listed\<close>

text \<open>The transactions that carry the parts of a plan of week 0.\<close>

definition part_transfers :: "string \<Rightarrow> (string, int) dict list \<Rightarrow> transfer list" where
  "part_transfers dg chunks = map (\<lambda>i. \<lparr>tr_id = 0, tr_plan = dg, tr_part = i, tr_hash = PStr ''h'', tr_sends = chunks ! i\<rparr>) [0..<length chunks]"

lemma index_parts_one:
  "\<forall>t \<in> set ts. tr_id t = 0 \<Longrightarrow> distinct (map fst f @ map tr_part ts) \<Longrightarrow> index_parts [(0, f)] ts = Some [(0, f @ map (\<lambda>t. (tr_part t, t)) ts)]"
proof (induction ts arbitrary: f)
  case (Cons t ts)
  have new: "map_of f (tr_part t) = None" using Cons.prems(2) by (auto simp: map_of_eq_None_iff)
  have u: "AList.update (tr_part t) t f = f @ [(tr_part t, t)]" using Cons.prems(2) by (intro update_new) auto
  show ?case using Cons.IH [of "f @ [(tr_part t, t)]"] Cons.prems new by (simp add: get_or_def u)
qed simp

lemma index_parts_all:
  assumes "\<forall>t \<in> set ts. tr_id t = 0" "distinct (map tr_part ts)"
  obtains oc where "index_parts [] ts = Some oc" "get_or oc 0 [] = map (\<lambda>t. (tr_part t, t)) ts"
proof (cases ts)
  case Nil
  then show thesis using that [of "[]"] by simp
next
  case (Cons t us)
  then have "index_parts [] ts = Some [(0, map (\<lambda>t. (tr_part t, t)) ts)]"
    using index_parts_one [of us "[(tr_part t, t)]"] assms by (simp add: get_or_def)
  then show thesis using that by (simp add: get_or_def)
qed

lemma part_transfers_paid: "paid_as_planned dg chunks (map (\<lambda>t. (tr_part t, t)) (part_transfers dg chunks))"
proof -
  have "map_of (map (\<lambda>t. (tr_part t, t)) (part_transfers dg chunks)) i
      = Some \<lparr>tr_id = 0, tr_plan = dg, tr_part = i, tr_hash = PStr ''h'', tr_sends = chunks ! i\<rparr>" if "i < length chunks" for i
    using that by (intro map_of_is_SomeI) (auto simp: part_transfers_def comp_def image_def)
  then show ?thesis by (auto simp: paid_as_planned_def list_all_iff part_transfers_def)
qed

text \<open>A season of one day whose week is paid as planned.\<close>

lemma one_day_paid:
  obtains day df st1 ts oc ws where "week_refused sample_host (derived None None None) [day] df = (st1, Inr False)"
    "list_all (\<lambda>t. tr_id t < nat ((int (length [day]) - 1) div 7 + 1)) ts" "index_parts [] ts = Some oc"
    "map_res (list_week sample_host [day] oc) [0..<nat ((int (length [day]) - 1) div 7 + 1)] = Inr ws"
    "amendments_paid sample_host st1 [day] [] [] = (st1, Inr [])"
proof -
  obtain day v df s0 st1 where D: "parse_day v = Inr (day, Some 17289)"
    "check_days sample_host (derived None None None) [day] = (s0, Inr None)"
    "check_doubled_from sample_host s0 [day] df = (st1, Inr None)" "\<exists>f. first_day_of df = Inr f" by (rule one_day_plan)
  obtain payable aside where P: "plan_days sample_host (derived None None None) (\<lambda>_ _. Inr False) 0 (\<lambda>d. Found v) df = (st1, Inr (payable, aside, [0]))"
    and ld: "load_days (\<lambda>d. Found v) 0 (nat (7 * 0 + 7)) = Inr ([day], Some 0)"
    by (rule one_day_planned [where amended = "\<lambda>_ _. Inr False", OF D refl])
  obtain loaded l vs where V: "load_days (\<lambda>d. Found v) 0 (nat (7 * 0 + 7)) = Inr (loaded, l)" "week_days 0 l = Inr [0]"
    "views (days_of_week [0] loaded) = Inr vs" "week_plan sample_host vs = Inr (payable, aside)"
    by (rule plan_days_Inr [OF P]) auto
  have l: "loaded = [day]" "l = Some 0" using V(1) ld by simp_all
  let ?dg = "plan_digest sample_host payable"
  let ?ts = "part_transfers ?dg (parts payable)"
  have "\<forall>t \<in> set ?ts. tr_id t = 0" "distinct (map tr_part ?ts)" by (auto simp: part_transfers_def comp_def)
  then obtain oc where oc: "index_parts [] ?ts = Some oc" "get_or oc 0 [] = map (\<lambda>t. (tr_part t, t)) ?ts" by (rule index_parts_all)
  have one: "nat ((int (length [day]) - 1) div 7 + 1) = Suc 0" by simp
  have "\<exists>w. list_week sample_host [day] oc 0 = Inr w"
    using V(2-4) part_transfers_paid [of ?dg "parts payable"] by (simp add: list_week_def l oc(2) Let_def)
  then obtain w where "list_week sample_host [day] oc 0 = Inr w" by blast
  then have ws: "map_res (list_week sample_host [day] oc) [0..<nat ((int (length [day]) - 1) div 7 + 1)] = Inr [w]" unfolding one by simp
  have "week_refused sample_host (derived None None None) [day] df = (st1, Inr False)" using D(2,3) by (simp add: week_refused_def)
  moreover have "list_all (\<lambda>t. tr_id t < nat ((int (length [day]) - 1) div 7 + 1)) ?ts"
    unfolding one by (simp add: list_all_iff part_transfers_def)
  moreover have "amendments_paid sample_host st1 [day] [] [] = (st1, Inr [])" by (simp add: amendments_paid_def)
  ultimately show thesis using oc(1) ws that by blast
qed

theorem sums_restate_the_parts_witness:
  "\<exists>day df st1 ts l. season_list sample_host (derived None None None) [day] [] 17289 ts df ''payer'' [] [] = (st1, Inr l) \<and> sl_ranked l = pub_paid day"
proof -
  obtain day df st1 ts oc ws where D: "week_refused sample_host (derived None None None) [day] df = (st1, Inr False)"
    "list_all (\<lambda>t. tr_id t < nat ((int (length [day]) - 1) div 7 + 1)) ts" "index_parts [] ts = Some oc"
    "map_res (list_week sample_host [day] oc) [0..<nat ((int (length [day]) - 1) div 7 + 1)] = Inr ws"
    "amendments_paid sample_host st1 [day] [] [] = (st1, Inr [])" by (rule one_day_paid)
  have "season_list sample_host (derived None None None) [day] [] 17289 ts df ''payer'' [] []
      = (st1, Inr (season_of [] 17289 ''payer'' [day] ws [] (sum_list (map pub_paid [day]))))"
    by (rule sums_restate_the_parts [OF default_reachable _ _ D]) simp_all
  moreover have "sl_ranked (season_of [] 17289 ''payer'' [day] ws [] (sum_list (map pub_paid [day]))) = pub_paid day" by (simp add: season_of_sums)
  ultimately show ?thesis by blast
qed

theorem season_list_is_what_was_sent_witness:
  "\<exists>day df st1 ts l. season_list sample_host (derived None None None) [day] [] 17289 ts df ''payer'' [] [] = (st1, Inr l)
     \<and> sl_total l + sl_total_aside l \<le> 3000 * UDNDR \<and> fst ` set (sl_paid l) = fst ` set (all_sends ts)"
proof -
  obtain day df st1 ts oc ws where D: "week_refused sample_host (derived None None None) [day] df = (st1, Inr False)"
    "list_all (\<lambda>t. tr_id t < nat ((int (length [day]) - 1) div 7 + 1)) ts" "index_parts [] ts = Some oc"
    "map_res (list_week sample_host [day] oc) [0..<nat ((int (length [day]) - 1) div 7 + 1)] = Inr ws"
    "amendments_paid sample_host st1 [day] [] [] = (st1, Inr [])" by (rule one_day_paid)
  have wf: "wf_rules (derived None None None)" by (rule reachable_wf [OF default_reachable])
  let ?l = "season_of [] 17289 ''payer'' [day] ws [] (sum_list (map pub_paid [day]))"
  have s: "\<not> sums_differ (ts @ []) ?l" by (rule checks_imply_sums(1) [OF wf D(1) refl D(2-5)]) simp_all
  obtain s0 where "check_days sample_host (derived None None None) [day] = (s0, Inr None)" using week_refused_False [OF D(1)] by blast
  then have "map_res paid_total [day] = Inr (map pub_paid [day])" by (intro views_paid [OF accepted_week(1) [OF wf _ subset_refl]])
  then have l: "season_list sample_host (derived None None None) [day] [] 17289 ts df ''payer'' [] [] = (st1, Inr ?l)"
    using s D by (simp add: season_list_def Let_def)
  have none: "distinct (map fst ([] :: frozen list))" "\<forall>f \<in> set ([] :: frozen list). 0 \<le> fst f" by simp_all
  have "sl_total ?l + sl_total_aside ?l \<le> 3000 * UDNDR" "fst ` set (sl_paid ?l) = fst ` set (all_sends (ts @ []))"
    using season_list_is_what_was_sent [OF default_reachable none l] by blast+
  with l show ?thesis unfolding append_Nil2 by blast
qed

theorem season_days_ends_witness:
  "\<exists>r. season_days sample_host (\<lambda>raw. Inl ValueError) (\<lambda>n. if n = 0 then Inr (Some ''{}'') else Inr None) [] [] = Some r"
  using season_days_ends [of "\<lambda>n. if n = 0 then Inr (Some ''{}'') else Inr None" 1 "[]" sample_host "\<lambda>raw. Inl ValueError" "[]"] by auto

end
