(* ===== verification/Season_Due.thy ===== *)
theory Season_Due
  imports Season_Payout
begin

text \<open>
  The run of the cron, \<open>_due_main\<close> of \<open>src/services/final_season_payout.py\<close>: every week from week 0 on, planned from
  the published days, compared with the chain, and paid before the next one is looked at. A turn of the loop is
  \<open>due_turn\<close>, the loop \<open>due_loop\<close>; the ledger of the account is the list of its transactions, as in the theory of the
  payment of a week.
\<close>

section \<open>The loop over the weeks\<close>

text \<open>
  What a run reads besides the ledger: the rankings, the refusal of the frozen amendments, the day the doubled rates
  start from, the chain's height, the hashes its transactions get and, for a week whose sending fails, how many
  parts landed before the failure.
\<close>

record world =
  wo_src :: "nat \<Rightarrow> fetch"
  wo_amended :: "pub_day list \<Rightarrow> int list \<Rightarrow> bool result"
  wo_doubled_from :: pyval
  wo_height :: "int result"
  wo_hashes :: "nat \<Rightarrow> nat \<Rightarrow> string"
  wo_cut :: "nat \<Rightarrow> nat option"

datatype due_end = Exit nat | Raised exc

record due_out =
  do_week :: nat
  do_paid :: "nat list"
  do_already :: "nat list"
  do_due :: "nat list"
  do_txs :: "pydict list"

type_synonym week_planned = "((string, int) dict \<times> (string, int) dict \<times> int list) result"

definition plan_of_week :: "host \<Rightarrow> world \<Rightarrow> rules_state \<Rightarrow> nat \<Rightarrow> rules_state \<times> week_planned" where
  "plan_of_week H wo st week = plan_days H st (wo_amended wo) (int week) (wo_src wo) (wo_doubled_from wo)"

text \<open>The ranking of the day before the one that is missing, which says from which block on it is late.\<close>

definition prev_day_file :: "world \<Rightarrow> week_planned \<Rightarrow> pyval result" where
  "prev_day_file wo planned = (case planned of
     Inl (NotRankedYet d) \<Rightarrow> (case wo_src wo (nat (d - 1)) of Found v \<Rightarrow> Inr v | _ \<Rightarrow> Inl OSError)
   | _ \<Rightarrow> Inl OSError)"

definition action_of_week :: "host \<Rightarrow> world \<Rightarrow> bool \<Rightarrow> nat \<Rightarrow> week_planned \<Rightarrow> pydict list \<Rightarrow> due_action option" where
  "action_of_week H wo yes week planned txs =
     Option.bind (weeks_on_chain (index_of txs)) (\<lambda>ws. Option.bind (paid_parts (index_of txs) week) (\<lambda>found.
       Some (due_step H yes week planned ws (prev_day_file wo planned) (wo_height wo) found)))"

text \<open>\<open>send_parts\<close>: one transaction per part, in order, until one fails.\<close>

definition send_parts :: "host \<Rightarrow> world \<Rightarrow> string \<Rightarrow> nat \<Rightarrow> (string, int) dict \<Rightarrow> nat list \<Rightarrow> pydict list \<Rightarrow> pydict list \<times> bool" where
  "send_parts H wo payer week payable which txs =
     (let send = (\<lambda>is. txs @ map (send_part H payer week payable (wo_hashes wo week)) is) in
      case wo_cut wo week of
        Some k \<Rightarrow> if k < length which then (send (take k which), False) else (send which, True)
      | None \<Rightarrow> (send which, True))"

definition due_turn :: "host \<Rightarrow> world \<Rightarrow> bool \<Rightarrow> string \<Rightarrow> rules_state \<Rightarrow> due_out
    \<Rightarrow> ((due_end \<times> due_out) + (rules_state \<times> due_out)) option" where
  "due_turn H wo yes payer st out =
     (let w = do_week out; (st1, planned) = plan_of_week H wo st w; next = out\<lparr>do_week := Suc w\<rparr> in
      map_option (\<lambda>a. case a of
          Halt3 \<Rightarrow> Inl (Exit 3, out)
        | Waits d \<Rightarrow> Inl (Exit 0, out)
        | SeasonOver \<Rightarrow> Inl (Exit 0, out)
        | Escapes e \<Rightarrow> Inl (Raised e, out)
        | AlreadyPaid \<Rightarrow> Inr (st1, next\<lparr>do_already := do_already out @ [w]\<rparr>)
        | WouldSend which \<Rightarrow> Inr (st1, next\<lparr>do_due := do_due out @ [w]\<rparr>)
        | Sends which \<Rightarrow>
            (case send_parts H wo payer w (case planned of Inr (payable, aside, wd) \<Rightarrow> payable | Inl e \<Rightarrow> []) which (do_txs out) of
               (txs, True) \<Rightarrow> Inr (st1, next\<lparr>do_paid := do_paid out @ [w], do_txs := txs\<rparr>)
             | (txs, False) \<Rightarrow> Inl (Exit 3, out\<lparr>do_txs := txs\<rparr>)))
        (action_of_week H wo yes w planned (do_txs out)))"

partial_function (option) due_loop :: "host \<Rightarrow> world \<Rightarrow> bool \<Rightarrow> string \<Rightarrow> rules_state \<Rightarrow> due_out \<Rightarrow> (due_end \<times> due_out) option" where
  "due_loop H wo yes payer st out = Option.bind (due_turn H wo yes payer st out) (\<lambda>r. case r of
     Inl stop \<Rightarrow> Some stop | Inr (st1, out1) \<Rightarrow> due_loop H wo yes payer st1 out1)"

definition due_main :: "host \<Rightarrow> world \<Rightarrow> bool \<Rightarrow> string \<Rightarrow> rules_state \<Rightarrow> pydict list \<Rightarrow> (due_end \<times> due_out) option" where
  "due_main H wo yes payer st txs =
     due_loop H wo yes payer st \<lparr>do_week = 0, do_paid = [], do_already = [], do_due = [], do_txs = txs\<rparr>"

section \<open>One turn\<close>

definition planned_in :: "host \<Rightarrow> world \<Rightarrow> nat \<Rightarrow> (string, int) dict \<Rightarrow> bool" where
  "planned_in H wo w p \<longleftrightarrow> (\<exists>st st' aside wd. plan_of_week H wo st w = (st', Inr (p, aside, wd)))"

text \<open>A week is settled when its plan's parts are all on chain, each once, and nothing else is under its memo.\<close>

definition settled :: "host \<Rightarrow> world \<Rightarrow> nat \<Rightarrow> pydict list \<Rightarrow> bool" where
  "settled H wo w txs \<longleftrightarrow> (\<exists>p. planned_in H wo w p \<and> (\<forall>x \<in> set (week_tags w txs). fst x = plan_digest H p)
     \<and> mset (map tag_part (week_txs w txs)) = mset [0..<length (parts p)])"

lemma week_tags_of: "week_tags w txs = map (\<lambda>t. snd (the (tx_tag WEEK_MEMO t))) (week_txs w txs)"
proof (induction txs)
  case (Cons t txs)
  show ?case
  proof (cases "tx_tag WEEK_MEMO t")
    case None
    then show ?thesis using Cons by (simp add: week_tags_def week_txs_def List.map_filter_def)
  next
    case (Some x)
    then show ?thesis using Cons by (cases x) (auto simp: week_tags_def week_txs_def List.map_filter_def)
  qed
qed (simp add: week_tags_def week_txs_def List.map_filter_def)

lemma settled_cong: "week_txs w txs = week_txs w txs' \<Longrightarrow> settled H wo w txs = settled H wo w txs'"
  unfolding settled_def by (simp add: week_tags_of)

lemma week_txs_sent:
  assumes "digest_lengths H" "w \<noteq> week"
  shows "week_txs w (txs @ map (send_part H payer week payable hashes) is) = week_txs w txs"
proof -
  have "week_txs w (map (send_part H payer week payable hashes) is) = []"
    using assms(2) by (auto simp: week_txs_def filter_empty_conv send_part_tag [OF assms(1)])
  then show ?thesis by (simp add: week_txs_def)
qed

lemma due_step_pays:
  assumes "due_step H yes w planned ws prev h found = a" "a = AlreadyPaid \<or> (\<exists>which. a = Sends which \<or> a = WouldSend which)"
  obtains p aside wd f where "planned = Inr (p, aside, wd)" "found = Inr f"
    "decide H p f = (case a of Sends which \<Rightarrow> Pay which | WouldSend which \<Rightarrow> Pay which | _ \<Rightarrow> Done)"
    "\<forall>which. a = Sends which \<longrightarrow> yes" "\<forall>which. a = WouldSend which \<longrightarrow> \<not> yes"
  using assms by (auto simp: due_step_def split: sum.splits exc.splits if_splits verdict.splits prod.splits)

lemma decide_agrees:
  assumes "decide H p found = v" "\<forall>which. v \<noteq> Stop which"
  shows "\<forall>(i, (dg, h)) \<in> set found. dg = plan_digest H p"
  using assms decide_conflicting [of _ _ _ found H p] by fastforce


section \<open>The invariant of the loop\<close>

definition due_inv :: "host \<Rightarrow> world \<Rightarrow> bool \<Rightarrow> string \<Rightarrow> (string, int) dict set \<Rightarrow> pydict list \<Rightarrow> due_out \<Rightarrow> bool" where
  "due_inv H wo yes payer P txs0 out \<longleftrightarrow> (paying H payer P)\<^sup>*\<^sup>* txs0 (do_txs out)
     \<and> (\<forall>w \<ge> do_week out. week_txs w (do_txs out) = week_txs w txs0)
     \<and> (yes \<longrightarrow> (\<forall>w < do_week out. settled H wo w (do_txs out)))
     \<and> (\<not> yes \<longrightarrow> do_txs out = txs0)
     \<and> set (do_already out) \<union> set (do_paid out) \<union> set (do_due out) = {..<do_week out}
     \<and> (yes \<longrightarrow> do_due out = [])"

text \<open>What a stopped run leaves: at most the week it stopped at has new parts, and only when it failed.\<close>

definition due_stopped :: "host \<Rightarrow> world \<Rightarrow> bool \<Rightarrow> string \<Rightarrow> (string, int) dict set \<Rightarrow> pydict list \<Rightarrow> due_end \<times> due_out \<Rightarrow> bool" where
  "due_stopped H wo yes payer P txs0 = (\<lambda>(e, out). (paying H payer P)\<^sup>*\<^sup>* txs0 (do_txs out)
     \<and> (\<forall>w > do_week out. week_txs w (do_txs out) = week_txs w txs0)
     \<and> (e \<noteq> Exit 3 \<longrightarrow> week_txs (do_week out) (do_txs out) = week_txs (do_week out) txs0)
     \<and> (yes \<longrightarrow> (\<forall>w < do_week out. settled H wo w (do_txs out)))
     \<and> (\<not> yes \<longrightarrow> do_txs out = txs0)
     \<and> set (do_already out) \<union> set (do_paid out) \<union> set (do_due out) = {..<do_week out}
     \<and> (yes \<longrightarrow> do_due out = []))"

lemma inv_stopped: "due_inv H wo yes payer P txs0 out \<Longrightarrow> due_stopped H wo yes payer P txs0 (e, out)"
  by (simp add: due_inv_def due_stopped_def)

lemma turn_settles:
  assumes H: "digest_lengths H" and ok: "ledger_ok H payer P txs" and inj: "inj_on (plan_digest H) P"
    and found: "paid_parts (index_of txs) w = Some (Inr f)" and "p \<in> P" "planned_in H wo w p"
    and dec: "decide H p f = Done \<and> txs' = txs
      \<or> (\<exists>which. decide H p f = Pay which \<and> txs' = txs @ map (send_part H payer w p hashes) which)"
  shows "settled H wo w txs'" "(paying H payer P)\<^sup>*\<^sup>* txs txs'"
proof -
  have "\<forall>which. decide H p f \<noteq> Stop which" using dec by auto
  from agreeing_tags(1) [OF ok found decide_agrees [OF refl this]]
  have same: "\<forall>x \<in> set (week_tags w txs). fst x = plan_digest H p" .
  have run: "txs' = full_run H payer w p hashes txs" using dec found by (auto simp: full_run_def)
  note F = full_run_complete [OF H ok assms(5) inj same, of hashes, folded run]
  have "distinct (map tag_part (week_txs w txs'))"
    using F(4) by (auto simp: ledger_ok_def one_digest_def simp flip: week_tags_parts)
  moreover have "set (map tag_part (week_txs w txs')) = set [0..<length (parts p)]"
    using F(2) by (auto simp flip: week_tags_parts)
  ultimately have "mset (map tag_part (week_txs w txs')) = mset [0..<length (parts p)]"
    by (simp only: set_eq_iff_mset_eq_distinct [symmetric] distinct_upt)
  then show "settled H wo w txs'" unfolding settled_def using assms(6) F(3) by blast
  show "(paying H payer P)\<^sup>*\<^sup>* txs txs'" by (rule F(1))
qed

lemma cut_run:
  assumes "paid_parts (index_of txs) w = Some (Inr f)" "p \<in> P" "decide H p f = Pay which" "k < length which"
  shows "paying H payer P txs (txs @ map (send_part H payer w p hashes) (take k which))"
  using assms by (intro paying.run) auto

lemma due_turn_cases:
  assumes "due_turn H wo yes payer st out = Some r"
  obtains (stop) e where "r = Inl (e, out)"
  | (already) p f st1 where "planned_in H wo (do_week out) p" "paid_parts (index_of (do_txs out)) (do_week out) = Some (Inr f)"
      "decide H p f = Done" "r = Inr (st1, out\<lparr>do_week := Suc (do_week out), do_already := do_already out @ [do_week out]\<rparr>)"
  | (due) p st1 where "\<not> yes" "planned_in H wo (do_week out) p" "r = Inr (st1, out\<lparr>do_week := Suc (do_week out), do_due := do_due out @ [do_week out]\<rparr>)"
  | (paid) p f which st1 where "yes" "planned_in H wo (do_week out) p"
      "paid_parts (index_of (do_txs out)) (do_week out) = Some (Inr f)" "decide H p f = Pay which"
      "r = Inr (st1, out\<lparr>do_week := Suc (do_week out), do_paid := do_paid out @ [do_week out],
         do_txs := do_txs out @ map (send_part H payer (do_week out) p (wo_hashes wo (do_week out))) which\<rparr>)"
  | (cut) p f which k where "yes" "planned_in H wo (do_week out) p"
      "paid_parts (index_of (do_txs out)) (do_week out) = Some (Inr f)" "decide H p f = Pay which" "k < length which"
      "r = Inl (Exit 3, out\<lparr>do_txs := do_txs out @ map (send_part H payer (do_week out) p (wo_hashes wo (do_week out))) (take k which)\<rparr>)"
proof -
  let ?w = "do_week out"
  obtain st1 planned where pl: "plan_of_week H wo st ?w = (st1, planned)" by (cases "plan_of_week H wo st ?w") auto
  obtain a where a: "action_of_week H wo yes ?w planned (do_txs out) = Some a"
    using assms pl by (auto simp: due_turn_def Let_def)
  obtain ws found where found: "paid_parts (index_of (do_txs out)) ?w = Some found"
    and step: "due_step H yes ?w planned ws (prev_day_file wo planned) (wo_height wo) found = a"
    using a by (auto simp: action_of_week_def bind_eq_Some_conv)
  have pin: "planned_in H wo ?w p" if "planned = Inr (p, aside, wd)" for p aside wd
    using pl that by (auto simp: planned_in_def)
  show thesis
  proof (cases a)
    case AlreadyPaid
    with step obtain p aside wd f where "planned = Inr (p, aside, wd)" "found = Inr f" "decide H p f = Done"
      by (elim due_step_pays) auto
    then show thesis using already [OF pin, of p aside wd f st1] found assms pl a AlreadyPaid by (simp add: due_turn_def Let_def)
  next
    case (WouldSend which)
    with step obtain p aside wd where "\<not> yes" "planned = Inr (p, aside, wd)" by (elim due_step_pays) auto
    then show thesis using due [OF _ pin, of p aside wd st1] assms pl a WouldSend by (simp add: due_turn_def Let_def)
  next
    case (Sends which)
    with step obtain p aside wd f where y: "planned = Inr (p, aside, wd)" "found = Inr f" "decide H p f = Pay which" yes
      by (elim due_step_pays) auto
    show thesis
    proof (cases "case wo_cut wo ?w of Some k \<Rightarrow> k < length which | None \<Rightarrow> False")
      case True
      then obtain k where "wo_cut wo ?w = Some k" "k < length which" by (auto split: option.splits)
      then show thesis using cut [OF y(4) pin, of p aside wd f which k] y found assms pl a Sends
        by (simp add: due_turn_def send_parts_def Let_def)
    next
      case False
      then show thesis using paid [OF y(4) pin, of p aside wd f which st1] y found assms pl a Sends
        by (auto simp: due_turn_def send_parts_def Let_def split: option.splits)
    qed
  qed (use stop assms pl a in \<open>auto simp: due_turn_def Let_def\<close>)
qed

lemma due_turn_inv:
  assumes H: "digest_lengths H" and inj: "inj_on (plan_digest H) P" and plans: "\<forall>w p. planned_in H wo w p \<longrightarrow> p \<in> P"
    and start: "(paying H payer P)\<^sup>*\<^sup>* [] txs0" and inv: "due_inv H wo yes payer P txs0 out"
    and turn: "due_turn H wo yes payer st out = Some r"
  shows "(case r of Inl stop \<Rightarrow> due_stopped H wo yes payer P txs0 stop
    | Inr (st1, out1) \<Rightarrow> due_inv H wo yes payer P txs0 out1 \<and> do_week out1 = Suc (do_week out))"
proof -
  let ?w = "do_week out" and ?txs = "do_txs out"
  have reach: "(paying H payer P)\<^sup>*\<^sup>* txs0 ?txs" using inv by (simp add: due_inv_def)
  then have ok: "ledger_ok H payer P ?txs" using ledger_invariant [OF H] start by (meson rtranclp_trans)
  have keep: "settled H wo w (?txs @ map (send_part H payer ?w p h) is) = settled H wo w ?txs" if "w < ?w" for w p h "is"
    using that by (intro settled_cong week_txs_sent [OF H]) simp
  from turn show ?thesis
  proof (cases rule: due_turn_cases)
    case (stop e)
    then show ?thesis using inv by (simp add: inv_stopped)
  next
    case (already p f st1)
    have "settled H wo ?w ?txs"
      using turn_settles(1) [OF H ok inj already(2) _ already(1), of ?txs] plans already(1,3) by blast
    then show ?thesis using already(4) inv by (auto simp: due_inv_def less_Suc_eq)
  next
    case (due p st1)
    then show ?thesis using inv by (auto simp: due_inv_def)
  next
    case (paid p f which st1)
    let ?new = "?txs @ map (send_part H payer ?w p (wo_hashes wo ?w)) which"
    have "settled H wo ?w ?new" "(paying H payer P)\<^sup>*\<^sup>* ?txs ?new"
      using turn_settles [OF H ok inj paid(3) _ paid(2), of ?new] plans paid(2,4) by blast+
    then show ?thesis using paid(1,5) inv keep reach
      by (auto simp: due_inv_def less_Suc_eq week_txs_sent [OF H])
  next
    case (cut p f which k)
    have "(paying H payer P)\<^sup>*\<^sup>* txs0 (?txs @ map (send_part H payer ?w p (wo_hashes wo ?w)) (take k which))"
      using reach cut_run [OF cut(3) _ cut(4,5)] plans cut(2) by (meson rtranclp.rtrancl_into_rtrancl)
    then show ?thesis using cut(1,6) inv keep by (auto simp: due_inv_def due_stopped_def week_txs_sent [OF H])
  qed
qed

section \<open>The loop ends\<close>

text \<open>The service has published a finite number of days: none from day \<open>N\<close> on.\<close>

definition published_until :: "nat \<Rightarrow> world \<Rightarrow> bool" where
  "published_until N wo \<longleftrightarrow> (\<forall>d \<ge> N. wo_src wo d = NotPublished)"

lemma load_days_ends:
  "\<lbrakk>load_days src d n = Inr (ds, l); \<forall>d \<ge> N. src d = NotPublished; d \<le> N; N < d + n\<rbrakk> \<Longrightarrow> \<exists>x. l = Some x \<and> x < int N"
proof (induction src d n arbitrary: ds l rule: load_days.induct)
  case (2 src d n)
  have "d \<noteq> N" using "2.prems" by auto
  then have lt: "d < N" using "2.prems"(3) by simp
  obtain v where v: "src d = Found v" using "2.prems"(1) by (auto split: fetch.splits)
  show ?case
  proof (cases "parse_day v")
    case (Inr x)
    obtain day e where x: "x = (day, e)" by (cases x)
    show ?thesis
    proof (cases e)
      case None
      then obtain rest where "load_days src (Suc d) n = Inr (rest, l)"
        using "2.prems"(1) v Inr x by (auto simp: bind_res_eq_Inr)
      then show ?thesis using "2.IH" [OF v Inr x [symmetric] None] "2.prems" lt by auto
    qed (use "2.prems"(1) v Inr x lt in auto)
  qed (use "2.prems"(1) v in auto)
qed simp

lemma nothing_planned:
  assumes "published_until N wo" "N \<le> w"
  shows "\<not> planned_in H wo w p"
proof
  assume "planned_in H wo w p"
  then obtain st st' aside wd where pl: "plan_days H st (wo_amended wo) (int w) (wo_src wo) (wo_doubled_from wo) = (st', Inr (p, aside, wd))"
    by (auto simp: planned_in_def plan_of_week_def)
  then obtain loaded l wd' where ld: "load_days (wo_src wo) 0 (nat (7 * int w + 7)) = Inr (loaded, l)" and wk: "week_days (int w) l = Inr wd'"
    by (auto simp: plan_days_def bind_res_eq_Inr split: sum.splits prod.splits)
  obtain x where "l = Some x" "x < int N"
    using load_days_ends [OF ld, of N] assms by (force simp: published_until_def nat_less_iff)
  moreover have "filter (\<lambda>d. d \<le> x) (map (\<lambda>i. 7 * int w + int i) [0..<7]) = []" if "x < int N" for x
    using that assms(2) by (auto simp: filter_empty_conv)
  ultimately show False using wk by (simp add: week_days_def Let_def)
qed

lemma action_total:
  assumes "ledger_ok H payer P txs"
  shows "\<exists>a. action_of_week H wo yes w planned txs = Some a"
proof -
  have r: "list_all readable_tx txs" using assms by (simp add: ledger_ok_def)
  obtain f where "paid_parts (index_of txs) w = Some (Inr f)" by (rule paid_parts_index [OF r])
  moreover have "\<exists>ws. weeks_on_chain (index_of txs) = Some ws"
    using payer_txs_whole [OF readable_keep [OF r]] by (simp add: weeks_on_chain_def)
  ultimately show ?thesis by (auto simp: action_of_week_def)
qed

lemma due_loop_total:
  assumes H: "digest_lengths H" and inj: "inj_on (plan_digest H) P" and plans: "\<forall>w p. planned_in H wo w p \<longrightarrow> p \<in> P"
    and start: "(paying H payer P)\<^sup>*\<^sup>* [] txs0" and pub: "published_until N wo"
  shows "due_inv H wo yes payer P txs0 out \<Longrightarrow> \<exists>stop. due_loop H wo yes payer st out = Some stop \<and> due_stopped H wo yes payer P txs0 stop"
proof (induction "N - do_week out" arbitrary: st out rule: less_induct)
  case less
  have "(paying H payer P)\<^sup>*\<^sup>* [] (do_txs out)" using less.prems start by (meson due_inv_def rtranclp_trans)
  then have "ledger_ok H payer P (do_txs out)" by (rule ledger_invariant [OF H])
  then obtain r where r: "due_turn H wo yes payer st out = Some r"
    using action_total by (fastforce simp: due_turn_def Let_def split: prod.splits)
  note step = due_turn_inv [OF H inj plans start less.prems r]
  show ?case
  proof (cases r)
    case (Inl stop)
    then show ?thesis using step r by (subst due_loop.simps) simp
  next
    case (Inr x)
    obtain st1 out1 where x: "x = (st1, out1)" by (cases x)
    have "\<exists>p. planned_in H wo (do_week out) p" using r by (cases rule: due_turn_cases) (use Inr in auto)
    then have "do_week out < N" using nothing_planned [OF pub] by (meson not_le)
    moreover have inv: "due_inv H wo yes payer P txs0 out1" "do_week out1 = Suc (do_week out)" using step Inr x by simp_all
    ultimately have "\<exists>stop. due_loop H wo yes payer st1 out1 = Some stop \<and> due_stopped H wo yes payer P txs0 stop"
      by (intro less.hyps) simp_all
    then show ?thesis using r Inr x by (subst due_loop.simps) simp
  qed
qed

section \<open>Properties\<close>


text \<open>A run on a service that has published nothing: it waits for day 0.\<close>

definition silent_world :: world where
  "silent_world = \<lparr>wo_src = (\<lambda>d. NotPublished), wo_amended = (\<lambda>ds wd. Inr False), wo_doubled_from = PNone,
     wo_height = Inr 1, wo_hashes = (\<lambda>w i. []), wo_cut = (\<lambda>w. None)\<rparr>"


end
