(* ===== verification/Season_Facts.thy ===== *)
theory Season_Facts
  imports Season_Calc
begin

text \<open>
  The facts of a season day, \<open>src/services/final_season_facts.py\<close>: which jobs of the programme count as work, which
  verdicts of its audits were committed in time, what the graders said of the answers, and the identities the
  calculation ranks. The job records are those \<open>final_season_chain.jobs\<close> builds, whose slash is a bool, and may be missing in a
  record made by hand; the evidence records are those the service files (\<open>final_season_server\<close>), one constructor per type,
  with dynamic values where the code checks the type of a field.
\<close>

section \<open>The chain's jobs and the evidence records\<close>

record job =
  jb_id :: string
  jb_state :: string
  jb_miner :: string
  jb_client :: string
  jb_voters :: int
  jb_slashed :: "pyval option"

datatype evidence =
    Payout (ev_day: int) (ev_miner: string) string
  | WorkAnswer (ev_day: int) string (ev_miner: string)
  | WorkGrade (ev_day: int) string (ev_miner: string) "string option" pyval
  | WorkSealed (ev_day: int) "(string \<times> string list) list"
  | Capacity (ev_day: int) (ev_miner: string) pyval pyval pyval
  | UnreadableLines (ev_day: int)

text \<open>\<open>d[k]\<close>: a key that is missing raises.\<close>

definition look :: "('k, 'v) dict \<Rightarrow> 'k \<Rightarrow> 'v result" where
  "look d k = (case map_of d k of None \<Rightarrow> Inl KeyError | Some v \<Rightarrow> Inr v)"

lemma look_Inr [simp]: "look d k = Inr v \<longleftrightarrow> map_of d k = Some v"
  by (simp add: look_def split: option.splits)

text \<open>\<open>for k in sorted(d)\<close>.\<close>

definition by_key :: "('k::linorder, 'v) dict \<Rightarrow> ('k, 'v) dict" where
  "by_key d = sort_key fst d"

lemma set_by_key [simp]: "set (by_key d) = set d"
  by (simp add: by_key_def)

lemma mset_by_key [simp]: "mset (by_key d) = mset d"
  by (simp add: by_key_def)

lemma wf_dict_by_key [simp]: "wf_dict (by_key d) = wf_dict d"
  unfolding wf_dict_def by (rule mset_eq_imp_distinct_iff) (metis mset_by_key mset_map)

lemma map_of_by_key [simp]: "wf_dict d \<Longrightarrow> map_of (by_key d) = map_of d"
  by (rule map_of_inject_set [THEN iffD2]) (simp_all add: wf_dict_def [symmetric])

lemma keys_by_key: "map fst (by_key d) = sort (map fst d)"
  by (rule properties_for_sort [symmetric]) (simp_all add: by_key_def)

section \<open>The grades of an answer\<close>

definition FIRST_GRADER :: string where
  "FIRST_GRADER = ''gpu''"

definition GRADES_TO_VOID :: nat where
  "GRADES_TO_VOID = 2"

definition grader_of :: "string option \<Rightarrow> string" where
  "grader_of g = (case g of None \<Rightarrow> FIRST_GRADER | Some s \<Rightarrow> if s = [] then FIRST_GRADER else s)"

type_synonym grades = "(string, bool list) dict"

definition any_coherent :: "grades \<Rightarrow> bool" where
  "any_coherent by_grader \<longleftrightarrow> list_ex (\<lambda>(g, cs). True \<in> set cs) by_grader"

definition answer_incoherent :: "grades \<Rightarrow> bool" where
  "answer_incoherent by_grader \<longleftrightarrow> by_grader \<noteq> [] \<and> \<not> any_coherent by_grader"

definition add_grade :: "(string \<times> string, grades) dict \<Rightarrow> evidence \<Rightarrow> (string \<times> string, grades) dict" where
  "add_grade out rec = (case rec of
     WorkGrade d job m g coherent \<Rightarrow>
       (let per = get_or out (job, m) []; who = grader_of g
        in AList.update (job, m) (AList.update who (get_or per who [] @ [coherent = PBool True]) per) out)
   | _ \<Rightarrow> out)"

definition answer_grades :: "evidence list \<Rightarrow> (string \<times> string, grades) dict" where
  "answer_grades records = foldl add_grade [] records"

section \<open>The markers of a job's state\<close>

definition BAD_MARKERS :: "string list" where
  "BAD_MARKERS = [''clawed'', ''unwound'', ''refunded'', ''expired'']"

definition slashed :: "job \<Rightarrow> bool" where
  "slashed j = (case jb_slashed j of None \<Rightarrow> False | Some v \<Rightarrow> truthy v)"

definition job_is_final_positive :: "job \<Rightarrow> bool" where
  "job_is_final_positive j =
     (let s = jb_state j in
      if \<not> occurs ''+paid'' s \<or> list_ex (\<lambda>m. occurs m s) BAD_MARKERS \<or> slashed j then False
      else if occurs ''+disputed'' s \<and> \<not> occurs ''resolved'' s then False
      else True)"

definition audit_outcome :: "job \<Rightarrow> string option" where
  "audit_outcome j =
     (let s = jb_state j in
      if \<not> occurs ''+disputed'' s \<or> \<not> occurs ''resolved'' s \<or> occurs ''unwound'' s then None
      else if occurs ''clawed'' s \<or> slashed j then Some ''0'' else Some ''1'')"

definition answered_jobs :: "evidence list \<Rightarrow> string set" where
  "answered_jobs records = set (concat (map (\<lambda>rec. case rec of WorkSealed d ans \<Rightarrow> concat (map snd ans) | _ \<Rightarrow> []) records))"

section \<open>The verdicts committed in time\<close>

definition AFTER_RESOLUTION :: string where "AFTER_RESOLUTION = ''committed_after_resolution''"
definition RESOLUTION_NOT_INDEXED :: string where "RESOLUTION_NOT_INDEXED = ''resolution_not_indexed''"
definition COMMIT_NOT_DATED :: string where "COMMIT_NOT_DATED = ''commit_not_dated''"
definition END_BLOCK :: string where "END_BLOCK = ''end_block''"
definition IN_TX :: string where "IN_TX = ''transaction''"
definition NOT_DATED :: string where "NOT_DATED = ''not_dated''"

record commit =
  cm_vote :: string
  cm_creator :: string

type_synonym resolution = "(int \<times> string) option"

record juror_entry =
  je_vote :: string
  je_at :: "int option"
  je_counted :: bool
  je_why :: string

record audit_record =
  au_resolution :: resolution
  au_jurors :: "(string, juror_entry) dict"

definition check_resolution :: "resolution \<Rightarrow> unit result" where
  "check_resolution res = (case res of None \<Rightarrow> Inr ()
     | Some (rh, how) \<Rightarrow> if how \<noteq> END_BLOCK \<and> how \<noteq> IN_TX then Inl ValueError else Inr ())"

text \<open>The reason a verdict committed at a height is not counted, empty when it is.\<close>

definition verdict_why :: "resolution \<Rightarrow> int \<Rightarrow> string" where
  "verdict_why res ch = (case res of None \<Rightarrow> RESOLUTION_NOT_INDEXED
     | Some (rh, how) \<Rightarrow> if ch < rh \<or> (how = END_BLOCK \<and> ch = rh) then [] else AFTER_RESOLUTION)"

definition date_verdict :: "resolution \<Rightarrow> string \<Rightarrow> pyval \<Rightarrow> juror_entry option result" where
  "date_verdict res vote ch = (case ch of
     PNone \<Rightarrow> Inr None
   | PStr s \<Rightarrow> if s = NOT_DATED
       then Inr (Some \<lparr>je_vote = vote, je_at = None, je_counted = False, je_why = COMMIT_NOT_DATED\<rparr>) else Inl ValueError
   | PInt h \<Rightarrow> Inr (Some \<lparr>je_vote = vote, je_at = Some h, je_counted = (verdict_why res h = []), je_why = verdict_why res h\<rparr>)
   | _ \<Rightarrow> Inl ValueError)"

fun juror_entries :: "resolution \<Rightarrow> (string, (string, pyval) dict) dict \<Rightarrow> string \<Rightarrow> (string, commit) dict
    \<Rightarrow> (string, juror_entry) dict result" where
  "juror_entries res committed job [] = Inr []"
| "juror_entries res committed job ((juror, c) # cs) =
     bind_res (bind_res (look committed job) (\<lambda>dates. look dates juror)) (\<lambda>ch.
     bind_res (date_verdict res (cm_vote c) ch) (\<lambda>e.
     bind_res (juror_entries res committed job cs) (\<lambda>rest.
       Inr (case e of None \<Rightarrow> rest | Some x \<Rightarrow> (juror, x) # rest))))"

definition audit_entry :: "(string, resolution) dict \<Rightarrow> (string, (string, pyval) dict) dict \<Rightarrow> string \<times> (string, commit) dict
    \<Rightarrow> (string \<times> audit_record) result" where
  "audit_entry resolutions committed = (\<lambda>(job, cs).
     bind_res (look resolutions job) (\<lambda>res.
     bind_res (check_resolution res) (\<lambda>_.
     bind_res (juror_entries res committed job (by_key cs)) (\<lambda>js.
       Inr (job, \<lparr>au_resolution = res, au_jurors = js\<rparr>)))))"

definition counted_votes :: "(string, audit_record) dict \<Rightarrow> (string, (string, string) dict) dict" where
  "counted_votes proof = filter (\<lambda>(job, vs). vs \<noteq> [])
     (map (\<lambda>(job, a). (job, map (\<lambda>(juror, e). (juror, je_vote e)) (filter (\<lambda>(juror, e). je_counted e) (au_jurors a)))) proof)"

definition timely_verdicts :: "(string, (string, commit) dict) dict \<Rightarrow> (string, resolution) dict
    \<Rightarrow> (string, (string, pyval) dict) dict \<Rightarrow> ((string, (string, string) dict) dict \<times> (string, audit_record) dict) result" where
  "timely_verdicts commits resolutions committed =
     bind_res (map_res (audit_entry resolutions committed) (by_key commits)) (\<lambda>proof. Inr (counted_votes proof, proof))"

section \<open>The work and the verdicts of a day\<close>

definition counted_window :: "int \<Rightarrow> int \<Rightarrow> int \<Rightarrow> int \<Rightarrow> rules option \<Rightarrow> int \<Rightarrow> (int \<times> int) result" where
  "counted_window day start_height finality_height current_height rules last_height =
     (let r = (case rules of None \<Rightarrow> RULES | Some x \<Rightarrow> x) in
      bind_res (day_bounds day start_height r None) (\<lambda>(first, nominal_last).
        if \<not> (first \<le> last_height \<and> last_height \<le> nominal_last) then Inl ValueError
        else if current_height < last_height + finality_height then Inl ValueError
        else Inr (first, last_height)))"

definition in_window :: "int \<times> int \<Rightarrow> (string, int) dict \<Rightarrow> string \<Rightarrow> bool" where
  "in_window w settled jid = (case map_of settled jid of None \<Rightarrow> False | Some h \<Rightarrow> fst w \<le> h \<and> h \<le> snd w)"

definition judged_by :: "job \<Rightarrow> string \<Rightarrow> (string, int) dict \<Rightarrow> string \<times> string \<Rightarrow> (string, int) dict" where
  "judged_by j outcome judged = (\<lambda>(juror, vote). if vote = outcome \<and> juror \<noteq> jb_miner j then bump judged juror 1 else judged)"

definition count_job :: "int \<times> int \<Rightarrow> (string, int) dict \<Rightarrow> (string, (string, string) dict) dict \<Rightarrow> string \<Rightarrow> string set
    \<Rightarrow> (string, int) dict \<times> (string, int) dict \<Rightarrow> job \<Rightarrow> (string, int) dict \<times> (string, int) dict" where
  "count_job w settled votes generator answered = (\<lambda>(work, judged) j.
     if \<not> in_window w settled (jb_id j) \<or> jb_client j \<noteq> generator then (work, judged)
     else
       (let work1 = (if job_is_final_positive j \<and> jb_id j \<in> answered \<and> jb_miner j \<noteq> [] then bump work (jb_miner j) 1 else work)
        in case audit_outcome j of
             None \<Rightarrow> (work1, judged)
           | Some outcome \<Rightarrow> (work1, foldl (judged_by j outcome) judged (get_or votes (jb_id j) []))))"

definition chain_day_facts :: "int \<Rightarrow> int \<Rightarrow> job list \<Rightarrow> (string, int) dict \<Rightarrow> (string, (string, string) dict) dict \<Rightarrow> string
    \<Rightarrow> int \<Rightarrow> int \<Rightarrow> string set \<Rightarrow> rules option \<Rightarrow> int \<Rightarrow> ((string, int) dict \<times> (string, int) dict) result" where
  "chain_day_facts day start_height jobs settled votes generator finality_height current_height answered rules last_height =
     bind_res (counted_window day start_height finality_height current_height rules last_height) (\<lambda>w.
       Inr (foldl (count_job w settled votes generator answered) ([], []) jobs))"

section \<open>The work of an unwound audit\<close>

definition CONVICTED :: string where "CONVICTED = ''convicted''"
definition UNEXPECTED_STATE :: string where "UNEXPECTED_STATE = ''unexpected_state''"
definition NO_PRIMARY :: string where "NO_PRIMARY = ''no_primary''"
definition NOT_ANSWERED :: string where "NOT_ANSWERED = ''not_answered''"
definition ANSWER_UNREADABLE :: string where "ANSWER_UNREADABLE = ''answer_unreadable''"
definition OWN_COHERENT :: string where "OWN_COHERENT = ''own_answer_coherent''"
definition OWN_INCOHERENT :: string where "OWN_INCOHERENT = ''own_answer_incoherent''"
definition DAY_COHERENT :: string where "DAY_COHERENT = ''day_coherent''"
definition DAY_NOT_GRADED_OUT :: string where "DAY_NOT_GRADED_OUT = ''day_not_graded_out''"
definition DAY_GRADED_OUT :: string where "DAY_GRADED_OUT = ''day_graded_out''"
definition NOT_GRADED :: string where "NOT_GRADED = ''not_graded''"
definition GRADING_UNREADABLE :: string where "GRADING_UNREADABLE = ''grading_unreadable''"

definition PAID_GRADINGS :: "string list" where
  "PAID_GRADINGS = [OWN_COHERENT, DAY_COHERENT, DAY_NOT_GRADED_OUT]"

definition NOT_AN_UNWIND :: "string list" where
  "NOT_AN_UNWIND = [''vindicated'', ''adjudicated'', ''quorum'', ''expired'', ''refunded'']"

definition state_tokens :: "job \<Rightarrow> string list" where
  "state_tokens j = py_split ''+'' (jb_state j)"

definition job_unwound :: "job \<Rightarrow> string option result" where
  "job_unwound j =
     (let tokens = state_tokens j in
      if ''unwound'' \<notin> set tokens then Inr None
      else (case jb_slashed j of
          None \<Rightarrow> Inl KeyError
        | Some v \<Rightarrow>
            if v = PBool True \<or> ''clawed'' \<in> set tokens then Inr (Some CONVICTED)
            else if v \<noteq> PBool False then Inl ValueError
            else if \<not> (''paid'' \<in> set tokens \<and> ''resolved'' \<in> set tokens) \<or> list_ex (\<lambda>t. t \<in> set tokens) NOT_AN_UNWIND
            then Inr (Some UNEXPECTED_STATE)
            else if jb_miner j = [] then Inr (Some NO_PRIMARY)
            else Inr (Some [])))"

text \<open>\<open>{job_id: {"miner_id", "state"}}\<close>\<close>

type_synonym unwound_jobs = "(string, string \<times> string) dict"

fun unwound_from :: "int \<times> int \<Rightarrow> (string, int) dict \<Rightarrow> string \<Rightarrow> unwound_jobs \<Rightarrow> job list \<Rightarrow> unwound_jobs result" where
  "unwound_from w settled generator out [] = Inr out"
| "unwound_from w settled generator out (j # js) =
     (if \<not> in_window w settled (jb_id j) \<or> jb_client j \<noteq> generator then unwound_from w settled generator out js
      else bind_res (job_unwound j) (\<lambda>why. unwound_from w settled generator
             (case why of None \<Rightarrow> out | Some x \<Rightarrow> AList.update (jb_id j) (jb_miner j, x) out) js))"

definition unwound_programme_jobs :: "int \<Rightarrow> int \<Rightarrow> job list \<Rightarrow> (string, int) dict \<Rightarrow> string \<Rightarrow> int \<Rightarrow> int \<Rightarrow> rules option \<Rightarrow> int
    \<Rightarrow> unwound_jobs result" where
  "unwound_programme_jobs day start_height jobs settled generator finality_height current_height rules last_height =
     bind_res (counted_window day start_height finality_height current_height rules last_height) (\<lambda>w.
       unwound_from w settled generator [] jobs)"

text \<open>The answers of a day that were sampled, and their grades: one combined grade per graded answer.\<close>

definition sampled_on :: "int \<Rightarrow> evidence list \<Rightarrow> (string, string list) dict" where
  "sampled_on day records = foldl (\<lambda>out rec. case rec of
       WorkAnswer d job m \<Rightarrow> if d = day then AList.update m (List.insert job (get_or out m [])) out else out
     | _ \<Rightarrow> out) [] records"

definition work_grades :: "int \<Rightarrow> evidence list \<Rightarrow> (string, string list) dict \<times> (string, bool list) dict" where
  "work_grades day records =
     (sampled_on day records,
      foldl (\<lambda>out ((job, m), by_grader). AList.update m (get_or out m [] @ [\<not> answer_incoherent by_grader]) out) []
        (answer_grades (filter (\<lambda>rec. ev_day rec = day) records)))"

definition sealed_on :: "evidence list \<Rightarrow> (string, int) dict" where
  "sealed_on records = foldl (\<lambda>out rec. case rec of
       WorkSealed d ans \<Rightarrow> foldl (\<lambda>o1 jid. if map_of o1 jid = None then AList.update jid d o1 else o1) out (concat (map snd ans))
     | _ \<Rightarrow> out) [] records"

definition is_unreadable :: "evidence \<Rightarrow> bool" where
  "is_unreadable rec = (case rec of UnreadableLines d \<Rightarrow> True | _ \<Rightarrow> False)"

definition torn_days :: "evidence list \<Rightarrow> int list" where
  "torn_days records = map ev_day (filter is_unreadable records)"

definition graded_out :: "bool list \<Rightarrow> nat \<Rightarrow> bool" where
  "graded_out gs gradable \<longleftrightarrow> length gs \<ge> max 1 (min GRADES_TO_VOID gradable) \<and> \<not> list_ex id gs"

record grading_reads =
  gr_own :: "(string \<times> string, grades) dict"
  gr_sealed :: "(string, int) dict"
  gr_torn :: "int list"
  gr_sampled :: "(string, string list) dict"
  gr_grades :: "(string, bool list) dict"

definition read_grading :: "int \<Rightarrow> evidence list \<Rightarrow> grading_reads" where
  "read_grading day records = (let (sampled, gs) = work_grades day records in
     \<lparr>gr_own = answer_grades records, gr_sealed = sealed_on records, gr_torn = torn_days records, gr_sampled = sampled, gr_grades = gs\<rparr>)"

definition grading :: "string \<Rightarrow> string \<Rightarrow> int \<Rightarrow> grading_reads \<Rightarrow> string" where
  "grading jid mid day reads =
     (let own = get_or (gr_own reads) (jid, mid) []; gs = get_or (gr_grades reads) mid [] in
      if own \<noteq> [] then (if answer_incoherent own then OWN_INCOHERENT else OWN_COHERENT)
      else if (case map_of (gr_sealed reads) jid of Some d \<Rightarrow> d \<in> set (gr_torn reads) | None \<Rightarrow> gr_torn reads \<noteq> []) then GRADING_UNREADABLE
      else if list_ex id gs then DAY_COHERENT
      else if day \<in> set (gr_torn reads) then GRADING_UNREADABLE
      else if gs = [] then NOT_GRADED
      else if graded_out gs (length (get_or (gr_sampled reads) mid [])) then DAY_GRADED_OUT
      else DAY_NOT_GRADED_OUT)"

definition unwound_grading :: "string \<Rightarrow> string \<Rightarrow> int \<Rightarrow> evidence list \<Rightarrow> string" where
  "unwound_grading jid mid day records = grading jid mid day (read_grading day records)"

record unwound_entry =
  uw_miner :: string
  uw_answered :: "bool option"
  uw_graded :: string
  uw_paid :: bool
  uw_why :: string

definition unwound_entry_of :: "int \<Rightarrow> bool \<Rightarrow> grading_reads \<Rightarrow> string set \<Rightarrow> string \<times> string \<times> string \<Rightarrow> unwound_entry" where
  "unwound_entry_of day torn_any reads answered = (\<lambda>(jid, mid, state).
     let graded = grading jid mid day reads;
         ans = (if jid \<in> answered then Some True else if torn_any then None else Some False);
         why = (if state \<noteq> [] then state
                else if ans = None then ANSWER_UNREADABLE
                else if ans = Some False then NOT_ANSWERED
                else if graded \<notin> set PAID_GRADINGS then graded
                else [])
     in \<lparr>uw_miner = mid, uw_answered = ans, uw_graded = graded, uw_paid = (why = []), uw_why = why\<rparr>)"

definition unwound_work :: "int \<Rightarrow> evidence list \<Rightarrow> unwound_jobs \<Rightarrow> string set \<Rightarrow> (string, int) dict \<times> (string, unwound_entry) dict" where
  "unwound_work day records unwound answered =
     (let entries = map (\<lambda>x. (fst x, unwound_entry_of day (list_ex is_unreadable records) (read_grading day records) answered x)) (by_key unwound)
      in (tally (map (\<lambda>(jid, e). (uw_miner e, 1)) (filter (\<lambda>(jid, e). uw_paid e) entries)), entries))"

section \<open>The identities of a day\<close>

record day_facts =
  df_work :: "(string, int) dict"
  df_verdicts :: "(string, int) dict"
  df_presence :: "(string, int) dict"
  df_judge :: "(string, int) dict option"

definition declared_payouts :: "evidence list \<Rightarrow> (string, string) dict" where
  "declared_payouts records = foldl (\<lambda>out rec. case rec of Payout d m a \<Rightarrow> AList.update m a out | _ \<Rightarrow> out) [] records"

definition identity_of :: "day_facts \<Rightarrow> (string, string) dict \<Rightarrow> (string, string) dict \<Rightarrow> (string, string list) dict
    \<Rightarrow> (string, bool list) dict \<Rightarrow> string \<Rightarrow> identity" where
  "identity_of chain payout default_address sampled gs mid =
     (let declared = get_or payout mid [] in
      \<lparr>miner_id = mid, presence = get_or (df_presence chain) mid 0,
       verified_requests = (if graded_out (get_or gs mid []) (length (get_or sampled mid [])) then 0 else get_or (df_work chain) mid 0),
       verdicts = get_or (df_verdicts chain) mid 0,
       payout_address = (if declared \<noteq> [] then declared else get_or default_address mid []),
       judge_active = get_or (case df_judge chain of None \<Rightarrow> [] | Some d \<Rightarrow> d) mid 0,
       probation = PBool False, kit_version = PNone, registration_not_dated = PBool False\<rparr>)"

definition ranked_ids :: "day_facts \<Rightarrow> string list" where
  "ranked_ids chain = sort (remdups (map fst (df_work chain) @ map fst (df_verdicts chain) @ map fst (df_presence chain)
     @ map fst (case df_judge chain of None \<Rightarrow> [] | Some d \<Rightarrow> d)))"

definition day_identities :: "int \<Rightarrow> evidence list \<Rightarrow> day_facts \<Rightarrow> (string, string) dict \<Rightarrow> identity list" where
  "day_identities day records chain default_address =
     (let (sampled, gs) = work_grades day records
      in map (identity_of chain (declared_payouts records) default_address sampled gs) (ranked_ids chain))"

section \<open>The capacity reports and the registrations\<close>

record capacity_report =
  kr_kit :: "int option"
  kr_role :: "string option"
  kr_height :: int

definition nat_of :: "pyval \<Rightarrow> int option" where
  "nat_of v = (case v of PInt i \<Rightarrow> if i \<ge> 0 then Some i else None | _ \<Rightarrow> None)"

definition newer_report :: "string \<Rightarrow> int \<Rightarrow> capacity_report option \<Rightarrow> evidence \<Rightarrow> capacity_report option" where
  "newer_report mid last_height best rec = (case rec of
     Capacity d m kit jrole height \<Rightarrow>
       (if m \<noteq> mid then best
        else (case nat_of height of
            None \<Rightarrow> best
          | Some h \<Rightarrow>
              if h > last_height then best
              else if (case best of None \<Rightarrow> True | Some b \<Rightarrow> h \<ge> kr_height b)
              then Some \<lparr>kr_kit = nat_of kit, kr_role = text_of jrole, kr_height = h\<rparr> else best))
   | _ \<Rightarrow> best)"

definition kit_report :: "evidence list \<Rightarrow> string \<Rightarrow> int \<Rightarrow> capacity_report option" where
  "kit_report records mid last_height = foldl (newer_report mid last_height) None records"

definition first_full_day :: "pyval \<Rightarrow> int \<Rightarrow> rules \<Rightarrow> int option result" where
  "first_full_day registered_at start_height r = (case registered_at of
     PNone \<Rightarrow> Inr (Some 0)
   | PInt h \<Rightarrow> if h < 0 then Inl ValueError else Inr (Some (max 0 (day_of_height h start_height r + 1)))
   | PStr s \<Rightarrow> if s = NOT_DATED then Inr None else Inl ValueError
   | _ \<Rightarrow> Inl ValueError)"

section \<open>Reading loops\<close>

text \<open>A loop that turns each entry of a dictionary into one of the same key.\<close>

lemma map_res_keys:
  assumes "map_res f xs = Inr ys" "\<And>x y. f x = Inr y \<Longrightarrow> fst y = fst x"
  shows "map fst ys = map fst xs" "map_of ys k = Some v \<longleftrightarrow> (\<exists>u. map_of xs k = Some u \<and> f (k, u) = Inr (k, v))"
  using assms(1)
proof (induction xs arbitrary: ys)
  case (Cons x xs)
  {
    case 1
    then obtain y ys' where "f x = Inr y" "map_res f xs = Inr ys'" "ys = y # ys'" by (auto simp: bind_res_eq_Inr)
    then show ?case using Cons.IH(1) assms(2) by simp
  next
    case 2
    then obtain y ys' where y: "f x = Inr y" "map_res f xs = Inr ys'" "ys = y # ys'" by (auto simp: bind_res_eq_Inr)
    then show ?case using Cons.IH(2) [OF y(2)] assms(2) [OF y(1)] by (cases x; cases y) auto
  }
qed auto

lemma map_res_each: "map_res f xs = Inr ys \<Longrightarrow> x \<in> set xs \<Longrightarrow> \<exists>y \<in> set ys. f x = Inr y"
  by (induction xs arbitrary: ys) (auto simp: bind_res_eq_Inr)

lemma map_of_kept:
  "wf_dict d \<Longrightarrow> map_of (map (\<lambda>(k, e). (k, g e)) (filter (\<lambda>(k, e). Q e) d)) k = Some v \<longleftrightarrow> (\<exists>e. map_of d k = Some e \<and> Q e \<and> g e = v)"
proof (induction d)
  case (Cons p d)
  then show ?case by (cases p) (auto dest: wf_dict_ConsD simp: wf_dict_def dest!: map_of_SomeD intro: rev_image_eqI)
qed simp

section \<open>Verdicts in time\<close>

lemma juror_entries_keys:
  "juror_entries res committed job cs = Inr js \<Longrightarrow> set (map fst js) \<subseteq> set (map fst cs)"
proof (induction res committed job cs arbitrary: js rule: juror_entries.induct)
  case (2 res committed job juror c cs)
  from 2(2) obtain e rest where "juror_entries res committed job cs = Inr rest"
    and "js = (case e of None \<Rightarrow> rest | Some x \<Rightarrow> (juror, x) # rest)" by (auto simp: bind_res_eq_Inr)
  then show ?case using 2(1) by (auto split: option.splits)
qed simp

lemma juror_entries_wf: "juror_entries res committed job cs = Inr js \<Longrightarrow> wf_dict cs \<Longrightarrow> wf_dict js"
proof (induction res committed job cs arbitrary: js rule: juror_entries.induct)
  case (2 res committed job juror c cs)
  from 2(2) obtain ch e rest where r: "juror_entries res committed job cs = Inr rest"
    and js: "js = (case e of None \<Rightarrow> rest | Some x \<Rightarrow> (juror, x) # rest)" by (auto simp: bind_res_eq_Inr)
  have "wf_dict rest" using 2 r by (auto simp: wf_dict_def)
  then show ?case using js juror_entries_keys [OF r] 2(3) by (auto simp: wf_dict_def split: option.splits)
qed simp

lemma juror_entries_map_of:
  "juror_entries res committed job cs = Inr js \<Longrightarrow> wf_dict cs \<Longrightarrow>
    map_of js juror = Some e \<longleftrightarrow> (\<exists>c dates ch. map_of cs juror = Some c \<and> map_of committed job = Some dates
      \<and> map_of dates juror = Some ch \<and> date_verdict res (cm_vote c) ch = Inr (Some e))"
proof (induction res committed job cs arbitrary: js rule: juror_entries.induct)
  case (2 res committed job j c cs)
  from 2(2) obtain dates ch x rest where d: "map_of committed job = Some dates" "map_of dates j = Some ch"
    "date_verdict res (cm_vote c) ch = Inr x" and r: "juror_entries res committed job cs = Inr rest"
    and js: "js = (case x of None \<Rightarrow> rest | Some x \<Rightarrow> (j, x) # rest)" by (auto simp: bind_res_eq_Inr)
  have wf: "wf_dict cs" "j \<notin> set (map fst cs)" using 2(3) by (auto simp: wf_dict_def)
  note IH = "2.IH" [OF r wf(1)]
  have "map_of rest j = None" using juror_entries_keys [OF r] wf(2) by (auto simp: map_of_eq_None_iff)
  moreover have "map_of cs j = None" using wf(2) by (simp add: map_of_eq_None_iff)
  ultimately show ?case using IH d js by (cases "juror = j") (auto split: option.splits)
qed simp


lemma audit_entry_key: "audit_entry resolutions committed x = Inr y \<Longrightarrow> fst y = fst x"
  by (cases x) (auto simp: audit_entry_def bind_res_eq_Inr)

lemma audit_entry_wf: "audit_entry resolutions committed x = Inr y \<Longrightarrow> wf_dict (snd x) \<Longrightarrow> wf_dict (au_jurors (snd y))"
  by (cases x) (auto simp: audit_entry_def bind_res_eq_Inr intro: juror_entries_wf)

lemma audit_entry_jurors:
  assumes "audit_entry resolutions committed (job, u) = Inr (job, a)" "wf_dict u"
  obtains res where "map_of resolutions job = Some res" "check_resolution res = Inr ()"
    "\<And>juror e. map_of (au_jurors a) juror = Some e \<longleftrightarrow> (\<exists>c dates ch. map_of u juror = Some c \<and> map_of committed job = Some dates
      \<and> map_of dates juror = Some ch \<and> date_verdict res (cm_vote c) ch = Inr (Some e))"
proof -
  from assms(1) obtain res js where r: "map_of resolutions job = Some res" "check_resolution res = Inr ()"
    and js: "juror_entries res committed job (by_key u) = Inr js" and a: "au_jurors a = js"
    by (auto simp: audit_entry_def bind_res_eq_Inr)
  from that [OF r] juror_entries_map_of [OF js] assms(2) a show thesis by simp
qed

lemma counted_votes_keys: "fst ` set (counted_votes proof) \<subseteq> fst ` set proof"
  by (force simp: counted_votes_def)

lemma counted_votes_of:
  assumes "wf_dict proof"
  shows "get_or (counted_votes proof) job [] = (case map_of proof job of None \<Rightarrow> []
    | Some a \<Rightarrow> map (\<lambda>(juror, e). (juror, je_vote e)) (filter (\<lambda>(juror, e). je_counted e) (au_jurors a)))"
  using assms
proof (induction "proof")
  case (Cons p d)
  have "map_of (counted_votes d) (fst p) = None"
    using Cons.prems counted_votes_keys [of d] by (auto simp: wf_dict_def map_of_eq_None_iff)
  then show ?case using Cons.IH [OF wf_dict_ConsD [OF Cons.prems]]
    by (cases p) (auto simp: counted_votes_def get_or_def)
qed (simp add: counted_votes_def)

text \<open>The entry of a juror in the record of the day's verdicts.\<close>

definition entry_of :: "(string, audit_record) dict \<Rightarrow> string \<Rightarrow> string \<Rightarrow> juror_entry option" where
  "entry_of proof job juror = Option.bind (map_of proof job) (\<lambda>a. map_of (au_jurors a) juror)"

lemma timely_verdicts_entries:
  assumes "wf_dict commits" "\<forall>(job, cs) \<in> set commits. wf_dict cs" "timely_verdicts commits resolutions committed = Inr (counted, proof)"
  shows "map fst proof = sort (map fst commits)"
    and "entry_of proof job juror = Some e \<longleftrightarrow> (\<exists>cs c dates ch res. map_of commits job = Some cs \<and> map_of cs juror = Some c
      \<and> map_of committed job = Some dates \<and> map_of dates juror = Some ch \<and> map_of resolutions job = Some res
      \<and> check_resolution res = Inr () \<and> date_verdict res (cm_vote c) ch = Inr (Some e))"
    and "map_of (get_or counted job []) juror = Some vote \<longleftrightarrow> (\<exists>e. entry_of proof job juror = Some e \<and> je_counted e \<and> je_vote e = vote)"
proof -
  have m: "map_res (audit_entry resolutions committed) (by_key commits) = Inr proof" and c: "counted = counted_votes proof"
    using assms(3) by (auto simp: timely_verdicts_def bind_res_eq_Inr)
  note keys = map_res_keys [OF m audit_entry_key]
  show k: "map fst proof = sort (map fst commits)"
    using keys(1) by (simp add: keys_by_key)
  have cs: "map_of (by_key commits) job = map_of commits job" using assms(1) by simp
  have wfc: "wf_dict cs" if "map_of commits job = Some cs" for cs job
    using that assms(2) by (auto dest: map_of_SomeD)
  have wfp: "wf_dict proof" using k assms(1) by (simp add: wf_dict_def)
  have wfa: "wf_dict (au_jurors a)" if "map_of proof job = Some a" for job a
    using that keys(2) [where k = job and v = a] assms(1) wfc by (auto dest!: audit_entry_wf)
  show e: "entry_of proof job juror = Some e \<longleftrightarrow> (\<exists>cs c dates ch res. map_of commits job = Some cs \<and> map_of cs juror = Some c
      \<and> map_of committed job = Some dates \<and> map_of dates juror = Some ch \<and> map_of resolutions job = Some res
      \<and> check_resolution res = Inr () \<and> date_verdict res (cm_vote c) ch = Inr (Some e))" for e
  proof (cases "map_of commits job")
    case None
    then show ?thesis using keys(2) [where k = job] by (auto simp: entry_of_def bind_eq_Some_conv cs)
  next
    case (Some u)
    then have "job \<in> set (map fst proof)" using k by (force dest: map_of_SomeD)
    then have "map_of proof job \<noteq> None" by (simp add: map_of_eq_None_iff)
    then obtain a where a: "map_of proof job = Some a" by blast
    then have "audit_entry resolutions committed (job, u) = Inr (job, a)" using keys(2) [where k = job and v = a] cs Some by simp
    then obtain res where "map_of resolutions job = Some res" "check_resolution res = Inr ()"
      "\<And>juror e. map_of (au_jurors a) juror = Some e \<longleftrightarrow> (\<exists>c dates ch. map_of u juror = Some c \<and> map_of committed job = Some dates
        \<and> map_of dates juror = Some ch \<and> date_verdict res (cm_vote c) ch = Inr (Some e))"
      using wfc [OF Some] by (rule audit_entry_jurors) blast
    then show ?thesis using a Some by (simp add: entry_of_def)
  qed
  show "map_of (get_or counted job []) juror = Some vote \<longleftrightarrow> (\<exists>e. entry_of proof job juror = Some e \<and> je_counted e \<and> je_vote e = vote)"
  proof (cases "map_of proof job")
    case (Some a)
    then show ?thesis using map_of_kept [OF wfa [OF Some], of je_vote je_counted juror vote]
      by (simp add: c counted_votes_of [OF wfp] entry_of_def)
  qed (simp add: c counted_votes_of [OF wfp] entry_of_def)
qed

lemma juror_entries_dates:
  "juror_entries res committed job cs = Inr js \<Longrightarrow> (juror, c) \<in> set cs \<Longrightarrow>
    \<exists>dates ch x. map_of committed job = Some dates \<and> map_of dates juror = Some ch \<and> date_verdict res (cm_vote c) ch = Inr x"
  by (induction res committed job cs arbitrary: js rule: juror_entries.induct) (fastforce simp: bind_res_eq_Inr)+

text \<open>Nothing is defaulted: once the record of the day is built, every date it needed had been read and was well formed.\<close>

lemma timely_verdicts_dates:
  assumes "wf_dict commits" "timely_verdicts commits resolutions committed = Inr r" "map_of commits job = Some cs" "map_of cs juror = Some c"
  obtains dates ch res x where "map_of committed job = Some dates" "map_of dates juror = Some ch" "map_of resolutions job = Some res"
    "check_resolution res = Inr ()" "date_verdict res (cm_vote c) ch = Inr x"
proof -
  obtain ps where m: "map_res (audit_entry resolutions committed) (by_key commits) = Inr ps"
    using assms(2) by (auto simp: timely_verdicts_def bind_res_eq_Inr)
  have "(job, cs) \<in> set (by_key commits)" using assms(3) by (simp add: map_of_SomeD)
  then obtain y where "audit_entry resolutions committed (job, cs) = Inr y"
    using map_res_each [OF m] by blast
  then obtain res js where r: "map_of resolutions job = Some res" "check_resolution res = Inr ()" "juror_entries res committed job (by_key cs) = Inr js"
    by (auto simp: audit_entry_def bind_res_eq_Inr)
  have "(juror, c) \<in> set (by_key cs)" using assms(4) by (simp add: map_of_SomeD)
  from juror_entries_dates [OF r(3) this] r that show thesis by blast
qed

lemma date_verdict_some: "date_verdict res v ch = Inr x \<Longrightarrow> x = None \<longleftrightarrow> ch = PNone"
  by (auto simp: date_verdict_def split: pyval.splits if_splits)

lemma date_verdict_counted:
  assumes "date_verdict res v ch = Inr (Some e)"
  shows "je_counted e \<longleftrightarrow> (\<exists>h rh how. ch = PInt h \<and> res = Some (rh, how) \<and> (h < rh \<or> (how = END_BLOCK \<and> h = rh)))"
    and "je_vote e = v" "je_counted e = (je_why e = [])"
  using assms by (auto simp: date_verdict_def verdict_why_def COMMIT_NOT_DATED_def RESOLUTION_NOT_INDEXED_def AFTER_RESOLUTION_def
      split: pyval.splits if_splits option.splits)

text \<open>
  C23: a vote is counted only if the chain's own tally could have read it. A juror's vote counts for an audit exactly
  when its commit was dated, the audit's resolution is known, and the commit precedes it: in an earlier block, or in the
  same block when the tally ran at the block's end. Everything else that was dated, or could not be, is listed with its reason,
  and nothing else is: the record of the day holds an entry exactly for the commits found in the window.
\<close>

theorem late_votes_never_count:
  assumes "wf_dict commits" "\<forall>(job, cs) \<in> set commits. wf_dict cs" "timely_verdicts commits resolutions committed = Inr (counted, proof)"
  shows "(map_of (get_or counted job []) juror = Some vote \<longleftrightarrow>
      (\<exists>cs c dates h rh how. map_of commits job = Some cs \<and> map_of cs juror = Some c \<and> vote = cm_vote c
        \<and> map_of committed job = Some dates \<and> map_of dates juror = Some (PInt h)
        \<and> map_of resolutions job = Some (Some (rh, how)) \<and> (h < rh \<or> (how = END_BLOCK \<and> h = rh))))
    \<and> (entry_of proof job juror \<noteq> None \<longleftrightarrow> (\<exists>cs c dates ch. map_of commits job = Some cs \<and> map_of cs juror = Some c
        \<and> map_of committed job = Some dates \<and> map_of dates juror = Some ch \<and> ch \<noteq> PNone))
    \<and> (\<forall>e. entry_of proof job juror = Some e \<longrightarrow> je_counted e = (je_why e = []))
    \<and> map fst proof = sort (map fst commits)"
proof (intro conjI)
  note entries = timely_verdicts_entries [OF assms]
  show "map_of (get_or counted job []) juror = Some vote \<longleftrightarrow>
      (\<exists>cs c dates h rh how. map_of commits job = Some cs \<and> map_of cs juror = Some c \<and> vote = cm_vote c
        \<and> map_of committed job = Some dates \<and> map_of dates juror = Some (PInt h)
        \<and> map_of resolutions job = Some (Some (rh, how)) \<and> (h < rh \<or> (how = END_BLOCK \<and> h = rh)))" (is "?l = ?r")
  proof
    assume ?l
    then show ?r using date_verdict_counted by (auto simp: entries)
  next
    assume ?r
    then obtain cs c dates h rh how where c: "map_of commits job = Some cs" "map_of cs juror = Some c" "vote = cm_vote c"
      "map_of committed job = Some dates" "map_of dates juror = Some (PInt h)" "map_of resolutions job = Some (Some (rh, how))"
      "h < rh \<or> (how = END_BLOCK \<and> h = rh)" by blast
    obtain res where "map_of resolutions job = Some res" "check_resolution res = Inr ()"
      using timely_verdicts_dates [OF assms(1,3) c(1,2)] .
    then have ok: "check_resolution (Some (rh, how)) = Inr ()" using c(6) by simp
    obtain e where e: "date_verdict (Some (rh, how)) (cm_vote c) (PInt h) = Inr (Some e)" by (simp add: date_verdict_def)
    then have "entry_of proof job juror = Some e" using entries(2) c ok by blast
    moreover have "je_counted e" "je_vote e = vote" using date_verdict_counted [OF e] c by auto
    ultimately show ?l using entries(3) by blast
  qed
  show "entry_of proof job juror \<noteq> None \<longleftrightarrow> (\<exists>cs c dates ch. map_of commits job = Some cs \<and> map_of cs juror = Some c
        \<and> map_of committed job = Some dates \<and> map_of dates juror = Some ch \<and> ch \<noteq> PNone)" (is "?l = ?r")
  proof
    assume ?l
    then obtain e where "entry_of proof job juror = Some e" by blast
    then show ?r by (auto simp: entries) (auto simp: date_verdict_def)
  next
    assume ?r
    then obtain cs c dates ch where c: "map_of commits job = Some cs" "map_of cs juror = Some c"
      "map_of committed job = Some dates" "map_of dates juror = Some ch" "ch \<noteq> PNone" by blast
    obtain dates' ch' res x where d: "map_of committed job = Some dates'" "map_of dates' juror = Some ch'"
      and "map_of resolutions job = Some res" "check_resolution res = Inr ()" "date_verdict res (cm_vote c) ch' = Inr x"
      using timely_verdicts_dates [OF assms(1,3) c(1,2)] .
    then have x: "map_of resolutions job = Some res" "check_resolution res = Inr ()" "date_verdict res (cm_vote c) ch = Inr x"
      using c(3,4) by simp_all
    then obtain e where "x = Some e" using date_verdict_some c(5) by (cases x) auto
    then have "entry_of proof job juror = Some e" using entries(2) c x by blast
    then show ?l by simp
  qed
  show "\<forall>e. entry_of proof job juror = Some e \<longrightarrow> je_counted e = (je_why e = [])"
    using date_verdict_counted(3) by (auto simp: entries)
  show "map fst proof = sort (map fst commits)" by (rule entries)
qed

section \<open>The work of a day\<close>

lemma occurs_append: "occurs p (a @ p @ b)"
proof (induction a)
  case Nil
  then show ?case by (cases p; cases "p @ b") (auto simp: starts_def)
qed simp

lemma split_acc_occurs: "t \<in> set (split_acc sep acc s) \<Longrightarrow> occurs t (pre @ rev acc @ s)"
proof (induction sep acc s arbitrary: pre rule: split_acc.induct)
  case (1 sep acc s)
  consider "s = []" | "s \<noteq> []" "sep \<noteq> []" "starts s sep" | "s \<noteq> []" "\<not> (sep \<noteq> [] \<and> starts s sep)" by blast
  then show ?case
  proof cases
    case 1
    then have "t = rev acc" using "1.prems" by (simp add: split_acc.simps)
    then show ?thesis using 1 occurs_append [of t pre "[]"] by simp
  next
    case 2
    then consider "t = rev acc" | "t \<in> set (split_acc sep [] (drop (length sep) s))"
      using "1.prems" by (subst (asm) split_acc.simps) auto
    then show ?thesis
    proof cases
      case b: 2
      have "s = sep @ drop (length sep) s" using 2 by (metis append_take_drop_id starts_def)
      then have "pre @ rev acc @ s = (pre @ rev acc @ sep) @ rev [] @ drop (length sep) s" by simp
      with "1.IH"(1) [OF 2(1) _ b, of "pre @ rev acc @ sep"] 2 show ?thesis by simp
    qed (simp add: occurs_append)
  next
    case 3
    then have "t \<in> set (split_acc sep (hd s # acc) (tl s))" using "1.prems" by (subst (asm) split_acc.simps) auto
    from "1.IH"(2) [OF 3(1) _ this, of pre] 3 show ?thesis by simp
  qed
qed

lemma token_occurs: "t \<in> set (state_tokens j) \<Longrightarrow> occurs t (jb_state j)"
  using split_acc_occurs [of t "''+''" "[]" "jb_state j" "[]"] by (simp add: state_tokens_def py_split_def)

text \<open>A job that counts as work is not an unwound one: no job is paid on both grounds.\<close>

lemma final_not_unwound: "job_is_final_positive j \<Longrightarrow> job_unwound j = Inr None"
  using token_occurs [of "''unwound''" j] by (auto simp: job_is_final_positive_def job_unwound_def BAD_MARKERS_def Let_def split: if_splits)

definition programme_job :: "int \<times> int \<Rightarrow> (string, int) dict \<Rightarrow> string \<Rightarrow> job \<Rightarrow> bool" where
  "programme_job w settled generator j \<longleftrightarrow> in_window w settled (jb_id j) \<and> jb_client j = generator"

lemma fst_judged [simp]: "fst (count_job w settled votes generator answered (work, judged) j) =
    (if programme_job w settled generator j \<and> job_is_final_positive j \<and> jb_id j \<in> answered \<and> jb_miner j \<noteq> []
     then bump work (jb_miner j) 1 else work)"
  by (simp add: count_job_def programme_job_def Let_def split: option.splits)

lemma counted_work:
  "get_or (fst (foldl (count_job w settled votes generator answered) acc jobs)) m 0 = get_or (fst acc) m 0
     + int (length (filter (\<lambda>j. programme_job w settled generator j \<and> job_is_final_positive j \<and> jb_id j \<in> answered
                               \<and> jb_miner j \<noteq> [] \<and> jb_miner j = m) jobs))"
proof (induction jobs arbitrary: acc)
  case (Cons j jobs)
  show ?case by (cases acc) (auto simp: Cons.IH get_or_bump)
qed simp

lemma unwound_from_items:
  "unwound_from w settled generator out js = Inr un \<Longrightarrow> distinct (map jb_id js) \<Longrightarrow> set (map jb_id js) \<inter> fst ` set out = {} \<Longrightarrow>
    un = out @ concat (map (\<lambda>j. case job_unwound j of Inr (Some x) \<Rightarrow> [(jb_id j, jb_miner j, x)] | _ \<Rightarrow> [])
                        (filter (programme_job w settled generator) js))"
proof (induction w settled generator out js rule: unwound_from.induct)
  case (2 w settled generator out j js)
  show ?case
  proof (cases "programme_job w settled generator j")
    case True
    then obtain why where why: "job_unwound j = Inr why" and
      r: "unwound_from w settled generator (case why of None \<Rightarrow> out | Some x \<Rightarrow> AList.update (jb_id j) (jb_miner j, x) out) js = Inr un"
      using 2(3) by (auto simp: programme_job_def bind_res_eq_Inr)
    have new: "AList.update (jb_id j) (jb_miner j, x) out = out @ [(jb_id j, jb_miner j, x)]" for x
      using 2(5) by (intro update_new) auto
    show ?thesis using "2.IH"(2) [OF _ r] True 2(4,5) why new by (cases why) (auto simp: programme_job_def)
  next
    case False
    then show ?thesis using 2 by (auto simp: programme_job_def)
  qed
qed simp

text \<open>What decision 18 pays: an answered job the chain says unwound without a verdict against it, and a grading that pays.\<close>

definition pays_unwound :: "int \<Rightarrow> evidence list \<Rightarrow> string set \<Rightarrow> job \<Rightarrow> bool" where
  "pays_unwound day records answered j \<longleftrightarrow> job_unwound j = Inr (Some []) \<and> jb_id j \<in> answered
     \<and> unwound_grading (jb_id j) (jb_miner j) day records \<in> set PAID_GRADINGS"

lemma gradings_nonempty: "grading jid mid day reads \<noteq> []"
  by (simp add: grading_def Let_def OWN_INCOHERENT_def OWN_COHERENT_def GRADING_UNREADABLE_def DAY_COHERENT_def NOT_GRADED_def
      DAY_GRADED_OUT_def DAY_NOT_GRADED_OUT_def split: option.split)

lemma unwound_entry_paid:
  "uw_paid (unwound_entry_of day torn (read_grading day records) answered (jid, mid, x))
     \<longleftrightarrow> x = [] \<and> jid \<in> answered \<and> unwound_grading jid mid day records \<in> set PAID_GRADINGS"
  using gradings_nonempty [of jid mid day "read_grading day records"]
  by (auto simp: unwound_entry_of_def unwound_grading_def Let_def ANSWER_UNREADABLE_def NOT_ANSWERED_def)

lemma length_filter_by_key: "length (filter P (by_key d)) = length (filter P d)"
  by (metis mset_by_key mset_filter size_mset)

lemma unwound_paid:
  assumes "unwound_from w settled generator [] jobs = Inr un" "distinct (map jb_id jobs)"
  shows "get_or (fst (unwound_work day records un answered)) m 0
    = int (length (filter (\<lambda>j. programme_job w settled generator j \<and> pays_unwound day records answered j \<and> jb_miner j = m) jobs))"
proof -
  let ?f = "\<lambda>j. case job_unwound j of Inr (Some x) \<Rightarrow> [(jb_id j, jb_miner j, x)] | _ \<Rightarrow> []"
  let ?e = "unwound_entry_of day (list_ex is_unreadable records) (read_grading day records) answered"
  let ?P = "\<lambda>x. uw_paid (?e x) \<and> uw_miner (?e x) = m"
  have un: "un = concat (map ?f (filter (programme_job w settled generator) jobs))"
    using unwound_from_items [OF assms] by simp
  have "get_or (fst (unwound_work day records un answered)) m 0 = int (length (filter ?P (by_key un)))"
    by (simp add: unwound_work_def Let_def get_or_tally filter_map o_def case_prod_beta sum_list_triv conj_commute)
  also have "length (filter ?P (by_key un)) = length (filter ?P un)" by (rule length_filter_by_key)
  also have "\<dots> = length (filter (\<lambda>j. programme_job w settled generator j \<and> pays_unwound day records answered j \<and> jb_miner j = m) jobs)"
    unfolding un
  proof (induction jobs)
    case (Cons j jobs)
    show ?case using Cons
      by (auto simp: pays_unwound_def unwound_entry_paid split: sum.splits option.splits) (auto simp: unwound_entry_of_def Let_def)
  qed simp
  finally show ?thesis .
qed

lemma counted_window_Inr:
  "counted_window day start fin cur rules last_height = Inr w \<longleftrightarrow>
    (let r = (case rules of None \<Rightarrow> RULES | Some x \<Rightarrow> x) in w = (start + day * day_blocks r, last_height)
      \<and> start + day * day_blocks r \<le> last_height \<and> last_height \<le> start + (day + 1) * day_blocks r - 1 \<and> last_height + fin \<le> cur)"
  by (auto simp: counted_window_def day_bounds_None Let_def algebra_simps)

lemma window_day:
  assumes "counted_window day start fin cur (Some r) last_height = Inr w" "in_window w settled jid" "0 < day_blocks r" "0 \<le> day"
    and "map_of settled jid = Some h"
  shows "day_of_height h start r = day"
proof -
  obtain first final where b: "day_bounds day start r None = Inr (first, final)" by (simp add: day_bounds_None)
  have "first \<le> h \<and> h \<le> final"
    using assms b by (auto simp: counted_window_Inr day_bounds_None in_window_def Let_def algebra_simps)
  moreover have "0 \<le> day * day_blocks r" using assms(3,4) by simp
  ultimately show ?thesis using assms(3) b by (auto simp: day_bounds_None day_of_height_def div_eq_iff_bounds)
qed

text \<open>
  C24: an answered request of the programme is work exactly once. The work a day credits a miner, with the unwound jobs of
  decision 18 added, is the number of the programme's jobs settled in the day's window, answered, and either final and positive or
  unwound with a grading that pays; no job counts on both grounds, and none on two days.
\<close>

theorem work_counts_each_job_once:
  assumes "distinct (map jb_id jobs)" and w: "counted_window day start fin cur (Some r) last_height = Inr w"
    and facts: "chain_day_facts day start jobs settled votes generator fin cur (answered_jobs records) (Some r) last_height = Inr (work, judged)"
    and unwound: "unwound_programme_jobs day start jobs settled generator fin cur (Some r) last_height = Inr un"
  shows "get_or work m 0 + get_or (fst (unwound_work day records un (answered_jobs records))) m 0
      = int (length (filter (\<lambda>j. programme_job w settled generator j \<and> jb_id j \<in> answered_jobs records \<and> jb_miner j = m
          \<and> (m \<noteq> [] \<and> job_is_final_positive j \<or> pays_unwound day records (answered_jobs records) j)) jobs))
    \<and> (\<forall>j \<in> set jobs. \<not> (job_is_final_positive j \<and> pays_unwound day records (answered_jobs records) j))
    \<and> (\<forall>day' fin' cur' last' w' jid. 0 < day_blocks r \<and> 0 \<le> day \<and> 0 \<le> day' \<and> counted_window day' start fin' cur' (Some r) last' = Inr w'
        \<and> in_window w settled jid \<and> in_window w' settled jid \<longrightarrow> day' = day)"
proof (intro conjI allI impI ballI)
  let ?P = "\<lambda>j. programme_job w settled generator j \<and> job_is_final_positive j \<and> jb_id j \<in> answered_jobs records \<and> jb_miner j \<noteq> [] \<and> jb_miner j = m"
  let ?Q = "\<lambda>j. programme_job w settled generator j \<and> pays_unwound day records (answered_jobs records) j \<and> jb_miner j = m"
  have work: "work = fst (foldl (count_job w settled votes generator (answered_jobs records)) ([], []) jobs)"
    using facts w by (auto simp: chain_day_facts_def split: prod.splits)
  have un: "unwound_from w settled generator [] jobs = Inr un" using unwound w by (simp add: unwound_programme_jobs_def)
  show excl: "\<not> (job_is_final_positive j \<and> pays_unwound day records (answered_jobs records) j)" for j
    using final_not_unwound by (auto simp: pays_unwound_def)
  have "get_or work m 0 + get_or (fst (unwound_work day records un (answered_jobs records))) m 0
      = int (length (filter ?P jobs) + length (filter ?Q jobs))"
    by (simp add: work counted_work unwound_paid [OF un assms(1)])
  also have "length (filter ?P jobs) + length (filter ?Q jobs) = length (filter (\<lambda>j. ?P j \<or> ?Q j) jobs)"
    using excl by (induction jobs) auto
  also have "filter (\<lambda>j. ?P j \<or> ?Q j) jobs = filter (\<lambda>j. programme_job w settled generator j \<and> jb_id j \<in> answered_jobs records \<and> jb_miner j = m
          \<and> (m \<noteq> [] \<and> job_is_final_positive j \<or> pays_unwound day records (answered_jobs records) j)) jobs"
    by (rule filter_cong) (auto simp: pays_unwound_def)
  finally show "get_or work m 0 + get_or (fst (unwound_work day records un (answered_jobs records))) m 0
      = int (length (filter (\<lambda>j. programme_job w settled generator j \<and> jb_id j \<in> answered_jobs records \<and> jb_miner j = m
          \<and> (m \<noteq> [] \<and> job_is_final_positive j \<or> pays_unwound day records (answered_jobs records) j)) jobs))" .
  fix day' fin' cur' last' w' jid
  assume a: "0 < day_blocks r \<and> 0 \<le> day \<and> 0 \<le> day' \<and> counted_window day' start fin' cur' (Some r) last' = Inr w'
        \<and> in_window w settled jid \<and> in_window w' settled jid"
  then obtain h where "map_of settled jid = Some h" by (auto simp: in_window_def split: option.splits)
  then show "day' = day" using window_day [OF w, of settled jid h] window_day [of day' start fin' cur' r last' w' settled jid h] a by simp
qed

section \<open>The grades of a day\<close>

lemma any_coherent_update: "any_coherent (AList.update who (get_or per who [] @ [c]) per) \<longleftrightarrow> any_coherent per \<or> c"
  by (induction per) (auto simp: any_coherent_def get_or_def)

lemma update_nonempty: "AList.update k v d \<noteq> []"
  by (cases d) auto

text \<open>What the collected grades of an answer say, whoever posted them and in whatever order.\<close>

definition graded :: "evidence list \<Rightarrow> string \<Rightarrow> string \<Rightarrow> bool" where
  "graded records job m \<longleftrightarrow> (\<exists>d g c. WorkGrade d job m g c \<in> set records)"

definition graded_coherent :: "evidence list \<Rightarrow> string \<Rightarrow> string \<Rightarrow> bool" where
  "graded_coherent records job m \<longleftrightarrow> (\<exists>d g. WorkGrade d job m g (PBool True) \<in> set records)"

lemma answer_grades_snoc: "answer_grades (records @ [rec]) = add_grade (answer_grades records) rec"
  by (simp add: answer_grades_def)

lemma wf_add_grade: "wf_dict out \<Longrightarrow> wf_dict (add_grade out rec)"
  by (auto simp: add_grade_def Let_def split: evidence.split)

lemma wf_answer_grades: "wf_dict (answer_grades records)"
proof (induction records rule: rev_induct)
  case (snoc rec records)
  then show ?case by (simp add: answer_grades_snoc wf_add_grade)
qed (simp add: answer_grades_def)

lemma answer_grades_keys: "map_of (answer_grades records) (job, m) = None \<longleftrightarrow> \<not> graded records job m"
proof (induction records rule: rev_induct)
  case (snoc rec records)
  then show ?case by (cases rec) (auto simp: answer_grades_snoc add_grade_def Let_def map_of_update graded_def)
qed (simp add: answer_grades_def graded_def)

lemma any_coherent_grades: "any_coherent (get_or (answer_grades records) (job, m) []) \<longleftrightarrow> graded_coherent records job m"
proof (induction records rule: rev_induct)
  case (snoc rec records)
  then show ?case
    by (cases rec) (auto simp: answer_grades_snoc add_grade_def Let_def any_coherent_update graded_coherent_def)
qed (simp add: answer_grades_def graded_coherent_def any_coherent_def)

lemma answer_grades_nonempty: "map_of (answer_grades records) k = Some per \<Longrightarrow> per \<noteq> []"
proof (induction records arbitrary: per rule: rev_induct)
  case (snoc rec records)
  then show ?case
    by (cases rec) (auto simp: answer_grades_snoc add_grade_def Let_def map_of_update update_nonempty split: if_splits)
qed (simp add: answer_grades_def)

lemma answer_incoherent_of:
  assumes "map_of (answer_grades records) (job, m) = Some per"
  shows "answer_incoherent per \<longleftrightarrow> \<not> graded_coherent records job m"
  using any_coherent_grades [of records job m] answer_grades_nonempty [OF assms] assms by (simp add: answer_incoherent_def get_or_def)

lemma collect_grades:
  "get_or (foldl (\<lambda>out ((job, m), by_grader). AList.update m (get_or out m [] @ [\<not> answer_incoherent by_grader]) out) out items) m []
     = get_or out m [] @ map (\<lambda>(k, per). \<not> answer_incoherent per) (filter (\<lambda>(k, per). snd k = m) items)"
proof (induction items arbitrary: out)
  case (Cons x items)
  obtain job m' per where x: "x = ((job, m'), per)" by (metis surj_pair)
  show ?case by (simp add: x Cons.IH)
qed simp

lemma grades_of_day:
  assumes "gs = get_or (snd (work_grades day records)) m []" "R = filter (\<lambda>rec. ev_day rec = day) records"
  shows "list_ex id gs \<longleftrightarrow> (\<exists>job. graded_coherent R job m)" "length gs = card {job. graded R job m}"
proof -
  let ?items = "filter (\<lambda>(k, per). snd k = m) (answer_grades R)"
  have gs: "gs = map (\<lambda>(k, per). \<not> answer_incoherent per) ?items"
    using collect_grades [of "[]" "answer_grades R" m] by (simp add: assms work_grades_def)
  note wf = wf_answer_grades [of R]
  have keys: "map_of (answer_grades R) (job, m) \<noteq> None \<longleftrightarrow> graded R job m" for job m using answer_grades_keys by simp
  have items: "((job, m'), per) \<in> set ?items \<longleftrightarrow> m' = m \<and> map_of (answer_grades R) (job, m) = Some per" for job m' per
    using wf by (auto simp: wf_dict_map_of_iff)
  have "list_ex id gs \<longleftrightarrow> (\<exists>x \<in> set ?items. \<not> answer_incoherent (snd x))" by (simp only: gs list_ex_iff set_map bex_simps id_def case_prod_beta)
  also have "\<dots> \<longleftrightarrow> (\<exists>job per. map_of (answer_grades R) (job, m) = Some per \<and> \<not> answer_incoherent per)"
  proof
    assume "\<exists>x \<in> set ?items. \<not> answer_incoherent (snd x)"
    then obtain job m' per where "((job, m'), per) \<in> set ?items" "\<not> answer_incoherent per" by force
    then show "\<exists>job per. map_of (answer_grades R) (job, m) = Some per \<and> \<not> answer_incoherent per" using items by blast
  next
    assume "\<exists>job per. map_of (answer_grades R) (job, m) = Some per \<and> \<not> answer_incoherent per"
    then obtain job per where "((job, m), per) \<in> set ?items" "\<not> answer_incoherent per" using items by blast
    then show "\<exists>x \<in> set ?items. \<not> answer_incoherent (snd x)" by (rule_tac x = "((job, m), per)" in bexI) simp_all
  qed
  also have "\<dots> \<longleftrightarrow> (\<exists>job. graded_coherent R job m)"
  proof
    assume "\<exists>job. graded_coherent R job m"
    then obtain job where c: "graded_coherent R job m" by blast
    then have "graded R job m" by (auto simp: graded_def graded_coherent_def)
    then obtain per where "map_of (answer_grades R) (job, m) = Some per" using keys by blast
    then show "\<exists>job per. map_of (answer_grades R) (job, m) = Some per \<and> \<not> answer_incoherent per"
      using answer_incoherent_of c by blast
  qed (use answer_incoherent_of in blast)
  finally show "list_ex id gs \<longleftrightarrow> (\<exists>job. graded_coherent R job m)" .
  have "distinct (map fst ?items)" using wf by (simp add: wf_dict_def distinct_map inj_on_def)
  moreover have "snd k = m" if "k \<in> set (map fst ?items)" for k using that by auto
  then have "inj_on fst (set (map fst ?items))" by (intro inj_onI prod_eqI) metis+
  ultimately have "distinct (map fst (map fst ?items))" by (simp only: distinct_map)
  moreover have "set (map fst (map fst ?items)) = {job. graded R job m}"
  proof -
    have "job \<in> set (map fst (map fst ?items)) \<longleftrightarrow> (\<exists>per. map_of (answer_grades R) (job, m) = Some per)" for job
    proof
      assume "job \<in> set (map fst (map fst ?items))"
      then obtain m' per where "((job, m'), per) \<in> set ?items" by auto
      then show "\<exists>per. map_of (answer_grades R) (job, m) = Some per" using items by blast
    next
      assume "\<exists>per. map_of (answer_grades R) (job, m) = Some per"
      then obtain per where "((job, m), per) \<in> set ?items" using items by blast
      then have "fst (fst ((job, m), per)) \<in> set (map fst (map fst ?items))" unfolding set_map by (intro imageI)
      then show "job \<in> set (map fst (map fst ?items))" by simp
    qed
    then show ?thesis using keys by blast
  qed
  ultimately show "length gs = card {job. graded R job m}" by (metis distinct_card gs length_map)
qed

text \<open>The answers of a miner that were sampled on the day.\<close>

lemma sampled_step:
  "get_or (sampled_on day (records @ [rec])) m [] = (case rec of
     WorkAnswer d job m' \<Rightarrow> if d = day \<and> m' = m then List.insert job (get_or (sampled_on day records) m []) else get_or (sampled_on day records) m []
   | _ \<Rightarrow> get_or (sampled_on day records) m [])"
  by (simp add: sampled_on_def split: evidence.split)

lemma sampled_of_day:
  "distinct (get_or (sampled_on day records) m []) \<and> set (get_or (sampled_on day records) m []) = {job. WorkAnswer day job m \<in> set records}"
proof (induction records rule: rev_induct)
  case (snoc rec records)
  then show ?case by (cases rec) (auto simp: sampled_step)
qed (simp add: sampled_on_def)

lemma length_sampled: "length (get_or (sampled_on day records) m []) = card {job. WorkAnswer day job m \<in> set records}"
  using sampled_of_day [of day records m] distinct_card by metis

text \<open>The work of a miner's day is void: every answer graded that day incoherent, and enough of them.\<close>

definition work_void :: "int \<Rightarrow> evidence list \<Rightarrow> string \<Rightarrow> bool" where
  "work_void day records m \<longleftrightarrow>
     (\<forall>job g. WorkGrade day job m g (PBool True) \<notin> set records)
     \<and> max 1 (min GRADES_TO_VOID (card {job. WorkAnswer day job m \<in> set records})) \<le> card {job. \<exists>g c. WorkGrade day job m g c \<in> set records}"

lemma graded_out_iff:
  assumes "work_grades day records = (sampled, gs)"
  shows "graded_out (get_or gs m []) (length (get_or sampled m [])) \<longleftrightarrow> work_void day records m"
proof -
  let ?R = "filter (\<lambda>rec. ev_day rec = day) records"
  have g: "gs = snd (work_grades day records)" "sampled = sampled_on day records" using assms by (auto simp: work_grades_def)
  have "graded ?R job m \<longleftrightarrow> (\<exists>g c. WorkGrade day job m g c \<in> set records)" for job by (auto simp: graded_def)
  moreover have "graded_coherent ?R job m \<longleftrightarrow> (\<exists>g. WorkGrade day job m g (PBool True) \<in> set records)" for job
    by (auto simp: graded_coherent_def)
  ultimately show ?thesis
    using grades_of_day [OF refl refl, of day records m] by (simp add: graded_out_def work_void_def g length_sampled conj_commute)
qed

text \<open>
  C25: the doubt favours the miner. The day ranks every identity the chain names exactly once, in order of name, with the facts
  that were read for it; its work is taken away if and only if no grade of the day says one of its answers is coherent and at least
  two of its answers were graded, or its only sampled one. Neither the order of the records, nor who graded, nor how many
  times an answer was graded changes it, and one coherent grade from anyone keeps the work.
\<close>

theorem doubt_favours_the_miner:
  "map miner_id (day_identities day records chain addresses) = ranked_ids chain \<and> sorted (ranked_ids chain) \<and> distinct (ranked_ids chain)
    \<and> (\<forall>i \<in> set (day_identities day records chain addresses).
        verified_requests i = (if work_void day records (miner_id i) then 0 else get_or (df_work chain) (miner_id i) 0)
        \<and> presence i = get_or (df_presence chain) (miner_id i) 0 \<and> verdicts i = get_or (df_verdicts chain) (miner_id i) 0
        \<and> ((\<exists>job g. WorkGrade day job (miner_id i) g (PBool True) \<in> set records) \<longrightarrow> verified_requests i = get_or (df_work chain) (miner_id i) 0))"
proof -
  obtain sampled gs where g: "work_grades day records = (sampled, gs)" by (cases "work_grades day records")
  let ?id = "identity_of chain (declared_payouts records) addresses sampled gs"
  have ids: "day_identities day records chain addresses = map ?id (ranked_ids chain)" by (simp add: day_identities_def g)
  have id: "miner_id (?id m) = m" "presence (?id m) = get_or (df_presence chain) m 0" "verdicts (?id m) = get_or (df_verdicts chain) m 0"
    "verified_requests (?id m) = (if work_void day records m then 0 else get_or (df_work chain) m 0)" for m
    by (simp_all add: identity_of_def Let_def graded_out_iff [OF g])
  moreover have "\<not> work_void day records m" if "WorkGrade day job m g (PBool True) \<in> set records" for m job g
    using that by (auto simp: work_void_def)
  ultimately show ?thesis by (auto simp: ids o_def ranked_ids_def)
qed

section \<open>The capacity report of a day\<close>

lemma kit_report_snoc: "kit_report (records @ [rec]) mid last_height = newer_report mid last_height (kit_report records mid last_height) rec"
  by (simp add: kit_report_def)

text \<open>The heights of the readable reports of an identity at or before the day's last block.\<close>

definition report_heights :: "evidence list \<Rightarrow> string \<Rightarrow> int \<Rightarrow> int set" where
  "report_heights records mid last_height = {h. h \<le> last_height \<and> (\<exists>d k jr v. Capacity d mid k jr v \<in> set records \<and> nat_of v = Some h)}"

lemma kit_report_latest:
  "(kit_report records mid last_height = None \<longleftrightarrow> report_heights records mid last_height = {})
    \<and> (\<forall>r. kit_report records mid last_height = Some r \<longrightarrow> kr_height r \<in> report_heights records mid last_height
         \<and> (\<forall>h \<in> report_heights records mid last_height. h \<le> kr_height r))"
proof (induction records rule: rev_induct)
  case (snoc rec records)
  have heights: "report_heights (records @ [rec]) mid last_height = report_heights records mid last_height
      \<union> (case rec of Capacity d m k jr v \<Rightarrow> if m = mid then (case nat_of v of Some h \<Rightarrow> if h \<le> last_height then {h} else {} | None \<Rightarrow> {}) else {} | _ \<Rightarrow> {})"
    by (cases rec) (auto simp: report_heights_def split: option.split)
  show ?case
  proof (cases "\<exists>d k jr v h. rec = Capacity d mid k jr v \<and> nat_of v = Some h \<and> h \<le> last_height")
    case True
    then obtain d k jr v h where r: "rec = Capacity d mid k jr v" "nat_of v = Some h" "h \<le> last_height" by blast
    have "report_heights (records @ [rec]) mid last_height = insert h (report_heights records mid last_height)"
      unfolding heights using r by simp
    moreover have "newer_report mid last_height best rec = (if (case best of None \<Rightarrow> True | Some b \<Rightarrow> h \<ge> kr_height b)
        then Some \<lparr>kr_kit = nat_of k, kr_role = text_of jr, kr_height = h\<rparr> else best)" for best using r by (simp add: newer_report_def)
    ultimately show ?thesis using snoc by (cases "kit_report records mid last_height") (auto simp: kit_report_snoc)
  next
    case False
    then have "newer_report mid last_height best rec = best" for best
      by (cases rec) (auto simp: newer_report_def split: option.split)
    moreover have "report_heights (records @ [rec]) mid last_height = report_heights records mid last_height"
      using False by (auto simp: heights split: evidence.splits option.splits if_splits)
    ultimately show ?thesis using snoc by (simp add: kit_report_snoc)
  qed
qed (simp add: kit_report_def report_heights_def)

text \<open>A report filed after the day's last block changes nothing: the day recomputes with it or without it.\<close>

lemma kit_report_later:
  assumes "\<And>d k jr v h. Capacity d mid k jr v \<in> set later \<Longrightarrow> nat_of v = Some h \<Longrightarrow> last_height < h"
  shows "kit_report (records @ later) mid last_height = kit_report records mid last_height"
  using assms
proof (induction later rule: rev_induct)
  case (snoc rec later)
  have "newer_report mid last_height best rec = best" for best
  proof (cases "\<exists>d k jr v h. rec = Capacity d mid k jr v \<and> nat_of v = Some h")
    case True
    then obtain d k jr v h where r: "rec = Capacity d mid k jr v" "nat_of v = Some h" by blast
    then have "last_height < h" using snoc.prems [of d k jr v h] by simp
    then show ?thesis using r by (simp add: newer_report_def)
  qed (cases rec; auto simp: newer_report_def split: option.split)
  moreover have "kit_report (records @ later) mid last_height = kit_report records mid last_height"
    by (rule snoc.IH) (rule snoc.prems, auto)
  ultimately show ?case using kit_report_snoc [of "records @ later" rec] by simp
qed simp

section \<open>Examples\<close>

definition sample_job :: "string \<Rightarrow> string \<Rightarrow> job" where
  "sample_job jid st = \<lparr>jb_id = jid, jb_state = st, jb_miner = ''m1'', jb_client = ''gen'', jb_voters = 0, jb_slashed = Some (PBool False)\<rparr>"

definition sample_jobs :: "job list" where
  "sample_jobs = [sample_job ''j1'' ''open+paid'', sample_job ''j2'' ''open+paid+disputed+resolved+unwound'', sample_job ''j3'' ''open+paid+clawed'']"

definition sample_settled :: "(string, int) dict" where
  "sample_settled = [(''j1'', 100), (''j2'', 101), (''j3'', 102)]"

definition sample_records :: "evidence list" where
  "sample_records = [WorkAnswer 0 ''j2'' ''m1'', WorkSealed 0 [(''m1'', [''j1'', ''j2'', ''j3''])], WorkGrade 0 ''j2'' ''m1'' None (PBool True)]"

theorem late_votes_never_count_witness:
  "\<exists>counted proof. timely_verdicts [(''j'', [(''a'', \<lparr>cm_vote = ''1'', cm_creator = ''x''\<rparr>)])] [(''j'', Some (7, END_BLOCK))] [(''j'', [(''a'', PInt 7)])]
       = Inr (counted, proof) \<and> map_of (get_or counted ''j'' []) ''a'' = Some ''1''"
proof -
  let ?c = "[(''j'', [(''a'', \<lparr>cm_vote = ''1'', cm_creator = ''x''\<rparr>)])]"
  let ?r = "[(''j'', Some (7, END_BLOCK))]" and ?d = "[(''j'', [(''a'', PInt 7)])]"
  have "\<exists>r. timely_verdicts ?c ?r ?d = Inr r"
    by (simp add: timely_verdicts_def audit_entry_def by_key_def check_resolution_def date_verdict_def look_def)
  then obtain counted "proof" where t: "timely_verdicts ?c ?r ?d = Inr (counted, proof)" by auto
  have "wf_dict ?c" "\<forall>(job, cs) \<in> set ?c. wf_dict cs" by (simp_all add: wf_dict_def)
  from late_votes_never_count [OF this t, of "''j''" "''a''" "''1''"] have "map_of (get_or counted ''j'' []) ''a'' = Some ''1''" by simp
  with t show ?thesis by blast
qed

theorem work_counts_each_job_once_witness:
  "\<exists>work judged un. chain_day_facts 0 0 sample_jobs sample_settled [] ''gen'' 10 30000 (answered_jobs sample_records) (Some RULES) 17279 = Inr (work, judged)
     \<and> unwound_programme_jobs 0 0 sample_jobs sample_settled ''gen'' 10 30000 (Some RULES) 17279 = Inr un
     \<and> get_or work ''m1'' 0 + get_or (fst (unwound_work 0 sample_records un (answered_jobs sample_records))) ''m1'' 0 = 2"
proof -
  obtain work judged where f: "chain_day_facts 0 0 sample_jobs sample_settled [] ''gen'' 10 30000 (answered_jobs sample_records) (Some RULES) 17279 = Inr (work, judged)"
  proof -
    have "case (chain_day_facts 0 0 sample_jobs sample_settled [] ''gen'' 10 30000 (answered_jobs sample_records) (Some RULES) 17279) of Inl e \<Rightarrow> False | Inr x \<Rightarrow> True" by code_simp
    then show thesis using that by (auto simp: split: sum.splits)
  qed
  obtain un where u: "unwound_programme_jobs 0 0 sample_jobs sample_settled ''gen'' 10 30000 (Some RULES) 17279 = Inr un"
  proof -
    have "case (unwound_programme_jobs 0 0 sample_jobs sample_settled ''gen'' 10 30000 (Some RULES) 17279) of Inl e \<Rightarrow> False | Inr x \<Rightarrow> True" by code_simp
    then show thesis using that by (auto simp: split: sum.splits)
  qed
  have w: "counted_window 0 0 10 30000 (Some RULES) 17279 = Inr (0, 17279)" by code_simp
  have "distinct (map jb_id sample_jobs)" by code_simp
  from work_counts_each_job_once [OF this w f u, of "''m1''"]
  have "get_or work ''m1'' 0 + get_or (fst (unwound_work 0 sample_records un (answered_jobs sample_records))) ''m1'' 0
      = int (length (filter (\<lambda>j. programme_job (0, 17279) sample_settled ''gen'' j \<and> jb_id j \<in> answered_jobs sample_records \<and> jb_miner j = ''m1''
          \<and> (''m1'' \<noteq> [] \<and> job_is_final_positive j \<or> pays_unwound 0 sample_records (answered_jobs sample_records) j)) sample_jobs))" by blast
  also have "\<dots> = 2" by code_simp
  finally show ?thesis using f u by blast
qed

lemma image_all_eq: "S \<noteq> {} \<Longrightarrow> (\<And>x. x \<in> S \<Longrightarrow> f x = c) \<Longrightarrow> f ` S = {c}"
  by auto

theorem doubt_favours_the_miner_witness:
  "verified_requests ` set (day_identities 0 sample_records \<lparr>df_work = [(''m1'', 2)], df_verdicts = [], df_presence = [], df_judge = None\<rparr> []) = {2}"
proof -
  let ?chain = "\<lparr>df_work = [(''m1'', 2)], df_verdicts = [], df_presence = [], df_judge = None\<rparr>"
  let ?ids = "set (day_identities 0 sample_records ?chain [])"
  note t = doubt_favours_the_miner [of 0 sample_records ?chain "[]"]
  have "ranked_ids ?chain = [''m1'']" by (simp add: ranked_ids_def)
  then have ids: "miner_id ` ?ids = {''m1''}" using t by (metis list.set_map list.simps(15) empty_set)
  have g: "WorkGrade 0 ''j2'' ''m1'' None (PBool True) \<in> set sample_records" by (simp add: sample_records_def)
  have "verified_requests i = 2" if i: "i \<in> ?ids" for i
  proof -
    have m: "miner_id i = ''m1''" using i ids by blast
    have "verified_requests i = get_or (df_work ?chain) (miner_id i) 0" using t i g m by metis
    also have "\<dots> = get_or (df_work ?chain) ''m1'' 0" by (rule arg_cong [OF m])
    also have "\<dots> = 2" by (simp add: get_or_def)
    finally show ?thesis .
  qed
  moreover have "?ids \<noteq> {}" using ids by (metis image_is_empty insert_not_empty)
  ultimately show ?thesis by (rule image_all_eq [rotated])
qed

end
