(* ===== verification/Season_Judges.thy ===== *)
theory Season_Judges
  imports Season_Facts
begin

text \<open>
  What a juror of the programme's audits is paid for a day, \<open>src/services/final_season_facts.py\<close>: the judge presence reward of
  decision 24 and its five conditions, the verdicts the jury set pays, and the jurors a day contradicts. The arrival of a reveal is read
  from the relay's store in three answers, never two: absent, unread, or a time. The block times are whole seconds, the
  arrivals exact rationals.
\<close>

section \<open>What is read for a juror\<close>

datatype arrival = NoReveal | StoreUnread | Arrived rat

definition JUDGE_NO_REVEAL :: string where "JUDGE_NO_REVEAL = ''no_reveal_sealed_to_this_juror''"
definition JUDGE_STORE_UNREAD :: string where "JUDGE_STORE_UNREAD = ''relay_store_unread''"
definition JUDGE_NO_TIMELY_VERDICT :: string where "JUDGE_NO_TIMELY_VERDICT = ''no_timely_verdict''"
definition JUDGE_VERDICT_BEFORE_REVEAL :: string where "JUDGE_VERDICT_BEFORE_REVEAL = ''verdict_before_reveal''"
definition JUDGE_CONTRADICTED :: string where "JUDGE_CONTRADICTED = ''contradicted_by_a_conviction_concluded_this_day''"
definition JUDGE_NO_SIGNED_REPORT :: string where "JUDGE_NO_SIGNED_REPORT = ''no_signed_report''"
definition JUDGE_ROLE_NOT_ACTIVE :: string where "JUDGE_ROLE_NOT_ACTIVE = ''judge_role_not_active''"
definition JUDGE_KIT_BELOW_MIN :: string where "JUDGE_KIT_BELOW_MIN = ''kit_below_min''"
definition JUDGE_ACTIVE_ROLE :: string where "JUDGE_ACTIVE_ROLE = ''active''"
definition JURY_OK :: string where "JURY_OK = ''ok''"

lemmas judge_words = JUDGE_NO_REVEAL_def JUDGE_STORE_UNREAD_def JUDGE_NO_TIMELY_VERDICT_def JUDGE_VERDICT_BEFORE_REVEAL_def
  JUDGE_CONTRADICTED_def JUDGE_NO_SIGNED_REPORT_def JUDGE_ROLE_NOT_ACTIVE_def JUDGE_KIT_BELOW_MIN_def JURY_OK_def

text \<open>
  The readings the rewards are decided on, which the ranking hands over: the audited miner of each job, the arrivals by key, the votes counted
  in time, the height of each commit, and the time of each block.
\<close>

record jury_reads =
  jr_primaries :: "(string, string) dict"
  jr_arrivals :: "(string, arrival) dict"
  jr_votes :: "(string, (string, string) dict) dict"
  jr_committed :: "(string, (string, pyval) dict) dict"
  jr_times :: "(int, int) dict"

definition reveal_key :: "string \<Rightarrow> string \<Rightarrow> string \<Rightarrow> string" where
  "reveal_key job juror primary = job @ ''__'' @ juror @ ''__'' @ primary"

text \<open>\<open>commit_times[committed[job][juror]]\<close>, with the height: a key that is no height is in no dictionary of heights.\<close>

definition commit_at :: "jury_reads \<Rightarrow> string \<Rightarrow> string \<Rightarrow> (int \<times> int) result" where
  "commit_at R job juror =
     bind_res (look (jr_committed R) job) (\<lambda>dates.
     bind_res (look dates juror) (\<lambda>ch. case ch of
         PInt h \<Rightarrow> bind_res (look (jr_times R) h) (\<lambda>bt. Inr (h, bt))
       | _ \<Rightarrow> Inl KeyError))"

section \<open>The judge presence reward\<close>

record judge_evidence =
  jv_job :: string
  jv_key :: string
  jv_arrival :: rat
  jv_height :: int
  jv_time :: int

text \<open>Conditions one to three on one audit: the reason it does not count, or its evidence.\<close>

definition seat_check :: "jury_reads \<Rightarrow> string \<Rightarrow> string \<Rightarrow> (string + judge_evidence) result" where
  "seat_check R juror job =
     bind_res (look (jr_primaries R) job) (\<lambda>primary.
     let key = reveal_key job juror primary in
     bind_res (look (jr_arrivals R) key) (\<lambda>t. case t of
         StoreUnread \<Rightarrow> Inr (Inl JUDGE_STORE_UNREAD)
       | NoReveal \<Rightarrow> Inr (Inl JUDGE_NO_REVEAL)
       | Arrived q \<Rightarrow>
           if map_of (get_or (jr_votes R) job []) juror = None then Inr (Inl JUDGE_NO_TIMELY_VERDICT)
           else bind_res (commit_at R job juror) (\<lambda>(h, bt).
             Inr (if of_int bt > q
                  then Inr \<lparr>jv_job = job, jv_key = key, jv_arrival = q, jv_height = h, jv_time = bt\<rparr>
                  else Inl JUDGE_VERDICT_BEFORE_REVEAL))))"

definition seat_checks :: "jury_reads \<Rightarrow> (string, string list) dict \<Rightarrow> string \<Rightarrow> (string, string + judge_evidence) dict result" where
  "seat_checks R seats juror =
     map_res (\<lambda>(job, members). map_sum id (Pair job) (seat_check R juror job))
       (filter (\<lambda>(job, members). juror \<in> set members) (by_key seats))"

definition check_word :: "string + judge_evidence \<Rightarrow> string" where
  "check_word c = (case c of Inl why \<Rightarrow> why | Inr e \<Rightarrow> JURY_OK)"

fun first_evidence :: "(string, string + judge_evidence) dict \<Rightarrow> judge_evidence option" where
  "first_evidence [] = None"
| "first_evidence ((job, Inr e) # cs) = Some e"
| "first_evidence ((job, Inl why) # cs) = first_evidence cs"

fun first_why :: "(string, string + judge_evidence) dict \<Rightarrow> string option" where
  "first_why [] = None"
| "first_why ((job, Inl why) # cs) = Some why"
| "first_why ((job, Inr e) # cs) = first_why cs"

record judge_entry =
  jd_audits :: "(string, string) dict"
  jd_evidence :: "judge_evidence option"
  jd_report :: "capacity_report option"
  jd_paid :: bool
  jd_why :: string

definition judge_why :: "(string, string + judge_evidence) dict \<Rightarrow> bool \<Rightarrow> capacity_report option \<Rightarrow> int \<Rightarrow> string" where
  "judge_why checks contradicted rep kit_floor =
     (if first_evidence checks = None then (case first_why checks of None \<Rightarrow> JUDGE_NO_TIMELY_VERDICT | Some w \<Rightarrow> w)
      else if contradicted then JUDGE_CONTRADICTED
      else (case rep of
          None \<Rightarrow> JUDGE_NO_SIGNED_REPORT
        | Some r \<Rightarrow>
            if kr_role r \<noteq> Some JUDGE_ACTIVE_ROLE then JUDGE_ROLE_NOT_ACTIVE
            else (case kr_kit r of None \<Rightarrow> JUDGE_KIT_BELOW_MIN | Some k \<Rightarrow> if k < kit_floor then JUDGE_KIT_BELOW_MIN else [])))"

definition judge_entry_of :: "jury_reads \<Rightarrow> (string, string list) dict \<Rightarrow> string set \<Rightarrow> (string, capacity_report option) dict \<Rightarrow> int
    \<Rightarrow> string \<Rightarrow> (string \<times> judge_entry) result" where
  "judge_entry_of R seats contradicted reports kit_floor juror =
     bind_res (seat_checks R seats juror) (\<lambda>checks.
       let rep = get_or reports juror None; why = judge_why checks (juror \<in> contradicted) rep kit_floor
       in Inr (juror, \<lparr>jd_audits = map (\<lambda>(job, c). (job, check_word c)) checks, jd_evidence = first_evidence checks,
                       jd_report = rep, jd_paid = (why = []), jd_why = why\<rparr>))"

definition seated_jurors :: "(string, string list) dict \<Rightarrow> string list" where
  "seated_jurors seats = sort (remdups (concat (map snd seats)))"

text \<open>The jurors paid, each with the audit that met the conditions and the height of its report; and every seated juror's entry.\<close>

definition judge_presence :: "jury_reads \<Rightarrow> (string, string list) dict \<Rightarrow> string set \<Rightarrow> (string, capacity_report option) dict \<Rightarrow> int
    \<Rightarrow> ((string, judge_evidence option \<times> int option) dict \<times> (string, judge_entry) dict) result" where
  "judge_presence R seats contradicted reports kit_floor =
     bind_res (map_res (judge_entry_of R seats contradicted reports kit_floor) (seated_jurors seats)) (\<lambda>proof.
       Inr (map (\<lambda>(juror, e). (juror, jd_evidence e, map_option kr_height (jd_report e))) (filter (\<lambda>(juror, e). jd_paid e) proof), proof))"

section \<open>Contradicted jurors\<close>

definition contradicted_by :: "(string, (string, commit) dict) dict \<Rightarrow> (string, job) dict \<Rightarrow> string \<Rightarrow> string list result" where
  "contradicted_by commits jobs_by_id jid =
     bind_res (look jobs_by_id jid) (\<lambda>j. Inr (case audit_outcome j of
         None \<Rightarrow> []
       | Some outcome \<Rightarrow> map fst (filter (\<lambda>(juror, c). cm_vote c \<noteq> outcome) (get_or commits jid []))))"

definition contradicted_jurors :: "(string, int) dict \<Rightarrow> (string, (string, commit) dict) dict \<Rightarrow> (string, job) dict \<Rightarrow> string set result" where
  "contradicted_jurors resolved commits jobs_by_id =
     bind_res (map_res (contradicted_by commits jobs_by_id) (map fst resolved)) (\<lambda>out. Inr (set (concat out)))"

section \<open>The jury set\<close>

definition audit_unwound :: "job \<Rightarrow> bool" where
  "audit_unwound j \<longleftrightarrow> ''resolved'' \<in> set (state_tokens j) \<and> ''unwound'' \<in> set (state_tokens j)"

definition jury_check :: "jury_reads \<Rightarrow> string \<Rightarrow> string \<Rightarrow> string \<Rightarrow> string result" where
  "jury_check R job primary juror =
     bind_res (look (jr_arrivals R) (reveal_key job juror primary)) (\<lambda>t. case t of
         NoReveal \<Rightarrow> Inr JUDGE_NO_REVEAL
       | StoreUnread \<Rightarrow> Inr JUDGE_STORE_UNREAD
       | Arrived q \<Rightarrow> bind_res (commit_at R job juror) (\<lambda>(h, bt). Inr (if of_int bt > q then JURY_OK else JUDGE_VERDICT_BEFORE_REVEAL)))"

definition jury_audit :: "jury_reads \<Rightarrow> string \<times> (string, string) dict \<Rightarrow> (string \<times> (string, string) dict) result" where
  "jury_audit R = (\<lambda>(job, votes).
     bind_res (look (jr_primaries R) job) (\<lambda>primary.
     bind_res (map_res (\<lambda>juror. map_sum id (Pair juror) (jury_check R job primary juror))
                 (filter (\<lambda>juror. juror \<noteq> primary) (map fst (by_key votes)))) (\<lambda>per. Inr (job, per))))"

definition jury_verdicts :: "jury_reads \<Rightarrow> ((string, int) dict \<times> (string, (string, string) dict) dict) result" where
  "jury_verdicts R =
     bind_res (map_res (jury_audit R) (by_key (jr_votes R))) (\<lambda>proof.
       Inr (tally (map (\<lambda>(juror, w). (juror, 1)) (filter (\<lambda>(juror, w). w = JURY_OK) (concat (map snd proof)))), proof))"

definition FAULT_CLASS_CONTRADICTS_NOBODY :: string where "FAULT_CLASS_CONTRADICTS_NOBODY = ''class_contradicts_nobody''"
definition FAULT_REVEAL_ARRIVED :: string where "FAULT_REVEAL_ARRIVED = ''reveal_arrived_for_this_juror''"
definition FAULT_ARRIVAL_UNREAD :: string where "FAULT_ARRIVAL_UNREAD = ''relay_store_unread''"

record fault_vote =
  fv_vote :: string
  fv_contradicted :: bool
  fv_why :: string

definition fault_vote_of :: "(string, arrival) dict \<Rightarrow> (string, string) dict \<Rightarrow> string \<Rightarrow> string \<Rightarrow> string \<times> juror_entry \<Rightarrow> (string \<times> fault_vote) result" where
  "fault_vote_of arrivals primaries job cls = (\<lambda>(juror, e).
     let entry = (\<lambda>c why. (juror, \<lparr>fv_vote = je_vote e, fv_contradicted = c, fv_why = why\<rparr>)) in
     if je_vote e \<noteq> ''1'' then Inr (entry False [])
     else if cls \<notin> set CONTRADICTING_CLASSES then Inr (entry False FAULT_CLASS_CONTRADICTS_NOBODY)
     else if cls \<noteq> ''no_reveal'' then Inr (entry True [])
     else bind_res (look primaries job) (\<lambda>primary.
          bind_res (look arrivals (reveal_key job juror primary)) (\<lambda>t. Inr (case t of
              NoReveal \<Rightarrow> entry True []
            | StoreUnread \<Rightarrow> entry False FAULT_ARRIVAL_UNREAD
            | Arrived q \<Rightarrow> entry False FAULT_REVEAL_ARRIVED))))"

definition fault_votes :: "(string, audit_record) dict \<Rightarrow> (string, arrival) dict \<Rightarrow> (string, string) dict \<Rightarrow> string \<times> string
    \<Rightarrow> (string \<times> string \<times> (string, fault_vote) dict) result" where
  "fault_votes verdict_proof arrivals primaries = (\<lambda>(job, cls).
     bind_res (map_res (fault_vote_of arrivals primaries job cls)
                 (by_key (case map_of verdict_proof job of None \<Rightarrow> [] | Some a \<Rightarrow> au_jurors a))) (\<lambda>per. Inr (job, cls, per)))"

definition fault_contradictions :: "(string, string) dict \<Rightarrow> (string, audit_record) dict \<Rightarrow> (string, arrival) dict \<Rightarrow> (string, string) dict
    \<Rightarrow> (string set \<times> (string, string \<times> (string, fault_vote) dict) dict) result" where
  "fault_contradictions faults verdict_proof arrivals primaries =
     bind_res (map_res (fault_votes verdict_proof arrivals primaries) (by_key faults)) (\<lambda>proof.
       Inr (set (map fst (filter (\<lambda>p. fv_contradicted (snd p)) (concat (map (\<lambda>x. snd (snd x)) proof)))), proof))"

section \<open>Reading the loops back\<close>

text \<open>A loop that builds one entry per name.\<close>

lemma map_res_names:
  assumes "map_res f xs = Inr ys" "\<And>x y. f x = Inr y \<Longrightarrow> fst y = x"
  shows "map fst ys = xs" "map_of ys x = Some v \<longleftrightarrow> x \<in> set xs \<and> f x = Inr (x, v)"
  using assms(1)
proof (induction xs arbitrary: ys)
  case (Cons z xs)
  {
    case 1
    then obtain y ys' where "f z = Inr y" "map_res f xs = Inr ys'" "ys = y # ys'" by (auto simp: bind_res_eq_Inr)
    then show ?case using Cons.IH(1) assms(2) by simp
  next
    case 2
    then obtain y ys' where y: "f z = Inr y" "map_res f xs = Inr ys'" "ys = y # ys'" by (auto simp: bind_res_eq_Inr)
    then show ?case using Cons.IH(2) [OF y(2)] assms(2) [OF y(1)] by (cases y) auto
  }
qed auto

lemma map_res_back: "map_res f xs = Inr ys \<Longrightarrow> y \<in> set ys \<Longrightarrow> \<exists>x \<in> set xs. f x = Inr y"
  by (induction xs arbitrary: ys) (auto simp: bind_res_eq_Inr)

lemma map_sum_Pair_Inr: "map_sum id (Pair k) r = Inr y \<longleftrightarrow> (\<exists>v. r = Inr v \<and> y = (k, v))"
  by (cases r) auto

section \<open>The five conditions\<close>

text \<open>Conditions one to three on one audit: its reveal sealed to the juror arrived, and the juror's vote, counted in time, was committed later.\<close>

definition judged_after_reveal :: "jury_reads \<Rightarrow> string \<Rightarrow> string \<Rightarrow> bool" where
  "judged_after_reveal R juror job \<longleftrightarrow> (\<exists>primary q dates h bt. map_of (jr_primaries R) job = Some primary
     \<and> map_of (jr_arrivals R) (reveal_key job juror primary) = Some (Arrived q) \<and> map_of (get_or (jr_votes R) job []) juror \<noteq> None
     \<and> map_of (jr_committed R) job = Some dates \<and> map_of dates juror = Some (PInt h) \<and> map_of (jr_times R) h = Some bt \<and> q < of_int bt)"

lemma commit_at_Inr:
  "commit_at R job juror = Inr (h, bt) \<longleftrightarrow> (\<exists>dates. map_of (jr_committed R) job = Some dates \<and> map_of dates juror = Some (PInt h)
     \<and> map_of (jr_times R) h = Some bt)"
  by (auto simp: commit_at_def look_def split: option.splits pyval.splits)

lemma seat_check_evidence: "(\<exists>e. seat_check R juror job = Inr (Inr e)) \<longleftrightarrow> judged_after_reveal R juror job"
proof
  assume "\<exists>e. seat_check R juror job = Inr (Inr e)"
  then obtain e primary t where e: "map_of (jr_primaries R) job = Some primary"
    "map_of (jr_arrivals R) (reveal_key job juror primary) = Some t" "seat_check R juror job = Inr (Inr e)"
    by (auto simp: seat_check_def bind_res_eq_Inr Let_def)
  then show "judged_after_reveal R juror job"
    by (cases t) (auto simp: seat_check_def judged_after_reveal_def bind_res_eq_Inr commit_at_Inr look_def Let_def split: if_splits)
next
  assume "judged_after_reveal R juror job"
  then obtain primary q dates h bt where m: "map_of (jr_primaries R) job = Some primary"
    "map_of (jr_arrivals R) (reveal_key job juror primary) = Some (Arrived q)" "map_of (get_or (jr_votes R) job []) juror \<noteq> None"
    "q < of_int bt" and c: "commit_at R job juror = Inr (h, bt)" by (auto simp: judged_after_reveal_def commit_at_Inr)
  then show "\<exists>e. seat_check R juror job = Inr (Inr e)" by (simp add: seat_check_def look_def Let_def)
qed

lemma first_evidence_iff: "first_evidence cs \<noteq> None \<longleftrightarrow> (\<exists>job e. (job, Inr e) \<in> set cs)"
  by (induction cs rule: first_evidence.induct) auto

lemma first_why_nonempty: "first_why cs = Some w \<Longrightarrow> \<exists>job. (job, Inl w) \<in> set cs"
  by (induction cs rule: first_why.induct) auto

lemma seat_check_why: "seat_check R juror job = Inr (Inl w) \<Longrightarrow> w \<noteq> []"
proof -
  assume w: "seat_check R juror job = Inr (Inl w)"
  then obtain primary t where e: "map_of (jr_primaries R) job = Some primary"
    "map_of (jr_arrivals R) (reveal_key job juror primary) = Some t" by (auto simp: seat_check_def bind_res_eq_Inr Let_def)
  with w show ?thesis
    by (cases t) (auto simp: seat_check_def bind_res_eq_Inr look_def Let_def judge_words split: if_splits)
qed

lemma seat_checks_set:
  assumes "seat_checks R seats juror = Inr checks"
  shows "(job, c) \<in> set checks \<longleftrightarrow> (\<exists>members. (job, members) \<in> set seats \<and> juror \<in> set members \<and> seat_check R juror job = Inr c)"
proof
  let ?f = "\<lambda>(job, members). map_sum id (Pair job) (seat_check R juror job)"
  have m: "map_res ?f (filter (\<lambda>(job, members). juror \<in> set members) (by_key seats)) = Inr checks"
    using assms by (simp add: seat_checks_def)
  {
    assume "(job, c) \<in> set checks"
    then have "\<exists>x \<in> set (filter (\<lambda>(job, members). juror \<in> set members) (by_key seats)). ?f x = Inr (job, c)"
      by (rule map_res_back [OF m])
    then show "\<exists>members. (job, members) \<in> set seats \<and> juror \<in> set members \<and> seat_check R juror job = Inr c"
      by (auto simp: map_sum_Pair_Inr)
  next
    assume "\<exists>members. (job, members) \<in> set seats \<and> juror \<in> set members \<and> seat_check R juror job = Inr c"
    then obtain members where "(job, members) \<in> set (filter (\<lambda>(job, members). juror \<in> set members) (by_key seats))"
      "seat_check R juror job = Inr c" by auto
    then show "(job, c) \<in> set checks" using map_res_each [OF m, of "(job, members)"] by auto
  }
qed

lemma judge_why_ok:
  assumes "seat_checks R seats juror = Inr checks"
  shows "judge_why checks contradicted rep kit_floor = [] \<longleftrightarrow>
    (\<exists>job members. (job, members) \<in> set seats \<and> juror \<in> set members \<and> judged_after_reveal R juror job)
    \<and> \<not> contradicted \<and> (\<exists>r k. rep = Some r \<and> kr_role r = Some JUDGE_ACTIVE_ROLE \<and> kr_kit r = Some k \<and> kit_floor \<le> k)"
proof -
  have e: "first_evidence checks \<noteq> None \<longleftrightarrow> (\<exists>job members. (job, members) \<in> set seats \<and> juror \<in> set members \<and> judged_after_reveal R juror job)"
    using seat_check_evidence by (auto simp: first_evidence_iff seat_checks_set [OF assms] simp del: not_None_eq) blast+
  have w: "first_why checks = Some w \<Longrightarrow> w \<noteq> []" for w
    using first_why_nonempty [of checks w] seat_check_why seat_checks_set [OF assms] by blast
  show ?thesis
  proof (cases "first_evidence checks")
    case None
    then show ?thesis using e w by (auto simp: judge_why_def judge_words split: option.split)
  next
    case (Some x)
    then show ?thesis using e by (auto simp: judge_why_def judge_words split: option.splits)
  qed
qed

lemma judge_entry_key: "judge_entry_of R seats contradicted reports kit_floor juror = Inr y \<Longrightarrow> fst y = juror"
  by (auto simp: judge_entry_of_def bind_res_eq_Inr Let_def)

text \<open>
  A seated identity earns the judge presence reward of the day exactly when the five conditions hold: on one of its audits the reveal
  sealed to it arrived, its vote was counted in time and committed strictly after the arrival; no conclusion of the day contradicts it; and its latest signed
  report names the active role and a kit at the floor or above. It is paid once, whatever the number of its audits, and every
  seated identity, paid or not, has an entry.
\<close>

theorem judge_reward_needs_five_conditions:
  assumes "judge_presence R seats contradicted reports kit_floor = Inr (paid, proof)"
  shows "(map_of paid juror \<noteq> None \<longleftrightarrow>
      (\<exists>job members. (job, members) \<in> set seats \<and> juror \<in> set members \<and> judged_after_reveal R juror job)
      \<and> juror \<notin> contradicted
      \<and> (\<exists>r k. map_of reports juror = Some (Some r) \<and> kr_role r = Some JUDGE_ACTIVE_ROLE \<and> kr_kit r = Some k \<and> kit_floor \<le> k))
    \<and> wf_dict paid \<and> map fst proof = seated_jurors seats
    \<and> (\<forall>e. map_of proof juror = Some e \<longrightarrow> jd_paid e = (jd_why e = []) \<and> jd_paid e = (map_of paid juror \<noteq> None))"
proof -
  have m: "map_res (judge_entry_of R seats contradicted reports kit_floor) (seated_jurors seats) = Inr proof"
    and paid: "paid = map (\<lambda>(juror, e). (juror, jd_evidence e, map_option kr_height (jd_report e))) (filter (\<lambda>(juror, e). jd_paid e) proof)"
    using assms by (auto simp: judge_presence_def bind_res_eq_Inr)
  have names: "map fst proof = seated_jurors seats"
    "map_of proof x = Some v \<longleftrightarrow> x \<in> set (seated_jurors seats) \<and> judge_entry_of R seats contradicted reports kit_floor x = Inr (x, v)" for x v
    by (rule map_res_names [OF m], erule judge_entry_key)+
  have wf: "wf_dict proof" using names(1) by (simp add: wf_dict_def seated_jurors_def)
  have p: "map_of paid juror \<noteq> None \<longleftrightarrow> (\<exists>e. map_of proof juror = Some e \<and> jd_paid e)"
    using map_of_kept [OF wf, of "\<lambda>e. (jd_evidence e, map_option kr_height (jd_report e))" jd_paid juror] by (auto simp: paid)
  have entry: "jd_paid e = (jd_why e = []) \<and> (jd_paid e \<longleftrightarrow>
      (\<exists>job members. (job, members) \<in> set seats \<and> juror \<in> set members \<and> judged_after_reveal R juror job) \<and> juror \<notin> contradicted
      \<and> (\<exists>r k. map_of reports juror = Some (Some r) \<and> kr_role r = Some JUDGE_ACTIVE_ROLE \<and> kr_kit r = Some k \<and> kit_floor \<le> k))"
    if e: "map_of proof juror = Some e" for e
  proof -
    have "judge_entry_of R seats contradicted reports kit_floor juror = Inr (juror, e)" using e names(2) by blast
    then obtain checks where c: "seat_checks R seats juror = Inr checks"
      and paid: "jd_paid e = (jd_why e = [])" "jd_why e = judge_why checks (juror \<in> contradicted) (get_or reports juror None) kit_floor"
      by (auto simp: judge_entry_of_def bind_res_eq_Inr Let_def)
    have "get_or reports juror None = Some r \<longleftrightarrow> map_of reports juror = Some (Some r)" for r
      by (auto simp: get_or_def split: option.splits)
    then show ?thesis using judge_why_ok [OF c] paid by simp
  qed
  have seated: "\<exists>e. map_of proof juror = Some e" if "(job, members) \<in> set seats" "juror \<in> set members" for job members
  proof -
    have "juror \<in> set (map fst proof)" using that names(1) by (force simp: seated_jurors_def)
    then show ?thesis by (metis map_of_eq_None_iff not_None_eq list.set_map)
  qed
  have "wf_dict paid" using wf by (auto simp: paid wf_dict_def o_def case_prod_beta distinct_map intro: inj_on_subset)
  then show ?thesis using p entry seated names(1) by blast
qed

lemma jury_audit_key: "jury_audit R x = Inr y \<Longrightarrow> fst y = fst x"
  by (cases x) (auto simp: jury_audit_def bind_res_eq_Inr)

lemma jury_check_ok:
  assumes "map_of (jr_primaries R) job = Some primary" "map_of (get_or (jr_votes R) job []) juror \<noteq> None"
  shows "jury_check R job primary juror = Inr JURY_OK \<longleftrightarrow> judged_after_reveal R juror job"
proof (cases "map_of (jr_arrivals R) (reveal_key job juror primary)")
  case None
  then show ?thesis using assms by (simp add: jury_check_def judged_after_reveal_def look_def)
next
  case (Some t)
  then show ?thesis using assms
    by (cases t) (auto simp: jury_check_def judged_after_reveal_def look_def bind_res_eq_Inr commit_at_Inr judge_words split: if_splits)
qed

lemma jury_audit_ok:
  assumes "jury_audit R (job, votes) = Inr (job, per)" "get_or (jr_votes R) job [] = votes" "wf_dict votes"
  obtains primary where "map_of (jr_primaries R) job = Some primary" "wf_dict per"
    "(juror, JURY_OK) \<in> set per \<longleftrightarrow> juror \<noteq> primary \<and> map_of votes juror \<noteq> None \<and> judged_after_reveal R juror job"
proof -
  from assms(1) obtain primary where p: "map_of (jr_primaries R) job = Some primary"
    and m: "map_res (\<lambda>juror. map_sum id (Pair juror) (jury_check R job primary juror)) (filter (\<lambda>juror. juror \<noteq> primary) (map fst (by_key votes))) = Inr per"
    by (auto simp: jury_audit_def bind_res_eq_Inr)
  have key: "map_sum id (Pair x) (jury_check R job primary x) = Inr y \<Longrightarrow> fst y = x" for x y by (auto simp: map_sum_Pair_Inr)
  have names: "map fst per = filter (\<lambda>juror. juror \<noteq> primary) (map fst (by_key votes))"
    "map_of per x = Some v \<longleftrightarrow> x \<in> set (filter (\<lambda>juror. juror \<noteq> primary) (map fst (by_key votes)))
       \<and> map_sum id (Pair x) (jury_check R job primary x) = Inr (x, v)" for x v
    by (rule map_res_names [OF m], erule key)+
  have wf: "wf_dict per" using names(1) assms(3) wf_dict_by_key [of votes] by (simp add: wf_dict_def)
  have "map_of votes juror \<noteq> None \<longleftrightarrow> juror \<in> set (map fst (by_key votes))" by (simp add: map_of_eq_None_iff)
  then have "(juror, JURY_OK) \<in> set per \<longleftrightarrow> juror \<noteq> primary \<and> map_of votes juror \<noteq> None \<and> judged_after_reveal R juror job"
    using names(2) [of juror JURY_OK] jury_check_ok [OF p] assms(2) wf_dict_map_of_iff [OF wf, of juror JURY_OK]
    by (auto simp: map_sum_Pair_Inr)
  with that p wf show thesis by blast
qed

lemma length_filter_concat:
  "(\<And>job per. (job, per) \<in> set xs \<Longrightarrow> length (filter P per) = (if Q per then 1 else 0)) \<Longrightarrow>
    length (filter P (concat (map snd xs))) = length (filter (\<lambda>(job, per). Q per) xs)"
proof (induction xs)
  case (Cons x xs)
  have "length (filter P (snd x)) = (if Q (snd x) then 1 else 0)" using Cons.prems [of "fst x" "snd x"] by simp
  moreover have "length (filter P (concat (map snd xs))) = length (filter (\<lambda>(job, per). Q per) xs)"
    by (rule Cons.IH) (rule Cons.prems, auto)
  ultimately show ?case by (cases x) auto
qed simp

lemma length_filter_one:
  assumes "wf_dict per"
  shows "length (filter (\<lambda>p. snd p = v \<and> fst p = k) per) = (if map_of per k = Some v then 1 else 0)"
proof -
  have "filter (\<lambda>p. snd p = v \<and> fst p = k) per = filter (\<lambda>p. snd p = v) (filter (\<lambda>p. fst p = k) per)"
    by (simp add: conj_commute)
  then show ?thesis by (simp add: filter_key [OF assms] split: option.split)
qed

text \<open>
  Under the jury set a juror is paid one verdict for every audit of the day on which its vote was counted in time and committed
  strictly after the reveal sealed to it arrived, the audited miner excepted. Nothing else is paid: an absent or an unread arrival pays nothing, and what
  the vote says is never read.
\<close>

theorem verdicts_paid_after_their_reveal:
  assumes "jury_verdicts R = Inr (counts, proof)" "wf_dict (jr_votes R)" "\<forall>(job, votes) \<in> set (jr_votes R). wf_dict votes"
  shows "get_or counts juror 0 = int (card {job. map_of (get_or (jr_votes R) job []) juror \<noteq> None \<and> map_of (jr_primaries R) job \<noteq> Some juror
      \<and> judged_after_reveal R juror job})"
    (is "_ = int (card ?jobs)")
proof -
  have m: "map_res (jury_audit R) (by_key (jr_votes R)) = Inr proof"
    and counts: "counts = tally (map (\<lambda>(juror, w). (juror, 1)) (filter (\<lambda>(juror, w). w = JURY_OK) (concat (map snd proof))))"
    using assms(1) by (auto simp: jury_verdicts_def bind_res_eq_Inr)
  have keys: "map fst proof = map fst (by_key (jr_votes R))"
    "map_of proof job = Some per \<longleftrightarrow> (\<exists>votes. map_of (by_key (jr_votes R)) job = Some votes \<and> jury_audit R (job, votes) = Inr (job, per))" for job per
    by (rule map_res_keys [OF m], erule jury_audit_key)+
  have wfp: "wf_dict proof" using keys(1) assms(2) wf_dict_by_key [of "jr_votes R"] by (simp add: wf_dict_def)
  have audit: "wf_dict per \<and> (map_of per juror = Some JURY_OK \<longleftrightarrow> job \<in> ?jobs)" if job: "map_of proof job = Some per" for job per
  proof -
    obtain votes where v: "map_of (jr_votes R) job = Some votes" "jury_audit R (job, votes) = Inr (job, per)"
      using keys(2) job assms(2) by auto
    moreover have "wf_dict votes" using v(1) assms(3) by (auto dest: map_of_SomeD)
    ultimately obtain primary where "map_of (jr_primaries R) job = Some primary" "wf_dict per"
      "(juror, JURY_OK) \<in> set per \<longleftrightarrow> juror \<noteq> primary \<and> map_of votes juror \<noteq> None \<and> judged_after_reveal R juror job"
      using jury_audit_ok [of R job votes per] by (auto simp: get_or_def)
    then show ?thesis using v(1) by (auto simp: get_or_def wf_dict_map_of_iff)
  qed
  have "get_or counts juror 0 = int (length (filter (\<lambda>p. snd p = JURY_OK \<and> fst p = juror) (concat (map snd proof))))"
    by (simp add: counts get_or_tally filter_map o_def case_prod_beta sum_list_triv conj_commute)
  also have "length (filter (\<lambda>p. snd p = JURY_OK \<and> fst p = juror) (concat (map snd proof))) = length (filter (\<lambda>(job, per). map_of per juror = Some JURY_OK) proof)"
  proof (rule length_filter_concat)
    fix job per assume "(job, per) \<in> set proof"
    then have "wf_dict per" using audit wf_dict_map_of_iff [OF wfp] by blast
    then show "length (filter (\<lambda>p. snd p = JURY_OK \<and> fst p = juror) per) = (if map_of per juror = Some JURY_OK then 1 else 0)"
      by (rule length_filter_one)
  qed
  also have "\<dots> = card (fst ` set (filter (\<lambda>(job, per). map_of per juror = Some JURY_OK) proof))"
  proof -
    have "distinct (map fst (filter (\<lambda>(job, per). map_of per juror = Some JURY_OK) proof))"
      using wfp by (simp add: wf_dict_def distinct_map_filter)
    from distinct_card [OF this] show ?thesis by simp
  qed
  also have "fst ` set (filter (\<lambda>(job, per). map_of per juror = Some JURY_OK) proof) = ?jobs"
  proof (intro set_eqI iffI)
    fix job assume "job \<in> fst ` set (filter (\<lambda>(job, per). map_of per juror = Some JURY_OK) proof)"
    then obtain per where "(job, per) \<in> set proof" "map_of per juror = Some JURY_OK" by auto
    then show "job \<in> ?jobs" using audit wf_dict_map_of_iff [OF wfp] by blast
  next
    fix job assume j: "job \<in> ?jobs"
    then have "map_of (jr_votes R) job \<noteq> None" by (auto simp: get_or_def split: option.splits)
    then have "job \<in> fst ` set (by_key (jr_votes R))" by (simp add: map_of_eq_None_iff)
    then have "map_of proof job \<noteq> None" using keys(1) by (metis map_of_eq_None_iff list.set_map)
    then obtain per where per: "map_of proof job = Some per" by blast
    then have "map_of per juror = Some JURY_OK" using audit j by blast
    moreover have "(job, per) \<in> set proof" using per by (rule map_of_SomeD)
    ultimately show "job \<in> fst ` set (filter (\<lambda>(job, per). map_of per juror = Some JURY_OK) proof)" by force
  qed
  finally show ?thesis .
qed

lemma fault_vote_key: "fault_vote_of arrivals primaries job cls x = Inr y \<Longrightarrow> fst y = fst x"
  by (cases x) (auto simp: fault_vote_of_def look_def Let_def split: if_splits option.splits arrival.splits)

text \<open>A vote that contradicts its juror: a 1 on a fault of a class that contradicts, with no reveal at all when the fault is its absence.\<close>

definition wrong_on_fault :: "(string, arrival) dict \<Rightarrow> (string, string) dict \<Rightarrow> string \<Rightarrow> string \<Rightarrow> string \<Rightarrow> string \<Rightarrow> bool" where
  "wrong_on_fault arrivals primaries job cls juror vote \<longleftrightarrow> vote = ''1'' \<and> cls \<in> set CONTRADICTING_CLASSES
     \<and> (cls = ''no_reveal'' \<longrightarrow> (\<exists>primary. map_of primaries job = Some primary \<and> map_of arrivals (reveal_key job juror primary) = Some NoReveal))"

lemma fault_vote_contradicted:
  assumes "fault_vote_of arrivals primaries job cls (juror, e) = Inr (juror, v)"
  shows "fv_contradicted v \<longleftrightarrow> wrong_on_fault arrivals primaries job cls juror (je_vote e)" "fv_vote v = je_vote e"
proof -
  have "(fv_contradicted v \<longleftrightarrow> wrong_on_fault arrivals primaries job cls juror (je_vote e)) \<and> fv_vote v = je_vote e"
  proof (cases "je_vote e = ''1'' \<and> cls = ''no_reveal''")
    case False
    then show ?thesis using assms by (auto simp: fault_vote_of_def wrong_on_fault_def Let_def CONTRADICTING_CLASSES_def split: if_splits)
  next
    case True
    then obtain primary t where p: "map_of primaries job = Some primary" "map_of arrivals (reveal_key job juror primary) = Some t"
      using assms by (auto simp: fault_vote_of_def bind_res_eq_Inr Let_def CONTRADICTING_CLASSES_def)
    then show ?thesis using assms True
      by (cases t) (auto simp: fault_vote_of_def wrong_on_fault_def look_def Let_def CONTRADICTING_CLASSES_def)
  qed
  then show "fv_contradicted v \<longleftrightarrow> wrong_on_fault arrivals primaries job cls juror (je_vote e)" "fv_vote v = je_vote e" by simp_all
qed

text \<open>
  C26: under the jury set only a fault contradicts. A juror is contradicted exactly when it voted 1 on a request the checked reveals list as a fault
  of a contradicting class, and, when the fault is a missing reveal, the relay holds none sealed to it: a reveal that arrived, or an
  arrival that could not be read, sanctions nobody, and neither does a vote on any other request.
\<close>

theorem only_faults_contradict:
  assumes "fault_contradictions faults verdict_proof arrivals primaries = Inr (out, proof)" "wf_dict faults"
    and "\<forall>(job, a) \<in> set verdict_proof. wf_dict (au_jurors a)"
  shows "juror \<in> out \<longleftrightarrow> (\<exists>job cls a e. map_of faults job = Some cls \<and> map_of verdict_proof job = Some a
      \<and> map_of (au_jurors a) juror = Some e \<and> wrong_on_fault arrivals primaries job cls juror (je_vote e))"
proof -
  let ?jurors = "\<lambda>job. case map_of verdict_proof job of None \<Rightarrow> [] | Some a \<Rightarrow> au_jurors a"
  have m: "map_res (fault_votes verdict_proof arrivals primaries) (by_key faults) = Inr proof"
    and out: "out = set (map fst (filter (\<lambda>p. fv_contradicted (snd p)) (concat (map (\<lambda>x. snd (snd x)) proof))))"
    using assms(1) by (auto simp: fault_contradictions_def bind_res_eq_Inr)
  have out_iff: "juror \<in> out \<longleftrightarrow> (\<exists>x \<in> set proof. \<exists>v. (juror, v) \<in> set (snd (snd x)) \<and> fv_contradicted v)"
    by (auto simp: out image_iff)
  have wf: "wf_dict (?jurors job)" for job using assms(3) by (auto dest: map_of_SomeD split: option.split simp: wf_dict_def)
  have per: "(juror, v) \<in> set per \<longleftrightarrow> (\<exists>e. map_of (?jurors job) juror = Some e \<and> fault_vote_of arrivals primaries job cls (juror, e) = Inr (juror, v))"
    if "fault_votes verdict_proof arrivals primaries (job, cls) = Inr (job, cls, per)" for job cls per v
  proof -
    have r: "map_res (fault_vote_of arrivals primaries job cls) (by_key (?jurors job)) = Inr per"
      using that by (auto simp: fault_votes_def bind_res_eq_Inr)
    have keys: "map fst per = map fst (by_key (?jurors job))"
      "map_of per x = Some w \<longleftrightarrow> (\<exists>u. map_of (by_key (?jurors job)) x = Some u \<and> fault_vote_of arrivals primaries job cls (x, u) = Inr (x, w))" for x w
      by (rule map_res_keys [OF r], erule fault_vote_key)+
    have "wf_dict per" using keys(1) wf [of job] wf_dict_by_key [of "?jurors job"] by (simp only: wf_dict_def)
    from wf_dict_map_of_iff [OF this] keys(2) show ?thesis using map_of_by_key [OF wf] by metis
  qed
  show ?thesis
  proof
    assume "juror \<in> out"
    then obtain v x where v: "x \<in> set proof" "(juror, v) \<in> set (snd (snd x))" "fv_contradicted v" using out_iff by blast
    obtain y where y: "y \<in> set (by_key faults)" "fault_votes verdict_proof arrivals primaries y = Inr x" using map_res_back [OF m v(1)] by blast
    obtain job cls where jc: "y = (job, cls)" by (cases y)
    then obtain p where p: "x = (job, cls, p)" using y(2) by (auto simp: fault_votes_def bind_res_eq_Inr)
    have fv: "fault_votes verdict_proof arrivals primaries (job, cls) = Inr (job, cls, p)" using y(2) jc p by simp
    obtain e where e: "map_of (?jurors job) juror = Some e" "fault_vote_of arrivals primaries job cls (juror, e) = Inr (juror, v)"
      using per [OF fv, of v] v(2) p by auto
    obtain a where "map_of verdict_proof job = Some a" "map_of (au_jurors a) juror = Some e" using e(1) by (auto split: option.splits)
    moreover have "map_of faults job = Some cls" using y(1) jc assms(2) by (simp add: wf_dict_map_of_iff)
    ultimately show "\<exists>job cls a e. map_of faults job = Some cls \<and> map_of verdict_proof job = Some a
      \<and> map_of (au_jurors a) juror = Some e \<and> wrong_on_fault arrivals primaries job cls juror (je_vote e)"
      using fault_vote_contradicted(1) [OF e(2)] v(3) by blast
  next
    assume "\<exists>job cls a e. map_of faults job = Some cls \<and> map_of verdict_proof job = Some a
      \<and> map_of (au_jurors a) juror = Some e \<and> wrong_on_fault arrivals primaries job cls juror (je_vote e)"
    then obtain job cls a e where f: "map_of faults job = Some cls" "map_of verdict_proof job = Some a" "map_of (au_jurors a) juror = Some e"
      "wrong_on_fault arrivals primaries job cls juror (je_vote e)" by blast
    have "(job, cls) \<in> set (by_key faults)" using f(1) by (simp add: map_of_SomeD)
    then obtain x where x: "x \<in> set proof" "fault_votes verdict_proof arrivals primaries (job, cls) = Inr x" using map_res_each [OF m] by blast
    then obtain p where p: "x = (job, cls, p)" by (auto simp: fault_votes_def bind_res_eq_Inr)
    have r: "map_res (fault_vote_of arrivals primaries job cls) (by_key (au_jurors a)) = Inr p"
      using x(2) p f(2) by (auto simp: fault_votes_def bind_res_eq_Inr)
    have "(juror, e) \<in> set (by_key (au_jurors a))" using f(3) by (simp add: map_of_SomeD)
    then obtain y where y: "y \<in> set p" "fault_vote_of arrivals primaries job cls (juror, e) = Inr y" using map_res_each [OF r] by blast
    have "fst y = juror" using fault_vote_key [OF y(2)] by simp
    then obtain v where v: "y = (juror, v)" by (cases y) simp
    then have "fv_contradicted v" using fault_vote_contradicted(1) [of arrivals primaries job cls juror e v] y(2) f(4) by simp
    moreover have "(juror, v) \<in> set (snd (snd x))" using v y(1) p by simp
    ultimately show "juror \<in> out" using x(1) out_iff by blast
  qed
qed

section \<open>Examples\<close>

definition sample_reads :: jury_reads where
  "sample_reads = \<lparr>jr_primaries = [(''j'', ''m'')], jr_arrivals = [(''j__a__m'', Arrived 5), (''j__b__m'', StoreUnread)],
     jr_votes = [(''j'', [(''a'', ''0''), (''b'', ''1'')])], jr_committed = [(''j'', [(''a'', PInt 9), (''b'', PInt 9)])], jr_times = [(9, 6)]\<rparr>"

definition sample_report :: capacity_report where
  "sample_report = \<lparr>kr_kit = Some 12, kr_role = Some ''active'', kr_height = 7\<rparr>"

theorem judge_reward_needs_five_conditions_witness:
  "\<exists>paid proof. judge_presence sample_reads [(''j'', [''a'', ''b''])] {} [(''a'', Some sample_report)] 10 = Inr (paid, proof)
     \<and> map_of paid ''a'' \<noteq> None \<and> map_of paid ''b'' = None"
proof -
  have "case judge_presence sample_reads [(''j'', [''a'', ''b''])] {} [(''a'', Some sample_report)] 10 of Inl e \<Rightarrow> False | Inr x \<Rightarrow> True"
    by code_simp
  then obtain paid "proof" where j: "judge_presence sample_reads [(''j'', [''a'', ''b''])] {} [(''a'', Some sample_report)] 10 = Inr (paid, proof)"
    by (auto split: sum.splits)
  have a: "judged_after_reveal sample_reads ''a'' ''j''"
    by (simp add: judged_after_reveal_def sample_reads_def reveal_key_def get_or_def)
  have "map_of paid ''a'' \<noteq> None"
    using judge_reward_needs_five_conditions [OF j, of "''a''"] a by (simp add: sample_report_def JUDGE_ACTIVE_ROLE_def)
  moreover have "map_of paid ''b'' = None"
    using judge_reward_needs_five_conditions [OF j, of "''b''"] by (cases "map_of paid ''b''") auto
  ultimately show ?thesis using j by blast
qed

theorem verdicts_paid_after_their_reveal_witness:
  "\<exists>counts proof. jury_verdicts sample_reads = Inr (counts, proof) \<and> get_or counts ''a'' 0 = 1"
proof -
  have "case jury_verdicts sample_reads of Inl e \<Rightarrow> False | Inr x \<Rightarrow> True" by code_simp
  then obtain counts "proof" where j: "jury_verdicts sample_reads = Inr (counts, proof)" by (auto split: sum.splits)
  have "wf_dict (jr_votes sample_reads)" "\<forall>(job, votes) \<in> set (jr_votes sample_reads). wf_dict votes"
    by (simp_all add: sample_reads_def wf_dict_def)
  note p = verdicts_paid_after_their_reveal [OF j this, of "''a''"]
  have "{job. map_of (get_or (jr_votes sample_reads) job []) ''a'' \<noteq> None \<and> map_of (jr_primaries sample_reads) job \<noteq> Some ''a''
      \<and> judged_after_reveal sample_reads ''a'' job} = {''j''}"
    by (auto simp: judged_after_reveal_def sample_reads_def reveal_key_def get_or_def split: if_splits)
  with p j show ?thesis by simp
qed

theorem only_faults_contradict_witness:
  "\<exists>out proof. fault_contradictions [(''j'', ''no_reveal'')]
       [(''j'', \<lparr>au_resolution = None, au_jurors = [(''a'', \<lparr>je_vote = ''1'', je_at = Some 9, je_counted = True, je_why = []\<rparr>)]\<rparr>)]
       [(''j__a__m'', NoReveal)] [(''j'', ''m'')] = Inr (out, proof) \<and> ''a'' \<in> out"
proof -
  let ?v = "[(''j'', \<lparr>au_resolution = None, au_jurors = [(''a'', \<lparr>je_vote = ''1'', je_at = Some 9, je_counted = True, je_why = []\<rparr>)]\<rparr>)]"
  have "case fault_contradictions [(''j'', ''no_reveal'')] ?v [(''j__a__m'', NoReveal)] [(''j'', ''m'')] of Inl e \<Rightarrow> False | Inr x \<Rightarrow> True"
    by code_simp
  then obtain out "proof" where f: "fault_contradictions [(''j'', ''no_reveal'')] ?v [(''j__a__m'', NoReveal)] [(''j'', ''m'')] = Inr (out, proof)"
    by (auto split: sum.splits)
  have "wf_dict [(''j'', ''no_reveal'')]" "\<forall>(job, a) \<in> set ?v. wf_dict (au_jurors a)" by (simp_all add: wf_dict_def)
  from only_faults_contradict [OF f this, of "''a''"] have "''a'' \<in> out"
    by (simp add: wrong_on_fault_def CONTRADICTING_CLASSES_def reveal_key_def)
  with f show ?thesis by blast
qed

end
