(* ===== verification/Season_Faults.thy ===== *)
theory Season_Faults
  imports Season_Facts
begin

text \<open>
  The controlled-fault requests of the jury set: the canonical document whose digest is a period's commitment
  (\<open>src/services/final_season_rules.py\<close>), the check of a period's reveal against it and the completeness of the reveal
  (\<open>src/services/final_season_facts.py\<close>). The JSON reader is a parameter: what it answers is compared with the document's bytes by
  printing it back, so nothing is assumed of it.
\<close>

section \<open>The canonical document\<close>

text \<open>\<open>json.dumps\<close> with \<open>ensure_ascii=False\<close>: only the quote, the backslash and the control characters are escaped.\<close>

definition raw_char :: "char \<Rightarrow> string" where
  "raw_char c = (if (of_char c :: nat) \<ge> 127 then [c] else json_char c)"

definition raw_str :: "string \<Rightarrow> string" where
  "raw_str s = [CHR 0x22] @ concat (map raw_char s) @ [CHR 0x22]"

fun raw_dumps :: "host \<Rightarrow> pyval \<Rightarrow> string" where
  "raw_dumps H PNone = ''null''"
| "raw_dumps H (PBool b) = (if b then ''true'' else ''false'')"
| "raw_dumps H (PInt i) = show_int i"
| "raw_dumps H (PFloat q) = float_repr H q"
| "raw_dumps H (PStr s) = raw_str s"
| "raw_dumps H (PList vs) = ''['' @ join '','' (map (raw_dumps H) vs) @ '']''"
| "raw_dumps H (PDict kvs) =
     ''{'' @ join '','' (map (\<lambda>(k, t). raw_str k @ '':'' @ t) (sort_key fst (map (\<lambda>(k, v). (k, raw_dumps H v)) kvs))) @ ''}''"

definition canonical_fault_document :: "host \<Rightarrow> pydict \<Rightarrow> string" where
  "canonical_fault_document H doc = utf8 (raw_dumps H (PDict doc))"

section \<open>The check of a document\<close>

definition FAULT_DOC_VERSION :: int where
  "FAULT_DOC_VERSION = 1"

definition FAULT_DOC_KEYS :: "string list" where
  "FAULT_DOC_KEYS = [''classes'', ''fault_bps'', ''from_day'', ''nonce'', ''seed_sha256'', ''to_day'', ''traps'', ''version'']"

definition FAULT_REVEAL_KEYS :: "string list" where
  "FAULT_REVEAL_KEYS = [''version'', ''commitment'', ''seed'', ''faults'']"

definition FAULT_ENTRY_KEYS :: "string list" where
  "FAULT_ENTRY_KEYS = [''job_id'', ''miner_id'', ''class'', ''question'', ''answer'', ''faulted'']"

definition is_fault_miner :: "string \<Rightarrow> bool" where
  "is_fault_miner s \<longleftrightarrow> s \<noteq> [] \<and> is_alnum (hd s) \<and> length (tl s) \<le> 63 \<and> list_all (\<lambda>c. is_alnum c \<or> c \<in> set ''_.-'') (tl s)"

definition is_fault_job :: "string \<Rightarrow> bool" where
  "is_fault_job s \<longleftrightarrow> 1 \<le> length s \<and> length s \<le> 128 \<and> list_all (\<lambda>c. is_alnum c \<or> c \<in> set ''_.:-'') s"

text \<open>\<open>v in d\<close> and \<open>set(vs)\<close> hash their values: a list or an object raises.\<close>

definition unhashable :: "pyval \<Rightarrow> bool" where
  "unhashable v \<longleftrightarrow> list_of v \<noteq> None \<or> dict_of v \<noteq> None"

definition named_classes :: "pyval \<Rightarrow> string list result" where
  "named_classes v = (case v of
     PList cs \<Rightarrow>
       if cs = [] then Inl ValueError
       else if list_ex unhashable cs then Inl TypeError
       else (let ks = filter (\<lambda>k. PStr k \<in> set cs) FAULT_CLASSES in if cs = map PStr ks then Inr ks else Inl ValueError)
   | _ \<Rightarrow> Inl ValueError)"

definition hex64_of :: "pyval \<Rightarrow> string result" where
  "hex64_of v = (case v of PStr s \<Rightarrow> if is_hex64 s then Inr s else Inl ValueError | _ \<Rightarrow> Inl ValueError)"

definition trap_of :: "string \<Rightarrow> pyval \<Rightarrow> (string \<times> string) result" where
  "trap_of prev v = (case v of
     PDict t \<Rightarrow>
       if \<not> has_keys t [''miner_id'', ''payout_address''] then Inl ValueError
       else (case (dget t ''miner_id'', dget t ''payout_address'') of
           (PStr m, PStr a) \<Rightarrow> if is_fault_miner m \<and> is_payer a \<and> prev < m then Inr (m, a) else Inl ValueError
         | _ \<Rightarrow> Inl ValueError)
   | _ \<Rightarrow> Inl ValueError)"

fun check_traps :: "string \<Rightarrow> pyval list \<Rightarrow> (string, string) dict result" where
  "check_traps prev [] = Inr []"
| "check_traps prev (v # vs) = bind_res (trap_of prev v) (\<lambda>t. bind_res (check_traps (fst t) vs) (\<lambda>ts. Inr (t # ts)))"

record fault_doc =
  fd_bps :: int
  fd_classes :: "string list"
  fd_seed_sha256 :: string
  fd_traps :: "(string, string) dict"

definition check_document :: "host \<Rightarrow> (string \<Rightarrow> pyval result) \<Rightarrow> fault_period \<Rightarrow> string \<Rightarrow> fault_doc result" where
  "check_document H loads period doc_bytes =
     (if hexdigest (sha256 H doc_bytes) \<noteq> commitment period then Inl ValueError
      else bind_res (loads doc_bytes) (\<lambda>v. case v of
        PDict doc \<Rightarrow>
          if \<not> has_keys doc FAULT_DOC_KEYS \<or> canonical_fault_document H doc \<noteq> doc_bytes then Inl ValueError
          else if dget doc ''version'' \<noteq> PInt FAULT_DOC_VERSION then Inl ValueError
          else if dget doc ''from_day'' \<noteq> PInt (from_day period) \<or> dget doc ''to_day'' \<noteq> PInt (to_day period) then Inl ValueError
          else (case dget doc ''fault_bps'' of
              PInt bps \<Rightarrow>
                if \<not> (0 < bps \<and> bps \<le> 10000) then Inl ValueError
                else
                  bind_res (named_classes (dget doc ''classes'')) (\<lambda>classes.
                  bind_res (hex64_of (dget doc ''seed_sha256'')) (\<lambda>seed_sha.
                  bind_res (hex64_of (dget doc ''nonce'')) (\<lambda>nonce.
                    case dget doc ''traps'' of
                      PList ts \<Rightarrow> if ts = [] then Inl ValueError else bind_res (check_traps [] ts) (\<lambda>traps.
                        Inr \<lparr>fd_bps = bps, fd_classes = classes, fd_seed_sha256 = seed_sha, fd_traps = traps\<rparr>)
                    | _ \<Rightarrow> Inl ValueError)))
            | _ \<Rightarrow> Inl ValueError)
      | _ \<Rightarrow> Inl ValueError))"

section \<open>The check of a reveal\<close>

definition hex_val :: "char \<Rightarrow> nat" where
  "hex_val c = (if is_digit c then digit_val c else of_char c - 87)"

text \<open>\<open>bytes.fromhex\<close> of lowercase hexadecimal digits.\<close>

fun fromhex :: "string \<Rightarrow> string" where
  "fromhex (a # b # s) = char_of (16 * hex_val a + hex_val b) # fromhex s"
| "fromhex _ = []"

record fault_entry =
  fe_miner :: string
  fe_class :: string
  fe_question :: string
  fe_answer :: string
  fe_faulted :: bool

record checked_reveal =
  cr_doc :: fault_doc
  cr_seed :: string
  cr_faults :: "(string, fault_entry) dict"

definition entry_shape :: "(string, fault_entry) dict \<Rightarrow> pyval \<Rightarrow> (string \<times> pydict \<times> string \<times> string \<times> bool) option" where
  "entry_shape faults v = (case v of
     PDict e \<Rightarrow>
       if \<not> has_keys e FAULT_ENTRY_KEYS then None
       else (case (dget e ''job_id'', dget e ''question'', dget e ''answer'', dget e ''faulted'') of
           (PStr job, PStr q, PStr a, PBool f) \<Rightarrow>
             if is_fault_job job \<and> map_of faults job = None then Some (job, e, q, a, f) else None
         | _ \<Rightarrow> None)
   | _ \<Rightarrow> None)"

definition check_entry :: "host \<Rightarrow> fault_doc \<Rightarrow> string \<Rightarrow> (string, fault_entry) dict \<Rightarrow> pyval \<Rightarrow> (string \<times> fault_entry) result" where
  "check_entry H doc seed faults v = (case entry_shape faults v of
     None \<Rightarrow> Inl ValueError
   | Some (job, e, q, a, f) \<Rightarrow>
       (if unhashable (dget e ''miner_id'') then Inl TypeError
        else (case (dget e ''miner_id'', dget e ''class'') of
            (PStr m, PStr cls) \<Rightarrow>
              if map_of (fd_traps doc) m = None then Inl ValueError
              else if cls \<notin> set (fd_classes doc) then Inl ValueError
              else bind_res (fault_draw H seed job (fd_bps doc) (fd_classes doc)) (\<lambda>drawn.
                if drawn \<noteq> Some cls then Inl ValueError
                else Inr (job, \<lparr>fe_miner = m, fe_class = cls, fe_question = q, fe_answer = a, fe_faulted = f\<rparr>))
          | _ \<Rightarrow> Inl ValueError)))"

fun check_entries :: "host \<Rightarrow> fault_doc \<Rightarrow> string \<Rightarrow> (string, fault_entry) dict \<Rightarrow> pyval list \<Rightarrow> (string, fault_entry) dict result" where
  "check_entries H doc seed faults [] = Inr faults"
| "check_entries H doc seed faults (v # vs) =
     bind_res (check_entry H doc seed faults v) (\<lambda>(job, e). check_entries H doc seed (AList.update job e faults) vs)"

definition check_fault_reveal :: "host \<Rightarrow> (string \<Rightarrow> pyval result) \<Rightarrow> fault_period \<Rightarrow> string \<Rightarrow> pyval \<Rightarrow> checked_reveal result" where
  "check_fault_reveal H loads period doc_bytes reveal =
     bind_res (check_document H loads period doc_bytes) (\<lambda>doc. case reveal of
       PDict r \<Rightarrow>
         if \<not> has_keys r FAULT_REVEAL_KEYS then Inl ValueError
         else if \<not> eq_int (dget r ''version'') FAULT_DOC_VERSION \<or> \<not> eq_str (dget r ''commitment'') (commitment period) then Inl ValueError
         else bind_res (hex64_of (dget r ''seed'')) (\<lambda>seed.
           if hexdigest (sha256 H (fromhex seed)) \<noteq> fd_seed_sha256 doc then Inl ValueError
           else (case dget r ''faults'' of
               PList es \<Rightarrow> bind_res (check_entries H doc (fromhex seed) [] es) (\<lambda>faults.
                 Inr \<lparr>cr_doc = doc, cr_seed = fromhex seed, cr_faults = faults\<rparr>)
             | _ \<Rightarrow> Inl ValueError))
     | _ \<Rightarrow> Inl ValueError)"

section \<open>What a reveal leaves out\<close>

definition trap_job :: "checked_reveal \<Rightarrow> (string, int) dict \<Rightarrow> string \<Rightarrow> int \<times> int \<Rightarrow> job \<Rightarrow> bool" where
  "trap_job checked settled generator w j \<longleftrightarrow>
     jb_client j = generator \<and> map_of (fd_traps (cr_doc checked)) (jb_miner j) \<noteq> None \<and> in_window w settled (jb_id j)"

fun not_listed :: "host \<Rightarrow> checked_reveal \<Rightarrow> (string, int) dict \<Rightarrow> string \<Rightarrow> int \<times> int \<Rightarrow> job list \<Rightarrow> (string \<times> string \<times> string) list result" where
  "not_listed H checked settled generator w [] = Inr []"
| "not_listed H checked settled generator w (j # js) =
     (if \<not> trap_job checked settled generator w j then not_listed H checked settled generator w js
      else bind_res (fault_draw H (cr_seed checked) (jb_id j) (fd_bps (cr_doc checked)) (fd_classes (cr_doc checked))) (\<lambda>drawn.
           bind_res (not_listed H checked settled generator w js) (\<lambda>rest.
             Inr (case drawn of
                 None \<Rightarrow> rest
               | Some cls \<Rightarrow> if map_of (cr_faults checked) (jb_id j) = None then (jb_id j, jb_miner j, cls) # rest else rest))))"

definition drawn_not_listed :: "host \<Rightarrow> checked_reveal \<Rightarrow> job list \<Rightarrow> (string, int) dict \<Rightarrow> string \<Rightarrow> int \<Rightarrow> int \<Rightarrow> (string \<times> string \<times> string) list result" where
  "drawn_not_listed H checked jobs settled generator first final = not_listed H checked settled generator (first, final) (sort_key jb_id jobs)"

section \<open>What an accepted reveal says\<close>

definition drawn_entry :: "host \<Rightarrow> fault_doc \<Rightarrow> string \<Rightarrow> string \<Rightarrow> fault_entry \<Rightarrow> bool" where
  "drawn_entry H doc seed job e \<longleftrightarrow> is_fault_job job \<and> map_of (fd_traps doc) (fe_miner e) \<noteq> None \<and> fe_class e \<in> set (fd_classes doc)
     \<and> fault_draw H seed job (fd_bps doc) (fd_classes doc) = Inr (Some (fe_class e))"

lemma entry_shape_job: "entry_shape faults v = Some (job, e, q, a, f) \<Longrightarrow> is_fault_job job \<and> map_of faults job = None"
  by (auto simp: entry_shape_def split: pyval.splits if_splits)

lemma check_entry_drawn:
  assumes "check_entry H doc seed faults v = Inr (job, e)"
  shows "drawn_entry H doc seed job e"
proof -
  obtain d q a f where s: "entry_shape faults v = Some (job, d, q, a, f)"
    using assms by (auto simp: check_entry_def bind_res_eq_Inr split: option.splits if_splits pyval.splits)
  then show ?thesis using assms entry_shape_job [OF s]
    by (auto simp: check_entry_def drawn_entry_def bind_res_eq_Inr split: if_splits pyval.splits)
qed

lemma check_entries_drawn:
  "check_entries H doc seed faults vs = Inr out \<Longrightarrow> wf_dict faults \<Longrightarrow> (\<forall>job e. map_of faults job = Some e \<longrightarrow> drawn_entry H doc seed job e) \<Longrightarrow>
    wf_dict out \<and> (\<forall>job e. map_of out job = Some e \<longrightarrow> drawn_entry H doc seed job e)"
proof (induction H doc seed faults vs rule: check_entries.induct)
  case (2 H doc seed faults v vs)
  from 2(2) obtain job e where e: "check_entry H doc seed faults v = Inr (job, e)"
    and r: "check_entries H doc seed (AList.update job e faults) vs = Inr out" by (auto simp: bind_res_eq_Inr)
  have "\<forall>job' e'. map_of (AList.update job e faults) job' = Some e' \<longrightarrow> drawn_entry H doc seed job' e'"
    using check_entry_drawn [OF e] 2(4) by (auto simp: map_of_update)
  then show ?case using "2.IH" [OF r] 2(3) by simp
qed simp

lemma check_traps_sorted:
  "check_traps prev vs = Inr ts \<Longrightarrow> sorted_wrt (<) (prev # map fst ts) \<and> (\<forall>(m, a) \<in> set ts. is_fault_miner m \<and> is_payer a) \<and> length ts = length vs"
proof (induction prev vs arbitrary: ts rule: check_traps.induct)
  case (2 prev v vs)
  then obtain m a ts' where t: "trap_of prev v = Inr (m, a)" "check_traps m vs = Inr ts'" "ts = (m, a) # ts'" by (auto simp: bind_res_eq_Inr)
  have "is_fault_miner m \<and> is_payer a \<and> prev < m" using t(1) by (auto simp: trap_of_def split: pyval.splits if_splits)
  moreover have "sorted_wrt (<) (m # map fst ts') \<and> (\<forall>(m, a) \<in> set ts'. is_fault_miner m \<and> is_payer a) \<and> length ts' = length vs"
    using "2.IH" [of "(m, a)" ts'] t by simp
  ultimately show ?case using t(3) by (auto intro: less_trans)
qed simp

lemma named_classes_order: "named_classes v = Inr cs \<Longrightarrow> cs \<noteq> [] \<and> (\<exists>P. cs = filter P FAULT_CLASSES)"
  by (auto simp: named_classes_def Let_def split: pyval.splits if_splits) metis

lemma check_document_Inr:
  assumes "check_document H loads period bs = Inr doc"
  shows "hexdigest (sha256 H bs) = commitment period" "0 < fd_bps doc" "fd_bps doc \<le> 10000"
    and "fd_classes doc \<noteq> []" "\<exists>P. fd_classes doc = filter P FAULT_CLASSES" "is_hex64 (fd_seed_sha256 doc)"
    and "fd_traps doc \<noteq> []" "sorted_wrt (<) (map fst (fd_traps doc))" "\<forall>(m, a) \<in> set (fd_traps doc). is_fault_miner m \<and> is_payer a"
proof -
  obtain d bps classes seed_sha nonce ts traps where d: "hexdigest (sha256 H bs) = commitment period" "0 < bps" "bps \<le> 10000"
    "named_classes (dget d ''classes'') = Inr classes" "hex64_of (dget d ''seed_sha256'') = Inr seed_sha" "ts \<noteq> []" "check_traps [] ts = Inr traps"
    "doc = \<lparr>fd_bps = bps, fd_classes = classes, fd_seed_sha256 = seed_sha, fd_traps = traps\<rparr>"
  proof -
    from assms obtain v where v: "hexdigest (sha256 H bs) = commitment period" "loads bs = Inr v"
      by (auto simp: check_document_def bind_res_eq_Inr split: if_splits)
    obtain d where d: "v = PDict d" using assms v by (cases v) (auto simp: check_document_def)
    obtain bps where b: "dget d ''fault_bps'' = PInt bps" "0 < bps \<and> bps \<le> 10000"
      using assms v d by (cases "dget d ''fault_bps''") (auto simp: check_document_def split: if_splits)
    obtain classes seed_sha nonce where c: "named_classes (dget d ''classes'') = Inr classes" "hex64_of (dget d ''seed_sha256'') = Inr seed_sha"
      "hex64_of (dget d ''nonce'') = Inr nonce"
      using assms v d b by (auto simp: check_document_def bind_res_eq_Inr split: if_splits)
    obtain ts where ts: "dget d ''traps'' = PList ts" using assms v d b c by (cases "dget d ''traps''") (auto simp: check_document_def split: if_splits)
    show thesis using that [of bps d classes seed_sha ts] assms v d b c ts
      by (auto simp: check_document_def bind_res_eq_Inr split: if_splits)
  qed
  show "hexdigest (sha256 H bs) = commitment period" "0 < fd_bps doc" "fd_bps doc \<le> 10000" using d by simp_all
  show "fd_classes doc \<noteq> []" "\<exists>P. fd_classes doc = filter P FAULT_CLASSES" using named_classes_order [OF d(4)] d(8) by simp_all
  show "is_hex64 (fd_seed_sha256 doc)" using d(5,8) by (auto simp: hex64_of_def split: pyval.splits if_splits)
  show "fd_traps doc \<noteq> []" "sorted_wrt (<) (map fst (fd_traps doc))" "\<forall>(m, a) \<in> set (fd_traps doc). is_fault_miner m \<and> is_payer a"
    using check_traps_sorted [OF d(7)] d(6,8) by auto
qed

lemma check_fault_reveal_Inr:
  assumes "check_fault_reveal H loads period bs reveal = Inr c"
  shows "check_document H loads period bs = Inr (cr_doc c)" "hexdigest (sha256 H (cr_seed c)) = fd_seed_sha256 (cr_doc c)"
    and "wf_dict (cr_faults c)" "map_of (cr_faults c) job = Some e \<Longrightarrow> drawn_entry H (cr_doc c) (cr_seed c) job e"
proof -
  from assms obtain doc where doc: "check_document H loads period bs = Inr doc" by (auto simp: check_fault_reveal_def bind_res_eq_Inr)
  obtain r where r: "reveal = PDict r" using assms doc by (cases reveal) (auto simp: check_fault_reveal_def)
  obtain seed where s: "hex64_of (dget r ''seed'') = Inr seed" "hexdigest (sha256 H (fromhex seed)) = fd_seed_sha256 doc"
    using assms doc r by (auto simp: check_fault_reveal_def bind_res_eq_Inr split: if_splits)
  obtain es where es: "dget r ''faults'' = PList es" using assms doc r s by (cases "dget r ''faults''") (auto simp: check_fault_reveal_def split: if_splits)
  obtain faults where f: "check_entries H doc (fromhex seed) [] es = Inr faults" "c = \<lparr>cr_doc = doc, cr_seed = fromhex seed, cr_faults = faults\<rparr>"
    using assms doc r s es by (auto simp: check_fault_reveal_def bind_res_eq_Inr split: if_splits)
  show "check_document H loads period bs = Inr (cr_doc c)" "hexdigest (sha256 H (cr_seed c)) = fd_seed_sha256 (cr_doc c)" using doc s f by simp_all
  show "wf_dict (cr_faults c)" "map_of (cr_faults c) job = Some e \<Longrightarrow> drawn_entry H (cr_doc c) (cr_seed c) job e"
    using check_entries_drawn [OF f(1)] f(2) by simp_all
qed

lemma not_listed_complete:
  "not_listed H c settled generator w js = Inr [] \<Longrightarrow> j \<in> set js \<Longrightarrow> trap_job c settled generator w j \<Longrightarrow>
    \<exists>drawn. fault_draw H (cr_seed c) (jb_id j) (fd_bps (cr_doc c)) (fd_classes (cr_doc c)) = Inr drawn
      \<and> (drawn \<noteq> None \<longrightarrow> map_of (cr_faults c) (jb_id j) \<noteq> None)"
proof (induction H c settled generator w js rule: not_listed.induct)
  case (2 H c settled generator w x xs)
  show ?case
  proof (cases "trap_job c settled generator w x")
    case True
    then obtain drawn rest where d: "fault_draw H (cr_seed c) (jb_id x) (fd_bps (cr_doc c)) (fd_classes (cr_doc c)) = Inr drawn"
      "not_listed H c settled generator w xs = Inr rest"
      "[] = (case drawn of None \<Rightarrow> rest | Some cls \<Rightarrow> if map_of (cr_faults c) (jb_id x) = None then (jb_id x, jb_miner x, cls) # rest else rest)"
      using 2(3) by (auto simp: bind_res_eq_Inr)
    then have "rest = []" "drawn \<noteq> None \<longrightarrow> map_of (cr_faults c) (jb_id x) \<noteq> None" by (auto split: option.splits if_splits)
    with 2 True d show ?thesis by auto
  qed (use 2 in auto)
qed simp

text \<open>A job of a trap is listed exactly when the seed draws it, in the class the seed draws.\<close>

lemma listed_as_drawn:
  assumes "check_fault_reveal H loads period bs reveal = Inr c" "drawn_not_listed H c jobs settled generator first final = Inr []"
    and "j \<in> set jobs" "trap_job c settled generator (first, final) j"
  shows "fault_draw H (cr_seed c) (jb_id j) (fd_bps (cr_doc c)) (fd_classes (cr_doc c)) = Inr (map_option fe_class (map_of (cr_faults c) (jb_id j)))"
proof -
  obtain drawn where d: "fault_draw H (cr_seed c) (jb_id j) (fd_bps (cr_doc c)) (fd_classes (cr_doc c)) = Inr drawn"
    "drawn \<noteq> None \<longrightarrow> map_of (cr_faults c) (jb_id j) \<noteq> None"
    using not_listed_complete [OF assms(2) [unfolded drawn_not_listed_def], of j] assms(3,4) by auto
  show ?thesis
  proof (cases "map_of (cr_faults c) (jb_id j)")
    case (Some e)
    then show ?thesis using check_fault_reveal_Inr(4) [OF assms(1) Some] by (simp add: drawn_entry_def)
  qed (use d in auto)
qed


text \<open>
  An accepted reveal is well formed, whatever JSON was revealed. Its rate is a proportion above zero; its classes are the known ones, in
  their order, at least one; its identities are valid names with payable forms of address, strictly increasing, at least one; its seed
  is the one the document commits; and each request it lists is named once, belongs to a committed identity and carries the class the seed draws.
\<close>

theorem accepted_reveal_well_formed:
  assumes "check_fault_reveal H loads period bs reveal = Inr c"
  shows "0 < fd_bps (cr_doc c) \<and> fd_bps (cr_doc c) \<le> 10000
    \<and> fd_classes (cr_doc c) \<noteq> [] \<and> (\<exists>P. fd_classes (cr_doc c) = filter P FAULT_CLASSES)
    \<and> fd_traps (cr_doc c) \<noteq> [] \<and> sorted_wrt (<) (map fst (fd_traps (cr_doc c)))
    \<and> (\<forall>(m, a) \<in> set (fd_traps (cr_doc c)). is_fault_miner m \<and> is_payer a)
    \<and> hexdigest (sha256 H bs) = commitment period \<and> hexdigest (sha256 H (cr_seed c)) = fd_seed_sha256 (cr_doc c)
    \<and> wf_dict (cr_faults c) \<and> (\<forall>job e. map_of (cr_faults c) job = Some e \<longrightarrow> drawn_entry H (cr_doc c) (cr_seed c) job e)"
  using check_fault_reveal_Inr [OF assms] check_document_Inr [OF check_fault_reveal_Inr(1) [OF assms]] by blast

section \<open>Examples\<close>

text \<open>A host whose digest is the first 32 characters of what it digests.\<close>

definition prefix_host :: host where
  "prefix_host = sample_host\<lparr>sha256 := (\<lambda>bs. take 32 (bs @ replicate 32 (CHR ''x'')))\<rparr>"

definition sample_seed :: string where
  "sample_seed = replicate 64 (CHR ''6'')"

definition sample_trap :: string where
  "sample_trap = ''dendra1'' @ replicate 38 (CHR ''q'')"

definition sample_fault_doc :: pydict where
  "sample_fault_doc = [(''classes'', PList [PStr ''no_reveal'']), (''fault_bps'', PInt 10000), (''from_day'', PInt 3), (''nonce'', PStr sample_seed),
     (''seed_sha256'', PStr sample_seed), (''to_day'', PInt 4),
     (''traps'', PList [PDict [(''miner_id'', PStr ''t1''), (''payout_address'', PStr sample_trap)]]), (''version'', PInt 1)]"

definition sample_fault_bytes :: string where
  "sample_fault_bytes = canonical_fault_document prefix_host sample_fault_doc"

definition sample_fault_period :: fault_period where
  "sample_fault_period = \<lparr>from_day = 3, to_day = 4, commitment = hexdigest (sha256 prefix_host sample_fault_bytes)\<rparr>"

definition sample_entry :: pydict where
  "sample_entry = [(''job_id'', PStr ''j1''), (''miner_id'', PStr ''t1''), (''class'', PStr ''no_reveal''), (''question'', PStr ''q''),
     (''answer'', PStr ''a''), (''faulted'', PBool True)]"

definition sample_reveal :: pyval where
  "sample_reveal = PDict [(''version'', PInt 1), (''commitment'', PStr (commitment sample_fault_period)), (''seed'', PStr sample_seed),
     (''faults'', PList [PDict sample_entry])]"

definition sample_doc :: fault_doc where
  "sample_doc = \<lparr>fd_bps = 10000, fd_classes = [''no_reveal''], fd_seed_sha256 = sample_seed, fd_traps = [(''t1'', sample_trap)]\<rparr>"

definition sample_checked :: checked_reveal where
  "sample_checked = \<lparr>cr_doc = sample_doc, cr_seed = fromhex sample_seed, cr_faults = [(''j1'',
     \<lparr>fe_miner = ''t1'', fe_class = ''no_reveal'', fe_question = ''q'', fe_answer = ''a'', fe_faulted = True\<rparr>)]\<rparr>"

lemma sample_trap_ok: "check_traps [] [PDict [(''miner_id'', PStr ''t1''), (''payout_address'', PStr sample_trap)]] = Inr [(''t1'', sample_trap)]"
  by code_simp

lemma sample_seed_ok: "is_hex64 sample_seed" "hexdigest (sha256 prefix_host (fromhex sample_seed)) = sample_seed"
  by code_simp+

lemma sample_drawn: "fault_draw prefix_host (fromhex sample_seed) ''j1'' 10000 [''no_reveal''] = Inr (Some ''no_reveal'')"
proof -
  have "int n mod 10000 < 10000" for n by simp
  then show ?thesis by (simp add: fault_draw_def Let_def not_le [symmetric] del: fromhex.simps)
qed

lemma sample_document_accepted:
  "check_document prefix_host (\<lambda>bs. Inr (PDict sample_fault_doc)) sample_fault_period sample_fault_bytes = Inr sample_doc"
proof -
  have keys: "has_keys sample_fault_doc FAULT_DOC_KEYS" by code_simp
  have fields: "dget sample_fault_doc ''version'' = PInt FAULT_DOC_VERSION" "dget sample_fault_doc ''from_day'' = PInt 3"
    "dget sample_fault_doc ''to_day'' = PInt 4" "dget sample_fault_doc ''fault_bps'' = PInt 10000"
    "dget sample_fault_doc ''classes'' = PList [PStr ''no_reveal'']" "dget sample_fault_doc ''seed_sha256'' = PStr sample_seed"
    "dget sample_fault_doc ''nonce'' = PStr sample_seed"
    "dget sample_fault_doc ''traps'' = PList [PDict [(''miner_id'', PStr ''t1''), (''payout_address'', PStr sample_trap)]]"
    by (simp_all add: sample_fault_doc_def dget_def get_or_def FAULT_DOC_VERSION_def)
  have classes: "named_classes (PList [PStr ''no_reveal'']) = Inr [''no_reveal'']" by code_simp
  show ?thesis
    by (simp add: check_document_def sample_fault_period_def keys fields classes sample_fault_bytes_def hex64_of_def sample_seed_ok(1)
        sample_trap_ok sample_doc_def del: check_traps.simps)
qed

lemma sample_reveal_accepted:
  "check_fault_reveal prefix_host (\<lambda>bs. Inr (PDict sample_fault_doc)) sample_fault_period sample_fault_bytes sample_reveal = Inr sample_checked"
proof -
  have entry: "entry_shape [] (PDict sample_entry) = Some (''j1'', sample_entry, ''q'', ''a'', True)" by code_simp
  have fields: "dget sample_entry ''miner_id'' = PStr ''t1''" "dget sample_entry ''class'' = PStr ''no_reveal''"
    by (simp_all add: sample_entry_def dget_def get_or_def)
  have "check_entries prefix_host sample_doc (fromhex sample_seed) [] [PDict sample_entry] = Inr (cr_faults sample_checked)"
    by (simp add: check_entry_def entry fields unhashable_def sample_drawn sample_doc_def sample_checked_def list_of_def dict_of_def)
  then show ?thesis
    by (simp add: check_fault_reveal_def sample_document_accepted sample_reveal_def has_keys_def FAULT_REVEAL_KEYS_def dget_def get_or_def
        eq_str_def FAULT_DOC_VERSION_def hex64_of_def sample_seed_ok sample_doc_def sample_checked_def insert_commute del: check_entries.simps fromhex.simps)
qed

definition sample_trap_job :: job where
  "sample_trap_job = \<lparr>jb_id = ''j1'', jb_state = ''open+paid'', jb_miner = ''t1'', jb_client = ''gen'', jb_voters = 0, jb_slashed = Some (PBool False)\<rparr>"


theorem accepted_reveal_well_formed_witness:
  "sorted_wrt (<) (map fst (fd_traps (cr_doc sample_checked))) \<and> drawn_entry prefix_host (cr_doc sample_checked) (cr_seed sample_checked) ''j1''
     \<lparr>fe_miner = ''t1'', fe_class = ''no_reveal'', fe_question = ''q'', fe_answer = ''a'', fe_faulted = True\<rparr>"
proof -
  have "map_of (cr_faults sample_checked) ''j1'' = Some \<lparr>fe_miner = ''t1'', fe_class = ''no_reveal'', fe_question = ''q'', fe_answer = ''a'', fe_faulted = True\<rparr>"
    by (simp add: sample_checked_def)
  with accepted_reveal_well_formed [OF sample_reveal_accepted] show ?thesis by blast
qed

end
