(* ===== verification/Relay_Start.thy ===== *)
theory Relay_Start
  imports Kit_Floor Cosmos_Addr
begin

text \<open>
  What the relay reads before it serves: the flags and addresses of \<open>src/services/modea/exposure.py\<close>, and the settings
  and start-up verdicts of \<open>src/services/relay.py\<close> (\<open>_read_kind_budget\<close>, \<open>request_price_from_env\<close>, \<open>verdict_*\<close>, the
  decision of \<open>main\<close>). A verdict is refused, a warning or an acceptance, with or without a line to print; the lines themselves are not
  modelled. The reading of a number by \<open>float\<close> is a parameter: nothing when the text is not a finite number.
\<close>

section \<open>Flags and addresses\<close>

definition ARMED :: "string list" where
  "ARMED = [''1'', ''true'', ''yes'', ''on'']"

definition INERT :: "string list" where
  "INERT = [''0'', ''false'', ''no'', ''off'', '''']"

definition LOOPBACK :: "string list" where
  "LOOPBACK = [''127.0.0.1'', ''localhost'', ''::1'', ''[::1]'']"

definition security_flag :: "string option \<Rightarrow> bool result" where
  "security_flag value =
     (let raw = lower (strip (case value of None \<Rightarrow> [] | Some s \<Rightarrow> s)) in
      if raw \<in> set ARMED then Inr True else if raw \<in> set INERT then Inr False else Inl ValueError)"

definition public_enabled :: "string option \<Rightarrow> bool result" where
  "public_enabled value = security_flag value"

definition listens_locally :: "string option \<Rightarrow> bool" where
  "listens_locally host \<longleftrightarrow> lower (strip (case host of None \<Rightarrow> [] | Some s \<Rightarrow> s)) \<in> set LOOPBACK"

section \<open>Settings\<close>

definition KIND_BUDGET_FLOOR :: int where
  "KIND_BUDGET_FLOOR = 67108864"

definition read_kind_budget :: "(string \<Rightarrow> rat option) \<Rightarrow> string option \<Rightarrow> int \<times> bool" where
  "read_kind_budget float_of raw =
     (case raw of
        None \<Rightarrow> (KIND_BUDGET_FLOOR, False)
      | Some s \<Rightarrow>
          if strip s = [] then (KIND_BUDGET_FLOOR, False)
          else (case float_of (strip s) of
              None \<Rightarrow> (KIND_BUDGET_FLOOR, True)
            | Some mib \<Rightarrow>
                if mib \<le> 0 then (KIND_BUDGET_FLOOR, True)
                else (let want = \<lfloor>mib * 1048576\<rfloor> in
                  if want < KIND_BUDGET_FLOOR then (KIND_BUDGET_FLOOR, True) else (want, False))))"

definition RETENTION_FLOOR :: rat where
  "RETENTION_FLOOR = 86400"

definition RETENTION_DEFAULT :: rat where
  "RETENTION_DEFAULT = 604800"

definition read_retention :: "(string \<Rightarrow> rat option) \<Rightarrow> string option \<Rightarrow> rat" where
  "read_retention float_of raw =
     (let ret = (case raw of
          None \<Rightarrow> RETENTION_DEFAULT
        | Some s \<Rightarrow> if s = [] then RETENTION_DEFAULT else (case float_of s of None \<Rightarrow> RETENTION_DEFAULT | Some v \<Rightarrow> v))
      in max RETENTION_FLOOR ret)"

datatype memory_limit = NoLimit | Unknown | Limit int

definition MEMORY_MARGIN :: rat where
  "MEMORY_MARGIN = 80 / 100"

datatype verdict_class = Refuse | Warning | Ok

definition verdict_budget_memory :: "int \<Rightarrow> int \<Rightarrow> memory_limit \<Rightarrow> verdict_class \<times> bool" where
  "verdict_budget_memory budget kinds limit =
     (let worst = budget * kinds in
      case limit of
        Unknown \<Rightarrow> (Ok, True)
      | NoLimit \<Rightarrow> (Ok, False)
      | Limit l \<Rightarrow> if of_int worst \<le> MEMORY_MARGIN * of_int l then (Ok, False) else (Warning, True))"

text \<open>\<open>request_price_from_env\<close>: no price, a price, or a setting refused.\<close>

datatype price_setting = PriceUnset | Price int | PriceError

definition is_ascii :: "char \<Rightarrow> bool" where
  "is_ascii c \<longleftrightarrow> ord c < 128"

definition request_price_from_env :: "string option \<Rightarrow> price_setting" where
  "request_price_from_env raw =
     (let s = (case raw of None \<Rightarrow> [] | Some x \<Rightarrow> x) in
      if s = [] then PriceUnset
      else if \<not> (list_all is_ascii s \<and> list_all is_digit s \<and> hd s \<noteq> CHR ''0'') then PriceError
      else Price (int (read_nat s)))"

datatype sign_mode = SignOff | SignObserve | SignEnforce

text \<open>\<open>DENDRA_RELAY_SIGN\<close>: any other word stops the process at import.\<close>

definition read_sign_mode :: "string option \<Rightarrow> sign_mode option" where
  "read_sign_mode raw =
     (let s = (case raw of None \<Rightarrow> ''off'' | Some x \<Rightarrow> if x = [] then ''off'' else x); w = lower (strip s) in
      if w = ''off'' then Some SignOff else if w = ''observe'' then Some SignObserve
      else if w = ''enforce'' then Some SignEnforce else None)"

section \<open>Verdicts\<close>

definition verdict_exposure :: "string \<Rightarrow> string \<Rightarrow> string option \<Rightarrow> bool \<Rightarrow> verdict_class \<times> bool" where
  "verdict_exposure token token_prev host public =
     (if public then
        (if token = [] then (Refuse, True)
         else if length token < 16 then (Refuse, True)
         else if token_prev \<noteq> [] \<and> length token_prev < 16 then (Refuse, True)
         else (Ok, False))
      else if \<not> listens_locally host \<and> token = [] then (Refuse, True)
      else (Ok, False))"

definition verdict_attestation :: "bool \<Rightarrow> bool \<Rightarrow> string list \<Rightarrow> verdict_class \<times> bool" where
  "verdict_attestation public require allow_list =
     (if require \<and> allow_list = [] then (Refuse, True)
      else if public \<and> \<not> require then (Ok, True)
      else (Ok, False))"

definition verdict_signature :: "sign_mode \<Rightarrow> string \<Rightarrow> string \<Rightarrow> verdict_class \<times> bool" where
  "verdict_signature mode registry_url token =
     (if mode = SignOff then (Ok, False)
      else if registry_url = [] then (if mode = SignEnforce \<and> token = [] then (Refuse, True) else (Ok, True))
      else (Ok, False))"

definition verdict_kit_policy :: "kit_policy \<Rightarrow> verdict_class \<times> bool" where
  "verdict_kit_policy policy = (case policy of Misconfigured \<Rightarrow> (Refuse, True) | Dormant \<Rightarrow> (Ok, True) | Armed f t \<Rightarrow> (Ok, True))"

definition verdict_request_price :: "price_setting \<Rightarrow> verdict_class \<times> bool" where
  "verdict_request_price price = (case price of PriceError \<Rightarrow> (Refuse, True) | PriceUnset \<Rightarrow> (Ok, True) | Price p \<Rightarrow> (Ok, True))"

text \<open>What \<open>main\<close> starts on: the store opened, the flag read, and no verdict that refuses.\<close>

record start_settings =
  ss_store_open :: bool
  ss_public :: "string option"
  ss_host :: "string option"
  ss_token :: string
  ss_token_prev :: string
  ss_sign :: sign_mode
  ss_registry :: string
  ss_attest_require :: bool
  ss_attest_allow :: "string list"
  ss_kit :: kit_policy
  ss_price :: price_setting

definition start_verdicts :: "start_settings \<Rightarrow> bool \<Rightarrow> (verdict_class \<times> bool) list" where
  "start_verdicts ss public =
     [verdict_exposure (ss_token ss) (ss_token_prev ss) (ss_host ss) public,
      verdict_attestation public (ss_attest_require ss) (ss_attest_allow ss),
      verdict_signature (ss_sign ss) (ss_registry ss) (ss_token ss),
      verdict_kit_policy (ss_kit ss),
      verdict_request_price (ss_price ss)]"

definition starts_serving :: "start_settings \<Rightarrow> bool" where
  "starts_serving ss \<longleftrightarrow> ss_store_open ss
     \<and> (case public_enabled (ss_public ss) of Inl e \<Rightarrow> False | Inr public \<Rightarrow> list_all (\<lambda>v. fst v \<noteq> Refuse) (start_verdicts ss public))"

section \<open>Properties\<close>

lemma listens_locally_literal:
  "listens_locally (Some h) \<Longrightarrow> strip h \<noteq> [] \<and> lower (strip h) \<noteq> ''0.0.0.0''"
  by (auto simp: listens_locally_def LOOPBACK_def lower_def)

text \<open>A decimal text without a leading zero is the one its number prints.\<close>

lemma digit_char_val: "is_digit c \<Longrightarrow> digit_char (digit_val c) = c"
  by (simp add: is_digit_def digit_val_def digit_char_def)

lemma canonical_decimal: "s \<noteq> [] \<Longrightarrow> list_all is_digit s \<Longrightarrow> hd s \<noteq> CHR ''0'' \<Longrightarrow> 0 < read_nat s \<and> show_nat (read_nat s) = s"
proof (induction s rule: rev_induct)
  case (snoc c s)
  have c: "is_digit c" "digit_val c \<le> 9" using snoc.prems(2) digit_val_le by auto
  show ?case
  proof (cases "s = []")
    case True
    have "c \<noteq> CHR ''0''" using snoc.prems(3) True by simp
    then have "(of_char c :: nat) \<noteq> of_char (CHR ''0'')" by (simp only: of_char_eq_iff) simp
    then have "0 < digit_val c" using c(1) by (simp add: is_digit_def digit_val_def)
    then show ?thesis using True c digit_char_val [OF c(1)] by (simp add: read_nat_def show_nat.simps [of "digit_val c"])
  next
    case False
    then have IH: "0 < read_nat s" "show_nat (read_nat s) = s" using snoc by auto
    have n: "read_nat (s @ [c]) = 10 * read_nat s + digit_val c" by (rule read_nat_snoc)
    have "(10 * read_nat s + digit_val c) div 10 = read_nat s" "(10 * read_nat s + digit_val c) mod 10 = digit_val c" using c(2) by simp_all
    then show ?thesis using IH digit_char_val [OF c(1)] by (simp add: n show_nat.simps [of "10 * read_nat s + digit_val c"])
  qed
qed simp

text \<open>
  C11: a relay that starts is never exposed without its guards. If \<open>main\<close> goes on to serve, then the store is open; a relay
  declared public has a token of at least 16 characters and no shorter previous token; a relay that listens anywhere but on the
  local machine has a token (the empty address, which binds every interface, is not local); attestation is required only with a
  list to check against; enforcing signatures without a registry needs a token; and the kit floor and the request price are each unset or well formed,
  the price positive. A flag whose value is not in the vocabulary never starts.
\<close>

theorem start_is_guarded:
  assumes "starts_serving ss"
  shows "ss_store_open ss
    \<and> (\<exists>public. public_enabled (ss_public ss) = Inr public
        \<and> (public \<longrightarrow> 16 \<le> length (ss_token ss) \<and> (ss_token_prev ss = [] \<or> 16 \<le> length (ss_token_prev ss)))
        \<and> (\<not> public \<longrightarrow> listens_locally (ss_host ss) \<or> ss_token ss \<noteq> []))
    \<and> (ss_host ss = Some [] \<longrightarrow> ss_token ss \<noteq> [])
    \<and> (ss_attest_require ss \<longrightarrow> ss_attest_allow ss \<noteq> [])
    \<and> (ss_sign ss = SignEnforce \<longrightarrow> ss_registry ss \<noteq> [] \<or> ss_token ss \<noteq> [])
    \<and> ss_kit ss \<noteq> Misconfigured \<and> ss_price ss \<noteq> PriceError"
proof -
  obtain public where p: "public_enabled (ss_public ss) = Inr public" "list_all (\<lambda>v. fst v \<noteq> Refuse) (start_verdicts ss public)"
    "ss_store_open ss" using assms by (auto simp: starts_serving_def split: sum.splits)
  have e: "fst (verdict_exposure (ss_token ss) (ss_token_prev ss) (ss_host ss) public) \<noteq> Refuse" using p(2) by (simp add: start_verdicts_def)
  have "public \<longrightarrow> 16 \<le> length (ss_token ss) \<and> (ss_token_prev ss = [] \<or> 16 \<le> length (ss_token_prev ss))"
    "\<not> public \<longrightarrow> listens_locally (ss_host ss) \<or> ss_token ss \<noteq> []"
    using e by (auto simp: verdict_exposure_def not_less split: if_splits)
  moreover from this have "ss_host ss = Some [] \<longrightarrow> ss_token ss \<noteq> []" using listens_locally_literal [of "[]"] by (auto simp: strip_def)
  moreover have "ss_attest_require ss \<longrightarrow> ss_attest_allow ss \<noteq> []" using p(2) by (auto simp: start_verdicts_def verdict_attestation_def split: if_splits)
  moreover have "ss_sign ss = SignEnforce \<longrightarrow> ss_registry ss \<noteq> [] \<or> ss_token ss \<noteq> []"
    using p(2) by (auto simp: start_verdicts_def verdict_signature_def split: if_splits)
  moreover have "ss_kit ss \<noteq> Misconfigured" "ss_price ss \<noteq> PriceError"
    using p(2) by (auto simp: start_verdicts_def verdict_kit_policy_def verdict_request_price_def)
  ultimately show ?thesis using p(1,3) by blast
qed

definition sample_start :: start_settings where
  "sample_start = \<lparr>ss_store_open = True, ss_public = Some '' TRUE '', ss_host = Some ''0.0.0.0'', ss_token = ''0123456789abcdef'',
     ss_token_prev = [], ss_sign = SignEnforce, ss_registry = ''http://node:1317'', ss_attest_require = False, ss_attest_allow = [],
     ss_kit = Armed 8 0, ss_price = Price 1000\<rparr>"

theorem start_is_guarded_witness: "starts_serving sample_start \<and> 16 \<le> length (ss_token sample_start)"
proof -
  have "starts_serving sample_start" by code_simp
  from start_is_guarded [OF this] show ?thesis using \<open>starts_serving sample_start\<close> by (simp add: sample_start_def)
qed

text \<open>
  The environment raises a guard and never lowers it. Whatever the settings hold, the budget of a kind is at least the
  compiled floor and the retention at least a day; a budget above the floor is the one that was asked for; and a request price is either unset,
  refused, or the positive number written, without leading zero, sign or space.
\<close>

theorem settings_never_lower_guards:
  "KIND_BUDGET_FLOOR \<le> fst (read_kind_budget float_of raw)
   \<and> (snd (read_kind_budget float_of raw) \<longrightarrow> fst (read_kind_budget float_of raw) = KIND_BUDGET_FLOOR)
   \<and> (KIND_BUDGET_FLOOR < fst (read_kind_budget float_of raw) \<longrightarrow>
        (\<exists>s mib. raw = Some s \<and> float_of (strip s) = Some mib \<and> fst (read_kind_budget float_of raw) = \<lfloor>mib * 1048576\<rfloor>))
   \<and> RETENTION_FLOOR \<le> read_retention float_of raw
   \<and> (request_price_from_env raw = Price p \<longrightarrow> 0 < p \<and> raw = Some (show_int p))"
proof -
  have "0 < p \<and> raw = Some (show_int p)" if price: "request_price_from_env raw = Price p"
  proof -
    obtain s where s: "raw = Some s" "s \<noteq> []" "list_all is_digit s" "hd s \<noteq> CHR ''0''" "p = int (read_nat s)"
      using price by (auto simp: request_price_from_env_def Let_def split: if_splits option.splits)
    then show ?thesis using canonical_decimal [OF s(2-4)] by (simp add: show_int_def)
  qed
  then show ?thesis
    by (auto simp: read_kind_budget_def read_retention_def Let_def split: option.splits if_splits)
qed

theorem settings_never_lower_guards_witness:
  "request_price_from_env (Some ''1000'') = Price 1000 \<and> Some ''1000'' = Some (show_int 1000)"
proof -
  have "request_price_from_env (Some ''1000'') = Price 1000" by code_simp
  with settings_never_lower_guards [where raw = "Some ''1000''" and p = 1000] show ?thesis by blast
qed

end
