(* ===== verification/Relay_Canon.thy ===== *)
theory Relay_Canon
  imports Py_Values
begin

text \<open>
  The canonical message of a signed relay write, \<open>src/services/modea/relay_canon.py\<close>: length-prefixed fields, the
  digest of the body and the height as 64 bits, its decoder, and the digest the replay guard remembers.
  A byte string is a \<open>string\<close>, one \<open>char\<close> per byte. An argument of a public function is dynamically typed
  (\<open>field\<close>): bytes, text, or another object, for which only \<open>len(v or b'')\<close> matters, whether it answers or raises.
\<close>

section \<open>Big-endian integers\<close>

text \<open>\<open>struct.pack(">I", n)\<close> and \<open>struct.pack(">Q", n)\<close> are \<open>be_bytes 4 n\<close> and \<open>be_bytes 8 n\<close>.\<close>

fun be_bytes :: "nat \<Rightarrow> nat \<Rightarrow> string" where
  "be_bytes 0 n = []"
| "be_bytes (Suc w) n = be_bytes w (n div 256) @ [char_of (n mod 256)]"

definition un_be :: "string \<Rightarrow> nat" where
  "un_be bs = foldl (\<lambda>a c. 256 * a + of_char c) 0 bs"

lemma length_be_bytes [simp]: "length (be_bytes w n) = w"
  by (induction w n rule: be_bytes.induct) auto

lemma un_be_snoc [simp]: "un_be (bs @ [c]) = 256 * un_be bs + of_char c"
  by (simp add: un_be_def)

lemma un_be_Nil [simp]: "un_be [] = 0"
  by (simp add: un_be_def)

lemma un_be_bytes: "un_be (be_bytes w n) = n mod 256 ^ w"
proof (induction w n rule: be_bytes.induct)
  case (2 w n)
  have "n mod 256 ^ Suc w = 256 * (n div 256 mod 256 ^ w) + n mod 256"
    by (simp add: mod_mult2_eq)
  with 2 show ?case by simp
qed simp

lemma be_un_be: "be_bytes (length bs) (un_be bs) = bs"
proof (induction bs rule: rev_induct)
  case (snoc c bs)
  have "(of_char c :: nat) < 256" by (rule nat_of_char_less_256)
  then show ?case using snoc by simp
qed simp

lemma un_be_less: "un_be bs < 256 ^ length bs"
  by (metis be_un_be mod_less_divisor un_be_bytes zero_less_numeral zero_less_power)

section \<open>Fields\<close>

datatype field = FBytes string | FText string | FOther bool

text \<open>\<open>str.encode("utf-8")\<close> on code points up to 255.\<close>

definition utf8_char :: "char \<Rightarrow> string" where
  "utf8_char c = (let n = (of_char c :: nat) in
     if n < 128 then [c] else [char_of (192 + n div 64), char_of (128 + n mod 64)])"

definition utf8 :: "string \<Rightarrow> string" where
  "utf8 s = concat (map utf8_char s)"

text \<open>The decoding on those code points.\<close>

fun un_utf8 :: "string \<Rightarrow> string" where
  "un_utf8 [] = []"
| "un_utf8 [c] = [c]"
| "un_utf8 (c # d # s) =
     (if (of_char c :: nat) < 128 then c # un_utf8 (d # s)
      else char_of (((of_char c :: nat) - 192) * 64 + (of_char d - 128)) # un_utf8 s)"

lemma un_utf8_char: "un_utf8 (utf8_char c @ s) = c # un_utf8 s"
proof (cases "(of_char c :: nat) < 128")
  case True
  then show ?thesis by (cases s) (simp_all add: utf8_char_def)
next
  case False
  let ?n = "of_char c :: nat"
  have "?n div 64 < 4" by (rule less_mult_imp_div_less) simp
  then have h: "(of_char (char_of (192 + ?n div 64)) :: nat) = 192 + ?n div 64" by simp
  have "?n mod 64 < 64" by simp
  then have l: "(of_char (char_of (128 + ?n mod 64)) :: nat) = 128 + ?n mod 64" by simp
  have "((of_char (char_of (192 + ?n div 64)) :: nat) - 192) * 64 + (of_char (char_of (128 + ?n mod 64)) - 128) = ?n"
    unfolding h l by simp
  moreover have "\<not> (of_char (char_of (192 + ?n div 64)) :: nat) < 128" unfolding h by simp
  ultimately show ?thesis using False by (simp add: utf8_char_def Let_def del: of_char_of)
qed

interpretation utf8: codec utf8 "\<lambda>bs. Some (un_utf8 bs)" "\<lambda>s. True"
proof
  have "un_utf8 (concat (map utf8_char s)) = s" for s by (induction s) (simp_all add: un_utf8_char)
  then show "Some (un_utf8 (utf8 s)) = Some s" for s by (simp add: utf8_def)
qed

definition MAX_FIELD :: nat where
  "MAX_FIELD = 65535"

definition DOMAIN :: string where
  "DOMAIN = ''dendra/relay-write/v1''"

definition lp :: "string \<Rightarrow> string result" where
  "lp x = (if length x > MAX_FIELD then Inl ValueError else Inr (be_bytes 4 (length x) @ x))"

definition to_bytes :: "field \<Rightarrow> string result" where
  "to_bytes v = (case v of FBytes b \<Rightarrow> Inr b | FText s \<Rightarrow> Inr (utf8 s) | FOther _ \<Rightarrow> Inl ValueError)"

section \<open>The message\<close>

definition U64_MAX :: int where
  "U64_MAX = 0xFFFFFFFFFFFFFFFF"

definition canonical_message :: "host \<Rightarrow> field \<Rightarrow> field \<Rightarrow> field \<Rightarrow> field \<Rightarrow> pyval \<Rightarrow> string result" where
  "canonical_message H kind key body miner_id height =
     (case height of
        PInt h \<Rightarrow>
          if h < 0 \<or> h > U64_MAX then Inl ValueError
          else
            bind_res (to_bytes body) (\<lambda>body_b.
            bind_res (lp DOMAIN) (\<lambda>d.
            bind_res (bind_res (to_bytes kind) lp) (\<lambda>k.
            bind_res (bind_res (to_bytes key) lp) (\<lambda>y.
            bind_res (bind_res (to_bytes miner_id) lp) (\<lambda>m.
              Inr (d @ k @ y @ m @ sha256 H body_b @ be_bytes 8 (nat h)))))))
      | _ \<Rightarrow> Inl ValueError)"

definition msg_digest :: "host \<Rightarrow> field \<Rightarrow> field \<Rightarrow> field \<Rightarrow> field \<Rightarrow> pyval \<Rightarrow> string result" where
  "msg_digest H kind key body miner_id height =
     bind_res (canonical_message H kind key body miner_id height) (\<lambda>m. Inr (sha256 H m))"

definition read_lp :: "string \<Rightarrow> nat \<Rightarrow> (string \<times> nat) result" where
  "read_lp m i =
     (if i + 4 > length m then Inl ValueError
      else (let n = un_be (take 4 (drop i m)); j = i + 4 in
            if j + n > length m then Inl ValueError else Inr (take n (drop j m), j + n)))"

type_synonym decoded = "string \<times> string \<times> string \<times> string \<times> string \<times> nat"

definition decoder :: "string \<Rightarrow> decoded result" where
  "decoder message =
     bind_res (read_lp message 0) (\<lambda>(dom, i).
     bind_res (read_lp message i) (\<lambda>(kind, i).
     bind_res (read_lp message i) (\<lambda>(key, i).
     bind_res (read_lp message i) (\<lambda>(mid, i).
       if i + 32 + 8 \<noteq> length message then Inl ValueError
       else Inr (dom, kind, key, mid, take 32 (drop i message), un_be (take 8 (drop (i + 32) message)))))))"

definition message_height :: "string \<Rightarrow> nat result" where
  "message_height message = bind_res (decoder message) (\<lambda>(dom, kind, key, mid, hb, height). Inr height)"

section \<open>The decoder inverts the encoding\<close>

text \<open>The form, without the cap on a field.\<close>

definition raw_lp :: "string \<Rightarrow> string" where
  "raw_lp x = be_bytes 4 (length x) @ x"

definition raw_message :: "decoded \<Rightarrow> string" where
  "raw_message = (\<lambda>(dom, kind, key, mid, hb, height).
     raw_lp dom @ raw_lp kind @ raw_lp key @ raw_lp mid @ hb @ be_bytes 8 height)"

definition valid_decoded :: "decoded \<Rightarrow> bool" where
  "valid_decoded = (\<lambda>(dom, kind, key, mid, hb, height).
     (\<forall>x \<in> {dom, kind, key, mid}. length x < 256 ^ 4) \<and> length hb = 32 \<and> height < 256 ^ 8)"

lemma read_lp_raw:
  assumes "length x < 256 ^ 4"
  shows "read_lp (pre @ raw_lp x @ rest) (length pre) = Inr (x, length pre + 4 + length x)"
proof -
  have "take 4 (drop (length pre) (pre @ raw_lp x @ rest)) = be_bytes 4 (length x)" by (simp add: raw_lp_def)
  moreover have "un_be (be_bytes 4 (length x)) = length x" using assms by (simp add: un_be_bytes)
  moreover have "take (length x) (drop (length pre + 4) (pre @ raw_lp x @ rest)) = x" by (simp add: raw_lp_def)
  ultimately show ?thesis by (simp add: read_lp_def raw_lp_def)
qed

lemma length_raw_lp [simp]: "length (raw_lp x) = 4 + length x"
  by (simp add: raw_lp_def)

lemma decoder_raw:
  assumes "valid_decoded x"
  shows "decoder (raw_message x) = Inr x"
proof -
  obtain dom kind key mid hb height where x: "x = (dom, kind, key, mid, hb, height)" by (cases x)
  have v: "length dom < 256 ^ 4" "length kind < 256 ^ 4" "length key < 256 ^ 4" "length mid < 256 ^ 4"
    "length hb = 32" "height < 256 ^ 8" using assms by (auto simp: x valid_decoded_def)
  let ?m = "raw_message x"
  note r = read_lp_raw [OF v(1), of "[]" "raw_lp kind @ raw_lp key @ raw_lp mid @ hb @ be_bytes 8 height"]
    read_lp_raw [OF v(2), of "raw_lp dom" "raw_lp key @ raw_lp mid @ hb @ be_bytes 8 height"]
    read_lp_raw [OF v(3), of "raw_lp dom @ raw_lp kind" "raw_lp mid @ hb @ be_bytes 8 height"]
    read_lp_raw [OF v(4), of "raw_lp dom @ raw_lp kind @ raw_lp key" "hb @ be_bytes 8 height"]
  have "un_be (be_bytes 8 height) = height" using v(6) by (simp add: un_be_bytes)
  then show ?thesis using r v(5) by (simp add: decoder_def x raw_message_def add.assoc)
qed

lemma read_lp_Inr:
  assumes "read_lp m i = Inr (x, j)"
  shows "drop i m = raw_lp x @ drop j m \<and> length x < 256 ^ 4 \<and> j \<le> length m"
proof -
  let ?p = "take 4 (drop i m)"
  have i: "i + 4 \<le> length m" "i + 4 + un_be ?p \<le> length m" and x: "x = take (un_be ?p) (drop (i + 4) m)" and j: "j = i + 4 + un_be ?p"
    using assms by (auto simp: read_lp_def Let_def split: if_splits)
  have lp: "length ?p = 4" using i(1) by simp
  have lx: "length x = un_be ?p" using i(2) x by simp
  have "be_bytes 4 (un_be ?p) = ?p" using be_un_be [of ?p] lp by simp
  then have "raw_lp x = ?p @ x" using lx by (simp add: raw_lp_def)
  moreover have "drop i m = ?p @ drop (i + 4) m" by (metis add.commute append_take_drop_id drop_drop)
  moreover have "drop (i + 4) m = x @ drop j m" by (metis append_take_drop_id drop_drop x j add.commute)
  moreover have "un_be ?p < 256 ^ 4" using un_be_less [of ?p] lp by simp
  ultimately show ?thesis using i lx j by simp
qed

lemma raw_decoder:
  assumes "decoder m = Inr x"
  shows "valid_decoded x \<and> raw_message x = m"
proof -
  obtain dom kind key mid hb height where x: "x = (dom, kind, key, mid, hb, height)" by (cases x)
  obtain i1 i2 i3 i4 where r: "read_lp m 0 = Inr (dom, i1)" "read_lp m i1 = Inr (kind, i2)" "read_lp m i2 = Inr (key, i3)"
    "read_lp m i3 = Inr (mid, i4)" and l: "40 + i4 = length m" and t: "hb = take 32 (drop i4 m)" "height = un_be (take 8 (drop (i4 + 32) m))"
    using assms by (fastforce simp: decoder_def x bind_res_eq_Inr split: if_splits)
  note R = read_lp_Inr [OF r(1)] read_lp_Inr [OF r(2)] read_lp_Inr [OF r(3)] read_lp_Inr [OF r(4)]
  have h8: "take 8 (drop (i4 + 32) m) = drop (i4 + 32) m" "length (drop (i4 + 32) m) = 8" using l by simp_all
  have "be_bytes 8 height = drop (i4 + 32) m" using be_un_be [of "drop (i4 + 32) m"] h8 t(2) by simp
  then have "drop i4 m = hb @ be_bytes 8 height" by (metis add.commute append_take_drop_id drop_drop t(1))
  then have "m = raw_message x" using R by (simp add: x raw_message_def)
  moreover have "height < 256 ^ 8" using un_be_less [of "drop (i4 + 32) m"] h8 t(2) by simp
  moreover have "length hb = 32" using t(1) l by simp
  ultimately show ?thesis using R by (simp add: x valid_decoded_def)
qed

text \<open>The form as a codec of the development: what is signed determines what was written.\<close>

definition decode_opt :: "string \<Rightarrow> decoded option" where
  "decode_opt m = (case decoder m of Inr x \<Rightarrow> Some x | Inl e \<Rightarrow> None)"

interpretation canon: codec raw_message decode_opt valid_decoded
  by unfold_locales (simp add: decode_opt_def decoder_raw)

section \<open>Properties\<close>

text \<open>\<open>hashlib.sha256\<close> gives 32 bytes.\<close>

definition sha_length :: "host \<Rightarrow> bool" where
  "sha_length H \<longleftrightarrow> (\<forall>x. length (sha256 H x) = 32)"

text \<open>A field the encoder takes: bytes or text of at most 65535 bytes.\<close>

definition good_field :: "field \<Rightarrow> bool" where
  "good_field v \<longleftrightarrow> (case to_bytes v of Inr b \<Rightarrow> length b \<le> MAX_FIELD | Inl e \<Rightarrow> False)"

definition field_bytes :: "field \<Rightarrow> string" where
  "field_bytes v = (case to_bytes v of Inr b \<Rightarrow> b | Inl e \<Rightarrow> [])"

definition message_of :: "host \<Rightarrow> field \<Rightarrow> field \<Rightarrow> field \<Rightarrow> field \<Rightarrow> int \<Rightarrow> decoded" where
  "message_of H kind key body mid h =
     (DOMAIN, field_bytes kind, field_bytes key, field_bytes mid, sha256 H (field_bytes body), nat h)"

lemma to_bytes_Inl: "to_bytes v = Inl e \<Longrightarrow> e = ValueError"
  by (auto simp: to_bytes_def split: field.splits)

lemma lp_field: "bind_res (to_bytes v) lp = (if good_field v then Inr (raw_lp (field_bytes v)) else Inl ValueError)"
  by (cases "to_bytes v") (auto simp: good_field_def field_bytes_def lp_def raw_lp_def dest: to_bytes_Inl)

lemma canonical_message_eq:
  "canonical_message H kind key body mid height =
     (case height of PInt h \<Rightarrow>
        if 0 \<le> h \<and> h \<le> U64_MAX \<and> (\<exists>b. to_bytes body = Inr b) \<and> good_field kind \<and> good_field key \<and> good_field mid
        then Inr (raw_message (message_of H kind key body mid h)) else Inl ValueError
      | _ \<Rightarrow> Inl ValueError)"
proof -
  have "lp DOMAIN = Inr (raw_lp DOMAIN)" by (simp add: lp_def raw_lp_def DOMAIN_def MAX_FIELD_def)
  then show ?thesis
    by (cases height; cases "to_bytes body")
      (auto simp: canonical_message_def lp_field message_of_def raw_message_def field_bytes_def dest: to_bytes_Inl)
qed

lemma message_of_valid:
  assumes "sha_length H" "0 \<le> h" "h \<le> U64_MAX" "good_field kind" "good_field key" "good_field mid"
  shows "valid_decoded (message_of H kind key body mid h)"
proof -
  have f: "length (field_bytes v) < 256 ^ 4" if "good_field v" for v
    using that by (auto simp: good_field_def field_bytes_def MAX_FIELD_def split: sum.splits)
  have "nat h < 256 ^ 8" using assms(2,3) by (simp add: U64_MAX_def nat_less_iff)
  then show ?thesis using f assms by (simp add: valid_decoded_def message_of_def sha_length_def DOMAIN_def)
qed

lemma canonical_message_facts:
  assumes "sha_length H"
  shows "(\<exists>m. canonical_message H kind key body mid height = Inr m) \<longleftrightarrow>
      (\<exists>h. height = PInt h \<and> 0 \<le> h \<and> h \<le> U64_MAX) \<and> (\<exists>b. to_bytes body = Inr b)
        \<and> good_field kind \<and> good_field key \<and> good_field mid"
    "canonical_message H kind key body mid height = Inl e \<Longrightarrow> e = ValueError"
    "canonical_message H kind key body mid (PInt h) = Inr m \<Longrightarrow>
       decoder m = Inr (message_of H kind key body mid h) \<and> message_height m = Inr (nat h)
       \<and> (\<forall>kind' key' body' mid' h'. canonical_message H kind' key' body' mid' (PInt h') = Inr m \<longrightarrow>
            to_bytes kind' = to_bytes kind \<and> to_bytes key' = to_bytes key \<and> to_bytes mid' = to_bytes mid
            \<and> sha256 H (field_bytes body') = sha256 H (field_bytes body) \<and> h' = h)"
proof -
  show "(\<exists>m. canonical_message H kind key body mid height = Inr m) \<longleftrightarrow>
      (\<exists>h. height = PInt h \<and> 0 \<le> h \<and> h \<le> U64_MAX) \<and> (\<exists>b. to_bytes body = Inr b)
        \<and> good_field kind \<and> good_field key \<and> good_field mid"
    by (cases height) (auto simp: canonical_message_eq)
  show "canonical_message H kind key body mid height = Inl e \<Longrightarrow> e = ValueError"
    by (cases height) (auto simp: canonical_message_eq split: if_splits)
  assume m: "canonical_message H kind key body mid (PInt h) = Inr m"
  have enc: "m = raw_message (message_of H k y b i g) \<and> valid_decoded (message_of H k y b i g) \<and> 0 \<le> g
      \<and> good_field k \<and> good_field y \<and> good_field i"
    if "canonical_message H k y b i (PInt g) = Inr m" for k y b i g
    using that assms by (auto simp: canonical_message_eq intro!: message_of_valid split: if_splits)
  have d: "decoder m = Inr (message_of H kind key body mid h)" using enc [OF m] decoder_raw by blast
  moreover have "message_height m = Inr (nat h)" using d by (simp add: message_height_def message_of_def)
  moreover have "to_bytes kind' = to_bytes kind \<and> to_bytes key' = to_bytes key \<and> to_bytes mid' = to_bytes mid
      \<and> sha256 H (field_bytes body') = sha256 H (field_bytes body) \<and> h' = h"
    if m': "canonical_message H kind' key' body' mid' (PInt h') = Inr m" for kind' key' body' mid' h'
  proof -
    have e: "message_of H kind' key' body' mid' h' = message_of H kind key body mid h"
      using canon.enc_inj enc [OF m] enc [OF m'] by metis
    have fb: "to_bytes v = Inr (field_bytes v)" if "good_field v" for v
      using that by (auto simp: good_field_def field_bytes_def split: sum.splits)
    then show ?thesis using e enc [OF m] enc [OF m'] by (simp add: message_of_def nat_eq_iff2)
  qed
  ultimately show "decoder m = Inr (message_of H kind key body mid h) \<and> message_height m = Inr (nat h)
       \<and> (\<forall>kind' key' body' mid' h'. canonical_message H kind' key' body' mid' (PInt h') = Inr m \<longrightarrow>
            to_bytes kind' = to_bytes kind \<and> to_bytes key' = to_bytes key \<and> to_bytes mid' = to_bytes mid
            \<and> sha256 H (field_bytes body') = sha256 H (field_bytes body) \<and> h' = h)"
    by blast
qed

text \<open>
  C8: the signed form is unambiguous and escape-free. The encoder gives a message exactly when the height is a whole
  number of 64 bits, the body is bytes or text, and the three other fields are bytes or text of at most 65535 bytes;
  otherwise it raises ValueError. The decoder returns exactly what was encoded, the height read back is the height
  signed, and no other kind, key, miner, body digest or height gives the same message.
\<close>

theorem canonical_message_unambiguous:
  assumes "sha_length H"
  shows "((\<exists>m. canonical_message H kind key body mid height = Inr m) \<longleftrightarrow>
      (\<exists>h. height = PInt h \<and> 0 \<le> h \<and> h \<le> U64_MAX) \<and> (\<exists>b. to_bytes body = Inr b)
        \<and> good_field kind \<and> good_field key \<and> good_field mid)
    \<and> (\<forall>e. canonical_message H kind key body mid height = Inl e \<longrightarrow> e = ValueError)
    \<and> (\<forall>h m. height = PInt h \<and> canonical_message H kind key body mid height = Inr m \<longrightarrow>
       decoder m = Inr (message_of H kind key body mid h) \<and> message_height m = Inr (nat h)
       \<and> (\<forall>kind' key' body' mid' h'. canonical_message H kind' key' body' mid' (PInt h') = Inr m \<longrightarrow>
            to_bytes kind' = to_bytes kind \<and> to_bytes key' = to_bytes key \<and> to_bytes mid' = to_bytes mid
            \<and> sha256 H (field_bytes body') = sha256 H (field_bytes body) \<and> h' = h))"
proof (rule conjI [OF canonical_message_facts(1) [OF assms] conjI])
  show "\<forall>e. canonical_message H kind key body mid height = Inl e \<longrightarrow> e = ValueError"
    using canonical_message_facts(2) [OF assms] by blast
qed (intro allI impI, elim conjE, hypsubst, erule canonical_message_facts(3) [OF assms])

lemma sample_sha_length: "sha_length sample_host"
  by (simp add: sha_length_def sample_host_def min_def)

theorem canonical_message_unambiguous_witness:
  "\<exists>m. canonical_message sample_host (FText ''res'') (FText ''j__m'') (FBytes ''{}'') (FText ''m'') (PInt 160) = Inr m
     \<and> decoder m = Inr (''dendra/relay-write/v1'', ''res'', ''j__m'', ''m'', sha256 sample_host ''{}'', 160)"
proof -
  have g: "good_field (FText ''res'')" "good_field (FText ''j__m'')" "good_field (FText ''m'')" "to_bytes (FBytes ''{}'') = Inr ''{}''"
    by (simp_all add: good_field_def to_bytes_def utf8_def utf8_char_def MAX_FIELD_def)
  then obtain m where m: "canonical_message sample_host (FText ''res'') (FText ''j__m'') (FBytes ''{}'') (FText ''m'') (PInt 160) = Inr m"
    by (auto simp: canonical_message_eq U64_MAX_def)
  with canonical_message_unambiguous [OF sample_sha_length, of "FText ''res''" "FText ''j__m''" "FBytes ''{}''" "FText ''m''" "PInt 160"]
  have "decoder m = Inr (message_of sample_host (FText ''res'') (FText ''j__m'') (FBytes ''{}'') (FText ''m'') 160)" by blast
  then have "decoder m = Inr (''dendra/relay-write/v1'', ''res'', ''j__m'', ''m'', sha256 sample_host ''{}'', 160)"
    by (simp add: message_of_def field_bytes_def to_bytes_def utf8_def utf8_char_def DOMAIN_def)
  with m show ?thesis by blast
qed

end
