(* ===== verification/Relay_Antireplay.thy ===== *)
theory Relay_Antireplay
  imports Relay_Canon
begin

text \<open>
  The replay guard of the relay, \<open>src/services/modea/relay_antireplay.py\<close>: the highest accepted height per writing
  key, the digests accepted within the retention, the freshness window around the chain's head. A call reads the
  clock once to purge and once to record; times are exact rationals. The words of a refusal's detail are not
  modelled. The locale \<open>replay_guard\<close> is what the check of a write relies on.
\<close>

section \<open>The guard\<close>

datatype regime = NOMINAL | DEGRADED

text \<open>The named refusals of the guard, of the check of a write and of the relay.\<close>

datatype reason = MALFORMED | INVALID_SIGNATURE | FOREIGN_KEY | UNKNOWN_MINER | REGISTRY_MUTE | UNREADABLE_HEIGHT
  | UNKNOWN_JOB | FOREIGN_CLIENT | JOB_REGISTRY_MUTE | STALE_KIT
  | REPLAY | HEIGHT_REGRESSION | TOO_OLD | TOO_FAR_AHEAD | UNSEALED_HEIGHT
  | PRICE_UNSET | UNDERPAID | FEE_UNREADABLE | UNASSIGNED_MINER | COMMITTEE_UNREADABLE | NOT_ATTESTED | JOB_NOT_OPEN
  | JOB_STATE_UNREADABLE | KEY_MISMATCH | EMPTY_ATTRIBUTION

text \<open>A height as an argument: sealed (read back from signed bytes), or any other object.\<close>

datatype height_arg = Sealed int | Bare

record verdict =
  v_accepted :: bool
  v_regime :: regime
  v_reason :: "reason option"

record antireplay =
  ar_retention :: rat
  ar_window :: int
  ar_high :: "(string, int) dict"
  ar_seen :: "(string, rat) dict"
  ar_nominal :: int
  ar_degraded :: int
  ar_refusals :: "(reason, int) dict"

definition init_antireplay :: "rat \<Rightarrow> pyval \<Rightarrow> antireplay result" where
  "init_antireplay retention window =
     (if retention \<le> 0 then Inl ValueError
      else (case window of
          PInt w \<Rightarrow> if w \<le> 0 then Inl ValueError
            else Inr \<lparr>ar_retention = retention, ar_window = w, ar_high = [], ar_seen = [], ar_nominal = 0, ar_degraded = 0,
                      ar_refusals = []\<rparr>
        | _ \<Rightarrow> Inl ValueError))"

text \<open>\<open>seal_height(message, read_height)\<close>: the reader is a parameter; a bool is not a height.\<close>

definition seal_height :: "field \<Rightarrow> (string \<Rightarrow> pyval result) \<Rightarrow> height_arg result" where
  "seal_height message read_height =
     (case message of
        FBytes m \<Rightarrow> bind_res (read_height m) (\<lambda>h. case h of
            PInt i \<Rightarrow> if i < 0 \<or> i > U64_MAX then Inl ValueError else Inr (Sealed i)
          | _ \<Rightarrow> Inl ValueError)
      | _ \<Rightarrow> Inl ValueError)"

text \<open>The purge stops at the first entry that is still young.\<close>

fun purge_front :: "rat \<Rightarrow> (string, rat) dict \<Rightarrow> (string, rat) dict" where
  "purge_front cutoff [] = []"
| "purge_front cutoff ((e, t) # v) = (if t \<ge> cutoff then (e, t) # v else purge_front cutoff v)"

definition purge :: "rat \<Rightarrow> antireplay \<Rightarrow> antireplay" where
  "purge now s = s\<lparr>ar_seen := purge_front (now - ar_retention s) (ar_seen s)\<rparr>"

definition refuse :: "antireplay \<Rightarrow> regime \<Rightarrow> reason \<Rightarrow> antireplay \<times> verdict" where
  "refuse s reg r = (s\<lparr>ar_refusals := bump (ar_refusals s) r 1\<rparr>, \<lparr>v_accepted = False, v_regime = reg, v_reason = Some r\<rparr>)"

text \<open>\<open>not isinstance(v, bytes)\<close> and the length in the refusal's words, which raises on an object without one.\<close>

definition field_len :: "field \<Rightarrow> nat result" where
  "field_len v = (case v of FBytes b \<Rightarrow> Inr (length b) | FText s \<Rightarrow> Inr (length s) | FOther ok \<Rightarrow> if ok then Inr 0 else Inl TypeError)"

definition head_bounds :: "pyval \<Rightarrow> int option result" where
  "head_bounds head = (case head of PNone \<Rightarrow> Inr None | PInt h \<Rightarrow> if h < 0 then Inl ValueError else Inr (Some h) | _ \<Rightarrow> Inl ValueError)"

text \<open>Steps 1 to 3 on a purged state, then the record.\<close>

definition verify_known :: "rat \<Rightarrow> antireplay \<Rightarrow> string \<Rightarrow> int \<Rightarrow> string \<Rightarrow> pyval \<Rightarrow> antireplay \<times> verdict" where
  "verify_known now s key height dig head =
     (let reg = (if head \<noteq> PNone then NOMINAL else DEGRADED); h = map_of (ar_high s) key in
      if map_of (ar_seen s) dig \<noteq> None then refuse s reg REPLAY
      else if (case h of Some x \<Rightarrow> height < x | None \<Rightarrow> False) then refuse s reg HEIGHT_REGRESSION
      else (case head_bounds head of
          Inl e \<Rightarrow> refuse s NOMINAL MALFORMED
        | Inr tip \<Rightarrow>
            if (case tip of Some x \<Rightarrow> height < x - ar_window s | None \<Rightarrow> False) then refuse s NOMINAL TOO_OLD
            else if (case tip of Some x \<Rightarrow> height > x + ar_window s | None \<Rightarrow> False) then refuse s NOMINAL TOO_FAR_AHEAD
            else
              (s\<lparr>ar_seen := AList.update dig now (ar_seen s),
                 ar_high := (case h of None \<Rightarrow> AList.update key height (ar_high s)
                             | Some x \<Rightarrow> if height > x then AList.update key height (ar_high s) else ar_high s),
                 ar_nominal := ar_nominal s + (if reg = NOMINAL then 1 else 0),
                 ar_degraded := ar_degraded s + (if reg = NOMINAL then 0 else 1)\<rparr>,
               \<lparr>v_accepted = True, v_regime = reg, v_reason = None\<rparr>)))"

text \<open>\<open>verify\<close>; \<open>purge_at\<close> and \<open>now\<close> are the two reads of the clock.\<close>

definition verify :: "rat \<times> rat \<Rightarrow> antireplay \<Rightarrow> field \<Rightarrow> height_arg \<Rightarrow> field \<Rightarrow> pyval \<Rightarrow> antireplay \<times> verdict result" where
  "verify clk s writing_key height digest head =
     (let reg = (if head \<noteq> PNone then NOMINAL else DEGRADED); ref = (\<lambda>s r. map_prod id Inr (refuse s reg r)) in
      case (writing_key, digest) of
        (FBytes key, d) \<Rightarrow>
          if key = [] then ref s MALFORMED
          else (case d of
              FBytes dig \<Rightarrow>
                if length dig \<noteq> 32 then ref s MALFORMED
                else (case height of
                    Bare \<Rightarrow> ref s UNSEALED_HEIGHT
                  | Sealed i \<Rightarrow>
                      if i < 0 then ref s MALFORMED
                      else map_prod id Inr (verify_known (snd clk) (purge (fst clk) s) key i dig head))
            | other \<Rightarrow> (case field_len other of Inl e \<Rightarrow> (s, Inl e) | Inr n \<Rightarrow> ref s MALFORMED))
      | _ \<Rightarrow> ref s MALFORMED)"

section \<open>The interface of a replay guard\<close>

text \<open>
  What a client of the guard relies on: an accepted digest is known from the time it was recorded, it stays known
  while the guard's retention lasts, and a known digest is refused. From this alone, no digest is accepted twice
  within the retention.
\<close>

locale replay_guard =
  fixes call :: "'s \<Rightarrow> (rat \<times> rat) \<times> 'i \<Rightarrow> 's \<times> bool"
    and digest_of :: "'i \<Rightarrow> string"
    and knows :: "'s \<Rightarrow> rat \<Rightarrow> string \<Rightarrow> bool"
    and retention :: "'s \<Rightarrow> rat"
  assumes retention_fixed: "retention (fst (call s c)) = retention s"
    and records: "snd (call s ((t1, t2), i)) \<Longrightarrow> knows (fst (call s ((t1, t2), i))) t2 (digest_of i)"
    and remembers: "knows s t d \<Longrightarrow> t1 \<le> t + retention s \<Longrightarrow> knows (fst (call s ((t1, t2), i))) t d"
    and refuses: "knows s t (digest_of i) \<Longrightarrow> t1 \<le> t + retention s \<Longrightarrow> \<not> snd (call s ((t1, t2), i))"
begin

lemma retention_run: "retention (snd (run_calls call s cs)) = retention s"
  using run_calls_invariant [of "\<lambda>x. retention x = retention s" s call cs] retention_fixed by auto

lemma remembers_run:
  "knows s t d \<Longrightarrow> \<forall>c \<in> set cs. fst (fst c) \<le> t + retention s \<Longrightarrow> knows (snd (run_calls call s cs)) t d"
proof (induction cs arbitrary: s)
  case (Cons c cs)
  obtain t1 t2 i where c: "c = ((t1, t2), i)" by (metis surj_pair)
  let ?s = "fst (call s c)"
  have "knows ?s t d" using remembers [OF Cons.prems(1)] Cons.prems(2) by (simp add: c)
  moreover have "\<forall>c \<in> set cs. fst (fst c) \<le> t + retention ?s" using Cons.prems(2) by (simp add: retention_fixed)
  ultimately have "knows (snd (run_calls call ?s cs)) t d" by (rule Cons.IH)
  then show ?case by (auto split: prod.splits)
qed simp

text \<open>The clock never goes back: the calls' reads are in order.\<close>

lemma no_digest_twice:
  assumes clock: "\<forall>a b. a < b \<and> b < length cs \<longrightarrow> fst (fst (cs ! a)) \<le> fst (fst (cs ! b))"
    and ij: "i < j" "j < length cs"
    and acc: "fst (run_calls call s cs) ! i" "fst (run_calls call s cs) ! j"
    and same: "digest_of (snd (cs ! i)) = digest_of (snd (cs ! j))"
  shows "fst (fst (cs ! j)) > snd (fst (cs ! i)) + retention s"
proof (rule ccontr)
  let ?ti = "snd (fst (cs ! i))" and ?s = "\<lambda>k. snd (run_calls call s (take k cs))"
  assume "\<not> fst (fst (cs ! j)) > ?ti + retention s"
  then have le: "fst (fst (cs ! j)) \<le> ?ti + retention s" by simp
  obtain a b x where ci: "cs ! i = ((a, b), x)" by (metis surj_pair)
  obtain a' b' x' where cj: "cs ! j = ((a', b'), x')" by (metis surj_pair)
  have "snd (call (?s i) (cs ! i))" using acc(1) ij run_calls_nth [of i cs call s] by simp
  then have "knows (?s (Suc i)) ?ti (digest_of (snd (cs ! i)))"
    using records [of "?s i" a b x] ij run_calls_take_Suc [of i cs call s] by (simp add: ci)
  moreover have "?s j = snd (run_calls call (?s (Suc i)) (take (j - Suc i) (drop (Suc i) cs)))"
  proof -
    have "take j cs = take (Suc i) cs @ take (j - Suc i) (drop (Suc i) cs)" using ij by (simp flip: take_add)
    then show ?thesis by (simp add: run_calls_append split: prod.splits)
  qed
  moreover have "\<forall>c \<in> set (take (j - Suc i) (drop (Suc i) cs)). fst (fst c) \<le> ?ti + retention (?s (Suc i))"
  proof
    fix c assume "c \<in> set (take (j - Suc i) (drop (Suc i) cs))"
    then obtain k where k: "k < j - Suc i" "c = cs ! (Suc i + k)" using ij by (auto simp: in_set_conv_nth)
    then have "fst (fst c) \<le> fst (fst (cs ! j))" using clock ij by auto
    then show "fst (fst c) \<le> ?ti + retention (?s (Suc i))" using le by (simp add: retention_run)
  qed
  ultimately have "knows (?s j) ?ti (digest_of (snd (cs ! j)))" using remembers_run same by simp
  moreover have "snd (call (?s j) (cs ! j))" using acc(2) ij run_calls_nth [of j cs call s] by simp
  ultimately show False using refuses [of "?s j" ?ti x' a' b'] le by (simp add: cj retention_run)
qed

end

section \<open>The guard implements it\<close>

text \<open>The inputs of a call of \<open>verify\<close> besides the clock.\<close>

record guard_input =
  gi_key :: field
  gi_height :: height_arg
  gi_digest :: field
  gi_head :: pyval

definition accepted_by :: "verdict result \<Rightarrow> bool" where
  "accepted_by r = (case r of Inr v \<Rightarrow> v_accepted v | Inl e \<Rightarrow> False)"

definition guard_call :: "antireplay \<Rightarrow> (rat \<times> rat) \<times> guard_input \<Rightarrow> antireplay \<times> bool" where
  "guard_call s c = map_prod id accepted_by (verify (fst c) s (gi_key (snd c)) (gi_height (snd c)) (gi_digest (snd c)) (gi_head (snd c)))"

lemma refuse_simps [simp]:
  "fst (refuse s reg r) = s\<lparr>ar_refusals := bump (ar_refusals s) r 1\<rparr>" "\<not> v_accepted (snd (refuse s reg r))"
  "snd (refuse s reg r) = \<lparr>v_accepted = False, v_regime = reg, v_reason = Some r\<rparr>"
  by (simp_all add: refuse_def)

lemma verify_known_cases:
  obtains (refused) r reg where "verify_known now s key h dig head = refuse s reg r"
  | (accepted) tip where "verify_known now s key h dig head =
       (s\<lparr>ar_seen := AList.update dig now (ar_seen s),
          ar_high := (case map_of (ar_high s) key of None \<Rightarrow> AList.update key h (ar_high s)
                      | Some x \<Rightarrow> if h > x then AList.update key h (ar_high s) else ar_high s),
          ar_nominal := ar_nominal s + (if head \<noteq> PNone then 1 else 0),
          ar_degraded := ar_degraded s + (if head \<noteq> PNone then 0 else 1)\<rparr>,
        \<lparr>v_accepted = True, v_regime = (if head \<noteq> PNone then NOMINAL else DEGRADED), v_reason = None\<rparr>)"
      "map_of (ar_seen s) dig = None" "pred_option (\<lambda>x. x \<le> h) (map_of (ar_high s) key)" "head_bounds head = Inr tip"
      "pred_option (\<lambda>x. \<bar>h - x\<bar> \<le> ar_window s) tip"
proof (cases "v_accepted (snd (verify_known now s key h dig head))")
  case True
  then have f: "map_of (ar_seen s) dig = None" "\<not> (case map_of (ar_high s) key of Some x \<Rightarrow> h < x | None \<Rightarrow> False)"
    by (auto simp: verify_known_def Let_def split: if_splits)
  obtain tip where tip: "head_bounds head = Inr tip" using True f by (auto simp: verify_known_def Let_def split: sum.splits)
  have w: "\<not> (case tip of Some x \<Rightarrow> h < x - ar_window s | None \<Rightarrow> False)" "\<not> (case tip of Some x \<Rightarrow> h > x + ar_window s | None \<Rightarrow> False)"
    using True f tip by (auto simp: verify_known_def Let_def split: if_splits)
  have "pred_option (\<lambda>x. x \<le> h) (map_of (ar_high s) key)" using f(2) by (auto split: option.splits)
  moreover have "pred_option (\<lambda>x. \<bar>h - x\<bar> \<le> ar_window s) tip" using w by (auto split: option.splits)
  ultimately show ?thesis using f tip w accepted [OF _ f(1) _ tip] by (simp add: verify_known_def Let_def)
next
  case False
  then have "\<exists>r reg. verify_known now s key h dig head = refuse s reg r"
    unfolding verify_known_def Let_def by (auto split: if_splits sum.splits)
  then show ?thesis using refused by blast
qed

lemma purge_front_keeps: "(e, t) \<in> set v \<Longrightarrow> cutoff \<le> t \<Longrightarrow> (e, t) \<in> set (purge_front cutoff v)"
  by (induction cutoff v rule: purge_front.induct) auto

lemma purge_front_subset: "set (purge_front cutoff v) \<subseteq> set v"
  by (induction cutoff v rule: purge_front.induct) auto

lemma verify_cases:
  obtains (untouched) s' r where "verify clk s k ha d head = (s', r)" "\<not> accepted_by r"
      "ar_seen s' = ar_seen s" "ar_high s' = ar_high s" "ar_retention s' = ar_retention s" "ar_window s' = ar_window s"
      "ar_nominal s' = ar_nominal s" "ar_degraded s' = ar_degraded s"
  | (known) key h dig where "k = FBytes key" "key \<noteq> []" "d = FBytes dig" "length dig = 32" "ha = Sealed h" "0 \<le> h"
      "verify clk s k ha d head = map_prod id Inr (verify_known (snd clk) (purge (fst clk) s) key h dig head)"
proof (cases "\<exists>key h dig. k = FBytes key \<and> key \<noteq> [] \<and> d = FBytes dig \<and> length dig = 32 \<and> ha = Sealed h \<and> 0 \<le> h")
  case True
  then show ?thesis using known by (auto simp: verify_def Let_def)
next
  case False
  obtain s' r where e: "verify clk s k ha d head = (s', r)" by (cases "verify clk s k ha d head") auto
  have "\<not> accepted_by r \<and> ar_seen s' = ar_seen s \<and> ar_high s' = ar_high s \<and> ar_retention s' = ar_retention s
    \<and> ar_window s' = ar_window s \<and> ar_nominal s' = ar_nominal s \<and> ar_degraded s' = ar_degraded s"
    using e False
    by (auto simp: verify_def Let_def refuse_def accepted_by_def split: field.splits height_arg.splits if_splits sum.splits)
  then show ?thesis using untouched e by blast
qed

definition input_digest :: "guard_input \<Rightarrow> string" where
  "input_digest i = (case gi_digest i of FBytes d \<Rightarrow> d | _ \<Rightarrow> [])"

definition guard_knows :: "antireplay \<Rightarrow> rat \<Rightarrow> string \<Rightarrow> bool" where
  "guard_knows s t d \<longleftrightarrow> (d, t) \<in> set (ar_seen s)"

lemma guard_call_cases:
  assumes "guard_call s ((t1, t2), i) = (s', b)"
  obtains (untouched) "\<not> b" "ar_seen s' = ar_seen s" "ar_high s' = ar_high s" "ar_retention s' = ar_retention s"
      "ar_window s' = ar_window s" "ar_nominal s' = ar_nominal s" "ar_degraded s' = ar_degraded s"
  | (refused) "\<not> b" "ar_seen s' = purge_front (t1 - ar_retention s) (ar_seen s)" "ar_high s' = ar_high s"
      "ar_retention s' = ar_retention s" "ar_window s' = ar_window s" "ar_nominal s' = ar_nominal s" "ar_degraded s' = ar_degraded s"
  | (accepted) key h tip where "b" "gi_key i = FBytes key" "gi_height i = Sealed h" "gi_digest i = FBytes (input_digest i)"
      "map_of (purge_front (t1 - ar_retention s) (ar_seen s)) (input_digest i) = None"
      "pred_option (\<lambda>x. x \<le> h) (map_of (ar_high s) key)" "head_bounds (gi_head i) = Inr tip"
      "pred_option (\<lambda>x. \<bar>h - x\<bar> \<le> ar_window s) tip"
      "ar_seen s' = AList.update (input_digest i) t2 (purge_front (t1 - ar_retention s) (ar_seen s))"
      "map_of (ar_high s') = (map_of (ar_high s))(key \<mapsto> h)"
      "ar_retention s' = ar_retention s" "ar_window s' = ar_window s"
      "ar_nominal s' = ar_nominal s + (if tip = None then 0 else 1)" "ar_degraded s' = ar_degraded s + (if tip = None then 1 else 0)"
proof (rule verify_cases [of "(t1, t2)" s "gi_key i" "gi_height i" "gi_digest i" "gi_head i"])
  fix s'' r assume "verify (t1, t2) s (gi_key i) (gi_height i) (gi_digest i) (gi_head i) = (s'', r)" "\<not> accepted_by r"
      "ar_seen s'' = ar_seen s" "ar_high s'' = ar_high s" "ar_retention s'' = ar_retention s" "ar_window s'' = ar_window s"
      "ar_nominal s'' = ar_nominal s" "ar_degraded s'' = ar_degraded s"
  then show thesis using untouched assms by (auto simp: guard_call_def)
next
  fix key h dig assume K: "gi_key i = FBytes key" "key \<noteq> []" "gi_digest i = FBytes dig" "length dig = 32" "gi_height i = Sealed h" "0 \<le> h"
    "verify (t1, t2) s (gi_key i) (gi_height i) (gi_digest i) (gi_head i)
       = map_prod id Inr (verify_known (snd (t1, t2)) (purge (fst (t1, t2)) s) key h dig (gi_head i))"
  have d: "input_digest i = dig" using K(3) by (simp add: input_digest_def)
  let ?p = "purge t1 s"
  have p: "ar_seen ?p = purge_front (t1 - ar_retention s) (ar_seen s)" "ar_high ?p = ar_high s" "ar_window ?p = ar_window s"
    "ar_retention ?p = ar_retention s" "ar_nominal ?p = ar_nominal s" "ar_degraded ?p = ar_degraded s" by (simp_all add: purge_def)
  have gc: "guard_call s ((t1, t2), i) = map_prod id v_accepted (verify_known t2 ?p key h dig (gi_head i))"
    using K(7) by (auto simp: guard_call_def accepted_by_def map_prod_def split: prod.splits)
  show thesis
  proof (rule verify_known_cases [of t2 ?p key h dig "gi_head i"])
    fix r reg assume "verify_known t2 ?p key h dig (gi_head i) = refuse ?p reg r"
    then show thesis using refused gc assms p by (auto simp: refuse_def)
  next
    fix tip
    assume A: "verify_known t2 ?p key h dig (gi_head i) =
       (?p\<lparr>ar_seen := AList.update dig t2 (ar_seen ?p),
          ar_high := (case map_of (ar_high ?p) key of None \<Rightarrow> AList.update key h (ar_high ?p)
                      | Some x \<Rightarrow> if h > x then AList.update key h (ar_high ?p) else ar_high ?p),
          ar_nominal := ar_nominal ?p + (if gi_head i \<noteq> PNone then 1 else 0),
          ar_degraded := ar_degraded ?p + (if gi_head i \<noteq> PNone then 0 else 1)\<rparr>,
        \<lparr>v_accepted = True, v_regime = (if gi_head i \<noteq> PNone then NOMINAL else DEGRADED), v_reason = None\<rparr>)"
      "map_of (ar_seen ?p) dig = None" "pred_option (\<lambda>x. x \<le> h) (map_of (ar_high ?p) key)" "head_bounds (gi_head i) = Inr tip"
      "pred_option (\<lambda>x. \<bar>h - x\<bar> \<le> ar_window ?p) tip"
    have tip: "tip = None \<longleftrightarrow> gi_head i = PNone" using A(4) by (auto simp: head_bounds_def split: pyval.splits if_splits)
    have "map_of (case map_of (ar_high s) key of None \<Rightarrow> AList.update key h (ar_high s)
         | Some x \<Rightarrow> if h > x then AList.update key h (ar_high s) else ar_high s) = (map_of (ar_high s))(key \<mapsto> h)"
      using A(3) [unfolded p] by (auto simp: map_of_update split: option.splits)
    then show thesis using accepted [of key h tip] gc assms A [unfolded p] p K d tip by auto
  qed
qed

interpretation guard: replay_guard guard_call input_digest guard_knows ar_retention
proof
  show "ar_retention (fst (guard_call s c)) = ar_retention s" for s c
  proof -
    obtain t1 t2 i where c: "c = ((t1, t2), i)" by (metis surj_pair)
    obtain s' b where r: "guard_call s ((t1, t2), i) = (s', b)" by (cases "guard_call s ((t1, t2), i)") auto
    then show ?thesis by (cases rule: guard_call_cases) (simp_all add: c r)
  qed
  fix s t d and t1 t2 :: rat and i
  obtain s' b where c: "guard_call s ((t1, t2), i) = (s', b)" by (cases "guard_call s ((t1, t2), i)") auto
  show "guard_knows (fst (guard_call s ((t1, t2), i))) t2 (input_digest i)" if "snd (guard_call s ((t1, t2), i))"
  proof -
    have b using that c by simp
    from c show ?thesis
    proof (cases rule: guard_call_cases)
      case (accepted key h tip)
      then have "map_of (ar_seen s') (input_digest i) = Some t2" by (simp add: map_of_update)
      then show ?thesis using c by (auto simp: guard_knows_def intro: map_of_SomeD)
    qed (use \<open>b\<close> in auto)
  qed
  have purged: "(d, t) \<in> set (purge_front (t1 - ar_retention s) (ar_seen s))" if "guard_knows s t d" "t1 \<le> t + ar_retention s" for d
    using that purge_front_keeps by (auto simp: guard_knows_def algebra_simps)
  show "guard_knows (fst (guard_call s ((t1, t2), i))) t d" if kn: "guard_knows s t d" "t1 \<le> t + ar_retention s"
    using c
  proof (cases rule: guard_call_cases)
    case (accepted key h tip)
    let ?v = "purge_front (t1 - ar_retention s) (ar_seen s)"
    have "input_digest i \<notin> fst ` set ?v" using accepted(5) by (simp add: map_of_eq_None_iff)
    then have "set ?v \<subseteq> set (AList.update (input_digest i) t2 ?v)" by (auto simp: update_new)
    then show ?thesis using purged [OF kn] accepted(9) c by (auto simp: guard_knows_def)
  qed (use kn purged c in \<open>auto simp: guard_knows_def\<close>)
  show "\<not> snd (guard_call s ((t1, t2), i))" if kn: "guard_knows s t (input_digest i)" "t1 \<le> t + ar_retention s"
    using c
  proof (cases rule: guard_call_cases)
    case (accepted key h tip)
    then show ?thesis using purged [OF kn] by (force simp: map_of_eq_None_iff)
  qed (use c in auto)
qed

section \<open>Clock reads in order\<close>

definition clock_reads :: "((rat \<times> rat) \<times> guard_input) list \<Rightarrow> rat list" where
  "clock_reads cs = concat (map (\<lambda>c. [fst (fst c), snd (fst c)]) cs)"

text \<open>The clock never goes back over the calls.\<close>

definition clock_ok :: "((rat \<times> rat) \<times> guard_input) list \<Rightarrow> bool" where
  "clock_ok cs \<longleftrightarrow> sorted (clock_reads cs)"

lemma clock_reads_append: "clock_reads (xs @ ys) = clock_reads xs @ clock_reads ys"
  by (simp add: clock_reads_def)

lemma clock_ok_nth:
  assumes "clock_ok cs" "a < b" "b < length cs"
  shows "fst (fst (cs ! a)) \<le> fst (fst (cs ! b))"
proof -
  have "cs = take b cs @ [cs ! b] @ drop (Suc b) cs" using assms(3) by (simp add: id_take_nth_drop)
  then have "sorted (clock_reads (take b cs) @ clock_reads ([cs ! b] @ drop (Suc b) cs))"
    using assms(1) by (metis clock_ok_def clock_reads_append)
  moreover have "fst (fst (cs ! a)) \<in> set (clock_reads (take b cs))"
  proof -
    have "cs ! a \<in> set (take b cs)" using assms(2,3) by (auto simp: in_set_conv_nth)
    then show ?thesis by (auto simp: clock_reads_def)
  qed
  ultimately show ?thesis by (auto simp: sorted_append clock_reads_def)
qed

section \<open>Heights\<close>

lemma high_grows:
  assumes "map_of (ar_high s) k = Some x"
  shows "\<exists>y \<ge> x. map_of (ar_high (fst (guard_call s c))) k = Some y"
proof -
  obtain t1 t2 i where c: "c = ((t1, t2), i)" by (metis surj_pair)
  obtain s' b where r: "guard_call s ((t1, t2), i) = (s', b)" by (cases "guard_call s ((t1, t2), i)") auto
  then show ?thesis
  proof (cases rule: guard_call_cases)
    case (accepted key h tip)
    then show ?thesis using assms by (cases "key = k") (auto simp: c r)
  qed (use assms c r in auto)
qed

lemma high_grows_run: "map_of (ar_high s) k = Some x \<Longrightarrow> \<exists>y \<ge> x. map_of (ar_high (snd (run_calls guard_call s cs))) k = Some y"
proof (induction cs arbitrary: s x)
  case (Cons c cs)
  obtain y where y: "y \<ge> x" "map_of (ar_high (fst (guard_call s c))) k = Some y" using high_grows [OF Cons.prems, of c] by blast
  from Cons.IH [OF y(2)] y(1) show ?case by (auto simp: snd_run_calls_Cons simp del: run_calls.simps)
qed auto

definition input_height :: "guard_input \<Rightarrow> int" where
  "input_height i = (case gi_height i of Sealed h \<Rightarrow> h | Bare \<Rightarrow> 0)"

lemma accepted_call:
  assumes "snd (guard_call s ((t1, t2), i))"
  shows "\<exists>key. gi_key i = FBytes key \<and> gi_height i = Sealed (input_height i)
    \<and> map_of (ar_high (fst (guard_call s ((t1, t2), i)))) key = Some (input_height i)
    \<and> pred_option (\<lambda>x. x \<le> input_height i) (map_of (ar_high s) key)
    \<and> (\<forall>x. gi_head i = PInt x \<longrightarrow> \<bar>input_height i - x\<bar> \<le> ar_window s)
    \<and> (gi_head i = PNone \<or> (\<exists>x. gi_head i = PInt x \<and> 0 \<le> x))"
proof -
  obtain s' b where c: "guard_call s ((t1, t2), i) = (s', b)" by (cases "guard_call s ((t1, t2), i)") auto
  then show ?thesis
  proof (cases rule: guard_call_cases)
    case (accepted key h tip)
    then have "input_height i = h" by (simp add: input_height_def)
    then show ?thesis using accepted c by (auto simp: head_bounds_def split: pyval.splits if_splits)
  qed (use assms c in auto)
qed

lemma window_run: "ar_window (snd (run_calls guard_call s cs)) = ar_window s"
proof -
  have "ar_window (fst (guard_call s c)) = ar_window s" for s c
  proof -
    obtain t1 t2 i where c: "c = ((t1, t2), i)" by (metis surj_pair)
    obtain s' b where r: "guard_call s ((t1, t2), i) = (s', b)" by (cases "guard_call s ((t1, t2), i)") auto
    then show ?thesis by (cases rule: guard_call_cases) (simp_all add: c r)
  qed
  then show ?thesis using run_calls_invariant [of "\<lambda>x. ar_window x = ar_window s" s guard_call cs] by auto
qed

section \<open>What is remembered\<close>

definition sweep :: "rat \<Rightarrow> (string, rat) dict \<Rightarrow> (string, rat) dict" where
  "sweep cutoff v = filter (\<lambda>(e, t). cutoff \<le> t) v"

lemma purge_is_sweep: "sorted (map snd v) \<Longrightarrow> purge_front cutoff v = sweep cutoff v"
proof (induction cutoff v rule: purge_front.induct)
  case (2 cutoff e t v)
  show ?case
  proof (cases "t \<ge> cutoff")
    case True
    then have "filter (\<lambda>(e, t). cutoff \<le> t) v = v" using "2.prems" by (force intro!: filter_True)
    then show ?thesis using True by (simp add: sweep_def)
  qed (use 2 in \<open>auto simp: sweep_def\<close>)
qed (simp add: sweep_def)

definition seen_ordered :: "rat \<Rightarrow> antireplay \<Rightarrow> bool" where
  "seen_ordered now s \<longleftrightarrow> sorted (map snd (ar_seen s)) \<and> (\<forall>p \<in> set (ar_seen s). snd p \<le> now) \<and> wf_dict (ar_seen s)"

lemma sorted_map_filter: "sorted (map f xs) \<Longrightarrow> sorted (map f (filter P xs))"
  by (induction xs) auto

lemma seen_ordered_call:
  assumes "seen_ordered now s" "now \<le> t1" "t1 \<le> t2"
  shows "seen_ordered t2 (fst (guard_call s ((t1, t2), i)))"
proof -
  let ?v = "purge_front (t1 - ar_retention s) (ar_seen s)"
  have v: "?v = sweep (t1 - ar_retention s) (ar_seen s)" using assms(1) by (simp add: seen_ordered_def purge_is_sweep)
  have p: "sorted (map snd ?v)" "\<forall>p \<in> set ?v. snd p \<le> t2" "wf_dict ?v"
    unfolding v sweep_def using assms
    by (auto simp: seen_ordered_def sorted_map_filter wf_dict_def distinct_map_filter)
  obtain s' b where c: "guard_call s ((t1, t2), i) = (s', b)" by (cases "guard_call s ((t1, t2), i)") auto
  then show ?thesis
  proof (cases rule: guard_call_cases)
    case (accepted key h tip)
    then have "ar_seen s' = ?v @ [(input_digest i, t2)]" by (auto simp: map_of_eq_None_iff update_new)
    moreover have "input_digest i \<notin> fst ` set ?v" using accepted(5) by (simp add: map_of_eq_None_iff)
    ultimately show ?thesis using p c by (auto simp: seen_ordered_def sorted_append wf_dict_def)
  qed (use assms p c in \<open>auto simp: seen_ordered_def\<close>)
qed

lemma seen_ordered_run:
  "seen_ordered now s \<Longrightarrow> sorted (now # clock_reads cs) \<Longrightarrow> seen_ordered (last (now # clock_reads cs)) (snd (run_calls guard_call s cs))"
proof (induction cs arbitrary: now s)
  case (Cons c cs)
  obtain t1 t2 i where c: "c = ((t1, t2), i)" by (metis surj_pair)
  have r: "clock_reads (c # cs) = t1 # t2 # clock_reads cs" by (simp add: clock_reads_def c)
  have "now \<le> t1" "t1 \<le> t2" using Cons.prems(2) unfolding r by auto
  then have "seen_ordered t2 (fst (guard_call s c))" using seen_ordered_call Cons.prems(1) by (simp add: c)
  from Cons.IH [OF this] Cons.prems(2) show ?case by (simp add: r snd_run_calls_Cons del: run_calls.simps)
qed (simp add: clock_reads_def)

section \<open>Properties\<close>

text \<open>
  C6: a captured write cannot be accepted again within the retention. Over any list of calls of the guard, from any
  state, with a clock that never goes back: two accepted calls that carry the same digest are more than the retention
  apart, whatever their keys, heights and heads, and whatever was called in between.
\<close>

theorem no_replay_within_retention:
  assumes "clock_ok cs" "i < j" "j < length cs"
    and "fst (run_calls guard_call s cs) ! i" "fst (run_calls guard_call s cs) ! j"
    and "input_digest (snd (cs ! i)) = input_digest (snd (cs ! j))"
  shows "fst (fst (cs ! j)) > snd (fst (cs ! i)) + ar_retention s"
  using guard.no_digest_twice [OF _ assms(2-6)] clock_ok_nth [OF assms(1)] by blast

definition sample_guard :: antireplay where
  "sample_guard = \<lparr>ar_retention = 100, ar_window = 200, ar_high = [], ar_seen = [], ar_nominal = 0, ar_degraded = 0, ar_refusals = []\<rparr>"

definition sample_call :: "rat \<Rightarrow> (rat \<times> rat) \<times> guard_input" where
  "sample_call t = ((t, t), \<lparr>gi_key = FBytes ''k'', gi_height = Sealed 7, gi_digest = FBytes (replicate 32 (CHR ''d'')), gi_head = PNone\<rparr>)"

lemma sample_guard_run: "fst (run_calls guard_call sample_guard [sample_call 1, sample_call 50, sample_call 200]) = [True, False, True]"
proof -
  have "verify_known 1 (purge 1 sample_guard) ''k'' 7 (replicate 32 (CHR ''d'')) PNone
      = (sample_guard\<lparr>ar_seen := [(replicate 32 (CHR ''d''), 1)], ar_high := [(''k'', 7)], ar_degraded := 1\<rparr>,
         \<lparr>v_accepted = True, v_regime = DEGRADED, v_reason = None\<rparr>)"
    by (simp add: verify_known_def purge_def sample_guard_def head_bounds_def)
  then show ?thesis
    by (simp add: sample_call_def guard_call_def verify_def accepted_by_def map_prod_def)
      (simp add: verify_known_def purge_def sample_guard_def head_bounds_def refuse_def)
qed

theorem no_replay_within_retention_witness: "snd (fst (sample_call 1)) + ar_retention sample_guard < fst (fst (sample_call 200))"
proof -
  have "clock_ok [sample_call 1, sample_call 50, sample_call 200]" by (simp add: clock_ok_def clock_reads_def sample_call_def)
  from no_replay_within_retention [OF this, of 0 2 sample_guard] sample_guard_run
  show ?thesis by (simp add: sample_call_def)
qed

text \<open>
  C7: the guard never goes back and never loses freshness. Over any list of calls, two accepted calls of the same writing
  key have heights in order (equal heights are accepted), an accepted call with a known head is within the window around
  it, only a sealed height is accepted, and a refused call leaves every high-water mark as it was.
\<close>

theorem accepted_heights_in_order:
  assumes "i \<le> j" "j < length cs" "fst (run_calls guard_call s cs) ! j"
  shows "gi_height (snd (cs ! j)) = Sealed (input_height (snd (cs ! j)))
    \<and> (\<forall>x. gi_head (snd (cs ! j)) = PInt x \<longrightarrow> \<bar>input_height (snd (cs ! j)) - x\<bar> \<le> ar_window s)
    \<and> (gi_key (snd (cs ! i)) = gi_key (snd (cs ! j)) \<longrightarrow>
        (if fst (run_calls guard_call s cs) ! i then input_height (snd (cs ! i)) \<le> input_height (snd (cs ! j))
         else ar_high (snd (run_calls guard_call s (take (Suc i) cs))) = ar_high (snd (run_calls guard_call s (take i cs)))))"
proof -
  let ?s = "\<lambda>k. snd (run_calls guard_call s (take k cs))"
  obtain a b x where cj: "cs ! j = ((a, b), x)" by (metis surj_pair)
  have "snd (guard_call (?s j) (cs ! j))" using assms run_calls_nth [of j cs guard_call s] by simp
  from accepted_call [of "?s j" a b x] this obtain key where J: "gi_key x = FBytes key" "gi_height x = Sealed (input_height x)"
    "pred_option (\<lambda>y. y \<le> input_height x) (map_of (ar_high (?s j)) key)"
    "\<forall>y. gi_head x = PInt y \<longrightarrow> \<bar>input_height x - y\<bar> \<le> ar_window s" by (auto simp: cj window_run)
  have ii: "i < length cs" using assms by simp
  obtain a' b' x' where ci: "cs ! i = ((a', b'), x')" by (metis surj_pair)
  have step: "?s (Suc i) = fst (guard_call (?s i) (cs ! i))" using run_calls_take_Suc [OF ii] .
  have acc: "fst (run_calls guard_call s cs) ! i = snd (guard_call (?s i) (cs ! i))" using run_calls_nth [OF ii] .
  have "if fst (run_calls guard_call s cs) ! i then input_height x' \<le> input_height x else ar_high (?s (Suc i)) = ar_high (?s i)"
    if same: "gi_key x' = gi_key x"
  proof (cases "fst (run_calls guard_call s cs) ! i")
    case True
    with accepted_call [of "?s i" a' b' x'] same J(1) have hi: "map_of (ar_high (?s (Suc i))) key = Some (input_height x')"
      by (simp add: acc ci step)
    show ?thesis
    proof (cases "i = j")
      case False
      then have "take j cs = take (Suc i) cs @ take (j - Suc i) (drop (Suc i) cs)" using assms(1) by (simp flip: take_add)
      then have "?s j = snd (run_calls guard_call (?s (Suc i)) (take (j - Suc i) (drop (Suc i) cs)))"
        by (simp add: run_calls_append split: prod.splits)
      then obtain y where "input_height x' \<le> y" "map_of (ar_high (?s j)) key = Some y"
        using high_grows_run [OF hi, of "take (j - Suc i) (drop (Suc i) cs)"] by auto
      then show ?thesis using J(3) True by simp
    qed (use ci cj True in simp)
  next
    case False
    obtain s' r where c: "guard_call (?s i) ((a', b'), x') = (s', r)" by (cases "guard_call (?s i) ((a', b'), x')") auto
    then show ?thesis using False by (cases rule: guard_call_cases) (simp_all add: acc step ci c)
  qed
  then show ?thesis using J by (simp add: cj ci)
qed

theorem accepted_heights_in_order_witness:
  "input_height (snd (sample_call 1)) \<le> input_height (snd (sample_call 200))"
  using accepted_heights_in_order [of 0 2 "[sample_call 1, sample_call 50, sample_call 200]" sample_guard] sample_guard_run
  by (simp add: sample_call_def)

text \<open>
  The purge that stops at the first young digest forgets exactly what a full sweep would. After any calls of a new
  guard with a clock that never goes back, purging gives the digests no older than the retention, all of them and no
  other, each once and in the order they were accepted.
\<close>

theorem purge_equals_sweep:
  assumes "init_antireplay retention window = Inr s" "clock_ok cs"
  shows "purge now (snd (run_calls guard_call s cs))
      = (snd (run_calls guard_call s cs))\<lparr>ar_seen := sweep (now - retention) (ar_seen (snd (run_calls guard_call s cs)))\<rparr>
    \<and> wf_dict (ar_seen (snd (run_calls guard_call s cs))) \<and> sorted (map snd (ar_seen (snd (run_calls guard_call s cs))))"
proof (cases cs)
  case Nil
  then show ?thesis using assms(1)
    by (auto simp: init_antireplay_def purge_def sweep_def split: if_splits pyval.splits)
next
  case (Cons c cs')
  have new: "ar_seen s = []" "ar_retention s = retention"
    using assms(1) by (auto simp: init_antireplay_def split: if_splits pyval.splits)
  let ?t = "fst (fst c)"
  have "sorted (?t # clock_reads cs)" using assms(2) by (simp add: Cons clock_ok_def clock_reads_def)
  moreover have "seen_ordered ?t s" by (simp add: seen_ordered_def new)
  ultimately have "seen_ordered (last (?t # clock_reads cs)) (snd (run_calls guard_call s cs))" by (rule seen_ordered_run [rotated])
  then show ?thesis by (simp add: seen_ordered_def purge_def purge_is_sweep guard.retention_run new)
qed

theorem purge_equals_sweep_witness:
  "\<exists>s. init_antireplay 100 (PInt 200) = Inr s \<and> wf_dict (ar_seen (snd (run_calls guard_call s [sample_call 1, sample_call 50])))"
proof -
  obtain s where s: "init_antireplay 100 (PInt 200) = Inr s" by (simp add: init_antireplay_def)
  have "clock_ok [sample_call 1, sample_call 50]" by (simp add: clock_ok_def clock_reads_def sample_call_def)
  from purge_equals_sweep [OF s this] s show ?thesis by blast
qed

end
