(* ===== verification/Registry_Cache.thy ===== *)
theory Registry_Cache
  imports Py_Values
begin

text \<open>
  The relay's caches of the chain's registries: \<open>src/services/modea/registry_cache.py\<close> (miner to operator and creator)
  and its subclass \<open>src/services/modea/job_registry.py\<close> (job to paying client, with the lookups by id kept in a bounded
  least-recently-used map). A read's answer is the JSON value of its body, or the exception of the reader, of the
  decoding or of the parser: \<open>refresh\<close> counts them alike. The words of \<open>last_error\<close> are not modelled, only its class.
\<close>

section \<open>The miner registry\<close>

datatype reg_state = NEVER_READ | FEES | STALE

record registry =
  rg_expiry :: rat
  rg_operators :: "(string, string) dict"
  rg_creators :: "(string, string) dict"
  rg_last :: "rat option"
  rg_ok :: int
  rg_failed :: int
  rg_error :: "exc option"

definition init_registry :: "rat \<Rightarrow> registry result" where
  "init_registry expiry =
     (if expiry \<le> 0 then Inl ValueError
      else Inr \<lparr>rg_expiry = expiry, rg_operators = [], rg_creators = [], rg_last = None, rg_ok = 0, rg_failed = 0, rg_error = None\<rparr>)"

text \<open>The first of the names whose value is a list.\<close>

fun first_list :: "pydict \<Rightarrow> string list \<Rightarrow> pyval list option" where
  "first_list d [] = None"
| "first_list d (k # ks) = (case dget d k of PList xs \<Rightarrow> Some xs | _ \<Rightarrow> first_list d ks)"

text \<open>A text that is not empty.\<close>

definition full_text :: "pyval \<Rightarrow> string option" where
  "full_text v = (case v of PStr s \<Rightarrow> if s = [] then None else Some s | _ \<Rightarrow> None)"

text \<open>\<open>miner_id\<close> with the named address of an entry, when both are texts that are not empty.\<close>

definition entry_pair :: "string \<Rightarrow> pyval \<Rightarrow> (string \<times> string) option" where
  "entry_pair name m = (case m of
     PDict d \<Rightarrow> (case (full_text (dget d ''miner_id''), full_text (dget d name)) of
         (Some mid, Some a) \<Rightarrow> Some (mid, a) | _ \<Rightarrow> None)
   | _ \<Rightarrow> None)"

fun collect :: "('a \<Rightarrow> (string \<times> string) option) \<Rightarrow> (string, string) dict \<Rightarrow> 'a list \<Rightarrow> (string, string) dict" where
  "collect f out [] = out"
| "collect f out (m # ms) = collect f (case f m of Some (k, v) \<Rightarrow> AList.update k v out | None \<Rightarrow> out) ms"

definition MINER_LISTS :: "string list" where
  "MINER_LISTS = [''miner'', ''Miner'', ''miners'']"

definition extract_operators :: "pyval \<Rightarrow> (string, string) dict result" where
  "extract_operators v = (case v of
     PDict d \<Rightarrow> (case first_list d MINER_LISTS of
         None \<Rightarrow> Inl ValueError
       | Some entries \<Rightarrow> (let out = collect (entry_pair ''operator'') [] entries in
                          if out = [] then Inl ValueError else Inr out))
   | _ \<Rightarrow> Inl ValueError)"

definition extract_creators :: "pyval \<Rightarrow> (string, string) dict" where
  "extract_creators v = (case v of
     PDict d \<Rightarrow> (case first_list d MINER_LISTS of
         None \<Rightarrow> [] | Some entries \<Rightarrow> collect (entry_pair ''creator'') [] entries)
   | _ \<Rightarrow> [])"

text \<open>\<open>refresh\<close> with the extraction of the class; \<open>now\<close> is the clock's read after a success.\<close>

definition refresh_with :: "(pyval \<Rightarrow> (string, string) dict result) \<Rightarrow> pyval result \<Rightarrow> rat
    \<Rightarrow> 'a registry_scheme \<Rightarrow> 'a registry_scheme \<times> bool" where
  "refresh_with extract raw now s =
     (case bind_res raw (\<lambda>v. bind_res (extract v) (\<lambda>ops. Inr (ops, extract_creators v))) of
        Inl e \<Rightarrow> (s\<lparr>rg_failed := rg_failed s + 1, rg_error := Some e\<rparr>, False)
      | Inr (ops, crs) \<Rightarrow>
          (s\<lparr>rg_operators := ops, rg_creators := crs, rg_last := Some now, rg_ok := rg_ok s + 1, rg_error := None\<rparr>, True))"

definition refresh :: "pyval result \<Rightarrow> rat \<Rightarrow> registry \<Rightarrow> registry \<times> bool" where
  "refresh = refresh_with extract_operators"

definition age :: "'a registry_scheme \<Rightarrow> rat \<Rightarrow> rat option" where
  "age s now = map_option (\<lambda>t. now - t) (rg_last s)"

definition state :: "'a registry_scheme \<Rightarrow> rat \<Rightarrow> reg_state" where
  "state s now = (case age s now of None \<Rightarrow> NEVER_READ | Some a \<Rightarrow> if a \<le> rg_expiry s then FEES else STALE)"

definition operator :: "'a registry_scheme \<Rightarrow> rat \<Rightarrow> string \<Rightarrow> string option \<times> reg_state" where
  "operator s now miner_id = (map_of (rg_operators s) miner_id, state s now)"

definition creator :: "'a registry_scheme \<Rightarrow> rat \<Rightarrow> string \<Rightarrow> string option \<times> reg_state" where
  "creator s now miner_id = (map_of (rg_creators s) miner_id, state s now)"

section \<open>The job registry\<close>

definition BY_ID_MAX :: nat where
  "BY_ID_MAX = 4096"

text \<open>The last \<open>__\<close> of a key: what stands before it and after it.\<close>

fun cut_last :: "string \<Rightarrow> (string \<times> string) option" where
  "cut_last [] = None"
| "cut_last (c # s) =
     (case cut_last s of
        Some (h, t) \<Rightarrow> Some (c # h, t)
      | None \<Rightarrow> if starts (c # s) ''__'' then Some ([], drop 2 (c # s)) else None)"

text \<open>\<open>job_from_key\<close>; the key is any value, the announced miner too.\<close>

definition job_from_key :: "pyval \<Rightarrow> pyval \<Rightarrow> string result" where
  "job_from_key key miner_id = (case key of
     PStr k \<Rightarrow> (case cut_last k of
         None \<Rightarrow> Inl ValueError
       | Some (h, t) \<Rightarrow> if h = [] then Inl ValueError else if \<not> eq_str miner_id t then Inl ValueError else Inr h)
   | _ \<Rightarrow> Inl ValueError)"

text \<open>\<open>a or b\<close> on values.\<close>

definition py_or :: "pyval \<Rightarrow> pyval \<Rightarrow> pyval" where
  "py_or a b = (if truthy a then a else b)"

definition pair_of_job :: "pyval \<Rightarrow> (string \<times> string) option" where
  "pair_of_job j = (case j of
     PDict d \<Rightarrow> (case (full_text (py_or (py_or (dget d ''job_id'') (dget d ''jobId'')) (dget d ''id'')), full_text (dget d ''client'')) of
         (Some jid, Some cli) \<Rightarrow> Some (jid, cli) | _ \<Rightarrow> None)
   | _ \<Rightarrow> None)"

record job_registry = registry +
  jr_next :: pyval
  jr_lookups_ok :: int
  jr_lookups_failed :: int
  jr_by_id :: "(string, string \<times> rat) dict"
  jr_by_id_max :: nat

definition init_jobs :: "rat \<Rightarrow> pyval \<Rightarrow> job_registry result" where
  "init_jobs expiry by_id_max =
     bind_res (init_registry expiry) (\<lambda>r. case by_id_max of
       PInt n \<Rightarrow> if n \<le> 0 then Inl ValueError
         else Inr (registry.extend r \<lparr>jr_next = PStr [], jr_lookups_ok = 0, jr_lookups_failed = 0, jr_by_id = [], jr_by_id_max = nat n\<rparr>)
     | _ \<Rightarrow> Inl ValueError)"

definition JOB_LISTS :: "string list" where
  "JOB_LISTS = [''job'', ''Job'', ''jobs'']"

definition extract_jobs :: "pyval \<Rightarrow> ((string, string) dict \<times> pyval) result" where
  "extract_jobs v = (case v of
     PDict d \<Rightarrow> (case first_list d JOB_LISTS of
         None \<Rightarrow> Inl ValueError
       | Some entries \<Rightarrow> (let out = collect pair_of_job [] entries in
           if out = [] then Inl ValueError
           else (case dget d ''pagination'' of
               PNone \<Rightarrow> Inr (out, PStr [])
             | PDict p \<Rightarrow> Inr (out, py_or (dget p ''next_key'') (PStr []))
             | _ \<Rightarrow> Inl ValueError)))
   | _ \<Rightarrow> Inl ValueError)"

definition refresh_jobs :: "pyval result \<Rightarrow> rat \<Rightarrow> job_registry \<Rightarrow> job_registry \<times> bool" where
  "refresh_jobs raw now s =
     (let (s1, ok) = refresh_with (\<lambda>v. map_sum id fst (extract_jobs v)) raw now s in
      case bind_res raw extract_jobs of
        Inr (ops, nxt) \<Rightarrow> (s1\<lparr>jr_next := nxt\<rparr>, ok)
      | Inl e \<Rightarrow> (s1, ok))"

text \<open>What a lookup by id found: nothing was read, the chain names nobody, or a client.\<close>

datatype lookup = LookupFailed | NamesNobody | Names string

definition evict :: "nat \<Rightarrow> 'a list \<Rightarrow> 'a list" where
  "evict n xs = drop (length xs - n) xs"

definition job_of_answer :: "pyval \<Rightarrow> (string \<times> string) option result" where
  "job_of_answer v = (case v of PDict d \<Rightarrow> Inr (pair_of_job (dget d ''job'')) | _ \<Rightarrow> Inl ValueError)"

definition resolve_by_id :: "(string \<Rightarrow> pyval result) option \<Rightarrow> rat \<Rightarrow> job_registry \<Rightarrow> string \<Rightarrow> job_registry \<times> lookup" where
  "resolve_by_id job_reader now s job_id =
     (case job_reader of
        None \<Rightarrow> (s, LookupFailed)
      | Some rd \<Rightarrow>
          (case bind_res (rd job_id) job_of_answer of
             Inl e \<Rightarrow> (s\<lparr>jr_lookups_failed := jr_lookups_failed s + 1, rg_error := Some e\<rparr>, LookupFailed)
           | Inr p \<Rightarrow>
               (let s1 = s\<lparr>jr_lookups_ok := jr_lookups_ok s + 1\<rparr> in
                case p of
                  Some (j, cli) \<Rightarrow>
                    if j \<noteq> job_id then (s1\<lparr>jr_by_id := AList.delete job_id (jr_by_id s1)\<rparr>, NamesNobody)
                    else (s1\<lparr>jr_by_id := evict (jr_by_id_max s1) (AList.delete job_id (jr_by_id s1) @ [(job_id, (cli, now))])\<rparr>, Names cli)
                | None \<Rightarrow> (s1\<lparr>jr_by_id := AList.delete job_id (jr_by_id s1)\<rparr>, NamesNobody))))"

text \<open>\<open>client\<close>; the clock is read for the freshness of a kept job, by the lookup, and for the state.\<close>

definition client :: "(string \<Rightarrow> pyval result) option \<Rightarrow> rat \<times> rat \<times> rat \<Rightarrow> job_registry \<Rightarrow> string
    \<Rightarrow> job_registry \<times> string option \<times> reg_state" where
  "client job_reader clk s job_id =
     (case clk of (t1, t2, t3) \<Rightarrow>
      (case map_of (rg_operators s) job_id of
         Some v \<Rightarrow> (s, Some v, state s t3)
       | None \<Rightarrow>
           if job_id = [] then (s, None, state s t3)
           else (let held = map_of (jr_by_id s) job_id in
             case held of
               Some (cli, since) \<Rightarrow>
                 if t1 - since \<le> rg_expiry s
                 then (s\<lparr>jr_by_id := AList.delete job_id (jr_by_id s) @ [(job_id, (cli, since))]\<rparr>, Some cli, state s t3)
                 else (case resolve_by_id job_reader t2 s job_id of
                     (s1, LookupFailed) \<Rightarrow> (s1, Some cli, state s1 t3)
                   | (s1, NamesNobody) \<Rightarrow> (s1, None, state s1 t3)
                   | (s1, Names c) \<Rightarrow> (s1, Some c, state s1 t3))
             | None \<Rightarrow>
                 (case resolve_by_id job_reader t2 s job_id of
                    (s1, Names c) \<Rightarrow> (s1, Some c, state s1 t3)
                  | (s1, _) \<Rightarrow> (s1, None, state s1 t3)))))"

definition list_truncated :: "job_registry \<Rightarrow> bool" where
  "list_truncated s = truthy (jr_next s)"

section \<open>The key of a request names one job\<close>

lemma cut_last_None: "cut_last k = None \<longleftrightarrow> \<not> occurs ''__'' k"
  by (induction k rule: cut_last.induct) (auto split: option.splits)

lemma starts_two: "starts k ''__'' \<longleftrightarrow> (\<exists>t. k = ''__'' @ t)"
proof -
  have "starts k ''__'' \<Longrightarrow> k = ''__'' @ drop 2 k"
    unfolding starts_def by (metis append_take_drop_id list.size(3,4) numeral_2_eq_2 One_nat_def add_0 plus_1_eq_Suc)
  then show ?thesis by (auto simp: starts_def)
qed

lemma cut_last_Some: "cut_last k = Some (h, t) \<longleftrightarrow> k = h @ ''__'' @ t \<and> \<not> occurs ''__'' (''_'' @ t)"
proof (induction k arbitrary: h t)
  case (Cons c s)
  show ?case
  proof (cases "cut_last s")
    case None
    then have no: "\<not> occurs ''__'' s" by (simp add: cut_last_None)
    have later: "occurs ''__'' (x @ ''__'' @ y)" for x y :: string by (induction x) (auto simp: starts_def)
    show ?thesis
    proof (cases "starts (c # s) ''__''")
      case True
      then obtain y where y: "c # s = ''__'' @ y" by (auto simp: starts_two)
      then have "cut_last (c # s) = Some ([], y)" using None True by simp
      moreover have "h = [] \<and> t = y \<longleftrightarrow> c # s = h @ ''__'' @ t \<and> \<not> occurs ''__'' (''_'' @ t)"
      proof (cases h)
        case Nil
        then show ?thesis using y no by auto
      next
        case (Cons a h2)
        then have "c # s \<noteq> h @ ''__'' @ t" using no later [of h2 t] by (metis append_Cons list.inject)
        then show ?thesis using Cons by blast
      qed
      ultimately show ?thesis by auto
    next
      case False
      then have "cut_last (c # s) = None" using None by simp
      moreover have "c # s \<noteq> h @ ''__'' @ t" using False no later [of "tl h" t] by (cases h) (auto simp: starts_two)
      ultimately show ?thesis by simp
    qed
  next
    case (Some p)
    obtain h' t' where p: "p = (h', t')" by (cases p)
    then have s: "s = h' @ ''__'' @ t'" "\<not> occurs ''__'' (''_'' @ t')" using Cons.IH Some by auto
    have r: "cut_last (c # s) = Some (c # h', t')" using Some p by simp
    show ?thesis
    proof (cases h)
      case Nil
      have "occurs ''__'' (''_'' @ t)" if "c # s = ''__'' @ t"
      proof -
        have "s = ''_'' @ t" using that by simp
        moreover have "occurs ''__'' s" using Some cut_last_None [of s] by auto
        ultimately show ?thesis by simp
      qed
      then show ?thesis using r Nil by auto
    next
      case (Cons a h2)
      then show ?thesis using r Cons.IH [of h2 t] Some p by auto
    qed
  qed
qed simp

lemma job_from_key_iff:
  "job_from_key (PStr k) (PStr m) = Inr j \<longleftrightarrow> k = j @ ''__'' @ m \<and> j \<noteq> [] \<and> \<not> occurs ''__'' (''_'' @ m)"
proof (cases "cut_last k")
  case None
  then have "k \<noteq> j @ ''__'' @ m \<or> occurs ''__'' (''_'' @ m)" by (metis cut_last_Some option.distinct(1))
  then show ?thesis using None by (auto simp: job_from_key_def)
next
  case (Some p)
  obtain h t where p: "p = (h, t)" by (cases p)
  have "h = j \<and> t = m \<longleftrightarrow> k = j @ ''__'' @ m \<and> \<not> occurs ''__'' (''_'' @ m)"
    using cut_last_Some [of k j m] Some p by simp
  then show ?thesis using Some p by (auto simp: job_from_key_def)
qed

text \<open>
  A request's key names one job of one miner. The job read from a key under an announced miner is what stands before
  the last separator, never empty, and the key is exactly that job, the separator and that miner; so a key is accepted
  for one miner only and for one job only, and two keys of a miner that name the same job are the same key. A key that
  is not text, or whose tail is not the announced miner, raises ValueError.
\<close>

theorem key_names_one_job:
  "(job_from_key (PStr k) (PStr m) = Inr j \<longleftrightarrow> k = j @ ''__'' @ m \<and> j \<noteq> [] \<and> \<not> occurs ''__'' (''_'' @ m))
   \<and> (\<forall>m' j'. job_from_key (PStr k) (PStr m) = Inr j \<and> job_from_key (PStr k) m' = Inr j' \<longrightarrow> m' = PStr m \<and> j' = j)
   \<and> (\<forall>k'. job_from_key (PStr k) (PStr m) = Inr j \<and> job_from_key (PStr k') (PStr m) = Inr j \<longrightarrow> k' = k)
   \<and> (\<forall>v w e. job_from_key v w = Inl e \<longrightarrow> e = ValueError)"
proof (intro conjI allI impI)
  show "job_from_key (PStr k) (PStr m) = Inr j \<longleftrightarrow> k = j @ ''__'' @ m \<and> j \<noteq> [] \<and> \<not> occurs ''__'' (''_'' @ m)"
    by (rule job_from_key_iff)
  show "m' = PStr m" "j' = j" if "job_from_key (PStr k) (PStr m) = Inr j \<and> job_from_key (PStr k) m' = Inr j'" for m' j'
    using that by (auto simp: job_from_key_def eq_str_def split: option.splits if_splits)
  show "k' = k" if "job_from_key (PStr k) (PStr m) = Inr j \<and> job_from_key (PStr k') (PStr m) = Inr j" for k'
    using that by (auto simp: job_from_key_iff)
  show "e = ValueError" if "job_from_key v w = Inl e" for v w e
    using that by (auto simp: job_from_key_def split: pyval.splits option.splits if_splits)
qed

theorem key_names_one_job_witness: "job_from_key (PStr ''job__7__m1'') (PStr ''m1'') = Inr ''job__7''"
  using key_names_one_job [of "''job__7__m1''" "''m1''" "''job__7''"] by (simp add: starts_def)

section \<open>The registry is its last usable read\<close>

text \<open>The specification: the operators, creators and time of the last read that could be used.\<close>

definition usable :: "pyval result \<Rightarrow> ((string, string) dict \<times> (string, string) dict) option" where
  "usable raw = (case bind_res raw (\<lambda>v. bind_res (extract_operators v) (\<lambda>ops. Inr (ops, extract_creators v))) of
     Inr x \<Rightarrow> Some x | Inl e \<Rightarrow> None)"

fun last_usable :: "(pyval result \<times> rat) list \<Rightarrow> (((string, string) dict \<times> (string, string) dict) \<times> rat) option" where
  "last_usable [] = None"
| "last_usable ((raw, now) # rs) =
     (case last_usable rs of Some x \<Rightarrow> Some x | None \<Rightarrow> map_option (\<lambda>x. (x, now)) (usable raw))"

definition refresh_call :: "registry \<Rightarrow> pyval result \<times> rat \<Rightarrow> registry \<times> bool" where
  "refresh_call s c = refresh (fst c) (snd c) s"

lemma refresh_usable:
  "refresh raw now s = (case usable raw of
     Some (ops, crs) \<Rightarrow> (s\<lparr>rg_operators := ops, rg_creators := crs, rg_last := Some now, rg_ok := rg_ok s + 1, rg_error := None\<rparr>, True)
   | None \<Rightarrow> (s\<lparr>rg_failed := rg_failed s + 1, rg_error := rg_error (fst (refresh raw now s))\<rparr>, False))"
  by (auto simp: refresh_def refresh_with_def usable_def split: sum.splits)

definition view :: "registry \<Rightarrow> (((string, string) dict \<times> (string, string) dict) \<times> rat) option" where
  "view s = map_option (\<lambda>t. ((rg_operators s, rg_creators s), t)) (rg_last s)"

lemma refresh_view: "view (fst (refresh raw now s)) = (case usable raw of Some x \<Rightarrow> Some (x, now) | None \<Rightarrow> view s)"
  by (subst refresh_usable) (auto simp: view_def split: option.splits)

lemma refresh_run_view:
  "view (snd (run_calls refresh_call s cs)) = (case last_usable cs of Some x \<Rightarrow> Some x | None \<Rightarrow> view s)"
proof (induction cs arbitrary: s)
  case (Cons c cs)
  obtain raw now where c: "c = (raw, now)" by (cases c)
  show ?case
    by (simp only: snd_run_calls_Cons Cons.IH) (auto simp: c refresh_call_def refresh_view split: option.splits)
qed simp

lemma collect_pairs:
  assumes "\<And>m k v. m \<in> set ms \<Longrightarrow> f m = Some (k, v) \<Longrightarrow> P k v" "\<forall>(k, v) \<in> set out. P k v"
  shows "\<forall>(k, v) \<in> set (collect f out ms). P k v"
  using assms
proof (induction ms arbitrary: out)
  case (Cons m ms)
  show ?case
  proof (cases "f m")
    case (Some p)
    obtain k v where p: "p = (k, v)" by (cases p)
    have "\<forall>(k', v') \<in> set (AList.update k v out). P k' v'"
      using Cons.prems Some p set_update_subset [of k v out] by fastforce
    moreover have "\<And>m k v. m \<in> set ms \<Longrightarrow> f m = Some (k, v) \<Longrightarrow> P k v" using Cons.prems(1) by (meson list.set_intros(2))
    ultimately have "\<forall>(k', v') \<in> set (collect f (AList.update k v out) ms). P k' v'" using Cons.IH by blast
    then show ?thesis using Some p by simp
  qed (use Cons in auto)
qed simp

lemma collect_wf: "wf_dict out \<Longrightarrow> wf_dict (collect f out ms)"
  by (induction ms arbitrary: out) (auto split: option.splits)

lemma entry_pair_full: "entry_pair n m = Some (k, v) \<Longrightarrow> k \<noteq> [] \<and> v \<noteq> []"
  by (auto simp: entry_pair_def full_text_def split: pyval.splits option.splits if_splits)

lemma usable_full: "usable raw = Some (ops, crs) \<Longrightarrow> ops \<noteq> [] \<and> wf_dict ops \<and> (\<forall>(k, v) \<in> set ops \<union> set crs. k \<noteq> [] \<and> v \<noteq> [])"
proof -
  have c: "\<forall>(k, v) \<in> set (collect (entry_pair n) [] ms). k \<noteq> [] \<and> v \<noteq> []" for n ms
    using entry_pair_full by (intro collect_pairs) auto
  show "usable raw = Some (ops, crs) \<Longrightarrow> ops \<noteq> [] \<and> wf_dict ops \<and> (\<forall>(k, v) \<in> set ops \<union> set crs. k \<noteq> [] \<and> v \<noteq> [])"
    using c by (fastforce simp: usable_def extract_operators_def extract_creators_def bind_res_eq_Inr Let_def collect_wf
        split: sum.splits pyval.splits option.splits if_splits)
qed

lemma last_usable_in: "last_usable cs = Some (x, now) \<Longrightarrow> \<exists>raw. (raw, now) \<in> set cs \<and> usable raw = Some x"
  by (induction cs rule: last_usable.induct) (force split: option.splits)+

lemma refresh_counts:
  "rg_ok (snd (run_calls refresh_call s cs)) = rg_ok s + int (length (filter (\<lambda>c. usable (fst c) \<noteq> None) cs))
   \<and> rg_failed (snd (run_calls refresh_call s cs)) = rg_failed s + int (length (filter (\<lambda>c. usable (fst c) = None) cs))"
proof (induction cs arbitrary: s)
  case (Cons c cs)
  have "rg_ok (fst (refresh_call s c)) = rg_ok s + (if usable (fst c) = None then 0 else 1)"
    "rg_failed (fst (refresh_call s c)) = rg_failed s + (if usable (fst c) = None then 1 else 0)"
    unfolding refresh_call_def by (subst refresh_usable, auto split: option.splits)+
  then show ?case using Cons [of "fst (refresh_call s c)"] by (auto simp: snd_run_calls_Cons simp del: run_calls.simps)
qed simp

lemma refresh_keeps_expiry: "rg_expiry (snd (run_calls refresh_call s cs)) = rg_expiry s"
  by (rule run_calls_invariant [of "\<lambda>x. rg_expiry x = rg_expiry s"])
     (auto simp: refresh_call_def refresh_def refresh_with_def split: sum.splits)

text \<open>
  The registry is its last usable read, and says so. After any reads of a new cache, its operators and creators are
  those of the last read that could be used, both from that same read, whatever failed since; its state is never read
  exactly when none could be used, fresh exactly when that read is no older than the expiry, stale otherwise; every
  identity and address it holds is a text that is not empty; and every read is counted once, as a success or a failure.
\<close>

theorem registry_is_last_usable_read:
  assumes "init_registry expiry = Inr s0" and run: "snd (run_calls refresh_call s0 cs) = s"
  shows "(case last_usable cs of
        None \<Rightarrow> rg_operators s = [] \<and> rg_creators s = [] \<and> state s now = NEVER_READ
      | Some ((ops, crs), t) \<Rightarrow> rg_operators s = ops \<and> rg_creators s = crs \<and> ops \<noteq> []
          \<and> state s now = (if now - t \<le> expiry then FEES else STALE))
    \<and> (\<forall>m a st. operator s now m = (Some a, st) \<or> creator s now m = (Some a, st) \<longrightarrow> m \<noteq> [] \<and> a \<noteq> [] \<and> st \<noteq> NEVER_READ)
    \<and> rg_ok s + rg_failed s = int (length cs)"
proof -
  have s0: "rg_operators s0 = []" "rg_creators s0 = []" "rg_last s0 = None" "rg_ok s0 = 0" "rg_failed s0 = 0" "rg_expiry s0 = expiry"
    using assms(1) by (auto simp: init_registry_def split: if_splits)
  have v: "view s = last_usable cs" using refresh_run_view [of s0 cs] run s0 by (auto simp: view_def split: option.splits)
  have e: "rg_expiry s = expiry" using refresh_keeps_expiry [of s0 cs] run s0 by simp
  have empty: "rg_operators s = [] \<and> rg_creators s = []" if "last_usable cs = None"
  proof -
    have "(rg_last x = None \<longrightarrow> rg_operators x = [] \<and> rg_creators x = []) \<longrightarrow>
        (rg_last (fst (refresh_call x c)) = None \<longrightarrow> rg_operators (fst (refresh_call x c)) = [] \<and> rg_creators (fst (refresh_call x c)) = [])" for x c
      by (auto simp: refresh_call_def refresh_def refresh_with_def split: sum.splits)
    then have "rg_last s = None \<longrightarrow> rg_operators s = [] \<and> rg_creators s = []"
      using run_calls_invariant [of "\<lambda>x. rg_last x = None \<longrightarrow> rg_operators x = [] \<and> rg_creators x = []" s0 refresh_call cs] s0 run
      by auto
    then show ?thesis using v that by (simp add: view_def)
  qed
  have full: "m \<noteq> [] \<and> a \<noteq> []" if "(m, a) \<in> set (rg_operators s) \<union> set (rg_creators s)" for m a
  proof (cases "last_usable cs")
    case None
    then show ?thesis using that empty by simp
  next
    case (Some x)
    then obtain raw ops crs where "usable raw = Some (ops, crs)" "rg_operators s = ops" "rg_creators s = crs"
      using last_usable_in [of cs] v by (cases x) (auto simp: view_def)
    then show ?thesis using usable_full that by blast
  qed
  have count: "rg_ok s + rg_failed s = int (length cs)"
    using refresh_counts [of s0 cs] run s0 sum_length_filter_compl [of "\<lambda>c. usable (fst c) = None" cs] by simp
  show ?thesis
  proof (intro conjI)
    show "case last_usable cs of
        None \<Rightarrow> rg_operators s = [] \<and> rg_creators s = [] \<and> state s now = NEVER_READ
      | Some ((ops, crs), t) \<Rightarrow> rg_operators s = ops \<and> rg_creators s = crs \<and> ops \<noteq> []
          \<and> state s now = (if now - t \<le> expiry then FEES else STALE)"
    proof (cases "last_usable cs")
      case None
      then show ?thesis using empty v by (simp add: view_def state_def age_def)
    next
      case (Some x)
      obtain ops crs t where x: "x = ((ops, crs), t)" by (metis surj_pair)
      then have "ops \<noteq> []" using last_usable_in [of cs] Some usable_full by blast
      then show ?thesis using Some x v e by (auto simp: view_def state_def age_def)
    qed
    show "\<forall>m a st. operator s now m = (Some a, st) \<or> creator s now m = (Some a, st) \<longrightarrow> m \<noteq> [] \<and> a \<noteq> [] \<and> st \<noteq> NEVER_READ"
    proof (intro allI impI)
      fix m a st assume "operator s now m = (Some a, st) \<or> creator s now m = (Some a, st)"
      then have mem: "(m, a) \<in> set (rg_operators s) \<union> set (rg_creators s)" and st: "st = state s now"
        by (auto simp: operator_def creator_def dest: map_of_SomeD)
      then have "last_usable cs \<noteq> None" using empty by force
      then have "state s now \<noteq> NEVER_READ" using v by (auto simp: view_def state_def age_def split: if_splits)
      then show "m \<noteq> [] \<and> a \<noteq> [] \<and> st \<noteq> NEVER_READ" using full [OF mem] st by simp
    qed
  qed (rule count)
qed

definition sample_registry_body :: pyval where
  "sample_registry_body = PDict [(''miner'', PList [PDict [(''miner_id'', PStr ''m1''), (''operator'', PStr ''dendra1op''),
     (''creator'', PStr ''dendra1own'')], PDict [(''miner_id'', PStr ''m2''), (''operator'', PStr [])]])]"

theorem registry_is_last_usable_read_witness:
  "\<exists>s0 s. init_registry 300 = Inr s0 \<and> snd (run_calls refresh_call s0 [(Inr sample_registry_body, 10), (Inl OSError, 400)]) = s
     \<and> rg_operators s = [(''m1'', ''dendra1op'')] \<and> state s 400 = STALE"
proof -
  obtain s0 where s0: "init_registry 300 = Inr s0" by (simp add: init_registry_def)
  have u: "last_usable [(Inr sample_registry_body, 10), (Inl OSError, 400)] = Some (([(''m1'', ''dendra1op'')], [(''m1'', ''dendra1own'')]), 10)"
    by (simp add: usable_def extract_operators_def extract_creators_def sample_registry_body_def MINER_LISTS_def dget_def
        get_or_def entry_pair_def full_text_def Let_def)
  from registry_is_last_usable_read [OF s0 refl, of "[(Inr sample_registry_body, 10), (Inl OSError, 400)]" 400]
  show ?thesis using s0 unfolding u by auto
qed

section \<open>What the job registry answers\<close>

text \<open>The calls of a job registry, and the bindings the chain named in each.\<close>

datatype job_event = ListRead "pyval result" rat | Asked "(string \<Rightarrow> pyval result) option" "rat \<times> rat \<times> rat" string

definition job_step :: "job_registry \<Rightarrow> job_event \<Rightarrow> job_registry \<times> string option" where
  "job_step s ev = (case ev of
     ListRead raw now \<Rightarrow> (fst (refresh_jobs raw now s), None)
   | Asked rd clk j \<Rightarrow> (case client rd clk s j of (s1, c, st) \<Rightarrow> (s1, c)))"

definition named_in :: "job_event \<Rightarrow> (string \<times> string) set" where
  "named_in ev = (case ev of
     ListRead raw now \<Rightarrow> (case bind_res raw extract_jobs of Inr (ops, nxt) \<Rightarrow> set ops | Inl e \<Rightarrow> {})
   | Asked None clk j \<Rightarrow> {}
   | Asked (Some rd) clk j \<Rightarrow> (case bind_res (rd j) job_of_answer of Inr (Some p) \<Rightarrow> {p} | _ \<Rightarrow> {}))"

definition jobs_inv :: "(string \<times> string) set \<Rightarrow> job_registry \<Rightarrow> bool" where
  "jobs_inv K s \<longleftrightarrow> set (rg_operators s) \<subseteq> K \<and> (\<forall>j c t. (j, (c, t)) \<in> set (jr_by_id s) \<longrightarrow> (j, c) \<in> K)
     \<and> wf_dict (jr_by_id s) \<and> length (jr_by_id s) \<le> jr_by_id_max s \<and> 0 < jr_by_id_max s"

lemma jobs_inv_mono: "jobs_inv K s \<Longrightarrow> K \<subseteq> L \<Longrightarrow> jobs_inv L s"
  by (fastforce simp: jobs_inv_def)

lemma evict_props: "set (evict n xs) \<subseteq> set xs" "length (evict n xs) \<le> n" "distinct (map f xs) \<Longrightarrow> distinct (map f (evict n xs))"
  by (auto simp: evict_def dest: in_set_dropD) (simp add: distinct_drop drop_map [symmetric])

lemma set_delete_subset: "set (AList.delete k d) \<subseteq> set d"
  by (auto simp: AList.delete_eq)

lemma length_delete: "length (AList.delete k d) \<le> length d"
  by (simp add: AList.delete_eq)

lemma wf_delete_snoc: "wf_dict d \<Longrightarrow> wf_dict (AList.delete k d @ [(k, v)])"
  by (auto simp: wf_dict_def AList.delete_eq distinct_map_filter)

lemma length_delete_held: "map_of d k = Some v \<Longrightarrow> Suc (length (AList.delete k d)) \<le> length d"
  by (induction d) (auto simp: AList.delete_eq split: if_splits intro: le_trans [OF length_filter_le])

lemma resolve_inv:
  assumes "jobs_inv K s" "resolve_by_id rd now s j = (s', r)"
    and "K' = K \<union> named_in (Asked rd clk j)"
  shows "jobs_inv K' s'" "r = Names c \<Longrightarrow> (j, c) \<in> K'"
proof -
  have del: "jobs_inv K' (s\<lparr>jr_lookups_ok := n, jr_by_id := AList.delete j (jr_by_id s)\<rparr>)" for n
  proof -
    have "\<forall>x c t. (x, (c, t)) \<in> set (AList.delete j (jr_by_id s)) \<longrightarrow> (x, c) \<in> K'"
      using assms(1,3) set_delete_subset [of j "jr_by_id s"] unfolding jobs_inv_def by blast
    then show ?thesis using assms(1,3) length_delete [of j "jr_by_id s"] by (auto simp: jobs_inv_def)
  qed
  have "jobs_inv K' s' \<and> (\<forall>c. r = Names c \<longrightarrow> (j, c) \<in> K')"
  proof (cases rd)
    case None
    then show ?thesis using assms jobs_inv_mono by (auto simp: resolve_by_id_def)
  next
    case (Some f)
    show ?thesis
    proof (cases "bind_res (f j) job_of_answer")
      case (Inl e)
      then have "s' = s\<lparr>jr_lookups_failed := jr_lookups_failed s + 1, rg_error := Some e\<rparr>" "r = LookupFailed"
        using assms(2) Some by (auto simp: resolve_by_id_def)
      moreover have "jobs_inv K' s" using assms(1,3) jobs_inv_mono by blast
      ultimately show ?thesis by (simp add: jobs_inv_def)
    next
      case (Inr p)
      show ?thesis
      proof (cases "\<exists>cli. p = Some (j, cli)")
        case False
        then show ?thesis using assms(2) Some Inr del by (cases p) (auto simp: resolve_by_id_def Let_def split: prod.splits if_splits)
      next
        case True
        then obtain cli where p: "p = Some (j, cli)" by blast
        let ?new = "AList.delete j (jr_by_id s) @ [(j, (cli, now))]"
        have K': "(j, cli) \<in> K'" using assms(3) Some Inr p by (simp add: named_in_def)
        have "(x, c) \<in> K'" if "(x, (c, t)) \<in> set ?new" for x c t
        proof (cases "(x, (c, t)) \<in> set (jr_by_id s)")
          case True
          then show ?thesis using assms(1,3) unfolding jobs_inv_def by blast
        next
          case False
          then show ?thesis using that K' set_delete_subset [of j "jr_by_id s"] by auto
        qed
        then have "\<forall>x c t. (x, (c, t)) \<in> set (evict (jr_by_id_max s) ?new) \<longrightarrow> (x, c) \<in> K'"
          using evict_props(1) [of "jr_by_id_max s" ?new] by (meson subsetD)
        moreover have "wf_dict (evict (jr_by_id_max s) ?new)"
          using evict_props(3) [of fst ?new "jr_by_id_max s"] wf_delete_snoc [of "jr_by_id s" j "(cli, now)"] assms(1)
          by (simp add: jobs_inv_def wf_dict_def)
        moreover have "s' = s\<lparr>jr_lookups_ok := jr_lookups_ok s + 1, jr_by_id := evict (jr_by_id_max s) ?new\<rparr>" "r = Names cli"
          using assms(2) Some Inr p by (auto simp: resolve_by_id_def Let_def)
        moreover have "jobs_inv K' s" using assms(1,3) jobs_inv_mono by blast
        ultimately show ?thesis using K' evict_props(2) [of "jr_by_id_max s" ?new] by (simp add: jobs_inv_def)
      qed
    qed
  qed
  then show "jobs_inv K' s'" "r = Names c \<Longrightarrow> (j, c) \<in> K'" by blast+
qed

lemma client_inv:
  assumes "jobs_inv K s" "client rd clk s j = (s', a, st)" "K' = K \<union> named_in (Asked rd clk j)"
  shows "jobs_inv K' s'" "a = Some c \<Longrightarrow> (j, c) \<in> K'"
proof -
  obtain t1 t2 t3 where clk: "clk = (t1, t2, t3)" by (cases clk)
  have mono: "jobs_inv K' s" using assms(1,3) jobs_inv_mono by blast
  obtain s1 r where res: "resolve_by_id rd t2 s j = (s1, r)" by (cases "resolve_by_id rd t2 s j") auto
  note R = resolve_inv [OF assms(1) res assms(3)]
  have ops: "(j, v) \<in> K'" if "map_of (rg_operators s) j = Some v" for v
    using that mono by (auto simp: jobs_inv_def dest: map_of_SomeD)
  have held: "(j, cli) \<in> K'" if "map_of (jr_by_id s) j = Some (cli, since)" for cli since
    using map_of_SomeD [OF that] mono unfolding jobs_inv_def by blast
  have touch: "jobs_inv K' (s\<lparr>jr_by_id := AList.delete j (jr_by_id s) @ [(j, (cli, since))]\<rparr>)"
    if h: "map_of (jr_by_id s) j = Some (cli, since)" for cli since
  proof -
    have "(x, c) \<in> K'" if "(x, (c, t)) \<in> set (AList.delete j (jr_by_id s) @ [(j, (cli, since))])" for x c t
    proof (cases "(x, (c, t)) \<in> set (jr_by_id s)")
      case True
      then show ?thesis using mono unfolding jobs_inv_def by blast
    next
      case False
      then show ?thesis using that held [OF h] set_delete_subset [of j "jr_by_id s"] by auto
    qed
    moreover have "wf_dict (AList.delete j (jr_by_id s) @ [(j, (cli, since))])" using mono by (intro wf_delete_snoc) (simp add: jobs_inv_def)
    moreover have "length (AList.delete j (jr_by_id s) @ [(j, (cli, since))]) \<le> jr_by_id_max s"
      using mono length_delete_held [OF h] by (simp add: jobs_inv_def)
    ultimately show ?thesis using mono by (auto simp: jobs_inv_def)
  qed
  have "jobs_inv K' s' \<and> (\<forall>c. a = Some c \<longrightarrow> (j, c) \<in> K')"
  proof (cases "map_of (rg_operators s) j = None \<and> j \<noteq> []")
    case False
    then show ?thesis using assms(2) mono ops by (auto simp: client_def clk split: option.splits)
  next
    case True
    show ?thesis
    proof (cases "map_of (jr_by_id s) j")
      case None
      then show ?thesis using assms(2) True R res by (auto simp: client_def clk split: lookup.splits)
    next
      case (Some x)
      obtain cli since where x: "x = (cli, since)" by (cases x)
      show ?thesis
      proof (cases "t1 - since \<le> rg_expiry s")
        case fresh: True
        then show ?thesis using assms(2) True Some x touch held by (auto simp: client_def clk)
      next
        case False
        then show ?thesis using assms(2) True Some x R res held by (auto simp: client_def clk split: lookup.splits)
      qed
    qed
  qed
  then show "jobs_inv K' s'" "a = Some c \<Longrightarrow> (j, c) \<in> K'" by blast+
qed

lemma refresh_jobs_inv:
  assumes "jobs_inv K s"
  shows "jobs_inv (K \<union> named_in (ListRead raw now)) (fst (refresh_jobs raw now s))"
proof (cases "bind_res raw extract_jobs")
  case (Inl e)
  then have "bind_res raw (\<lambda>v. bind_res (map_sum id fst (extract_jobs v)) (\<lambda>ops. Inr (ops, extract_creators v))) = Inl e"
    by (auto simp: bind_res_eq_Inl)
  then show ?thesis using assms Inl by (simp add: refresh_jobs_def refresh_with_def jobs_inv_def named_in_def)
next
  case (Inr x)
  obtain v ops nxt where v: "raw = Inr v" "extract_jobs v = Inr (ops, nxt)" "x = (ops, nxt)"
    using Inr by (cases x) (auto simp: bind_res_eq_Inr)
  then show ?thesis using assms by (auto simp: refresh_jobs_def refresh_with_def jobs_inv_def named_in_def)
qed

lemma job_step_inv:
  assumes "jobs_inv K s"
  shows "jobs_inv (K \<union> named_in ev) (fst (job_step s ev))"
proof (cases ev)
  case (ListRead raw now)
  then show ?thesis using refresh_jobs_inv [OF assms] by (simp add: job_step_def)
next
  case (Asked rd clk j)
  obtain s' a st where c: "client rd clk s j = (s', a, st)" by (metis surj_pair)
  show ?thesis using client_inv(1) [OF assms c refl] c by (simp add: job_step_def Asked)
qed

lemma job_run_inv: "jobs_inv K s \<Longrightarrow> jobs_inv (K \<union> \<Union> (named_in ` set evs)) (snd (run_calls job_step s evs))"
proof (induction evs arbitrary: K s)
  case (Cons ev evs)
  from Cons.IH [OF job_step_inv [OF Cons.prems, of ev]] show ?case by (simp add: snd_run_calls_Cons Un_assoc del: run_calls.simps)
qed simp

text \<open>
  The payer of a job is never invented. Over any reads of the job list and any questions to a new job registry, a
  client it answers for a job is one the chain itself named for that job, in a list read or in a lookup of that very
  job, at that call or before it; the jobs it keeps from lookups never outnumber its bound, each kept once.
\<close>

theorem job_client_named_by_chain:
  assumes "init_jobs expiry bound = Inr s0" "i < length evs"
  shows "(\<forall>rd clk j c. evs ! i = Asked rd clk j \<and> fst (run_calls job_step s0 evs) ! i = Some c \<longrightarrow>
        (j, c) \<in> \<Union> (named_in ` set (take (Suc i) evs)))
    \<and> length (jr_by_id (snd (run_calls job_step s0 evs))) \<le> jr_by_id_max s0
    \<and> wf_dict (jr_by_id (snd (run_calls job_step s0 evs)))"
proof -
  have s0: "jobs_inv {} s0" using assms(1)
    by (auto simp: init_jobs_def init_registry_def jobs_inv_def registry.extend_def bind_res_eq_Inr split: if_splits pyval.splits)
  have bound: "jr_by_id_max (snd (run_calls job_step s0 evs)) = jr_by_id_max s0"
  proof (rule run_calls_invariant [of "\<lambda>x. jr_by_id_max x = jr_by_id_max s0"])
    have res: "jr_by_id_max (fst (resolve_by_id rd t x j)) = jr_by_id_max x" for rd t x j
      by (auto simp: resolve_by_id_def Let_def split: option.splits sum.splits prod.splits)
    have "jr_by_id_max (fst (client rd clk x j)) = jr_by_id_max x" for rd clk x j
      using res [of rd "fst (snd clk)" x j] by (auto simp: client_def Let_def split: option.splits prod.splits lookup.splits if_splits)
    then show "jr_by_id_max (fst (job_step x ev)) = jr_by_id_max s0" if "jr_by_id_max x = jr_by_id_max s0" for x ev
      using that
    proof (cases ev)
      case (Asked rd clk j)
      obtain x' a st where "client rd clk x j = (x', a, st)" by (metis surj_pair)
      then show ?thesis using \<open>\<And>rd clk x j. jr_by_id_max (fst (client rd clk x j)) = jr_by_id_max x\<close> [of rd clk x j] that
        by (simp add: job_step_def Asked)
    qed (auto simp: job_step_def refresh_jobs_def refresh_with_def split: prod.splits sum.splits)
  qed simp
  have "(j, c) \<in> \<Union> (named_in ` set (take (Suc i) evs))"
    if e: "evs ! i = Asked rd clk j" and a: "fst (run_calls job_step s0 evs) ! i = Some c" for rd clk j c
  proof -
    let ?K = "\<Union> (named_in ` set (take i evs))" and ?s = "snd (run_calls job_step s0 (take i evs))"
    have inv: "jobs_inv ?K ?s" using job_run_inv [OF s0, of "take i evs"] by simp
    have "snd (job_step ?s (Asked rd clk j)) = Some c" using run_calls_nth [OF assms(2), of job_step s0] a e by simp
    then obtain s' st where "client rd clk ?s j = (s', Some c, st)" by (auto simp: job_step_def split: prod.splits)
    from client_inv(2) [OF inv this refl] have "(j, c) \<in> ?K \<union> named_in (evs ! i)" using e by simp
    then show ?thesis using assms(2) by (auto simp: take_Suc_conv_app_nth)
  qed
  moreover have "jobs_inv (\<Union> (named_in ` set evs)) (snd (run_calls job_step s0 evs))" using job_run_inv [OF s0, of evs] by simp
  ultimately show ?thesis using bound unfolding jobs_inv_def by auto
qed

definition sample_job_reader :: "string \<Rightarrow> pyval result" where
  "sample_job_reader j = Inr (PDict [(''job'', PDict [(''job_id'', PStr j), (''client'', PStr ''dendra1cli'')])])"

theorem job_client_named_by_chain_witness:
  "\<exists>s0. init_jobs 300 (PInt 2) = Inr s0 \<and> fst (run_calls job_step s0 [Asked (Some sample_job_reader) (1, 1, 1) ''j1'']) = [Some ''dendra1cli'']
     \<and> (''j1'', ''dendra1cli'') \<in> named_in (Asked (Some sample_job_reader) (1, 1, 1) ''j1'')"
proof -
  obtain s0 where s0: "init_jobs 300 (PInt 2) = Inr s0" by (simp add: init_jobs_def init_registry_def)
  have "fst (run_calls job_step s0 [Asked (Some sample_job_reader) (1, 1, 1) ''j1'']) = [Some ''dendra1cli'']"
    using s0 by (auto simp: init_jobs_def init_registry_def registry.extend_def job_step_def client_def resolve_by_id_def
        sample_job_reader_def job_of_answer_def pair_of_job_def full_text_def dget_def get_or_def py_or_def split: prod.splits)
  with job_client_named_by_chain [OF s0, of 0 "[Asked (Some sample_job_reader) (1, 1, 1) ''j1'']"] s0 show ?thesis by simp
qed

end
