(* ===== verification/Relay_Write.thy ===== *)
theory Relay_Write
  imports Relay_Antireplay Registry_Cache Cosmos_Addr
begin

text \<open>
  The verdict on a signed write, \<open>src/services/modea/relay_write.py\<close>: shape, signature, sealed height, attribution, kit
  floor and replay guard, in that order, with the counts of the summary. The canonical message, the reading of the
  height back and the derivation of the address are those of the theories of those parts, as \<open>relay.py\<close> wires them; the
  signature check (the elliptic curve of a third-party package), \<open>json.loads\<close> on a body and the replay guard are
  parameters. The words of a refusal's detail are not modelled.
\<close>

section \<open>Results\<close>

datatype role = ROLE_CLIENT | ROLE_OPERATOR

definition role_of_kind :: "field \<Rightarrow> role" where
  "role_of_kind kind = (if kind = FText ''req'' then ROLE_CLIENT else ROLE_OPERATOR)"

text \<open>What a replay guard answers; the guard of a paid request refuses without a regime.\<close>

record guard_answer =
  ga_accepted :: bool
  ga_regime :: "regime option"
  ga_reason :: "reason option"

definition answer_of :: "verdict \<Rightarrow> guard_answer" where
  "answer_of v = \<lparr>ga_accepted = v_accepted v, ga_regime = Some (v_regime v), ga_reason = v_reason v\<rparr>"

record write_result =
  wr_accepted :: bool
  wr_reason :: "reason option"
  wr_registry :: "reg_state option"
  wr_regime :: "regime option"
  wr_operator :: "string option"
  wr_height :: "int option"
  wr_client :: "string option"
  wr_role :: "role option"

definition attributed_to :: "write_result \<Rightarrow> string option" where
  "attributed_to r = (if wr_role r = Some ROLE_CLIENT then wr_client r else wr_operator r)"

text \<open>\<open>mode()\<close>: the persisted name of a regime.\<close>

definition mode_name :: "regime \<Rightarrow> string" where
  "mode_name g = (case g of NOMINAL \<Rightarrow> ''nominal'' | DEGRADED \<Rightarrow> ''degraded'')"

definition write_mode :: "write_result \<Rightarrow> string option" where
  "write_mode r = map_option mode_name (wr_regime r)"

definition opt_text :: "string option \<Rightarrow> pyval" where
  "opt_text x = (case x of None \<Rightarrow> PNone | Some s \<Rightarrow> PStr s)"

definition state_name :: "reg_state \<Rightarrow> string" where
  "state_name s = (case s of NEVER_READ \<Rightarrow> ''NEVER_READ'' | FEES \<Rightarrow> ''FEES'' | STALE \<Rightarrow> ''STALE'')"

definition role_name :: "role \<Rightarrow> string" where
  "role_name r = (case r of ROLE_CLIENT \<Rightarrow> ''client'' | ROLE_OPERATOR \<Rightarrow> ''operator'')"

definition to_persist :: "write_result \<Rightarrow> pydict" where
  "to_persist r = [(''regime'', PDict [(''mode'', opt_text (write_mode r)),
                                        (''height'', case wr_height r of None \<Rightarrow> PNone | Some h \<Rightarrow> PInt h)]),
                   (''registry'', opt_text (map_option state_name (wr_registry r))),
                   (''operator'', opt_text (wr_operator r)),
                   (''attribution'', PDict [(''role'', opt_text (map_option role_name (wr_role r))), (''address'', opt_text (attributed_to r))])]"

text \<open>\<open>help_for\<close>: the page that explains a refusal; a reason that is not listed has none.\<close>

datatype help_page = HELP_UPDATE_KIT | HELP_RELAY_REFUSALS

definition help_for :: "reason \<Rightarrow> help_page option" where
  "help_for r = (if r = STALE_KIT then Some HELP_UPDATE_KIT
     else if r \<in> {MALFORMED, INVALID_SIGNATURE, FOREIGN_KEY, UNKNOWN_MINER, REGISTRY_MUTE, UNREADABLE_HEIGHT, UNKNOWN_JOB,
                  FOREIGN_CLIENT, JOB_REGISTRY_MUTE, REPLAY, HEIGHT_REGRESSION, TOO_OLD, TOO_FAR_AHEAD, UNSEALED_HEIGHT}
     then Some HELP_RELAY_REFUSALS else None)"

section \<open>The summary\<close>

record summary =
  su_acc_nominal :: int
  su_acc_degraded :: int
  su_ref_nominal :: int
  su_ref_degraded :: int
  su_no_regime :: int
  su_reasons :: "(reason, int) dict"

definition init_summary :: summary where
  "init_summary = \<lparr>su_acc_nominal = 0, su_acc_degraded = 0, su_ref_nominal = 0, su_ref_degraded = 0, su_no_regime = 0, su_reasons = []\<rparr>"

definition record_result :: "summary \<Rightarrow> write_result \<Rightarrow> summary" where
  "record_result s r =
     (let s1 = (case wr_regime r of
          None \<Rightarrow> s\<lparr>su_no_regime := su_no_regime s + 1\<rparr>
        | Some NOMINAL \<Rightarrow> if wr_accepted r then s\<lparr>su_acc_nominal := su_acc_nominal s + 1\<rparr> else s\<lparr>su_ref_nominal := su_ref_nominal s + 1\<rparr>
        | Some DEGRADED \<Rightarrow> if wr_accepted r then s\<lparr>su_acc_degraded := su_acc_degraded s + 1\<rparr> else s\<lparr>su_ref_degraded := su_ref_degraded s + 1\<rparr>)
      in case wr_reason r of None \<Rightarrow> s1 | Some x \<Rightarrow> s1\<lparr>su_reasons := bump (su_reasons s1) x 1\<rparr>)"

definition summary_total :: "summary \<Rightarrow> int" where
  "summary_total s = su_acc_nominal s + su_acc_degraded s + su_ref_nominal s + su_ref_degraded s + su_no_regime s"

section \<open>The verdict\<close>

definition declared_kit_version :: "(field \<Rightarrow> pyval result) \<Rightarrow> field \<Rightarrow> int option" where
  "declared_kit_version loads body = (case loads body of
     Inr (PDict d) \<Rightarrow> (case dget d ''kit_version'' of PInt v \<Rightarrow> if v < 0 then None else Some v | _ \<Rightarrow> None)
   | _ \<Rightarrow> None)"

text \<open>A field as the value a dictionary or a comparison of texts sees.\<close>

definition field_val :: "field \<Rightarrow> pyval" where
  "field_val v = (case v of FText s \<Rightarrow> PStr s | _ \<Rightarrow> PNone)"

text \<open>
  What the check reads: the two registries (either may be absent: an unconfigured miner registry answers that it was
  never read), the reader of a job by its id, the clock's reads, and the settings. \<open>'g\<close> is the state of the guard.
\<close>

record 'g write_state =
  ws_registry :: "registry option"
  ws_jobs :: "job_registry option"
  ws_guard :: 'g

record 'g write_env =
  we_loads :: "field \<Rightarrow> pyval result"
  we_signature :: "string \<Rightarrow> string \<Rightarrow> string \<Rightarrow> bool result"
  we_job_reader :: "(string \<Rightarrow> pyval result) option"
  we_now :: rat
  we_job_clock :: "rat \<times> rat \<times> rat"
  we_fresh_only :: bool
  we_kit_floor :: "int option"
  we_guard :: "'g \<Rightarrow> field \<Rightarrow> height_arg \<Rightarrow> field \<Rightarrow> pyval \<Rightarrow> 'g \<times> guard_answer result"
  we_head :: pyval

record signed_write =
  sw_kind :: field
  sw_key :: field
  sw_body :: field
  sw_miner :: field
  sw_height :: pyval
  sw_pubkey :: field
  sw_signature :: field

type_synonym authority = "string option \<times> reg_state option \<times> reason option"

definition operator_authority :: "'g write_env \<Rightarrow> 'g write_state \<Rightarrow> field \<Rightarrow> authority" where
  "operator_authority E s miner_id =
     (let (op, st) = (case ws_registry s of
            None \<Rightarrow> (None, NEVER_READ)
          | Some r \<Rightarrow> (case field_val miner_id of PStr m \<Rightarrow> operator r (we_now E) m | _ \<Rightarrow> (None, state r (we_now E))))
      in case op of
           None \<Rightarrow> if st = NEVER_READ then (None, Some st, Some REGISTRY_MUTE) else (None, Some st, Some UNKNOWN_MINER)
         | Some a \<Rightarrow> (Some a, Some st, None))"

definition client_authority :: "'g write_env \<Rightarrow> 'g write_state \<Rightarrow> field \<Rightarrow> field \<Rightarrow> 'g write_state \<times> authority" where
  "client_authority E s key miner_id =
     (case ws_jobs s of
        None \<Rightarrow> (s, None, None, Some JOB_REGISTRY_MUTE)
      | Some j \<Rightarrow>
          (case job_from_key (field_val key) (field_val miner_id) of
             Inl e \<Rightarrow> (s, None, None, Some MALFORMED)
           | Inr job_id \<Rightarrow>
               (case client (we_job_reader E) (we_job_clock E) j job_id of
                  (j1, c, st) \<Rightarrow>
                    (s\<lparr>ws_jobs := Some j1\<rparr>,
                     case c of
                       None \<Rightarrow> if st = NEVER_READ then (None, Some st, Some JOB_REGISTRY_MUTE) else (None, Some st, Some UNKNOWN_JOB)
                     | Some a \<Rightarrow> (Some a, Some st, None)))))"

text \<open>\<open>expected[:expected.rfind("1")]\<close>: without a 1, all but the last character.\<close>

definition hrp_of :: "string \<Rightarrow> string" where
  "hrp_of a = (if CHR ''1'' \<in> set a then rev (tl (dropWhile (\<lambda>c. c \<noteq> CHR ''1'') (rev a))) else butlast a)"

definition refused :: "reason \<Rightarrow> reg_state option \<Rightarrow> int option \<Rightarrow> role option \<Rightarrow> write_result" where
  "refused r reg h ro = \<lparr>wr_accepted = False, wr_reason = Some r, wr_registry = reg, wr_regime = None, wr_operator = None,
     wr_height = h, wr_client = None, wr_role = ro\<rparr>"

text \<open>Stage 3bis, the kit floor, and stage 4, the replay guard, for an attributed write.\<close>

definition stale_kit :: "'g write_env \<Rightarrow> signed_write \<Rightarrow> role \<Rightarrow> bool" where
  "stale_kit E w ro = (case we_kit_floor E of
     Some fl \<Rightarrow> ro = ROLE_OPERATOR \<and> (case declared_kit_version (we_loads E) (sw_body w) of None \<Rightarrow> True | Some v \<Rightarrow> v < fl)
   | None \<Rightarrow> False)"

definition last_stages :: "'g write_env \<Rightarrow> 'g write_state \<Rightarrow> signed_write \<Rightarrow> role \<Rightarrow> string \<Rightarrow> reg_state option \<Rightarrow> int
    \<Rightarrow> string \<Rightarrow> string \<Rightarrow> 'g write_state \<times> write_result result" where
  "last_stages E s w ro expected reg h pk dig =
     (let carried = \<lparr>wr_accepted = False, wr_reason = Some STALE_KIT, wr_registry = reg, wr_regime = None,
            wr_operator = (if ro = ROLE_OPERATOR then Some expected else None), wr_height = Some h,
            wr_client = (if ro = ROLE_CLIENT then Some expected else None), wr_role = Some ro\<rparr>
      in if stale_kit E w ro then (s, Inr carried)
         else (case we_guard E (ws_guard s) (FBytes pk) (Sealed h) (FBytes dig) (we_head E) of
             (g, Inl e) \<Rightarrow> (s\<lparr>ws_guard := g\<rparr>, Inl e)
           | (g, Inr a) \<Rightarrow>
               (s\<lparr>ws_guard := g\<rparr>,
                Inr (carried\<lparr>wr_accepted := ga_accepted a, wr_reason := (if ga_accepted a then None else ga_reason a), wr_regime := ga_regime a\<rparr>))))"

text \<open>Stage 3: who had to sign, and whether the key is theirs.\<close>

definition attribution :: "host \<Rightarrow> 'g write_env \<Rightarrow> 'g write_state \<Rightarrow> signed_write \<Rightarrow> int \<Rightarrow> string \<Rightarrow> string
    \<Rightarrow> 'g write_state \<times> write_result result" where
  "attribution H E s w h pk dig =
     (let ro = role_of_kind (sw_kind w);
          (s1, expected, reg, failure) = (if ro = ROLE_CLIENT then client_authority E s (sw_key w) (sw_miner w)
                                          else (s, operator_authority E s (sw_miner w)))
      in case (failure, expected) of
           (Some r, _) \<Rightarrow> (s1, Inr (refused r reg (Some h) (Some ro)))
         | (None, None) \<Rightarrow> (s1, Inl TypeError)
         | (None, Some a) \<Rightarrow>
             if we_fresh_only E \<and> reg \<noteq> Some FEES then (s1, Inr (refused REGISTRY_MUTE reg (Some h) (Some ro)))
             else
               (let carry = (\<lambda>r. (refused r reg (Some h) (Some ro))\<lparr>wr_operator := (if ro = ROLE_OPERATOR then Some a else None),
                                    wr_client := (if ro = ROLE_CLIENT then Some a else None)\<rparr>)
                in case address_from_pubkey H pk (hrp_of a) ''secp256k1'' of
                     Inl e \<Rightarrow> (s1, Inr (carry MALFORMED))
                   | Inr calc \<Rightarrow>
                       if calc \<noteq> a then (s1, Inr (carry (if ro = ROLE_OPERATOR then FOREIGN_KEY else FOREIGN_CLIENT)))
                       else last_stages E s1 w ro a reg h pk dig))"

definition verdict_of :: "host \<Rightarrow> 'g write_env \<Rightarrow> 'g write_state \<Rightarrow> signed_write \<Rightarrow> 'g write_state \<times> write_result result" where
  "verdict_of H E s w =
     (let no = (\<lambda>r. (s, Inr (refused r None None None))) in
      case sw_pubkey w of
        FBytes pk \<Rightarrow>
          if length pk \<noteq> 33 then no MALFORMED
          else (case sw_signature w of
              FBytes sg \<Rightarrow>
                if sg = [] then no MALFORMED
                else (case canonical_message H (sw_kind w) (sw_key w) (sw_body w) (sw_miner w) (sw_height w) of
                    Inl e \<Rightarrow> if e = ValueError then no MALFORMED else (s, Inl e)
                  | Inr m \<Rightarrow>
                      (case we_signature E pk m sg of
                         Inl e \<Rightarrow> no INVALID_SIGNATURE
                       | Inr False \<Rightarrow> no INVALID_SIGNATURE
                       | Inr True \<Rightarrow>
                           (case seal_height (FBytes m) (\<lambda>x. map_sum id (\<lambda>n. PInt (int n)) (message_height x)) of
                              Inr (Sealed h) \<Rightarrow> attribution H E s w h pk (sha256 H m)
                            | _ \<Rightarrow> no UNREADABLE_HEIGHT)))
            | _ \<Rightarrow> no MALFORMED)
      | other \<Rightarrow> (case field_len other of Inl e \<Rightarrow> (s, Inl e) | Inr n \<Rightarrow> no MALFORMED))"

text \<open>\<open>verify_write\<close>: the verdict, counted.\<close>

definition verify_write :: "host \<Rightarrow> 'g write_env \<Rightarrow> 'g write_state \<times> summary \<Rightarrow> signed_write \<Rightarrow> ('g write_state \<times> summary) \<times> write_result result" where
  "verify_write H E ss w = (case verdict_of H E (fst ss) w of
     (s1, Inr r) \<Rightarrow> ((s1, record_result (snd ss) r), Inr r)
   | (s1, Inl e) \<Rightarrow> ((s1, snd ss), Inl e))"

section \<open>The stages\<close>

text \<open>Who had to sign: the address and the registry's state, with the state the question leaves, or nothing when a registry refuses.\<close>

definition signer_of :: "'g write_env \<Rightarrow> 'g write_state \<Rightarrow> signed_write \<Rightarrow> 'g write_state \<times> (string \<times> reg_state option) option" where
  "signer_of E s w =
     (let (s1, e, reg, f) = (if role_of_kind (sw_kind w) = ROLE_CLIENT then client_authority E s (sw_key w) (sw_miner w)
                             else (s, operator_authority E s (sw_miner w)))
      in (s1, case f of Some r \<Rightarrow> None | None \<Rightarrow> map_option (\<lambda>a. (a, reg)) e))"

definition kit_ok :: "'g write_env \<Rightarrow> signed_write \<Rightarrow> bool" where
  "kit_ok E w \<longleftrightarrow> (\<forall>fl. we_kit_floor E = Some fl \<and> role_of_kind (sw_kind w) = ROLE_OPERATOR \<longrightarrow>
     (\<exists>v \<ge> fl. declared_kit_version (we_loads E) (sw_body w) = Some v))"

text \<open>Stages 1 to 3bis passed: the key, the message, its digest and height, and the address that had to sign.\<close>

definition authenticated :: "host \<Rightarrow> 'g write_env \<Rightarrow> 'g write_state \<Rightarrow> signed_write \<Rightarrow> string \<Rightarrow> string \<Rightarrow> int \<Rightarrow> string \<Rightarrow> bool" where
  "authenticated H E s w pk m h a \<longleftrightarrow> sw_pubkey w = FBytes pk \<and> length pk = 33
     \<and> (\<exists>sg. sw_signature w = FBytes sg \<and> sg \<noteq> [] \<and> we_signature E pk m sg = Inr True)
     \<and> canonical_message H (sw_kind w) (sw_key w) (sw_body w) (sw_miner w) (sw_height w) = Inr m \<and> sw_height w = PInt h
     \<and> (\<exists>reg. snd (signer_of E s w) = Some (a, reg) \<and> (we_fresh_only E \<longrightarrow> reg = Some FEES))
     \<and> address_from_pubkey H pk (hrp_of a) ''secp256k1'' = Inr a \<and> kit_ok E w"

lemma kit_ok_iff: "kit_ok E w \<longleftrightarrow> \<not> stale_kit E w (role_of_kind (sw_kind w))"
  by (auto simp: kit_ok_def stale_kit_def split: option.splits)

lemma client_authority_guard: "ws_guard (fst (client_authority E s key m)) = ws_guard s"
  by (auto simp: client_authority_def split: option.splits sum.splits prod.splits)

lemma signer_of_guard: "ws_guard (fst (signer_of E s w)) = ws_guard s"
  using client_authority_guard [of E s "sw_key w" "sw_miner w"] by (auto simp: signer_of_def Let_def split: prod.splits)

lemma authority_some:
  "operator_authority E s mid = (e, reg, None) \<Longrightarrow> \<exists>a. e = Some a"
  "client_authority E s key mid = (s1, e, reg, None) \<Longrightarrow> \<exists>a. e = Some a"
  by (auto simp: operator_authority_def client_authority_def Let_def split: option.splits sum.splits prod.splits if_splits)

lemma attribution_cases:
  assumes "attribution H E s w h pk dig = (s', x)"
  obtains (stopped) r where "x = Inr r" "\<not> wr_accepted r" "wr_reason r \<noteq> None" "wr_regime r = None" "ws_guard s' = ws_guard s"
      "(\<forall>a reg. snd (signer_of E s w) = Some (a, reg) \<longrightarrow> (we_fresh_only E \<and> reg \<noteq> Some FEES)
          \<or> address_from_pubkey H pk (hrp_of a) ''secp256k1'' \<noteq> Inr a \<or> \<not> kit_ok E w)"
  | (reached) a reg s1 where "signer_of E s w = (s1, Some (a, reg))" "we_fresh_only E \<longrightarrow> reg = Some FEES"
      "address_from_pubkey H pk (hrp_of a) ''secp256k1'' = Inr a" "kit_ok E w"
      "last_stages E s1 w (role_of_kind (sw_kind w)) a reg h pk dig = (s', x)"
proof -
  let ?ro = "role_of_kind (sw_kind w)"
  obtain s1 e reg f where q: "(if ?ro = ROLE_CLIENT then client_authority E s (sw_key w) (sw_miner w)
      else (s, operator_authority E s (sw_miner w))) = (s1, e, reg, f)" by (metis surj_pair)
  have g: "ws_guard s1 = ws_guard s" using signer_of_guard [of E s w] q by (simp add: signer_of_def)
  have sg: "signer_of E s w = (s1, case f of Some r \<Rightarrow> None | None \<Rightarrow> map_option (\<lambda>a. (a, reg)) e)" using q by (simp add: signer_of_def)
  show thesis
  proof (cases f)
    case (Some r)
    then have "s' = s1" "x = Inr (refused r reg (Some h) (Some ?ro))" using assms q by (auto simp: attribution_def)
    then show thesis using stopped [of "refused r reg (Some h) (Some ?ro)"] g sg Some by (simp add: refused_def)
  next
    case None
    then obtain a where a: "e = Some a"
      using q authority_some(1) [of E s "sw_miner w" e reg] authority_some(2) [of E s "sw_key w" "sw_miner w" s1 e reg]
      by (auto split: if_splits)
    have sg': "signer_of E s w = (s1, Some (a, reg))" using sg None a by simp
    show thesis
    proof (cases "we_fresh_only E \<and> reg \<noteq> Some FEES")
      case True
      then have "s' = s1" "x = Inr (refused REGISTRY_MUTE reg (Some h) (Some ?ro))" using assms q None a by (auto simp: attribution_def)
      then show thesis using stopped [of "refused REGISTRY_MUTE reg (Some h) (Some ?ro)"] g sg' True by (simp add: refused_def)
    next
      case fresh: False
      show thesis
      proof (cases "address_from_pubkey H pk (hrp_of a) ''secp256k1'' = Inr a")
        case False
        then obtain r where "s' = s1" "x = Inr r" "\<not> wr_accepted r" "wr_reason r \<noteq> None" "wr_regime r = None"
          using assms q None a fresh
          by (cases "address_from_pubkey H pk (hrp_of a) ''secp256k1''") (auto simp: attribution_def Let_def refused_def split: if_splits)
        then show thesis using stopped [of r] g sg' False by simp
      next
        case True
        have l: "last_stages E s1 w ?ro a reg h pk dig = (s', x)" using assms q None a fresh True by (auto simp: attribution_def)
        show thesis
        proof (cases "kit_ok E w")
          case True
          then show thesis using reached [OF sg' _ \<open>address_from_pubkey H pk (hrp_of a) ''secp256k1'' = Inr a\<close> _ l] fresh by blast
        next
          case False
          then have "s' = s1 \<and> (\<exists>r. x = Inr r \<and> \<not> wr_accepted r \<and> wr_reason r \<noteq> None \<and> wr_regime r = None)"
            using l by (auto simp: last_stages_def kit_ok_iff Let_def)
          then show thesis using stopped g sg' False by auto
        qed
      qed
    qed
  qed
qed

text \<open>The outcome of one call of the guard, on the key, the sealed height and the digest of the message.\<close>

definition guarded :: "'g write_env \<Rightarrow> 'g \<Rightarrow> signed_write \<Rightarrow> string \<Rightarrow> int \<Rightarrow> string \<Rightarrow> string \<Rightarrow> 'g write_state \<Rightarrow> write_result result \<Rightarrow> bool" where
  "guarded E g0 w pk h dig a s' x \<longleftrightarrow> (\<exists>g y. we_guard E g0 (FBytes pk) (Sealed h) (FBytes dig) (we_head E) = (g, y)
     \<and> ws_guard s' = g
     \<and> (case y of Inl e \<Rightarrow> x = Inl e
        | Inr ans \<Rightarrow> (\<exists>r. x = Inr r \<and> wr_accepted r = ga_accepted ans \<and> wr_regime r = ga_regime ans
            \<and> wr_reason r = (if ga_accepted ans then None else ga_reason ans) \<and> attributed_to r = Some a
            \<and> wr_height r = Some h \<and> wr_role r = Some (role_of_kind (sw_kind w)))))"

text \<open>With the kit admitted, the last stages are one call of the guard.\<close>

lemma last_stages_guard:
  assumes "kit_ok E w" "last_stages E s1 w (role_of_kind (sw_kind w)) a reg h pk dig = (s', x)"
  shows "guarded E (ws_guard s1) w pk h dig a s' x"
proof -
  obtain g y where gy: "we_guard E (ws_guard s1) (FBytes pk) (Sealed h) (FBytes dig) (we_head E) = (g, y)" by (metis surj_pair)
  show ?thesis
  proof (cases y)
    case (Inl e)
    then show ?thesis using assms gy by (auto simp: guarded_def last_stages_def kit_ok_iff Let_def)
  next
    case (Inr ans)
    let ?ro = "role_of_kind (sw_kind w)"
    let ?r = "\<lparr>wr_accepted = ga_accepted ans, wr_reason = (if ga_accepted ans then None else ga_reason ans), wr_registry = reg,
      wr_regime = ga_regime ans, wr_operator = (if ?ro = ROLE_OPERATOR then Some a else None), wr_height = Some h,
      wr_client = (if ?ro = ROLE_CLIENT then Some a else None), wr_role = Some ?ro\<rparr>"
    have x: "x = Inr ?r" "ws_guard s' = g" using assms gy Inr by (auto simp: last_stages_def kit_ok_iff Let_def)
    have "attributed_to ?r = Some a" by (cases ?ro) (simp_all add: attributed_to_def)
    then show ?thesis using x gy Inr by (simp add: guarded_def)
  qed
qed

lemma sealed_message:
  assumes "sha_length H" "canonical_message H kind key body mid height = Inr m"
  shows "\<exists>h. height = PInt h \<and> 0 \<le> h \<and> seal_height (FBytes m) (\<lambda>x. map_sum id (\<lambda>n. PInt (int n)) (message_height x)) = Inr (Sealed h)"
proof -
  obtain h where h: "height = PInt h" "0 \<le> h" "h \<le> U64_MAX" using canonical_message_facts(1) [OF assms(1)] assms(2) by blast
  then have "message_height m = Inr (nat h)" using canonical_message_facts(3) [OF assms(1)] assms(2) by blast
  then show ?thesis using h by (simp add: seal_height_def bind_res_def)
qed

text \<open>The verdict is a refusal that leaves the guard alone, or one call of the guard for an authenticated write.\<close>

definition turned_away :: "write_result result \<Rightarrow> bool" where
  "turned_away x = (case x of Inl e \<Rightarrow> True | Inr r \<Rightarrow> \<not> wr_accepted r \<and> wr_reason r \<noteq> None \<and> wr_regime r = None)"

lemma turned_away_refused [simp]: "turned_away (Inr (refused r reg h ro))"
  by (simp add: turned_away_def refused_def)

lemma authenticated_message:
  "authenticated H E s w pk m h a \<Longrightarrow> canonical_message H (sw_kind w) (sw_key w) (sw_body w) (sw_miner w) (sw_height w) = Inr m"
  "authenticated H E s w pk m h a \<Longrightarrow> sw_pubkey w = FBytes pk"
  "authenticated H E s w pk m h a \<Longrightarrow> sw_height w = PInt h"
  unfolding authenticated_def by blast+

lemma attribution_stage:
  assumes att: "attribution H E s w h pk (sha256 H m) = (s', x)"
    and pre: "sw_pubkey w = FBytes pk" "length pk = 33" "sw_signature w = FBytes sg" "sg \<noteq> []" "we_signature E pk m sg = Inr True"
      "canonical_message H (sw_kind w) (sw_key w) (sw_body w) (sw_miner w) (sw_height w) = Inr m" "sw_height w = PInt h"
  shows "(\<exists>a. authenticated H E s w pk m h a \<and> guarded E (ws_guard s) w pk h (sha256 H m) a s' x)
    \<or> (\<forall>a. \<not> authenticated H E s w pk m h a) \<and> ws_guard s' = ws_guard s \<and> turned_away x"
  using att
proof (cases rule: attribution_cases)
  case (stopped r)
  then have "\<not> authenticated H E s w pk m h a" for a by (auto simp: authenticated_def)
  then show ?thesis using stopped by (simp add: turned_away_def)
next
  case (reached a reg s1)
  then have "authenticated H E s w pk m h a" using pre by (auto simp: authenticated_def)
  moreover have "ws_guard s1 = ws_guard s" using signer_of_guard [of E s w] reached(1) by simp
  then have "guarded E (ws_guard s) w pk h (sha256 H m) a s' x" using last_stages_guard [OF reached(4,5)] by simp
  ultimately show ?thesis by blast
qed

lemma verdict_cases:
  assumes sha: "sha_length H" and v: "verdict_of H E s w = (s', x)"
  shows "(\<exists>pk m h a. authenticated H E s w pk m h a \<and> guarded E (ws_guard s) w pk h (sha256 H m) a s' x)
    \<or> (\<forall>pk m h a. \<not> authenticated H E s w pk m h a) \<and> ws_guard s' = ws_guard s \<and> turned_away x"
proof -
  let ?msg = "canonical_message H (sw_kind w) (sw_key w) (sw_body w) (sw_miner w) (sw_height w)"
  consider pk sg m where "sw_pubkey w = FBytes pk" "length pk = 33" "sw_signature w = FBytes sg" "sg \<noteq> []" "?msg = Inr m"
      "we_signature E pk m sg = Inr True"
    | "\<forall>pk m h a. \<not> authenticated H E s w pk m h a"
      "\<not> (\<exists>pk sg m. sw_pubkey w = FBytes pk \<and> length pk = 33 \<and> sw_signature w = FBytes sg \<and> sg \<noteq> [] \<and> ?msg = Inr m \<and> we_signature E pk m sg = Inr True)"
    unfolding authenticated_def by blast
  then show ?thesis
  proof cases
    case 1
    obtain h where h: "sw_height w = PInt h" "seal_height (FBytes m) (\<lambda>x. map_sum id (\<lambda>n. PInt (int n)) (message_height x)) = Inr (Sealed h)"
      using sealed_message [OF sha 1(5)] by blast
    have "attribution H E s w h pk (sha256 H m) = (s', x)" using v 1 h by (simp add: verdict_of_def Let_def)
    from attribution_stage [OF this 1(1-4,6,5) h(1)] show ?thesis
    proof
      assume "(\<forall>a. \<not> authenticated H E s w pk m h a) \<and> ws_guard s' = ws_guard s \<and> turned_away x"
      moreover have "\<not> authenticated H E s w pk' m' h' a" if "\<forall>a. \<not> authenticated H E s w pk m h a" for pk' m' h' a
        using that 1 h authenticated_message [of H E s w pk' m' h' a] by auto
      ultimately show ?thesis by blast
    qed blast
  next
    case 2
    have "s' = s \<and> turned_away x"
      using v 2(2) unfolding verdict_of_def Let_def
      by (auto simp: turned_away_def refused_def split: field.splits if_splits sum.splits bool.splits)
    then show ?thesis using 2(1) by blast
  qed
qed

section \<open>The check of a write as a replay guard\<close>

text \<open>One signed write checked with the guard of the relay, at the two reads of the clock the guard makes.\<close>

definition at_clock :: "rat \<times> rat \<Rightarrow> antireplay write_env \<Rightarrow> antireplay write_env" where
  "at_clock clk E = E\<lparr>we_guard := (\<lambda>g k h d head. map_prod id (map_sum id answer_of) (verify clk g k h d head))\<rparr>"

definition accepts :: "write_result result \<Rightarrow> bool" where
  "accepts x = (case x of Inr r \<Rightarrow> wr_accepted r | Inl e \<Rightarrow> False)"

definition write_call :: "host \<Rightarrow> antireplay write_state \<Rightarrow> (rat \<times> rat) \<times> antireplay write_env \<times> signed_write \<Rightarrow> antireplay write_state \<times> bool" where
  "write_call H s c = map_prod id accepts (verdict_of H (at_clock (fst c) (fst (snd c))) s (snd (snd c)))"

definition write_digest :: "host \<Rightarrow> antireplay write_env \<times> signed_write \<Rightarrow> string" where
  "write_digest H i = (case msg_digest H (sw_kind (snd i)) (sw_key (snd i)) (sw_body (snd i)) (sw_miner (snd i)) (sw_height (snd i)) of
     Inr d \<Rightarrow> d | Inl e \<Rightarrow> [])"

lemma turned_away_not_accepted: "turned_away x \<Longrightarrow> \<not> accepts x"
  by (auto simp: turned_away_def accepts_def split: sum.splits)

text \<open>The guard is called at most once, on the digest of the message; a write is accepted only when it accepts.\<close>

lemma verdict_guard_call:
  assumes "verdict_of H E s w = (s', x)"
  obtains (away) "ws_guard s' = ws_guard s" "\<not> accepts x"
  | (called) pk h m a where "canonical_message H (sw_kind w) (sw_key w) (sw_body w) (sw_miner w) (sw_height w) = Inr m"
      "guarded E (ws_guard s) w pk h (sha256 H m) a s' x"
proof (cases "\<exists>h pk m. canonical_message H (sw_kind w) (sw_key w) (sw_body w) (sw_miner w) (sw_height w) = Inr m
    \<and> attribution H E s w h pk (sha256 H m) = (s', x)")
  case True
  then obtain h pk m where m: "canonical_message H (sw_kind w) (sw_key w) (sw_body w) (sw_miner w) (sw_height w) = Inr m"
    and att: "attribution H E s w h pk (sha256 H m) = (s', x)" by blast
  from att show ?thesis
  proof (cases rule: attribution_cases)
    case (stopped r)
    then show ?thesis using away by (simp add: accepts_def)
  next
    case (reached a reg s1)
    have "ws_guard s1 = ws_guard s" using signer_of_guard [of E s w] reached(1) by simp
    then show ?thesis using called [OF m] last_stages_guard [OF reached(4,5)] by simp
  qed
next
  case False
  then have "s' = s \<and> \<not> accepts x" using assms unfolding verdict_of_def Let_def
    by (auto simp: accepts_def refused_def split: field.splits if_splits sum.splits bool.splits height_arg.splits)
  then show ?thesis using away by blast
qed

lemma write_call_cases:
  obtains (away) "ws_guard (fst (write_call H s (clk, i))) = ws_guard s" "\<not> snd (write_call H s (clk, i))"
  | (called) gi where "input_digest gi = write_digest H i"
      "guard_call (ws_guard s) (clk, gi) = (ws_guard (fst (write_call H s (clk, i))), snd (write_call H s (clk, i)))"
proof -
  obtain E w where i: "i = (E, w)" by (cases i)
  let ?E = "at_clock clk E"
  obtain s' x where v: "verdict_of H ?E s w = (s', x)" by (cases "verdict_of H ?E s w") auto
  then have r: "write_call H s (clk, i) = (s', accepts x)" by (simp add: write_call_def i)
  from v show ?thesis
  proof (cases rule: verdict_guard_call)
    case away
    then show ?thesis using that(1) r by simp
  next
    case (called pk h m a)
    let ?gi = "\<lparr>gi_key = FBytes pk, gi_height = Sealed h, gi_digest = FBytes (sha256 H m), gi_head = we_head E\<rparr>"
    obtain g y where gy: "verify clk (ws_guard s) (FBytes pk) (Sealed h) (FBytes (sha256 H m)) (we_head E) = (g, y)"
      by (cases "verify clk (ws_guard s) (FBytes pk) (Sealed h) (FBytes (sha256 H m)) (we_head E)") auto
    have "ws_guard s' = g \<and> accepts x = accepted_by y"
      using called(2) gy by (auto simp: guarded_def at_clock_def answer_of_def accepts_def accepted_by_def split: sum.splits)
    then have "guard_call (ws_guard s) (clk, ?gi) = (ws_guard s', accepts x)" using gy by (simp add: guard_call_def)
    moreover have "input_digest ?gi = write_digest H i" using called(1) by (simp add: input_digest_def write_digest_def i msg_digest_def bind_res_def)
    ultimately show ?thesis using that(2) [of ?gi] r by simp
  qed
qed

interpretation signed: replay_guard "write_call H" "write_digest H" "\<lambda>s. guard_knows (ws_guard s)" "\<lambda>s. ar_retention (ws_guard s)" for H
proof
  fix s and c :: "(rat \<times> rat) \<times> antireplay write_env \<times> signed_write"
  obtain clk i where c: "c = (clk, i)" by (cases c)
  show "ar_retention (ws_guard (fst (write_call H s c))) = ar_retention (ws_guard s)"
    unfolding c
  proof (cases rule: write_call_cases [of H s clk i])
    case (called gi)
    then show "ar_retention (ws_guard (fst (write_call H s (clk, i)))) = ar_retention (ws_guard s)"
      using guard.retention_fixed [of "ws_guard s" "(clk, gi)"] by simp
  qed simp
next
  fix s :: "antireplay write_state" and t1 t2 i assume acc: "snd (write_call H s ((t1, t2), i))"
  then show "guard_knows (ws_guard (fst (write_call H s ((t1, t2), i)))) t2 (write_digest H i)"
  proof (cases rule: write_call_cases [of H s "(t1, t2)" i])
    case (called gi)
    then show ?thesis using guard.records [of "ws_guard s" t1 t2 gi] acc by simp
  qed simp
next
  fix s :: "antireplay write_state" and t d and t1 t2 :: rat and i
  assume "guard_knows (ws_guard s) t d" "t1 \<le> t + ar_retention (ws_guard s)"
  then show "guard_knows (ws_guard (fst (write_call H s ((t1, t2), i)))) t d"
    using guard.remembers [of "ws_guard s" t d t1 t2] by (cases rule: write_call_cases [of H s "(t1, t2)" i]) (simp, metis fst_conv)
next
  fix s :: "antireplay write_state" and t and t1 t2 :: rat and i
  assume k: "guard_knows (ws_guard s) t (write_digest H i)" "t1 \<le> t + ar_retention (ws_guard s)"
  show "\<not> snd (write_call H s ((t1, t2), i))"
  proof (cases rule: write_call_cases [of H s "(t1, t2)" i])
    case (called gi)
    then show ?thesis using guard.refuses [of "ws_guard s" t gi t1 t2] k by simp
  qed simp
qed

section \<open>Counts\<close>

lemma record_result_total: "summary_total (record_result s r) = summary_total s + 1"
  by (auto simp: record_result_def summary_total_def Let_def split: option.splits regime.splits)

section \<open>A concrete write\<close>

lemma hrp_of_account:
  assumes "short_hrp hrp" "length h = 20"
  shows "hrp_of (account_address hrp h) = hrp"
proof -
  obtain five where v: "valid_bech (hrp, five)" "account_address hrp h = bech32_encode hrp five"
    using account_address_decodes [OF assms] by metis
  let ?c = "map (\<lambda>d. CHARSET ! nat d) (five @ checksum_of hrp five)"
  have "\<forall>d \<in> set (five @ checksum_of hrp five). five_bit d"
    using v(1) five_bit_checksum [of hrp five] by (auto simp: valid_bech_def list_all_iff)
  then have "CHR ''1'' \<notin> set ?c" using charset_at(3) by force
  then have "dropWhile (\<lambda>c. c \<noteq> CHR ''1'') (rev ?c @ CHR ''1'' # rev hrp) = CHR ''1'' # rev hrp"
    by (subst dropWhile_append2) auto
  then show ?thesis unfolding v(2) bech32_encode_checksum by (simp add: hrp_of_def)
qed

definition sample_pubkey :: string where
  "sample_pubkey = CHR 0x02 # replicate 32 (CHR ''k'')"

definition sample_address :: string where
  "sample_address = account_address ''dendra'' (key_hash sample_host sample_pubkey ''secp256k1'')"

lemma sample_address_derived:
  "address_from_pubkey sample_host sample_pubkey (hrp_of sample_address) ''secp256k1'' = Inr sample_address"
proof -
  have l: "length (key_hash sample_host sample_pubkey ''secp256k1'') = 20"
    using sample_digest_lengths by (simp add: key_hash_def digest_lengths_def)
  obtain five where "convertbits (octets (key_hash sample_host sample_pubkey ''secp256k1'')) 8 5 True = Some five"
    using convertbits_8_5 [OF octets_groups] by metis
  then show ?thesis using hrp_of_account [OF dendra_short l, folded sample_address_def]
    by (simp add: address_from_pubkey_def key_hash_def sample_address_def account_address_def sample_pubkey_def)
qed

definition sample_write :: signed_write where
  "sample_write = \<lparr>sw_kind = FText ''res'', sw_key = FText ''j__m'', sw_body = FBytes ''{}'', sw_miner = FText ''m'',
     sw_height = PInt 7, sw_pubkey = FBytes sample_pubkey, sw_signature = FBytes ''s''\<rparr>"

definition sample_state :: "antireplay write_state" where
  "sample_state = \<lparr>ws_registry = Some \<lparr>rg_expiry = 300, rg_operators = [(''m'', sample_address)], rg_creators = [], rg_last = Some 0,
       rg_ok = 1, rg_failed = 0, rg_error = None\<rparr>, ws_jobs = None, ws_guard = sample_guard\<rparr>"

definition sample_env :: "antireplay write_env" where
  "sample_env = \<lparr>we_loads = (\<lambda>b. Inl ValueError), we_signature = (\<lambda>pk m sg. Inr True), we_job_reader = None, we_now = 1,
     we_job_clock = (1, 1, 1), we_fresh_only = True, we_kit_floor = None, we_guard = (\<lambda>g k h d head. (g, Inl ValueError)), we_head = PNone\<rparr>"

lemma sample_message: "\<exists>m. canonical_message sample_host (FText ''res'') (FText ''j__m'') (FBytes ''{}'') (FText ''m'') (PInt 7) = Inr m"
  by (simp add: canonical_message_eq good_field_def to_bytes_def utf8_def utf8_char_def MAX_FIELD_def U64_MAX_def)

lemma sample_authenticated:
  assumes "ws_registry s = ws_registry sample_state"
  shows "\<exists>m. authenticated sample_host (at_clock clk sample_env) s sample_write sample_pubkey m 7 sample_address"
  using sample_message sample_address_derived assms
  by (auto simp: authenticated_def sample_write_def at_clock_def sample_env_def sample_pubkey_def signer_of_def role_of_kind_def
      operator_authority_def field_val_def operator_def state_def age_def sample_state_def kit_ok_def)

lemma verdict_registry: "ws_registry (fst (verdict_of H E s w)) = ws_registry s"
proof -
  have "ws_registry (fst (client_authority E s key m)) = ws_registry s" for key m
    by (auto simp: client_authority_def split: option.splits sum.splits prod.splits)
  moreover have "ws_registry (fst (last_stages E s1 w ro a reg h pk d)) = ws_registry s1" for s1 ro a reg h pk d
    by (auto simp: last_stages_def Let_def split: prod.splits sum.splits)
  ultimately have "ws_registry (fst (attribution H E s w h pk d)) = ws_registry s" for h pk d
    by (auto simp: attribution_def Let_def split: prod.splits option.splits sum.splits) (metis fst_conv)+
  then show ?thesis
    by (auto simp: verdict_of_def Let_def split: field.splits sum.splits bool.splits height_arg.splits)
qed

text \<open>The guard accepts a first write, and the same one once the retention has passed.\<close>

definition first_and_late :: "string \<Rightarrow> string \<Rightarrow> guard_input" where
  "first_and_late k d = \<lparr>gi_key = FBytes k, gi_height = Sealed 7, gi_digest = FBytes d, gi_head = PNone\<rparr>"

lemma sample_twice:
  assumes "k \<noteq> []" "length d = 32"
  shows "\<exists>g. guard_call sample_guard ((1, 1), first_and_late k d) = (g, True) \<and> snd (guard_call g ((200, 200), first_and_late k d))"
  using assms
  by (simp add: guard_call_def first_and_late_def verify_def Let_def verify_known_def purge_def sample_guard_def head_bounds_def accepted_by_def)

lemma sample_write_call:
  "\<exists>d. length d = 32 \<and> (\<forall>s clk. ws_registry s = ws_registry sample_state \<longrightarrow>
    ws_registry (fst (write_call sample_host s (clk, sample_env, sample_write))) = ws_registry sample_state
    \<and> guard_call (ws_guard s) (clk, first_and_late sample_pubkey d)
      = (ws_guard (fst (write_call sample_host s (clk, sample_env, sample_write))), snd (write_call sample_host s (clk, sample_env, sample_write))))"
proof -
  obtain m where m: "canonical_message sample_host (FText ''res'') (FText ''j__m'') (FBytes ''{}'') (FText ''m'') (PInt 7) = Inr m"
    using sample_message by blast
  have "ws_registry (fst (write_call sample_host s (clk, sample_env, sample_write))) = ws_registry sample_state
    \<and> guard_call (ws_guard s) (clk, first_and_late sample_pubkey (sha256 sample_host m))
      = (ws_guard (fst (write_call sample_host s (clk, sample_env, sample_write))), snd (write_call sample_host s (clk, sample_env, sample_write)))"
    if reg: "ws_registry s = ws_registry sample_state" for s clk
  proof -
    let ?E = "at_clock clk sample_env"
    obtain s' x where v: "verdict_of sample_host ?E s sample_write = (s', x)" by (cases "verdict_of sample_host ?E s sample_write") auto
    from verdict_cases [OF sample_sha_length v] sample_authenticated [OF reg, of clk]
    obtain pk m' h a where A: "authenticated sample_host ?E s sample_write pk m' h a"
        "guarded ?E (ws_guard s) sample_write pk h (sha256 sample_host m') a s' x" by blast
    have "pk = sample_pubkey" "m' = m" "h = 7"
      using authenticated_message [OF A(1)] m by (auto simp: sample_write_def)
    then have g: "guarded ?E (ws_guard s) sample_write sample_pubkey 7 (sha256 sample_host m) a s' x" using A(2) by simp
    have "guard_call (ws_guard s) (clk, first_and_late sample_pubkey (sha256 sample_host m)) = (ws_guard s', accepts x)"
      using g by (auto simp: guarded_def guard_call_def first_and_late_def at_clock_def sample_env_def accepts_def accepted_by_def answer_of_def
          map_prod_def split: prod.splits sum.splits)
    then show ?thesis using verdict_registry [of sample_host ?E s sample_write] v reg by (simp add: write_call_def)
  qed
  moreover have "length (sha256 sample_host m) = 32" using sample_sha_length by (simp add: sha_length_def)
  ultimately show ?thesis by blast
qed

section \<open>Properties\<close>

text \<open>
  C5: who a write is attributed to, and what an attacker can move. A write reaches the replay guard exactly when it is
  authenticated: a 33-byte key, a signature of the canonical message by it, a registry that names an address for the
  miner (for the job's client, when a request is deposited), a key that derives that very address, a kit at the floor.
  The verdict is then the guard's, on that key, the signed height and the digest of the message, and the write is
  attributed to that address. Any other write is refused with a reason and no regime, or raises, and leaves the guard
  (its digests and high-water marks) untouched: nobody poisons it without a key the chain knows. Each verdict is counted once.
\<close>

theorem only_authenticated_writes_reach_guard:
  assumes "sha_length H" "verify_write H E (s, su) w = ((s', su'), x)"
  shows "((\<exists>pk m h a. authenticated H E s w pk m h a \<and> guarded E (ws_guard s) w pk h (sha256 H m) a s' x)
      \<or> (\<forall>pk m h a. \<not> authenticated H E s w pk m h a) \<and> ws_guard s' = ws_guard s \<and> turned_away x)
    \<and> summary_total su' = summary_total su + (case x of Inr r \<Rightarrow> 1 | Inl e \<Rightarrow> 0)"
proof -
  obtain s1 x1 where v: "verdict_of H E s w = (s1, x1)" by (cases "verdict_of H E s w") auto
  then have "s' = s1" "x = x1" "su' = (case x of Inr r \<Rightarrow> record_result su r | Inl e \<Rightarrow> su)"
    using assms(2) by (auto simp: verify_write_def split: sum.splits)
  then show ?thesis using verdict_cases [OF assms(1) v] record_result_total by (auto split: sum.splits)
qed

theorem only_authenticated_writes_reach_guard_witness:
  "\<exists>s' r. fst (verify_write sample_host (at_clock (1, 1) sample_env) (sample_state, init_summary) sample_write) = (s', record_result init_summary r)
     \<and> attributed_to r = Some sample_address"
proof -
  let ?E = "at_clock (1, 1) sample_env"
  obtain s' su x where v: "verify_write sample_host ?E (sample_state, init_summary) sample_write = ((s', su), x)" by (metis surj_pair)
  from only_authenticated_writes_reach_guard [OF sample_sha_length v] sample_authenticated [of sample_state "(1, 1)"]
  obtain pk m h a where A: "authenticated sample_host ?E sample_state sample_write pk m h a"
      "guarded ?E (ws_guard sample_state) sample_write pk h (sha256 sample_host m) a s' x" by blast
  have "a = sample_address" "pk = sample_pubkey" using A(1)
    by (auto simp: authenticated_def signer_of_def sample_write_def role_of_kind_def operator_authority_def field_val_def operator_def
        sample_state_def at_clock_def sample_env_def state_def age_def)
  moreover have "\<exists>y. snd (verify (1, 1) sample_guard (FBytes sample_pubkey) (Sealed h) (FBytes (sha256 sample_host m)) PNone) = Inr y"
    using sample_sha_length by (auto simp: verify_def Let_def sample_pubkey_def sha_length_def)
  ultimately obtain r where r: "x = Inr r" "attributed_to r = Some sample_address"
    using A(2) by (auto simp: guarded_def at_clock_def sample_env_def sample_state_def map_prod_def split: prod.splits)
  then have "su = record_result init_summary r" using v by (auto simp: verify_write_def split: prod.splits sum.splits)
  then show ?thesis using v r by auto
qed

text \<open>
  A signed write is accepted once. Over any list of writes checked by the relay, from any state of the registries
  and of the guard, with a clock that never goes back: two accepted writes with the same canonical message (same kind,
  key, body, miner and height) are more than the retention apart, whatever the registries answered in between.
\<close>

theorem write_accepted_once:
  assumes "\<forall>a b. a < b \<and> b < length cs \<longrightarrow> fst (fst (cs ! a)) \<le> fst (fst (cs ! b))" "i < j" "j < length cs"
    and "fst (run_calls (write_call H) s cs) ! i" "fst (run_calls (write_call H) s cs) ! j"
    and "write_digest H (snd (cs ! i)) = write_digest H (snd (cs ! j))"
  shows "fst (fst (cs ! j)) > snd (fst (cs ! i)) + ar_retention (ws_guard s)"
  using assms by (rule signed.no_digest_twice)


theorem write_accepted_once_witness:
  "\<exists>cs. fst (run_calls (write_call sample_host) sample_state cs) = [True, True] \<and> fst (fst (cs ! 1)) > snd (fst (cs ! 0)) + 100"
proof -
  let ?w = "(sample_env, sample_write)"
  obtain d where d: "length d = 32" "\<And>s clk. ws_registry s = ws_registry sample_state \<Longrightarrow>
      ws_registry (fst (write_call sample_host s (clk, ?w))) = ws_registry sample_state
      \<and> guard_call (ws_guard s) (clk, first_and_late sample_pubkey d)
        = (ws_guard (fst (write_call sample_host s (clk, ?w))), snd (write_call sample_host s (clk, ?w)))"
    using sample_write_call by blast
  let ?s1 = "fst (write_call sample_host sample_state ((1, 1), ?w))"
  have g: "ws_guard sample_state = sample_guard" by (simp add: sample_state_def)
  obtain g1 where g1: "guard_call sample_guard ((1, 1), first_and_late sample_pubkey d) = (g1, True)"
      "snd (guard_call g1 ((200, 200), first_and_late sample_pubkey d))"
    using sample_twice [of sample_pubkey d] d(1) by (auto simp: sample_pubkey_def)
  have "snd (write_call sample_host sample_state ((1, 1), ?w))" "ws_guard ?s1 = g1" "ws_registry ?s1 = ws_registry sample_state"
    using d(2) [OF refl, of "(1, 1)"] g1(1) g by auto
  moreover from this have "snd (write_call sample_host ?s1 ((200, 200), ?w))" using d(2) [of ?s1 "(200, 200)"] g1(2) by auto
  ultimately have run: "fst (run_calls (write_call sample_host) sample_state [((1, 1), ?w), ((200, 200), ?w)]) = [True, True]"
    by (auto split: prod.splits)
  let ?cs = "[((1 :: rat, 1 :: rat), ?w), ((200, 200), ?w)]"
  have "\<forall>a b. a < b \<and> b < length ?cs \<longrightarrow> fst (fst (?cs ! a)) \<le> fst (fst (?cs ! b))"
    by (auto simp: less_Suc_eq numeral_2_eq_2)
  from write_accepted_once [OF this, of 0 1 sample_host sample_state] run
  have "fst (fst (?cs ! 1)) > snd (fst (?cs ! 0)) + 100" by (simp add: g sample_guard_def del: run_calls.simps)
  with run show ?thesis by blast
qed

end
