(* ===== verification/Relay_Store.thy ===== *)
theory Relay_Store
  imports Relay_Canon
begin

text \<open>
  The store of the relay: \<open>src/services/relay_store.py\<close> (the disk) and the functions of \<open>src/services/relay.py\<close> that
  hold the hot copy (\<open>_cost\<close>, \<open>_fill\<close>, \<open>_fill_transition_locked\<close>, \<open>_boot_store\<close>, \<open>_put\<close>, \<open>_get\<close>). The three
  dictionaries \<open>STORE\<close>, \<open>TS\<close>, \<open>USED\<close> and the set \<open>ALARMED\<close> have the same fixed kinds: one record per kind. A record
  file is the value its JSON and base64 carry, or unreadable; a directory is the list of its files in the order
  \<open>os.listdir\<close> gives. \<open>_put\<close> is the composition of its two critical sections with the removals between them. A write to the disk
  may fail, and leaves the directory as it was; the removal of a file may fail, and is not reported. Times and fills
  are exact rationals. The properties here are of one thread at a time; \<open>Relay_Serve\<close> interleaves the sections.
\<close>

section \<open>The disk\<close>

record disk_rec =
  dr_key :: string
  dr_rank :: int
  dr_time :: "rat option"
  dr_data :: string

datatype disk_file = Rec disk_rec | Unreadable

record disk =
  dk_files :: "string \<Rightarrow> (string, disk_file) dict"
  dk_seq :: int

definition REC_SUFFIX :: string where
  "REC_SUFFIX = ''.rec''"

text \<open>The name of a file is a digest of the kind and the key, never the key.\<close>

definition fname :: "host \<Rightarrow> string \<Rightarrow> string \<Rightarrow> string" where
  "fname H kind key = hexdigest (sha256 H (utf8 kind @ [CHR 0x00] @ utf8 key)) @ REC_SUFFIX"

definition next_seq :: "int \<Rightarrow> disk \<Rightarrow> disk \<times> int" where
  "next_seq ns k = (let q = dk_seq k + 1 in (k\<lparr>dk_seq := q\<rparr>, ns * 1000 + q mod 1000))"

definition set_file :: "string \<Rightarrow> string \<Rightarrow> disk_file \<Rightarrow> disk \<Rightarrow> disk" where
  "set_file kind name f k = k\<lparr>dk_files := (dk_files k)(kind := AList.update name f (dk_files k kind))\<rparr>"

text \<open>\<open>write\<close>: \<open>ns\<close> is the nanosecond clock, \<open>err\<close> what the file system raises.\<close>

definition disk_write :: "host \<Rightarrow> int \<Rightarrow> exc option \<Rightarrow> string \<Rightarrow> string \<Rightarrow> string \<Rightarrow> rat \<Rightarrow> disk \<Rightarrow> disk \<times> int result" where
  "disk_write H ns err kind key data ts k =
     (let (k1, n) = next_seq ns k in
      case err of
        Some e \<Rightarrow> (k1, Inl e)
      | None \<Rightarrow> (set_file kind (fname H kind key) (Rec \<lparr>dr_key = key, dr_rank = n, dr_time = Some ts, dr_data = data\<rparr>) k1, Inr n))"

definition disk_remove :: "host \<Rightarrow> bool \<Rightarrow> string \<Rightarrow> string \<Rightarrow> disk \<Rightarrow> disk" where
  "disk_remove H ok kind key k = (if ok then k\<lparr>dk_files := (dk_files k)(kind := AList.delete (fname H kind key) (dk_files k kind))\<rparr> else k)"

text \<open>A record without a time takes it from its rank.\<close>

type_synonym item = "string \<times> string \<times> int \<times> rat"

definition rec_time :: "disk_rec \<Rightarrow> rat" where
  "rec_time r = (case dr_time r of
     Some t \<Rightarrow> if t = 0 then of_int (dr_rank r div 1000) / 10 ^ 9 else t
   | None \<Rightarrow> of_int (dr_rank r div 1000) / 10 ^ 9)"

definition read_file :: "string \<times> disk_file \<Rightarrow> item option" where
  "read_file nf = (case snd nf of Rec r \<Rightarrow> Some (dr_key r, dr_data r, dr_rank r, rec_time r) | Unreadable \<Rightarrow> None)"

definition ends_with :: "string \<Rightarrow> string \<Rightarrow> bool" where
  "ends_with s x \<longleftrightarrow> drop (length x - length s) x = s \<and> length s \<le> length x"

definition item_rank :: "item \<Rightarrow> int" where
  "item_rank it = fst (snd (snd it))"

definition item_time :: "item \<Rightarrow> rat" where
  "item_time it = snd (snd (snd it))"

definition record_files :: "string \<Rightarrow> disk \<Rightarrow> (string, disk_file) dict" where
  "record_files kind k = filter (\<lambda>nf. ends_with REC_SUFFIX (fst nf)) (dk_files k kind)"

text \<open>\<open>load\<close>, one kind: the disk without the records past the retention, the others in order of rank, the counts.\<close>

definition load_kind :: "host \<Rightarrow> bool \<Rightarrow> rat \<Rightarrow> rat \<Rightarrow> string \<Rightarrow> disk \<Rightarrow> disk \<times> item list \<times> nat \<times> nat" where
  "load_kind H ok retention now kind k =
     (let read = map read_file (record_files kind k);
          items = map the (filter (\<lambda>x. x \<noteq> None) read);
          bad = length (filter (\<lambda>x. x = None) read);
          old = (if retention > 0 then filter (\<lambda>it. now - item_time it > retention) items else []);
          keep = (if retention > 0 then filter (\<lambda>it. \<not> now - item_time it > retention) items else items)
      in (foldl (\<lambda>k it. disk_remove H ok kind (fst it) k) k old, sort_key item_rank keep, length old, bad))"

fun load :: "host \<Rightarrow> bool \<Rightarrow> rat \<Rightarrow> rat \<Rightarrow> string list \<Rightarrow> disk \<Rightarrow> disk \<times> (string, item list) dict \<times> nat \<times> nat" where
  "load H ok retention now [] k = (k, [], 0, 0)"
| "load H ok retention now (kind # kinds) k =
     (let (k1, items, expired, bad) = load_kind H ok retention now kind k;
          (k2, rest, e, b) = load H ok retention now kinds k1
      in (k2, (kind, items) # rest, expired + e, bad + b))"

section \<open>The hot copy\<close>

definition STORE_KINDS :: "string list" where
  "STORE_KINDS = [''pub'', ''req'', ''res'', ''reveal'', ''attest'']"

definition WRITE_ONCE :: "string list" where
  "WRITE_ONCE = [''req'', ''res'', ''reveal'']"

definition ENTRY_OVERHEAD :: int where
  "ENTRY_OVERHEAD = 1024"

definition FILL_ALARM :: rat where
  "FILL_ALARM = 80 / 100"

definition FILL_REARM :: rat where
  "FILL_REARM = 75 / 100"

record kind_store =
  ks_d :: "(string, string) dict"
  ks_t :: "(string, rat) dict"
  ks_used :: int
  ks_alarmed :: bool

record store =
  st_kinds :: "string \<Rightarrow> kind_store"
  st_version :: int
  st_evictions :: nat
  st_disk :: "disk option"

record limits =
  lm_budget :: int
  lm_retention :: rat

datatype alarm = AlarmRaised | AlarmOver

datatype put_error = Conflict | StoreFull | StoreUnavailable | DiskError exc

definition cost :: "string \<Rightarrow> string \<Rightarrow> int" where
  "cost key data = int (length (utf8 key)) + int (length data) + ENTRY_OVERHEAD"

definition fill_of :: "int \<Rightarrow> int \<Rightarrow> rat" where
  "fill_of budget used = (if budget > 0 then of_int used / of_int budget else 1)"

definition fill_transition :: "int \<Rightarrow> kind_store \<Rightarrow> kind_store \<times> alarm option" where
  "fill_transition budget ks =
     (let f = fill_of budget (ks_used ks) in
      if f \<ge> FILL_ALARM \<and> \<not> ks_alarmed ks then (ks\<lparr>ks_alarmed := True\<rparr>, Some AlarmRaised)
      else if f < FILL_REARM \<and> ks_alarmed ks then (ks\<lparr>ks_alarmed := False\<rparr>, Some AlarmOver)
      else (ks, None))"

definition set_kind :: "string \<Rightarrow> kind_store \<Rightarrow> store \<Rightarrow> store" where
  "set_kind kind ks s = s\<lparr>st_kinds := (st_kinds s)(kind := ks)\<rparr>"

definition bump_version :: "store \<Rightarrow> store" where
  "bump_version s = s\<lparr>st_version := st_version s + 1\<rparr>"

text \<open>\<open>_boot_store\<close>, one kind: items already in order.\<close>

definition boot_item :: "kind_store \<Rightarrow> item \<Rightarrow> kind_store" where
  "boot_item ks it = (case it of (key, data, n, ts) \<Rightarrow>
     ks\<lparr>ks_d := AList.update key data (ks_d ks), ks_t := AList.update key ts (ks_t ks),
        ks_used := ks_used ks - (case map_of (ks_d ks) key of Some old \<Rightarrow> cost key old | None \<Rightarrow> 0) + cost key data\<rparr>)"

definition empty_kind :: kind_store where
  "empty_kind = \<lparr>ks_d = [], ks_t = [], ks_used = 0, ks_alarmed = False\<rparr>"

definition boot_kind :: "int \<Rightarrow> item list \<Rightarrow> kind_store" where
  "boot_kind budget items = (let ks = foldl boot_item empty_kind items in ks\<lparr>ks_alarmed := fill_of budget (ks_used ks) \<ge> FILL_ALARM\<rparr>)"

fun boot_kinds :: "int \<Rightarrow> (string \<Rightarrow> kind_store) \<Rightarrow> (string, item list) dict \<Rightarrow> string \<Rightarrow> kind_store" where
  "boot_kinds budget f [] = f"
| "boot_kinds budget f ((kind, items) # rest) = boot_kinds budget (f(kind := boot_kind budget items)) rest"

definition boot_store :: "host \<Rightarrow> limits \<Rightarrow> bool \<Rightarrow> rat \<Rightarrow> disk \<Rightarrow> store \<Rightarrow> store" where
  "boot_store H L ok now k s =
     (let (k1, loaded, expired, bad) = load H ok (lm_retention L) now STORE_KINDS k
      in bump_version (s\<lparr>st_disk := Some k1,
           st_kinds := boot_kinds (lm_budget L) (st_kinds s) loaded\<rparr>))"

text \<open>Eviction by age: the loop stops at the first entry that is still young.\<close>

fun evict_loop :: "rat \<Rightarrow> rat \<Rightarrow> (string, string) dict \<Rightarrow> (string, rat) dict \<Rightarrow> int
    \<Rightarrow> (string, string) dict \<times> (string, rat) dict \<times> int \<times> string list" where
  "evict_loop retention now [] t used = ([], t, used, [])"
| "evict_loop retention now ((k0, v) # d) t used =
     (if now - get_or t k0 now \<le> retention then ((k0, v) # d, t, used, [])
      else (let (d1, t1, used1, evicted) = evict_loop retention now d (AList.delete k0 t) (used - cost k0 v)
            in (d1, t1, used1, k0 # evicted)))"

text \<open>The first critical section of \<open>_put\<close>, with the count of the evictions.\<close>

definition evict_section :: "limits \<Rightarrow> rat \<Rightarrow> string \<Rightarrow> store \<Rightarrow> store \<times> string list \<times> alarm option" where
  "evict_section L now kind s =
     (let ks = st_kinds s kind; (d1, t1, used1, evicted) = evict_loop (lm_retention L) now (ks_d ks) (ks_t ks) (ks_used ks);
          ks1 = ks\<lparr>ks_d := d1, ks_t := t1, ks_used := used1\<rparr>
      in if evicted = [] then (set_kind kind ks1 s, [], None)
         else (let (ks2, said) = fill_transition (lm_budget L) ks1
               in ((bump_version (set_kind kind ks2 s))\<lparr>st_evictions := st_evictions s + length evicted\<rparr>, evicted, said)))"

definition remove_key :: "host \<Rightarrow> bool \<Rightarrow> string \<Rightarrow> string \<Rightarrow> store \<Rightarrow> store" where
  "remove_key H ok kind key s = s\<lparr>st_disk := map_option (disk_remove H ok kind key) (st_disk s)\<rparr>"

text \<open>What the second section reads of the system: the deposit time, the nanosecond clock, the outcome of the write.\<close>

record put_io =
  io_now :: rat
  io_ns :: int
  io_err :: "exc option"
  io_remove :: "string \<Rightarrow> bool"

definition stored_cost :: "kind_store \<Rightarrow> string \<Rightarrow> int" where
  "stored_cost ks key = (case map_of (ks_d ks) key of Some old \<Rightarrow> cost key old | None \<Rightarrow> 0)"

text \<open>The second critical section.\<close>

definition deposit :: "host \<Rightarrow> limits \<Rightarrow> put_io \<Rightarrow> string \<Rightarrow> string \<Rightarrow> string \<Rightarrow> store \<Rightarrow> store \<times> (put_error + unit) \<times> alarm option" where
  "deposit H L io kind key data s =
     (let ks = st_kinds s kind; after = ks_used ks - stored_cost ks key + cost key data in
      if kind \<in> set WRITE_ONCE \<and> map_of (ks_d ks) key = Some data then (s, Inr (), None)
      else if kind \<in> set WRITE_ONCE \<and> map_of (ks_d ks) key \<noteq> None then (s, Inl Conflict, None)
      else if after > lm_budget L \<and> after > ks_used ks then (s, Inl StoreFull, None)
      else (case st_disk s of
          None \<Rightarrow> (s, Inl StoreUnavailable, None)
        | Some k \<Rightarrow>
            (case disk_write H (io_ns io) (io_err io) kind key data (io_now io) k of
               (k1, Inl e) \<Rightarrow> (s\<lparr>st_disk := Some k1\<rparr>, Inl (DiskError e), None)
             | (k1, Inr n) \<Rightarrow>
                 (let ks1 = ks\<lparr>ks_d := AList.delete key (ks_d ks) @ [(key, data)],
                               ks_t := AList.update key (io_now io) (if map_of (ks_d ks) key \<noteq> None then AList.delete key (ks_t ks) else ks_t ks),
                               ks_used := after\<rparr>;
                      (ks2, said) = fill_transition (lm_budget L) ks1
                  in (bump_version (set_kind kind ks2 (s\<lparr>st_disk := Some k1\<rparr>)), Inr (), said)))))"

definition put :: "host \<Rightarrow> limits \<Rightarrow> put_io \<Rightarrow> string \<Rightarrow> string \<Rightarrow> string \<Rightarrow> store \<Rightarrow> store \<times> (put_error + unit) \<times> alarm list" where
  "put H L io kind key data s =
     (if st_disk s = None then (s, Inl StoreUnavailable, [])
      else
        (let (s1, evicted, said1) = evict_section L (io_now io) kind s;
             s2 = foldl (\<lambda>s k. remove_key H (io_remove io k) kind k s) s1 evicted;
             (s3, r, said2) = deposit H L io kind key data s2
         in (s3, r, List.map_filter id [said1, said2])))"

definition get_entry :: "store \<Rightarrow> string \<Rightarrow> string \<Rightarrow> string option" where
  "get_entry s kind key = map_of (ks_d (st_kinds s kind)) key"

section \<open>Accounting\<close>

definition entry_costs :: "(string, string) dict \<Rightarrow> int" where
  "entry_costs d = sum_list (map (\<lambda>(k, v). cost k v) d)"

text \<open>The two dictionaries have the same keys in the same order, and the total is the cost of the entries.\<close>

definition kind_ok :: "kind_store \<Rightarrow> bool" where
  "kind_ok ks \<longleftrightarrow> wf_dict (ks_d ks) \<and> map fst (ks_t ks) = map fst (ks_d ks) \<and> ks_used ks = entry_costs (ks_d ks)"

lemma entry_costs_simps [simp]:
  "entry_costs [] = 0" "entry_costs ((k, v) # d) = cost k v + entry_costs d" "entry_costs (d @ e) = entry_costs d + entry_costs e"
  by (simp_all add: entry_costs_def)

lemma delete_not_in: "k \<notin> fst ` set d \<Longrightarrow> AList.delete k d = d"
  by (induction d) auto

lemma keys_delete: "fst ` set (AList.delete k d) = fst ` set d - {k}"
  by (induction d) auto

lemma entry_costs_delete:
  "wf_dict d \<Longrightarrow> entry_costs (AList.delete k d) = entry_costs d - (case map_of d k of Some v \<Rightarrow> cost k v | None \<Rightarrow> 0)"
proof (induction d)
  case (Cons x d)
  obtain a v where x: "x = (a, v)" by (cases x)
  have "a = k \<Longrightarrow> k \<notin> fst ` set d" using Cons.prems by (auto simp: wf_dict_def x)
  then show ?case using Cons.IH Cons.prems by (cases "a = k") (auto simp: x wf_dict_def delete_not_in)
qed simp

lemma map_fst_delete: "map fst (AList.delete k d) = filter (\<lambda>x. x \<noteq> k) (map fst d)"
  by (induction d) auto

lemma kind_ok_empty [simp]: "kind_ok empty_kind"
  by (simp add: kind_ok_def empty_kind_def)

text \<open>On such a store the loop drops a prefix, every entry of it past the retention.\<close>

lemma evict_loop_prefix:
  assumes "evict_loop R now d t used = (d1, t1, used1, evicted)" "map fst t = map fst d" "wf_dict d"
  shows "\<exists>n. d1 = drop n d \<and> t1 = drop n t \<and> evicted = map fst (take n d) \<and> used1 = used - entry_costs (take n d)
    \<and> (\<forall>x \<in> set (take n t). now - snd x > R)"
  using assms
proof (induction R now d t used arbitrary: d1 t1 used1 evicted rule: evict_loop.induct)
  case (2 R now k0 v d t used)
  obtain ts t' where t: "t = (k0, ts) # t'" "map fst t' = map fst d" using "2.prems"(2) by (cases t) auto
  have fresh: "k0 \<notin> fst ` set t'" using "2.prems"(3) t(2) by (metis (no_types, lifting) distinct.simps(2) list.map(2) fst_conv set_map wf_dict_def)
  show ?case
  proof (cases "now - ts \<le> R")
    case True
    then have "d1 = drop 0 ((k0, v) # d) \<and> t1 = drop 0 t \<and> evicted = [] \<and> used1 = used" using "2.prems"(1) by (simp add: t get_or_def)
    then show ?thesis by (intro exI [of _ 0]) simp
  next
    case False
    then have old: "\<not> now - get_or t k0 now \<le> R" by (simp add: t get_or_def)
    obtain d2 t2 u2 ev2 where r: "evict_loop R now d (AList.delete k0 t) (used - cost k0 v) = (d2, t2, u2, ev2)" by (metis surj_pair)
    have del: "AList.delete k0 t = t'" using fresh by (simp add: t delete_not_in)
    obtain n where n: "d2 = drop n d" "t2 = drop n t'" "ev2 = map fst (take n d)" "u2 = used - cost k0 v - entry_costs (take n d)"
        "\<forall>x \<in> set (take n t'). now - snd x > R"
      using "2.IH" [OF old r] wf_dict_ConsD [OF "2.prems"(3)] t(2) unfolding del by auto
    have "d1 = d2 \<and> t1 = t2 \<and> used1 = u2 \<and> evicted = k0 # ev2" using "2.prems"(1) old r by simp
    then show ?thesis using n False by (intro exI [of _ "Suc n"]) (simp add: t)
  qed
qed auto

lemma fill_transition_kind:
  "ks_d (fst (fill_transition b ks)) = ks_d ks" "ks_t (fst (fill_transition b ks)) = ks_t ks" "ks_used (fst (fill_transition b ks)) = ks_used ks"
  by (simp_all add: fill_transition_def Let_def)

lemma kind_ok_fill [simp]: "kind_ok (fst (fill_transition b ks)) = kind_ok ks"
  by (simp add: kind_ok_def fill_transition_kind)

lemma kind_ok_drop:
  assumes "kind_ok ks" "ks_d ks' = drop n (ks_d ks)" "ks_t ks' = drop n (ks_t ks)" "ks_used ks' = ks_used ks - entry_costs (take n (ks_d ks))"
  shows "kind_ok ks'"
proof -
  have "entry_costs (ks_d ks) = entry_costs (take n (ks_d ks)) + entry_costs (drop n (ks_d ks))"
    by (metis append_take_drop_id entry_costs_simps(3))
  then show ?thesis using assms by (simp add: kind_ok_def wf_dict_def drop_map [symmetric])
qed

text \<open>The first section: a prefix past the retention goes, the rest of the store stays.\<close>

lemma evict_section_effect:
  assumes "evict_section L now kind s = (s1, evicted, said)" "kind_ok (st_kinds s kind)"
  obtains n where "ks_d (st_kinds s1 kind) = drop n (ks_d (st_kinds s kind))" "ks_t (st_kinds s1 kind) = drop n (ks_t (st_kinds s kind))"
    "evicted = map fst (take n (ks_d (st_kinds s kind)))" "\<forall>x \<in> set (take n (ks_t (st_kinds s kind))). now - snd x > lm_retention L"
    "kind_ok (st_kinds s1 kind)" "\<And>c. c \<noteq> kind \<Longrightarrow> st_kinds s1 c = st_kinds s c" "st_disk s1 = st_disk s"
    "st_version s1 = (if evicted = [] then st_version s else st_version s + 1)"
    "ks_used (st_kinds s1 kind) = ks_used (st_kinds s kind) - entry_costs (take n (ks_d (st_kinds s kind)))"
proof -
  let ?ks = "st_kinds s kind"
  obtain d1 t1 u1 ev where e: "evict_loop (lm_retention L) now (ks_d ?ks) (ks_t ?ks) (ks_used ?ks) = (d1, t1, u1, ev)" by (metis surj_pair)
  obtain n where n: "d1 = drop n (ks_d ?ks)" "t1 = drop n (ks_t ?ks)" "ev = map fst (take n (ks_d ?ks))"
      "u1 = ks_used ?ks - entry_costs (take n (ks_d ?ks))" "\<forall>x \<in> set (take n (ks_t ?ks)). now - snd x > lm_retention L"
    using evict_loop_prefix [OF e] assms(2) by (auto simp: kind_ok_def)
  let ?k1 = "?ks\<lparr>ks_d := d1, ks_t := t1, ks_used := u1\<rparr>"
  have ev: "evicted = ev" and s1: "s1 = (if ev = [] then set_kind kind ?k1 s
      else (bump_version (set_kind kind (fst (fill_transition (lm_budget L) ?k1)) s))\<lparr>st_evictions := st_evictions s + length ev\<rparr>)"
    using assms(1) e by (auto simp: evict_section_def Let_def split: prod.splits if_splits)
  have k: "st_kinds s1 kind = (if ev = [] then ?k1 else fst (fill_transition (lm_budget L) ?k1))"
    unfolding s1 by (simp add: set_kind_def bump_version_def)
  have ok: "kind_ok ?k1" using kind_ok_drop [OF assms(2), of ?k1 n] n by simp
  show thesis
    using that [of n] n ok ev k s1 by (auto simp: set_kind_def bump_version_def fill_transition_kind)
qed

text \<open>The second section: nothing changes but the disk's counter, or the entry is written on the disk and in memory.\<close>

lemma deposit_cases:
  assumes "deposit H L io kind key data s = (s1, r, said)"
  obtains (unchanged) k where "st_kinds s1 = st_kinds s" "st_version s1 = st_version s" "st_disk s = None \<and> s1 = s
      \<or> st_disk s = Some k \<and> (\<exists>q. st_disk s1 = Some (k\<lparr>dk_seq := q\<rparr>))"
      "r = Inr () \<longrightarrow> kind \<in> set WRITE_ONCE \<and> get_entry s kind key = Some data"
  | (written) k after where "r = Inr ()" "kind \<in> set WRITE_ONCE \<longrightarrow> get_entry s kind key = None" "st_disk s = Some k"
      "after = ks_used (st_kinds s kind) - stored_cost (st_kinds s kind) key + cost key data"
      "after \<le> lm_budget L \<or> after \<le> ks_used (st_kinds s kind)"
      "st_disk s1 = Some (set_file kind (fname H kind key)
         (Rec \<lparr>dr_key = key, dr_rank = io_ns io * 1000 + (dk_seq k + 1) mod 1000, dr_time = Some (io_now io), dr_data = data\<rparr>) (k\<lparr>dk_seq := dk_seq k + 1\<rparr>))"
      "\<And>c. c \<noteq> kind \<Longrightarrow> st_kinds s1 c = st_kinds s c" "st_version s1 = st_version s + 1"
      "ks_d (st_kinds s1 kind) = AList.delete key (ks_d (st_kinds s kind)) @ [(key, data)]"
      "ks_t (st_kinds s1 kind) = AList.update key (io_now io)
         (if get_entry s kind key \<noteq> None then AList.delete key (ks_t (st_kinds s kind)) else ks_t (st_kinds s kind))"
      "ks_used (st_kinds s1 kind) = after"
proof -
  let ?ks = "st_kinds s kind"
  let ?after = "ks_used ?ks - stored_cost ?ks key + cost key data"
  have same: "st_disk s = None \<and> s = s \<or> st_disk s = Some (the (st_disk s)) \<and> (\<exists>q. st_disk s = Some ((the (st_disk s))\<lparr>dk_seq := q\<rparr>))"
    by (cases "st_disk s") (auto intro: exI [of _ "dk_seq (the (st_disk s))"])
  consider "kind \<in> set WRITE_ONCE" "map_of (ks_d ?ks) key = Some data" | "kind \<in> set WRITE_ONCE" "map_of (ks_d ?ks) key \<noteq> None" "map_of (ks_d ?ks) key \<noteq> Some data"
    | "kind \<in> set WRITE_ONCE \<longrightarrow> map_of (ks_d ?ks) key = None" "?after > lm_budget L \<and> ?after > ks_used ?ks"
    | "kind \<in> set WRITE_ONCE \<longrightarrow> map_of (ks_d ?ks) key = None" "?after \<le> lm_budget L \<or> ?after \<le> ks_used ?ks"
    by linarith
  then show thesis
  proof cases
    case 1
    then have "s1 = s" "r = Inr ()" using assms by (simp_all add: deposit_def Let_def)
    then show thesis using unchanged [of "the (st_disk s)"] same 1 by (simp add: get_entry_def)
  next
    case 2
    then have "s1 = s" "r = Inl Conflict" using assms by (simp_all add: deposit_def Let_def)
    then show thesis using unchanged [of "the (st_disk s)"] same by simp
  next
    case 3
    then have "s1 = s" "r = Inl StoreFull" using assms by (auto simp: deposit_def Let_def)
    then show thesis using unchanged [of "the (st_disk s)"] same by simp
  next
    case 4
    have go: "deposit H L io kind key data s = (case st_disk s of
          None \<Rightarrow> (s, Inl StoreUnavailable, None)
        | Some k \<Rightarrow>
            (case disk_write H (io_ns io) (io_err io) kind key data (io_now io) k of
               (k1, Inl e) \<Rightarrow> (s\<lparr>st_disk := Some k1\<rparr>, Inl (DiskError e), None)
             | (k1, Inr n) \<Rightarrow>
                 (let ks1 = ?ks\<lparr>ks_d := AList.delete key (ks_d ?ks) @ [(key, data)],
                               ks_t := AList.update key (io_now io) (if map_of (ks_d ?ks) key \<noteq> None then AList.delete key (ks_t ?ks) else ks_t ?ks),
                               ks_used := ?after\<rparr>;
                      (ks2, said) = fill_transition (lm_budget L) ks1
                  in (bump_version (set_kind kind ks2 (s\<lparr>st_disk := Some k1\<rparr>)), Inr (), said))))"
      using 4 unfolding deposit_def Let_def by auto
    show thesis
    proof (cases "st_disk s")
      case None
      then show thesis using unchanged assms unfolding go by auto
    next
      case (Some k)
      show thesis
      proof (cases "io_err io")
        case e: (Some e)
        then have "s1 = s\<lparr>st_disk := Some (k\<lparr>dk_seq := dk_seq k + 1\<rparr>)\<rparr>" "r = Inl (DiskError e)"
          using assms Some unfolding go by (simp_all add: disk_write_def next_seq_def Let_def)
        then show thesis using unchanged [of k] Some by auto
      next
        case e: None
        then show thesis using written [of k ?after] 4 Some assms unfolding go
          by (auto simp: disk_write_def next_seq_def Let_def bump_version_def set_kind_def fill_transition_kind get_entry_def
              split: prod.splits dest!: arg_cong [where f = fst])
      qed
    qed
  qed
qed

lemma deposit_kind_ok:
  assumes "deposit H L io kind key data s = (s1, r, said)" "kind_ok (st_kinds s kind)"
  shows "kind_ok (st_kinds s1 kind)"
  using assms(1)
proof (cases rule: deposit_cases)
  case (written k after)
  let ?ks = "st_kinds s kind"
  have ok: "wf_dict (ks_d ?ks)" "map fst (ks_t ?ks) = map fst (ks_d ?ks)" "ks_used ?ks = entry_costs (ks_d ?ks)"
    using assms(2) by (simp_all add: kind_ok_def)
  have keys: "fst ` set (ks_t ?ks) = fst ` set (ks_d ?ks)" using ok(2) by (metis set_map)
  have gone: "key \<notin> fst ` set (if get_entry s kind key \<noteq> None then AList.delete key (ks_t ?ks) else ks_t ?ks)"
    using keys by (simp add: get_entry_def map_of_eq_None_iff keys_delete)
  have t: "ks_t (st_kinds s1 kind) = AList.delete key (ks_t ?ks) @ [(key, io_now io)]"
  proof (cases "get_entry s kind key = None")
    case True
    then have "key \<notin> fst ` set (ks_t ?ks)" using keys by (simp add: get_entry_def map_of_eq_None_iff)
    then show ?thesis using written(10) True by (simp add: update_new delete_not_in)
  next
    case False
    then show ?thesis using written(10) by (simp add: update_new keys_delete)
  qed
  show ?thesis
    using ok written(4,9,11) t
    by (auto simp: kind_ok_def map_fst_delete wf_dict_def entry_costs_delete stored_cost_def distinct_map_filter)
qed (use assms in auto)

section \<open>The disk mirrors the hot copy\<close>

text \<open>
  For one kind at time \<open>now\<close>, after writes at nanosecond \<open>ns\<close> at the latest: every entry has its record on the disk,
  the ranks follow the order of the entries, and any other readable record is past the retention. \<open>K\<close> holds the keys in use.
\<close>

definition live_record :: "host \<Rightarrow> string \<Rightarrow> kind_store \<Rightarrow> (string, disk_file) dict \<Rightarrow> (string \<Rightarrow> int) \<Rightarrow> string \<Rightarrow> bool" where
  "live_record H kind ks files rank key \<longleftrightarrow> (\<exists>v ts. map_of (ks_d ks) key = Some v \<and> map_of (ks_t ks) key = Some ts \<and> ts > 0
     \<and> map_of files (fname H kind key) = Some (Rec \<lparr>dr_key = key, dr_rank = rank key, dr_time = Some ts, dr_data = v\<rparr>))"

definition mirrored :: "host \<Rightarrow> rat \<Rightarrow> rat \<Rightarrow> int \<Rightarrow> string set \<Rightarrow> string \<Rightarrow> kind_store \<Rightarrow> (string, disk_file) dict \<Rightarrow> (string \<Rightarrow> int) \<Rightarrow> bool" where
  "mirrored H R now ns K kind ks files rank \<longleftrightarrow> wf_dict files \<and> fst ` set (ks_d ks) \<subseteq> K
     \<and> (\<forall>key \<in> fst ` set (ks_d ks). live_record H kind ks files rank key \<and> rank key < (ns + 1) * 1000)
     \<and> sorted_wrt (<) (map (rank \<circ> fst) (ks_d ks))
     \<and> (\<forall>name r. (name, Rec r) \<in> set files \<longrightarrow> (dr_key r \<in> fst ` set (ks_d ks) \<and> name = fname H kind (dr_key r)) \<or> now - rec_time r > R)"

lemma mirroredD:
  assumes "mirrored H R now ns K kind ks files rank"
  shows "wf_dict files" "fst ` set (ks_d ks) \<subseteq> K" "\<And>key. key \<in> fst ` set (ks_d ks) \<Longrightarrow> live_record H kind ks files rank key"
    "\<And>key. key \<in> fst ` set (ks_d ks) \<Longrightarrow> rank key < (ns + 1) * 1000" "sorted_wrt (<) (map (rank \<circ> fst) (ks_d ks))"
    "\<And>name r. (name, Rec r) \<in> set files \<Longrightarrow> (dr_key r \<in> fst ` set (ks_d ks) \<and> name = fname H kind (dr_key r)) \<or> now - rec_time r > R"
  using assms unfolding mirrored_def by blast+

lemma mirrored_later:
  assumes "mirrored H R now ns K kind ks files rank" "now \<le> now'" "ns \<le> ns'"
  shows "mirrored H R now' ns' K kind ks files rank"
  unfolding mirrored_def
proof (intro conjI ballI allI impI)
  fix key assume "key \<in> fst ` set (ks_d ks)"
  then show "live_record H kind ks files rank key" "rank key < (ns' + 1) * 1000"
    using mirroredD(3,4) [OF assms(1)] assms(3) by fastforce+
next
  fix name r assume "(name, Rec r) \<in> set files"
  from mirroredD(6) [OF assms(1) this] show "(dr_key r \<in> fst ` set (ks_d ks) \<and> name = fname H kind (dr_key r)) \<or> now' - rec_time r > R"
    using assms(2) by auto
qed (use mirroredD(1,2,5) [OF assms(1)] in auto)

text \<open>Dropping entries past the retention keeps the mirror, even before their files are removed.\<close>

lemma map_of_drop_distinct:
  assumes "distinct (map fst d)" "key \<in> fst ` set (drop n d)"
  shows "map_of (drop n d) key = map_of d key"
proof -
  have "key \<notin> fst ` set (take n d)"
    using assms by (metis IntI append_take_drop_id distinct_append empty_iff map_append set_map)
  then have "map_of (take n d) key = None" by (simp add: map_of_eq_None_iff)
  then have "map_of (take n d @ drop n d) key = map_of (drop n d) key" unfolding map_of_append map_add_def by simp
  then show ?thesis by simp
qed

lemma mirrored_evict:
  assumes m: "mirrored H R now ns K kind ks files rank" and ok: "kind_ok ks"
    and d: "ks_d ks' = drop n (ks_d ks)" "ks_t ks' = drop n (ks_t ks)" and old: "\<forall>x \<in> set (take n (ks_t ks)). now - snd x > R"
  shows "mirrored H R now ns K kind ks' files rank"
  unfolding mirrored_def
proof (intro conjI ballI allI impI)
  have dist: "distinct (map fst (ks_d ks))" "distinct (map fst (ks_t ks))" "map fst (ks_t ks) = map fst (ks_d ks)"
    using ok by (auto simp: kind_ok_def wf_dict_def)
  have sub: "fst ` set (ks_d ks') \<subseteq> fst ` set (ks_d ks)" unfolding d(1) using set_drop_subset [of n "ks_d ks"] by blast
  show "wf_dict files" by (rule mirroredD(1) [OF m])
  show "fst ` set (ks_d ks') \<subseteq> K" using sub mirroredD(2) [OF m] by blast
  show "sorted_wrt (<) (map (rank \<circ> fst) (ks_d ks'))"
    using mirroredD(5) [OF m] unfolding d(1) drop_map [symmetric] by (rule sorted_wrt_drop)
  fix key assume k: "key \<in> fst ` set (ks_d ks')"
  then show "rank key < (ns + 1) * 1000" using sub mirroredD(4) [OF m] by blast
  have "key \<in> fst ` set (drop n (ks_t ks))" using k dist(3) unfolding d(1) by (metis drop_map set_map)
  then have "map_of (ks_d ks') key = map_of (ks_d ks) key" "map_of (ks_t ks') key = map_of (ks_t ks) key"
    using map_of_drop_distinct dist k unfolding d by metis+
  then show "live_record H kind ks' files rank key" using mirroredD(3) [OF m subsetD [OF sub k]] unfolding live_record_def by simp
next
  fix name r assume f: "(name, Rec r) \<in> set files"
  have dist: "distinct (map fst (ks_d ks))" "distinct (map fst (ks_t ks))" "map fst (ks_t ks) = map fst (ks_d ks)"
    using ok by (auto simp: kind_ok_def wf_dict_def)
  show "(dr_key r \<in> fst ` set (ks_d ks') \<and> name = fname H kind (dr_key r)) \<or> now - rec_time r > R"
  proof (cases "dr_key r \<in> fst ` set (ks_d ks) \<and> name = fname H kind (dr_key r) \<and> dr_key r \<notin> fst ` set (ks_d ks')")
    case True
    let ?key = "dr_key r"
    obtain v ts where l: "map_of (ks_t ks) ?key = Some ts" "ts > 0"
        "map_of files (fname H kind ?key) = Some (Rec \<lparr>dr_key = ?key, dr_rank = rank ?key, dr_time = Some ts, dr_data = v\<rparr>)"
      using mirroredD(3) [OF m, of ?key] True unfolding live_record_def by blast
    have "map_of files name = Some (Rec r)" using f mirroredD(1) [OF m] by (simp add: wf_dict_map_of_iff)
    then have "rec_time r = ts" using l True by (auto simp: rec_time_def)
    moreover have "(?key, ts) \<in> set (ks_t ks)" using l(1) by (rule map_of_SomeD)
    moreover have "?key \<notin> fst ` set (drop n (ks_t ks))" using True dist(3) unfolding d(1) by (metis drop_map set_map)
    ultimately have "(?key, ts) \<in> set (take n (ks_t ks))" by (metis Un_iff append_take_drop_id fst_conv imageI set_append)
    then show ?thesis using old \<open>rec_time r = ts\<close> by force
  next
    case False
    then show ?thesis using mirroredD(6) [OF m f] by blast
  qed
qed

lemma fname_differs:
  assumes "inj_on (fname H kind) K" "x \<in> K" "y \<in> K" "x \<noteq> y"
  shows "fname H kind x \<noteq> fname H kind y"
  using assms by (auto dest: inj_onD)

lemma mirrored_remove:
  assumes m: "mirrored H R now ns K kind ks files rank" and x: "x \<in> K" "x \<notin> fst ` set (ks_d ks)" and inj: "inj_on (fname H kind) K"
  shows "mirrored H R now ns K kind ks (AList.delete (fname H kind x) files) rank"
  unfolding mirrored_def
proof (intro conjI ballI allI impI)
  fix key assume k: "key \<in> fst ` set (ks_d ks)"
  then have "fname H kind key \<noteq> fname H kind x" using fname_differs [OF inj _ x(1)] x(2) mirroredD(2) [OF m] by blast
  then show "live_record H kind ks (AList.delete (fname H kind x) files) rank key"
    using mirroredD(3) [OF m k] unfolding live_record_def by (simp add: map_of_delete)
  show "rank key < (ns + 1) * 1000" by (rule mirroredD(4) [OF m k])
next
  fix name r assume "(name, Rec r) \<in> set (AList.delete (fname H kind x) files)"
  then have "(name, Rec r) \<in> set files" by (auto simp: AList.delete_eq)
  then show "(dr_key r \<in> fst ` set (ks_d ks) \<and> name = fname H kind (dr_key r)) \<or> now - rec_time r > R" by (rule mirroredD(6) [OF m])
qed (use mirroredD(1,2,5) [OF m] in auto)

lemma mirrored_write:
  assumes m: "mirrored H R now ns K kind ks files rank" and key: "key \<in> K" and inj: "inj_on (fname H kind) K" and wf: "wf_dict (ks_d ks)"
    and d: "ks_d ks' = AList.delete key (ks_d ks) @ [(key, data)]" and t: "map_of (ks_t ks') = (map_of (ks_t ks))(key \<mapsto> ts)"
    and n: "(ns + 1) * 1000 \<le> n" "n < (ns' + 1) * 1000" and ts: "0 < ts"
  shows "mirrored H R now ns' K kind ks'
    (AList.update (fname H kind key) (Rec \<lparr>dr_key = key, dr_rank = n, dr_time = Some ts, dr_data = data\<rparr>) files) (rank(key := n))"
    (is "mirrored _ _ _ _ _ _ _ ?files ?rank")
  unfolding mirrored_def
proof (intro conjI ballI allI impI)
  let ?f = "fname H kind key" and ?r = "Rec \<lparr>dr_key = key, dr_rank = n, dr_time = Some ts, dr_data = data\<rparr>"
  have keys: "fst ` set (ks_d ks') = insert key (fst ` set (ks_d ks))" unfolding d by (auto simp: keys_delete)
  have mo: "map_of (ks_d ks') x = (if x = key then Some data else map_of (ks_d ks) x)" for x
    unfolding d by (cases "map_of (ks_d ks) x") (auto simp: map_add_def map_of_delete)
  show "wf_dict ?files" using mirroredD(1) [OF m] by simp
  show "fst ` set (ks_d ks') \<subseteq> K" using keys key mirroredD(2) [OF m] by simp
  show "sorted_wrt (<) (map (?rank \<circ> fst) (ks_d ks'))"
  proof -
    have e: "map (?rank \<circ> fst) (AList.delete key (ks_d ks)) = map (rank \<circ> fst) (AList.delete key (ks_d ks))"
      by (rule map_cong) (auto simp: AList.delete_eq)
    have "sorted_wrt (<) (map rank (filter (\<lambda>x. x \<noteq> key) (map fst (ks_d ks))))"
      using mirroredD(5) [OF m] by (simp add: sorted_wrt_map sorted_wrt_filter)
    then have "sorted_wrt (<) (map (rank \<circ> fst) (AList.delete key (ks_d ks)))" by (simp add: map_fst_delete [symmetric])
    moreover have "\<forall>x \<in> fst ` set (AList.delete key (ks_d ks)). rank x < n"
    proof
      fix x assume "x \<in> fst ` set (AList.delete key (ks_d ks))"
      then have "x \<in> fst ` set (ks_d ks)" by (simp add: keys_delete)
      from mirroredD(4) [OF m this] n(1) show "rank x < n" by linarith
    qed
    ultimately show ?thesis unfolding d map_append e by (auto simp: sorted_wrt_append)
  qed
  fix x assume x: "x \<in> fst ` set (ks_d ks')"
  show "?rank x < (ns' + 1) * 1000"
  proof (cases "x = key")
    case False
    then have "x \<in> fst ` set (ks_d ks)" using x keys by blast
    from mirroredD(4) [OF m this] n False show ?thesis by simp
  qed (use n in simp)
  show "live_record H kind ks' ?files ?rank x"
  proof (cases "x = key")
    case False
    then have xk: "x \<in> fst ` set (ks_d ks)" using x keys by blast
    then have "fname H kind x \<noteq> ?f" using fname_differs [OF inj _ key False] mirroredD(2) [OF m] by blast
    then show ?thesis using mirroredD(3) [OF m xk] False unfolding live_record_def by (simp add: mo t map_of_update)
  qed (use ts in \<open>simp add: live_record_def mo t map_of_update\<close>)
next
  fix name r assume "(name, Rec r) \<in> set (AList.update (fname H kind key) (Rec \<lparr>dr_key = key, dr_rank = n, dr_time = Some ts, dr_data = data\<rparr>) files)"
  then have "(name, Rec r) = (fname H kind key, Rec \<lparr>dr_key = key, dr_rank = n, dr_time = Some ts, dr_data = data\<rparr>) \<or> (name, Rec r) \<in> set files"
    using set_update_subset by fast
  moreover have "fst ` set (ks_d ks') = insert key (fst ` set (ks_d ks))" unfolding d by (auto simp: keys_delete)
  ultimately show "(dr_key r \<in> fst ` set (ks_d ks') \<and> name = fname H kind (dr_key r)) \<or> now - rec_time r > R"
    using mirroredD(6) [OF m, of name r] by auto
qed

text \<open>The whole store, and one call of \<open>_put\<close>.\<close>

definition store_mirrored :: "host \<Rightarrow> rat \<Rightarrow> rat \<Rightarrow> int \<Rightarrow> (string \<Rightarrow> string set) \<Rightarrow> store \<Rightarrow> bool" where
  "store_mirrored H R now ns K s \<longleftrightarrow> (\<exists>k. st_disk s = Some k \<and> (\<forall>kind. kind_ok (st_kinds s kind)
     \<and> (\<exists>rank. mirrored H R now ns (K kind) kind (st_kinds s kind) (dk_files k kind) rank)))"

lemma remove_keys_mirrored:
  assumes "store_mirrored H R now ns K s" "set xs \<subseteq> K kind" "set xs \<inter> fst ` set (ks_d (st_kinds s kind)) = {}" "inj_on (fname H kind) (K kind)"
  shows "store_mirrored H R now ns K (foldl (\<lambda>s k. remove_key H (ok k) kind k s) s xs)
    \<and> st_kinds (foldl (\<lambda>s k. remove_key H (ok k) kind k s) s xs) = st_kinds s"
  using assms
proof (induction xs arbitrary: s)
  case (Cons x xs)
  obtain k where k: "st_disk s = Some k" "\<forall>kind. kind_ok (st_kinds s kind)
     \<and> (\<exists>rank. mirrored H R now ns (K kind) kind (st_kinds s kind) (dk_files k kind) rank)" using Cons.prems(1) unfolding store_mirrored_def by blast
  let ?s = "remove_key H (ok x) kind x s"
  have x: "x \<in> K kind" "x \<notin> fst ` set (ks_d (st_kinds s kind))" using Cons.prems(2,3) by auto
  have "\<exists>rank. mirrored H R now ns (K c) c (st_kinds s c) (dk_files (disk_remove H (ok x) kind x k) c) rank" for c
  proof -
    obtain rank where "mirrored H R now ns (K c) c (st_kinds s c) (dk_files k c) rank" using k(2) by blast
    then have "mirrored H R now ns (K c) c (st_kinds s c) (dk_files (disk_remove H (ok x) kind x k) c) rank"
      using mirrored_remove [OF _ x Cons.prems(4)] by (cases "c = kind") (simp_all add: disk_remove_def)
    then show ?thesis by blast
  qed
  then have "store_mirrored H R now ns K ?s" using k unfolding store_mirrored_def by (simp add: remove_key_def)
  moreover have "st_kinds ?s = st_kinds s" by (simp add: remove_key_def)
  ultimately show ?case using Cons.IH [of ?s] Cons.prems by simp
qed simp

lemma put_mirrored:
  assumes inv: "store_mirrored H (lm_retention L) now ns K s" and later: "now \<le> io_now io" "ns < io_ns io" "0 < io_now io"
    and key: "key \<in> K kind" and inj: "inj_on (fname H kind) (K kind)"
  shows "store_mirrored H (lm_retention L) (io_now io) (io_ns io) K (fst (put H L io kind key data s))"
proof -
  let ?R = "lm_retention L" and ?now = "io_now io" and ?ns = "io_ns io"
  obtain s1 ev said where e: "evict_section L ?now kind s = (s1, ev, said)" by (rule prod_cases3)
  let ?s2 = "foldl (\<lambda>s k. remove_key H (io_remove io k) kind k s) s1 ev"
  obtain s3 r said2 where dep: "deposit H L io kind key data ?s2 = (s3, r, said2)" by (rule prod_cases3)
  obtain k where k: "st_disk s = Some k" and all: "\<And>c. kind_ok (st_kinds s c)"
      "\<And>c. \<exists>rank. mirrored H ?R now ns (K c) c (st_kinds s c) (dk_files k c) rank" using inv unfolding store_mirrored_def by blast
  have p: "fst (put H L io kind key data s) = s3" using e dep k by (simp add: put_def)
  from e all(1) show ?thesis
  proof (rule evict_section_effect)
    fix n assume E: "ks_d (st_kinds s1 kind) = drop n (ks_d (st_kinds s kind))" "ks_t (st_kinds s1 kind) = drop n (ks_t (st_kinds s kind))"
      "ev = map fst (take n (ks_d (st_kinds s kind)))" "\<forall>x \<in> set (take n (ks_t (st_kinds s kind))). ?now - snd x > ?R"
      "kind_ok (st_kinds s1 kind)" "\<And>c. c \<noteq> kind \<Longrightarrow> st_kinds s1 c = st_kinds s c" "st_disk s1 = st_disk s"
    have "\<exists>rank. mirrored H ?R ?now ns (K c) c (st_kinds s1 c) (dk_files k c) rank" for c
    proof -
      obtain rank where "mirrored H ?R now ns (K c) c (st_kinds s c) (dk_files k c) rank" using all(2) by blast
      then have "mirrored H ?R ?now ns (K c) c (st_kinds s c) (dk_files k c) rank" using mirrored_later [OF _ later(1) order_refl] by blast
      then have "mirrored H ?R ?now ns (K c) c (st_kinds s1 c) (dk_files k c) rank"
      proof (cases "c = kind")
        case True
        assume "mirrored H ?R ?now ns (K c) c (st_kinds s c) (dk_files k c) rank"
        from mirrored_evict [OF this [unfolded True] all(1) E(1,2,4)] show ?thesis unfolding True .
      qed (simp add: E(6))
      then show ?thesis by blast
    qed
    moreover have "kind_ok (st_kinds s1 c)" for c using E(5,6) all(1) by (cases "c = kind") simp_all
    ultimately have m1: "store_mirrored H ?R ?now ns K s1" using E(7) k unfolding store_mirrored_def by simp
    have dist: "distinct (map fst (ks_d (st_kinds s kind)))" using all(1) [of kind] by (simp add: kind_ok_def wf_dict_def)
    have "set ev \<inter> fst ` set (ks_d (st_kinds s1 kind)) = {}"
    proof -
      have "distinct (map fst (take n (ks_d (st_kinds s kind)) @ drop n (ks_d (st_kinds s kind))))" using dist by simp
      then show ?thesis unfolding E(1,3) map_append distinct_append set_map by blast
    qed
    moreover have "set ev \<subseteq> K kind"
    proof -
      obtain rank where "mirrored H ?R now ns (K kind) kind (st_kinds s kind) (dk_files k kind) rank" using all(2) by blast
      from mirroredD(2) [OF this] show ?thesis unfolding E(3) set_map using set_take_subset [of n "ks_d (st_kinds s kind)"] by blast
    qed
    ultimately have m2: "store_mirrored H ?R ?now ns K ?s2" using remove_keys_mirrored [OF m1 _ _ inj, of ev] by (simp only: )
    obtain k2 where k2: "st_disk ?s2 = Some k2" and A: "\<And>c. kind_ok (st_kinds ?s2 c)"
      "\<And>c. \<exists>rank. mirrored H ?R ?now ns (K c) c (st_kinds ?s2 c) (dk_files k2 c) rank" using m2 unfolding store_mirrored_def by blast
    have later_all: "\<exists>rank. mirrored H ?R ?now ?ns (K c) c (st_kinds ?s2 c) (dk_files k2 c) rank" for c
    proof -
      obtain rank where "mirrored H ?R ?now ns (K c) c (st_kinds ?s2 c) (dk_files k2 c) rank" using A(2) by blast
      from mirrored_later [OF this order_refl less_imp_le [OF later(2)]] show ?thesis by blast
    qed
    from dep show ?thesis
    proof (cases rule: deposit_cases)
      case (unchanged k')
      then obtain q where "st_disk s3 = Some (k2\<lparr>dk_seq := q\<rparr>)" using k2 by auto
      then show ?thesis using unchanged(1) A(1) later_all unfolding p store_mirrored_def by simp
    next
      case (written k' after)
      have "k' = k2" using written(3) k2 by simp
      let ?n = "?ns * 1000 + (dk_seq k2 + 1) mod 1000"
      have tt: "map_of (ks_t (st_kinds s3 kind)) = (map_of (ks_t (st_kinds ?s2 kind)))(key \<mapsto> ?now)"
        using written(10) by (auto simp: map_of_update map_of_delete)
      have n: "(ns + 1) * 1000 \<le> ?n" "?n < (?ns + 1) * 1000"
      proof -
        have "0 \<le> (dk_seq k2 + 1) mod 1000" "(dk_seq k2 + 1) mod 1000 < 1000" by simp_all
        moreover have "(ns + 1) * 1000 \<le> ?ns * 1000" using later(2) by simp
        ultimately show "(ns + 1) * 1000 \<le> ?n" "?n < (?ns + 1) * 1000" by (simp_all add: distrib_right)
      qed
      have "\<exists>rank. mirrored H ?R ?now ?ns (K c) c (st_kinds s3 c) (dk_files (the (st_disk s3)) c) rank" for c
      proof (cases "c = kind")
        case True
        obtain rank where "mirrored H ?R ?now ns (K kind) kind (st_kinds ?s2 kind) (dk_files k2 kind) rank" using A(2) by blast
        from mirrored_write [OF this key inj _ written(9) tt n later(3)] A(1) [of kind] show ?thesis
          using written(6) \<open>k' = k2\<close> True by (auto simp: set_file_def kind_ok_def)
      next
        case False
        then show ?thesis using later_all [of c] written(6,7) \<open>k' = k2\<close> by (simp add: set_file_def)
      qed
      moreover have "kind_ok (st_kinds s3 c)" for c using deposit_kind_ok [OF dep] A(1) written(7) by (cases "c = kind") simp_all
      ultimately show ?thesis using written(6) unfolding p store_mirrored_def by simp
    qed
  qed
qed

section \<open>Reloading\<close>

definition entry_item :: "kind_store \<Rightarrow> (string \<Rightarrow> int) \<Rightarrow> string \<times> string \<Rightarrow> item" where
  "entry_item ks rank kv = (fst kv, snd kv, rank (fst kv), the (map_of (ks_t ks) (fst kv)))"

definition young :: "rat \<Rightarrow> rat \<Rightarrow> kind_store \<Rightarrow> string \<times> 'a \<Rightarrow> bool" where
  "young R now ks kv \<longleftrightarrow> now - the (map_of (ks_t ks) (fst kv)) \<le> R"

lemma ends_with_fname [simp]: "ends_with REC_SUFFIX (fname H kind key)"
  by (simp add: ends_with_def fname_def)

lemma sort_key_of_distinct:
  assumes "distinct xs" "distinct ys" "set xs = set ys" "sorted_wrt (<) (map f ys)"
  shows "sort_key f xs = ys"
proof -
  have "mset xs = mset ys" using assms(1-3) by (simp add: set_eq_iff_mset_eq_distinct)
  moreover have "distinct (map f ys)" "sorted (map f ys)" using assms(4) strict_sorted_iff by blast+
  moreover from this have "inj_on f (set xs)" using assms(3) by (simp add: distinct_map)
  ultimately show ?thesis using sort_key_inj_key_eq by blast
qed

definition readable_items :: "string \<Rightarrow> disk \<Rightarrow> item list" where
  "readable_items kind k = map the (filter (\<lambda>x. x \<noteq> None) (map read_file (record_files kind k)))"

lemma readable_items_set: "it \<in> set (readable_items kind k) \<longleftrightarrow> (\<exists>name r. (name, Rec r) \<in> set (dk_files k kind)
    \<and> ends_with REC_SUFFIX name \<and> it = (dr_key r, dr_data r, dr_rank r, rec_time r))"
proof
  assume "it \<in> set (readable_items kind k)"
  then obtain nf where nf: "nf \<in> set (record_files kind k)" "read_file nf = Some it" by (auto simp: readable_items_def)
  obtain name f where e: "nf = (name, f)" by (cases nf)
  then obtain r where "f = Rec r" "it = (dr_key r, dr_data r, dr_rank r, rec_time r)"
    using nf(2) by (cases f) (auto simp: read_file_def)
  then show "\<exists>name r. (name, Rec r) \<in> set (dk_files k kind) \<and> ends_with REC_SUFFIX name \<and> it = (dr_key r, dr_data r, dr_rank r, rec_time r)"
    using nf(1) e by (auto simp: record_files_def)
next
  assume "\<exists>name r. (name, Rec r) \<in> set (dk_files k kind) \<and> ends_with REC_SUFFIX name \<and> it = (dr_key r, dr_data r, dr_rank r, rec_time r)"
  then obtain name r where "(name, Rec r) \<in> set (record_files kind k)" "it = (dr_key r, dr_data r, dr_rank r, rec_time r)"
    by (auto simp: record_files_def)
  moreover from this have "read_file (name, Rec r) = Some it" by (simp add: read_file_def)
  ultimately have "Some it \<in> set (map read_file (record_files kind k))" using imageI [of "(name, Rec r)" "set (record_files kind k)" read_file] by simp
  then have "Some it \<in> set (filter (\<lambda>x. x \<noteq> None) (map read_file (record_files kind k)))" by (cases it) simp
  from imageI [OF this, of the] show "it \<in> set (readable_items kind k)" unfolding readable_items_def by simp
qed

lemma load_kind_items:
  assumes "R > 0"
  shows "fst (snd (load_kind H ok R now kind k)) = sort_key item_rank (filter (\<lambda>it. \<not> now - item_time it > R) (readable_items kind k))"
  using assms by (simp add: load_kind_def readable_items_def Let_def)

text \<open>The items that survive the age check are the young entries of the hot copy.\<close>

lemma surviving_items:
  assumes m: "mirrored H R now ns K kind ks (dk_files k kind) rank" and ok: "kind_ok ks" and now': "now \<le> now'"
  shows "set (filter (\<lambda>it. \<not> now' - item_time it > R) (readable_items kind k)) = entry_item ks rank ` {kv \<in> set (ks_d ks). young R now' ks kv}"
    (is "?A = ?B")
proof
  have wf: "wf_dict (ks_d ks)" "wf_dict (dk_files k kind)" using ok mirroredD(1) [OF m] by (simp_all add: kind_ok_def)
  show "?A \<subseteq> ?B"
  proof
    fix it assume "it \<in> ?A"
    then obtain name r where r: "(name, Rec r) \<in> set (dk_files k kind)" "it = (dr_key r, dr_data r, dr_rank r, rec_time r)" "\<not> now' - rec_time r > R"
      by (auto simp: readable_items_set item_time_def)
    then have l: "dr_key r \<in> fst ` set (ks_d ks)" "name = fname H kind (dr_key r)" using mirroredD(6) [OF m r(1)] now' by auto
    have f: "map_of (dk_files k kind) name = Some (Rec r)" using r(1) wf(2) by (simp add: wf_dict_map_of_iff)
    obtain v ts where vt: "map_of (ks_d ks) (dr_key r) = Some v" "map_of (ks_t ks) (dr_key r) = Some ts" "ts > 0"
        "map_of (dk_files k kind) (fname H kind (dr_key r)) = Some (Rec \<lparr>dr_key = dr_key r, dr_rank = rank (dr_key r), dr_time = Some ts, dr_data = v\<rparr>)"
      using mirroredD(3) [OF m l(1)] unfolding live_record_def by blast
    have "Rec r = Rec \<lparr>dr_key = dr_key r, dr_rank = rank (dr_key r), dr_time = Some ts, dr_data = v\<rparr>" using vt(4) f l(2) by simp
    then have req: "dr_rank r = rank (dr_key r)" "dr_time r = Some ts" "dr_data r = v" by (metis disk_file.inject disk_rec.select_convs)+
    then have rt: "rec_time r = ts" using vt(3) by (simp add: rec_time_def)
    have "(dr_key r, v) \<in> {kv \<in> set (ks_d ks). young R now' ks kv}" using vt(1,2) r(3) rt by (simp add: young_def map_of_SomeD)
    moreover have "it = entry_item ks rank (dr_key r, v)" using r(2) vt(2) rt req by (simp add: entry_item_def)
    ultimately show "it \<in> ?B" by blast
  qed
  show "?B \<subseteq> ?A"
  proof
    fix it assume "it \<in> ?B"
    then obtain key v where kv: "(key, v) \<in> set (ks_d ks)" "young R now' ks (key, v)" "it = entry_item ks rank (key, v)" by auto
    then have "key \<in> fst ` set (ks_d ks)" by force
    then obtain v' ts where l: "map_of (ks_d ks) key = Some v'" "map_of (ks_t ks) key = Some ts" "ts > 0"
        "map_of (dk_files k kind) (fname H kind key) = Some (Rec \<lparr>dr_key = key, dr_rank = rank key, dr_time = Some ts, dr_data = v'\<rparr>)"
      using mirroredD(3) [OF m] unfolding live_record_def by blast
    have "v' = v" using l(1) kv(1) wf(1) by (simp add: wf_dict_map_of_iff [symmetric])
    then have "it = (key, v', rank key, rec_time \<lparr>dr_key = key, dr_rank = rank key, dr_time = Some ts, dr_data = v'\<rparr>)"
      using l(2,3) kv(3) by (simp add: entry_item_def rec_time_def)
    then have "it \<in> set (readable_items kind k)"
      unfolding readable_items_set using map_of_SomeD [OF l(4)] ends_with_fname by (metis disk_rec.select_convs(1,2,4))
    moreover have "\<not> now' - item_time it > R" using kv(2,3) by (simp add: young_def entry_item_def item_time_def)
    ultimately show "it \<in> ?A" by simp
  qed
qed

lemma readable_keys_distinct:
  assumes m: "mirrored H R now ns K kind ks (dk_files k kind) rank" and now': "now \<le> now'"
  shows "distinct (filter (\<lambda>it. \<not> now' - item_time it > R) (readable_items kind k))"
proof -
  let ?live = "\<lambda>nf. \<exists>it. read_file nf = Some it \<and> \<not> now' - item_time it > R"
  let ?fs = "filter ?live (record_files kind k)"
  have gen: "filter (\<lambda>it. \<not> now' - item_time it > R) (map the (filter (\<lambda>x. x \<noteq> None) (map read_file fs))) = map (the \<circ> read_file) (filter ?live fs)" for fs
    by (induction fs) auto
  have "inj_on (the \<circ> read_file) (set ?fs)"
  proof (rule inj_onI)
    fix x y assume xy: "x \<in> set ?fs" "y \<in> set ?fs" "(the \<circ> read_file) x = (the \<circ> read_file) y"
    have name: "fst z = fname H kind (fst (the (read_file z)))" if zs: "z \<in> set ?fs" for z
    proof -
      obtain n f where z: "z = (n, f)" by (cases z)
      then obtain r where r: "f = Rec r" "\<not> now' - rec_time r > R" "(n, Rec r) \<in> set (dk_files k kind)"
        using zs by (cases f) (auto simp: read_file_def record_files_def item_time_def)
      then have "n = fname H kind (dr_key r)" using mirroredD(6) [OF m r(3)] now' by auto
      then show ?thesis by (simp add: z r(1) read_file_def)
    qed
    have "fst x = fst y" using name [OF xy(1)] name [OF xy(2)] xy(3) by simp
    moreover have "x \<in> set (dk_files k kind)" "y \<in> set (dk_files k kind)" using xy(1,2) by (auto simp: record_files_def)
    ultimately show "x = y" using mirroredD(1) [OF m] by (metis (no_types, lifting) option.inject prod.collapse wf_dict_map_of_iff)
  qed
  moreover have "distinct ?fs" using mirroredD(1) [OF m] by (auto simp: record_files_def wf_dict_def distinct_map)
  ultimately show ?thesis unfolding readable_items_def gen by (simp add: distinct_map)
qed

lemma load_kind_mirrored:
  assumes m: "mirrored H R now ns K kind ks (dk_files k kind) rank" and ok: "kind_ok ks" and now': "now \<le> now'" and R: "R > 0"
  shows "fst (snd (load_kind H b R now' kind k)) = map (entry_item ks rank) (filter (young R now' ks) (ks_d ks))"
  unfolding load_kind_items [OF R]
proof (rule sort_key_of_distinct [OF readable_keys_distinct [OF m now']])
  let ?d = "filter (young R now' ks) (ks_d ks)"
  have "distinct (map fst (ks_d ks))" using ok by (simp add: kind_ok_def wf_dict_def)
  then have "inj_on fst (set (ks_d ks))" "distinct (ks_d ks)" by (simp_all add: distinct_map)
  then show "distinct (map (entry_item ks rank) ?d)"
    by (auto simp: distinct_map entry_item_def intro!: inj_onI dest: inj_onD)
  show "set (filter (\<lambda>it. \<not> now' - item_time it > R) (readable_items kind k)) = set (map (entry_item ks rank) ?d)"
    unfolding surviving_items [OF m ok now'] by auto
  have eq: "map item_rank (map (entry_item ks rank) ?d) = map (rank \<circ> fst) ?d" by (simp add: entry_item_def item_rank_def)
  show "sorted_wrt (<) (map item_rank (map (entry_item ks rank) ?d))"
    unfolding eq using mirroredD(5) [OF m] by (simp add: sorted_wrt_map sorted_wrt_filter)
qed

lemma boot_items:
  assumes "wf_dict d" "fst ` set d \<inter> fst ` set (ks_d ks0) = {}" "map fst (ks_t ks0) = map fst (ks_d ks0)"
  shows "foldl boot_item ks0 (map (entry_item ks rank) d)
    = ks0\<lparr>ks_d := ks_d ks0 @ d, ks_t := ks_t ks0 @ map (\<lambda>kv. (fst kv, the (map_of (ks_t ks) (fst kv)))) d, ks_used := ks_used ks0 + entry_costs d\<rparr>"
  using assms
proof (induction d arbitrary: ks0)
  case (Cons kv d)
  obtain key v where kv: "kv = (key, v)" by (cases kv)
  let ?k1 = "ks0\<lparr>ks_d := ks_d ks0 @ [(key, v)], ks_t := ks_t ks0 @ [(key, the (map_of (ks_t ks) key))], ks_used := ks_used ks0 + cost key v\<rparr>"
  have fresh: "key \<notin> fst ` set (ks_d ks0)" "key \<notin> fst ` set (ks_t ks0)" using Cons.prems(2,3) by (auto simp: kv) (metis fst_conv image_eqI set_map)
  then have "map_of (ks_d ks0) key = None" by (simp add: map_of_eq_None_iff)
  then have "boot_item ks0 (entry_item ks rank kv) = ?k1" using fresh by (simp add: boot_item_def entry_item_def kv update_new)
  moreover have "fst ` set d \<inter> fst ` set (ks_d ?k1) = {}" using Cons.prems(1,2) by (auto simp: kv wf_dict_def)
  ultimately show ?case using Cons.IH [of ?k1] Cons.prems(3) wf_dict_ConsD [OF Cons.prems(1)] by (simp add: kv add.assoc)
qed simp

lemma disk_remove_other: "c \<noteq> kind \<Longrightarrow> dk_files (disk_remove H ok kind x k) c = dk_files k c"
  by (simp add: disk_remove_def)

lemma load_kind_other:
  assumes "c \<noteq> kind"
  shows "dk_files (fst (load_kind H ok R now kind k)) c = dk_files k c"
proof -
  have "dk_files (foldl (\<lambda>k it. disk_remove H ok kind (fst it) k) k old) c = dk_files k c" for old :: "item list"
    by (induction old arbitrary: k) (simp_all add: disk_remove_other [OF assms])
  then show ?thesis by (simp add: load_kind_def Let_def)
qed

lemma load_items:
  "kind \<in> set kinds \<Longrightarrow> distinct kinds \<Longrightarrow> R > 0
    \<Longrightarrow> map_of (fst (snd (load H ok R now kinds k))) kind = Some (fst (snd (load_kind H ok R now kind k)))"
proof (induction kinds arbitrary: k)
  case (Cons c kinds)
  obtain k1 items e b where c: "load_kind H ok R now c k = (k1, items, e, b)" by (metis surj_pair)
  obtain k2 rest e' b' where l: "load H ok R now kinds k1 = (k2, rest, e', b')" by (metis surj_pair)
  show ?case
  proof (cases "kind = c")
    case False
    then have "dk_files k1 kind = dk_files k kind" using load_kind_other [of kind c H ok R now k] c by simp
    then have "fst (snd (load_kind H ok R now kind k1)) = fst (snd (load_kind H ok R now kind k))"
      by (simp add: load_kind_def record_files_def Let_def)
    moreover have "map_of rest kind = Some (fst (snd (load_kind H ok R now kind k1)))" using Cons.IH [of k1] Cons.prems l False by simp
    ultimately show ?thesis using c l False by simp
  qed (use c l in simp)
qed simp

lemma load_kinds: "map fst (fst (snd (load H ok R now kinds k))) = kinds"
proof (induction kinds arbitrary: k)
  case (Cons c kinds)
  obtain k1 items e b where c: "load_kind H ok R now c k = (k1, items, e, b)" by (metis surj_pair)
  obtain k2 rest e' b' where l: "load H ok R now kinds k1 = (k2, rest, e', b')" by (metis surj_pair)
  show ?case using Cons.IH [of k1] c l by simp
qed simp

lemma boot_kinds_at:
  "distinct (map fst xs) \<Longrightarrow> boot_kinds b f xs x = (case map_of xs x of Some items \<Rightarrow> boot_kind b items | None \<Rightarrow> f x)"
proof (induction b f xs rule: boot_kinds.induct)
  case (2 b f kind items rest)
  have "map_of rest kind = None" using "2.prems" by (simp add: map_of_eq_None_iff)
  then show ?case using "2.IH" "2.prems" by (auto simp: fun_upd_def split: option.splits)
qed simp

lemma boot_store_kind:
  assumes "store_mirrored H (lm_retention L) now ns K s" "st_disk s = Some k" "now \<le> now'" "lm_retention L > 0" "kind \<in> set STORE_KINDS"
  shows "ks_d (st_kinds (boot_store H L ok now' k s0) kind) = filter (young (lm_retention L) now' (st_kinds s kind)) (ks_d (st_kinds s kind))
    \<and> map_of (ks_t (st_kinds (boot_store H L ok now' k s0) kind)) = (\<lambda>key. if key \<in> fst ` set (filter (young (lm_retention L) now' (st_kinds s kind)) (ks_d (st_kinds s kind)))
         then map_of (ks_t (st_kinds s kind)) key else None)
    \<and> kind_ok (st_kinds (boot_store H L ok now' k s0) kind)"
proof -
  let ?R = "lm_retention L" and ?ks = "st_kinds s kind"
  let ?d = "filter (young ?R now' ?ks) (ks_d ?ks)"
  obtain rank where m: "mirrored H ?R now ns (K kind) kind ?ks (dk_files k kind) rank" and ok: "kind_ok ?ks"
    using assms(1,2) unfolding store_mirrored_def by auto
  obtain k1 loaded e b where l: "load H ok ?R now' STORE_KINDS k = (k1, loaded, e, b)" by (metis surj_pair)
  have dist: "distinct STORE_KINDS" by (simp add: STORE_KINDS_def)
  have "map_of loaded kind = Some (map (entry_item ?ks rank) ?d)"
    using load_items [OF assms(5) dist assms(4), of H ok now' k] load_kind_mirrored [OF m ok assms(3,4), of ok] l by simp
  moreover have "distinct (map fst loaded)" using load_kinds [of H ok ?R now' STORE_KINDS k] l dist by simp
  ultimately have kd: "st_kinds (boot_store H L ok now' k s0) kind = boot_kind (lm_budget L) (map (entry_item ?ks rank) ?d)"
    using l by (simp add: boot_store_def bump_version_def boot_kinds_at)
  have wf: "wf_dict ?d" using ok by (simp add: kind_ok_def wf_dict_def distinct_map_filter)
  have f: "foldl boot_item empty_kind (map (entry_item ?ks rank) ?d)
      = empty_kind\<lparr>ks_d := ?d, ks_t := map (\<lambda>kv. (fst kv, the (map_of (ks_t ?ks) (fst kv)))) ?d, ks_used := entry_costs ?d\<rparr>"
    using boot_items [OF wf, of empty_kind] by (simp add: empty_kind_def)
  have keys: "fst ` set (ks_t ?ks) = fst ` set (ks_d ?ks)" using ok by (metis kind_ok_def set_map)
  have "map_of (map (\<lambda>kv. (fst kv, the (map_of (ks_t ?ks) (fst kv)))) xs) key = (if key \<in> fst ` set xs then map_of (ks_t ?ks) key else None)"
    if "set xs \<subseteq> set (ks_d ?ks)" for xs :: "(string \<times> string) list" and key
    using that
  proof (induction xs)
    case (Cons x xs)
    then have "fst x \<in> fst ` set (ks_t ?ks)" using keys by auto
    then have "map_of (ks_t ?ks) (fst x) \<noteq> None" by (simp add: map_of_eq_None_iff)
    then show ?case using Cons by auto
  qed simp
  from this [of ?d] show ?thesis using wf by (auto simp: kd boot_kind_def Let_def f kind_ok_def)
qed

section \<open>Properties\<close>

text \<open>A deposit as one call: what the system answered, the kind, the key and the bytes.\<close>

definition put_call :: "host \<Rightarrow> limits \<Rightarrow> store \<Rightarrow> put_io \<times> string \<times> string \<times> string \<Rightarrow> store \<times> (put_error + unit)" where
  "put_call H L s c = (case c of (io, kind, key, data) \<Rightarrow> (case put H L io kind key data s of (s1, r, said) \<Rightarrow> (s1, r)))"

definition empty_store :: store where
  "empty_store = \<lparr>st_kinds = (\<lambda>kind. empty_kind), st_version = 0, st_evictions = 0, st_disk = Some \<lparr>dk_files = (\<lambda>kind. []), dk_seq = 0\<rparr>\<rparr>"

lemma empty_store_mirrored: "store_mirrored H R now ns K empty_store"
  by (auto simp: store_mirrored_def empty_store_def empty_kind_def kind_ok_def mirrored_def)

text \<open>The clock of the deposits: seconds that never go back, nanoseconds that advance from one deposit to the next.\<close>

fun clocks_ok :: "rat \<Rightarrow> int \<Rightarrow> (put_io \<times> string \<times> string \<times> string) list \<Rightarrow> bool" where
  "clocks_ok now ns [] \<longleftrightarrow> True"
| "clocks_ok now ns ((io, rest) # cs) \<longleftrightarrow> now \<le> io_now io \<and> 0 < io_now io \<and> ns < io_ns io \<and> clocks_ok (io_now io) (io_ns io) cs"

lemma run_mirrored:
  assumes "store_mirrored H (lm_retention L) now ns K s" "clocks_ok now ns cs"
    and "\<forall>(io, kind, key, data) \<in> set cs. key \<in> K kind" "\<And>kind. inj_on (fname H kind) (K kind)"
  shows "\<exists>now1 ns1. (cs = [] \<longrightarrow> now1 = now) \<and> (cs \<noteq> [] \<longrightarrow> now1 = io_now (fst (last cs)))
    \<and> store_mirrored H (lm_retention L) now1 ns1 K (snd (run_calls (put_call H L) s cs))"
  using assms
proof (induction cs arbitrary: now ns s)
  case (Cons c cs)
  obtain io kind key data where c: "c = (io, kind, key, data)" by (metis surj_pair)
  let ?s = "fst (put_call H L s c)"
  have "store_mirrored H (lm_retention L) (io_now io) (io_ns io) K (fst (put H L io kind key data s))"
    using put_mirrored [OF Cons.prems(1)] Cons.prems(2,3) Cons.prems(4) [of kind] by (auto simp: c)
  then have m: "store_mirrored H (lm_retention L) (io_now io) (io_ns io) K ?s"
    by (cases "put H L io kind key data s") (simp add: put_call_def c)
  have "clocks_ok (io_now io) (io_ns io) cs" "\<forall>(io, kind, key, data) \<in> set cs. key \<in> K kind" using Cons.prems(2,3) by (auto simp: c)
  from Cons.IH [OF m this Cons.prems(4)] show ?case
    by (auto simp: snd_run_calls_Cons c simp del: run_calls.simps)
qed auto


definition sample_limits :: limits where
  "sample_limits = \<lparr>lm_budget = 67108864, lm_retention = 604800\<rparr>"

definition sample_put :: "rat \<Rightarrow> int \<Rightarrow> string \<Rightarrow> string \<Rightarrow> put_io \<times> string \<times> string \<times> string" where
  "sample_put t ns key data = (\<lparr>io_now = t, io_ns = ns, io_err = None, io_remove = (\<lambda>k. True)\<rparr>, ''res'', key, data)"

definition sample_keys :: "string \<Rightarrow> string set" where
  "sample_keys kind = (if kind = ''res'' then {''a'', ''b''} else {})"

lemma sample_names_differ: "fname sample_host ''res'' ''a'' \<noteq> fname sample_host ''res'' ''b''"
  by (simp add: fname_def hexdigest_inj) code_simp

lemma sample_deposits:
  "get_entry (snd (run_calls (put_call sample_host sample_limits) empty_store [sample_put 10 10 ''a'' ''x'', sample_put 20 20 ''b'' ''y''])) ''res'' ''a'' = Some ''x''
   \<and> st_disk (snd (run_calls (put_call sample_host sample_limits) empty_store [sample_put 10 10 ''a'' ''x'', sample_put 20 20 ''b'' ''y''])) \<noteq> None"
  by (simp add: put_call_def sample_put_def put_def empty_store_def evict_section_def empty_kind_def sample_limits_def set_kind_def
      deposit_def stored_cost_def cost_def utf8_def utf8_char_def ENTRY_OVERHEAD_def WRITE_ONCE_def disk_write_def next_seq_def Let_def
      fill_transition_def fill_of_def FILL_ALARM_def FILL_REARM_def bump_version_def get_entry_def get_or_def remove_key_def)


end
