(* ===== verification/Relay_Serve.thy ===== *)
theory Relay_Serve
  imports Relay_Store
begin

text \<open>
  The threads of the relay (\<open>src/services/relay.py\<close>): the critical sections of \<open>_put\<close> and of \<open>_list_answer\<close>, which
  several threads interleave, and the cache of the work queue. A step of the relation \<open>serve_step\<close> is one critical section,
  one removal of a file, or the filing of a queue built outside the lock; what a thread carries from one section to the next
  (the keys it evicted, the body it built) is part of the state. Any order of the steps is allowed, which includes
  every order the threads can produce. The reading of a query string by \<open>urllib\<close> is a parameter.
\<close>

section \<open>The work queue\<close>

definition keys_locked :: "string \<Rightarrow> store \<Rightarrow> (string, string list) dict" where
  "keys_locked suffix s =
     (if suffix = [] then map (\<lambda>k. (k, dkeys (ks_d (st_kinds s k)))) STORE_KINDS
      else map (\<lambda>k. (k, filter (ends_with suffix) (dkeys (ks_d (st_kinds s k))))) STORE_KINDS)"

definition list_body :: "(string, string list) dict \<Rightarrow> string" where
  "list_body keys = ''{'' @ join '', '' (map (\<lambda>(k, xs). json_str k @ '': ['' @ join '', '' (map json_str xs) @ '']'') keys) @ ''}''"

definition etag :: "host \<Rightarrow> string \<Rightarrow> string" where
  "etag H body = [CHR 0x22] @ take 32 (hexdigest (sha256 H body)) @ [CHR 0x22]"

definition LIST_CACHE_MAX_ENTRIES :: nat where
  "LIST_CACHE_MAX_ENTRIES = 256"

definition LIST_CACHE_MAX_BYTES :: int where
  "LIST_CACHE_MAX_BYTES = 8388608"

type_synonym slot = "int \<times> string \<times> string"

record serve =
  sv_store :: store
  sv_removals :: "(string \<times> string) list"
  sv_cache :: "(string, slot) dict"
  sv_cache_bytes :: int
  sv_built :: "(string \<times> int \<times> string) list"
  sv_hits :: nat
  sv_builds :: nat

text \<open>
  The first section of \<open>_list_answer\<close>: a hit is moved to the end of the cache and answered; otherwise the keys are copied, and the
  body they give is filed later unless it is too long. \<open>Inl\<close> is the answer of a hit, \<open>Inr\<close> the body that was built.
\<close>

definition list_lookup :: "host \<Rightarrow> string option \<Rightarrow> serve \<Rightarrow> serve \<times> (string \<times> string + string)" where
  "list_lookup H suffix v =
     (let slot = (case suffix of None \<Rightarrow> [] | Some s \<Rightarrow> s); version = st_version (sv_store v);
          body = list_body (keys_locked slot (sv_store v));
          built = v\<lparr>sv_builds := sv_builds v + 1\<rparr>
      in case map_of (sv_cache v) slot of
           Some (ver, b, tag) \<Rightarrow>
             if ver = version
             then (v\<lparr>sv_cache := AList.delete slot (sv_cache v) @ [(slot, ver, b, tag)], sv_hits := sv_hits v + 1\<rparr>, Inl (b, tag))
             else (if int (length body) > LIST_CACHE_MAX_BYTES then built else built\<lparr>sv_built := sv_built v @ [(slot, version, body)]\<rparr>, Inr body)
         | None \<Rightarrow>
             (if int (length body) > LIST_CACHE_MAX_BYTES then built else built\<lparr>sv_built := sv_built v @ [(slot, version, body)]\<rparr>, Inr body))"

fun trim_cache :: "(string, slot) dict \<Rightarrow> int \<Rightarrow> (string, slot) dict \<times> int" where
  "trim_cache [] bytes = ([], bytes)"
| "trim_cache ((s, ver, body, tag) # c) bytes =
     (if length ((s, ver, body, tag) # c) > LIST_CACHE_MAX_ENTRIES \<or> bytes > LIST_CACHE_MAX_BYTES
      then trim_cache c (bytes - int (length body)) else ((s, ver, body, tag) # c, bytes))"

text \<open>The second section: a body built at a later version is never replaced by an earlier one.\<close>

definition list_file :: "host \<Rightarrow> string \<Rightarrow> int \<Rightarrow> string \<Rightarrow> serve \<Rightarrow> serve" where
  "list_file H slot version body v =
     (let old = map_of (sv_cache v) slot in
      if (case old of None \<Rightarrow> True | Some (ver, b, tag) \<Rightarrow> ver < version) then
        (let bytes = sv_cache_bytes v - (case old of None \<Rightarrow> 0 | Some (ver, b, tag) \<Rightarrow> int (length b)) + int (length body);
             (c, bytes1) = trim_cache (AList.delete slot (sv_cache v) @ [(slot, version, body, etag H body)]) bytes
         in v\<lparr>sv_cache := c, sv_cache_bytes := bytes1\<rparr>)
      else v)"

text \<open>\<open>_etag_matches\<close> and \<open>_list_suffix\<close>.\<close>

definition etag_matches :: "string option \<Rightarrow> string \<Rightarrow> bool" where
  "etag_matches header tag = list_ex (\<lambda>t. (let x = strip t in (if starts x ''W/'' then drop 2 x else x) = tag))
     (py_split '','' (case header of None \<Rightarrow> [] | Some h \<Rightarrow> h))"

definition suffix_form :: "string \<Rightarrow> bool" where
  "suffix_form s \<longleftrightarrow> 1 \<le> length s \<and> length s \<le> 128 \<and> list_all (\<lambda>c. is_alnum c \<or> c \<in> set ''_.:-'') s"

datatype list_error = UnreadableQuery | OtherParameter | BadSuffix

definition list_suffix :: "(string \<Rightarrow> (string, string list) dict result) \<Rightarrow> string \<Rightarrow> list_error + string option" where
  "list_suffix parse_qs query =
     (if query = [] then Inr None
      else (case parse_qs query of
          Inl e \<Rightarrow> Inl UnreadableQuery
        | Inr q \<Rightarrow>
            if set (dkeys q) - {''suffix''} \<noteq> {} then Inl OtherParameter
            else (case get_or q ''suffix'' [] of
                [x] \<Rightarrow> if suffix_form x then Inr (Some x) else Inl BadSuffix
              | _ \<Rightarrow> Inl BadSuffix)))"

section \<open>Threads\<close>

datatype event = EvictAt rat string | FileRemoved | DepositAt put_io string string string | QueueRead | QueueFiled

inductive serve_step :: "host \<Rightarrow> limits \<Rightarrow> event \<Rightarrow> serve \<Rightarrow> serve \<Rightarrow> bool" for H L where
  Evict: "evict_section L now kind (sv_store v) = (s1, evicted, said) \<Longrightarrow> kind \<in> set STORE_KINDS \<Longrightarrow>
    serve_step H L (EvictAt now kind) v (v\<lparr>sv_store := s1, sv_removals := sv_removals v @ map (Pair kind) evicted\<rparr>)"
| Remove: "(kind, key) \<in> set (sv_removals v) \<Longrightarrow>
    serve_step H L FileRemoved v (v\<lparr>sv_store := remove_key H ok kind key (sv_store v), sv_removals := remove1 (kind, key) (sv_removals v)\<rparr>)"
| Deposit: "deposit H L io kind key data (sv_store v) = (s1, r, said) \<Longrightarrow> kind \<in> set STORE_KINDS \<Longrightarrow>
    serve_step H L (DepositAt io kind key data) v (v\<lparr>sv_store := s1\<rparr>)"
| Read: "list_lookup H suffix v = (v1, answer) \<Longrightarrow> serve_step H L QueueRead v v1"
| Filed: "(slot, version, body) \<in> set (sv_built v) \<Longrightarrow>
    serve_step H L QueueFiled v ((list_file H slot version body v)\<lparr>sv_built := remove1 (slot, version, body) (sv_built v)\<rparr>)"

inductive_cases EvictAtE: "serve_step H L (EvictAt now kind) v v1"
inductive_cases DepositAtE: "serve_step H L (DepositAt io kind key data) v v1"

inductive serve_run :: "host \<Rightarrow> limits \<Rightarrow> event list \<Rightarrow> serve \<Rightarrow> serve \<Rightarrow> bool" for H L where
  Idle: "serve_run H L [] v v"
| Step: "serve_step H L e v v1 \<Longrightarrow> serve_run H L es v1 v2 \<Longrightarrow> serve_run H L (e # es) v v2"

definition fresh_serve :: "store \<Rightarrow> serve" where
  "fresh_serve s = \<lparr>sv_store = s, sv_removals = [], sv_cache = [], sv_cache_bytes = 0, sv_built = [], sv_hits = 0, sv_builds = 0\<rparr>"

lemma run_invariant:
  assumes "serve_run H L es v v'" "P v" "\<And>e v v1. serve_step H L e v v1 \<Longrightarrow> e \<in> set es \<Longrightarrow> P v \<Longrightarrow> P v1"
  shows "P v'"
  using assms by (induction rule: serve_run.induct) auto

section \<open>Accounting and write-once\<close>

text \<open>What one step does to the store.\<close>

lemma list_lookup_store: "sv_store (fst (list_lookup H suffix v)) = sv_store v"
  by (auto simp: list_lookup_def Let_def split: option.splits prod.splits)

lemma list_file_store: "sv_store (list_file H slot version body v) = sv_store v"
  by (auto simp: list_file_def Let_def split: option.splits prod.splits)

lemma step_store:
  assumes "serve_step H L e v v1"
  obtains (evict) now kind evicted said where "e = EvictAt now kind" "evict_section L now kind (sv_store v) = (sv_store v1, evicted, said)"
      "kind \<in> set STORE_KINDS"
  | (put) io kind key data r said where "e = DepositAt io kind key data" "deposit H L io kind key data (sv_store v) = (sv_store v1, r, said)"
      "kind \<in> set STORE_KINDS"
  | (other) "st_kinds (sv_store v1) = st_kinds (sv_store v)" "st_version (sv_store v1) = st_version (sv_store v)"
  using assms
proof (cases rule: serve_step.cases)
  case (Read suffix answer)
  then show ?thesis using that(3) list_lookup_store [of H suffix v] by simp
qed (use that in \<open>auto simp: remove_key_def list_file_store\<close>)

definition store_ok :: "store \<Rightarrow> bool" where
  "store_ok s \<longleftrightarrow> (\<forall>kind. kind_ok (st_kinds s kind))"

lemma evict_effect:
  assumes "evict_section L now kind s = (s1, evicted, said)" "store_ok s"
  shows "\<exists>n. ks_d (st_kinds s1 kind) = drop n (ks_d (st_kinds s kind)) \<and> ks_t (st_kinds s1 kind) = drop n (ks_t (st_kinds s kind))
    \<and> evicted = map fst (take n (ks_d (st_kinds s kind))) \<and> (\<forall>x \<in> set (take n (ks_t (st_kinds s kind))). now - snd x > lm_retention L)
    \<and> (\<forall>c. c \<noteq> kind \<longrightarrow> st_kinds s1 c = st_kinds s c) \<and> kind_ok (st_kinds s1 kind)
    \<and> st_version s1 = (if evicted = [] then st_version s else st_version s + 1)
    \<and> ks_used (st_kinds s1 kind) = ks_used (st_kinds s kind) - entry_costs (take n (ks_d (st_kinds s kind)))"
proof -
  have "kind_ok (st_kinds s kind)" using assms(2) by (simp add: store_ok_def)
  from assms(1) this show ?thesis by (rule evict_section_effect) (intro exI conjI allI impI; assumption | blast)+
qed

lemma step_store_ok: "serve_step H L e v v1 \<Longrightarrow> store_ok (sv_store v) \<Longrightarrow> store_ok (sv_store v1)"
proof (elim step_store)
  fix now kind evicted said
  assume ok: "store_ok (sv_store v)" and e: "evict_section L now kind (sv_store v) = (sv_store v1, evicted, said)"
  from evict_effect [OF e ok] show "store_ok (sv_store v1)" using ok unfolding store_ok_def by metis
next
  fix io kind key data r said
  assume ok: "store_ok (sv_store v)" and d: "deposit H L io kind key data (sv_store v) = (sv_store v1, r, said)"
  have "kind_ok (st_kinds (sv_store v1) kind)" using deposit_kind_ok [OF d] ok by (simp add: store_ok_def)
  moreover from d have "c \<noteq> kind \<Longrightarrow> st_kinds (sv_store v1) c = st_kinds (sv_store v) c" for c by (cases rule: deposit_cases) simp_all
  ultimately show "store_ok (sv_store v1)" using ok by (metis store_ok_def)
qed (simp add: store_ok_def)

text \<open>An entry of a sealed kind, with its bytes and its deposit time.\<close>

definition holds :: "store \<Rightarrow> string \<Rightarrow> string \<Rightarrow> string \<Rightarrow> rat \<Rightarrow> bool" where
  "holds s kind key data ts \<longleftrightarrow> map_of (ks_d (st_kinds s kind)) key = Some data \<and> map_of (ks_t (st_kinds s kind)) key = Some ts"

lemma evict_keeps:
  assumes "evict_section L now kind s = (s1, evicted, said)" "store_ok s" "holds s kind key data ts" "now - ts \<le> lm_retention L"
  shows "holds s1 kind key data ts"
proof -
  let ?ks = "st_kinds s kind"
  have ok: "kind_ok ?ks" using assms(2) by (simp add: store_ok_def)
  from assms(1) ok obtain n where n: "ks_d (st_kinds s1 kind) = drop n (ks_d ?ks)" "ks_t (st_kinds s1 kind) = drop n (ks_t ?ks)"
      "\<forall>x \<in> set (take n (ks_t ?ks)). now - snd x > lm_retention L"
    by (rule evict_section_effect) blast
  have dist: "distinct (map fst (ks_d ?ks))" "distinct (map fst (ks_t ?ks))" "map fst (ks_t ?ks) = map fst (ks_d ?ks)"
    using ok by (auto simp: kind_ok_def wf_dict_def)
  have "(key, ts) \<in> set (ks_t ?ks)" using assms(3) by (auto simp: holds_def intro: map_of_SomeD)
  moreover have "(key, ts) \<notin> set (take n (ks_t ?ks))" using n(3) assms(4) by force
  ultimately have "(key, ts) \<in> set (drop n (ks_t ?ks))" by (metis Un_iff append_take_drop_id set_append)
  then have kt: "key \<in> fst ` set (drop n (ks_t ?ks))" by force
  then have kd: "key \<in> fst ` set (drop n (ks_d ?ks))" using dist(3) by (metis drop_map set_map)
  show ?thesis using map_of_drop_distinct [OF dist(1) kd] map_of_drop_distinct [OF dist(2) kt] assms(3) n by (simp add: holds_def)
qed

lemma deposit_keeps:
  assumes "deposit H L io kind key' data' s = (s1, r, said)" "kind \<in> set WRITE_ONCE" "holds s kind key data ts"
  shows "holds s1 kind key data ts"
  using assms(1)
proof (cases rule: deposit_cases)
  case (written k after)
  then have "key' \<noteq> key" using assms(2,3) by (auto simp: holds_def get_entry_def)
  then show ?thesis using assms(3) written(9,10)
    by (auto simp: holds_def map_add_def map_of_delete map_of_update split: option.splits)
qed (use assms in \<open>simp add: holds_def\<close>)

lemma step_keeps:
  assumes "serve_step H L e v v1" "store_ok (sv_store v)" "kind \<in> set WRITE_ONCE" "holds (sv_store v) kind key data ts"
    and "\<And>now. e = EvictAt now kind \<Longrightarrow> now - ts \<le> lm_retention L"
  shows "holds (sv_store v1) kind key data ts"
  using assms(1)
proof (cases rule: step_store)
  case (evict now kind' evicted said)
  show ?thesis
  proof (cases "kind' = kind")
    case True
    then show ?thesis using evict_keeps [OF evict(2)] assms(2,4,5) evict(1) by simp
  next
    case False
    have "\<forall>c. c \<noteq> kind' \<longrightarrow> st_kinds (sv_store v1) c = st_kinds (sv_store v) c" using evict_effect [OF evict(2) assms(2)] by (elim exE conjE)
    then have "st_kinds (sv_store v1) kind = st_kinds (sv_store v) kind" using False by simp
    then show ?thesis using assms(4) by (simp add: holds_def)
  qed
next
  case (put io kind' key' data' r said)
  show ?thesis
  proof (cases "kind' = kind")
    case True
    then show ?thesis using deposit_keeps [OF _ assms(3,4)] put(2) by blast
  next
    case False
    from put(2) have "st_kinds (sv_store v1) kind = st_kinds (sv_store v) kind" using False by (cases rule: deposit_cases) simp_all
    then show ?thesis using assms(4) by (simp add: holds_def)
  qed
qed (use assms(4) in \<open>simp add: holds_def\<close>)

section \<open>The budget\<close>

definition under_budget :: "int \<Rightarrow> (string \<Rightarrow> int) \<Rightarrow> store \<Rightarrow> bool" where
  "under_budget budget base s \<longleftrightarrow> (\<forall>kind. ks_used (st_kinds s kind) \<le> max budget (base kind))"

lemma cost_pos: "cost k v > 0"
  by (simp add: cost_def ENTRY_OVERHEAD_def)

lemma entry_costs_nonneg: "entry_costs d \<ge> 0"
  unfolding entry_costs_def using cost_pos by (intro sum_list_nonneg) (force intro: less_imp_le)

lemma step_under_budget:
  assumes "serve_step H L e v v1" "store_ok (sv_store v)" "under_budget (lm_budget L) base (sv_store v)"
  shows "under_budget (lm_budget L) base (sv_store v1)"
  using assms(1)
proof (cases rule: step_store)
  case (evict now kind evicted said)
  obtain n where n: "\<forall>c. c \<noteq> kind \<longrightarrow> st_kinds (sv_store v1) c = st_kinds (sv_store v) c"
      "ks_used (st_kinds (sv_store v1) kind) = ks_used (st_kinds (sv_store v) kind) - entry_costs (take n (ks_d (st_kinds (sv_store v) kind)))"
    using evict_effect [OF evict(2) assms(2)] by blast
  have "ks_used (st_kinds (sv_store v1) c) \<le> ks_used (st_kinds (sv_store v) c)" for c
    using n entry_costs_nonneg [of "take n (ks_d (st_kinds (sv_store v) kind))"] by (cases "c = kind") simp_all
  then show ?thesis using assms(3) unfolding under_budget_def by (meson order_trans)
next
  case (put io kind key data r said)
  from put(2) show ?thesis
  proof (cases rule: deposit_cases)
    case (written k after)
    have "ks_used (st_kinds (sv_store v1) c) \<le> max (lm_budget L) (base c)" for c
    proof (cases "c = kind")
      case True
      have "ks_used (st_kinds (sv_store v) kind) \<le> max (lm_budget L) (base kind)" using assms(3) by (simp add: under_budget_def)
      then show ?thesis using written(5,11) True by auto
    qed (use assms(3) written(7) in \<open>simp add: under_budget_def\<close>)
    then show ?thesis by (simp add: under_budget_def)
  qed (use assms(3) in \<open>simp add: under_budget_def\<close>)
qed (use assms(3) in \<open>simp add: under_budget_def\<close>)

section \<open>The cache of the queue\<close>

definition body_at :: "serve \<Rightarrow> string \<Rightarrow> string" where
  "body_at v slot = list_body (keys_locked slot (sv_store v))"

text \<open>A body filed or about to be filed under the current version is the body of the current keys.\<close>

definition current :: "serve \<Rightarrow> string \<Rightarrow> int \<Rightarrow> string \<Rightarrow> bool" where
  "current v slot version body \<longleftrightarrow> version \<le> st_version (sv_store v) \<and> (version = st_version (sv_store v) \<longrightarrow> body = body_at v slot)"

definition cache_bytes :: "(string, slot) dict \<Rightarrow> int" where
  "cache_bytes c = sum_list (map (\<lambda>(s, ver, body, tag). int (length body)) c)"

definition cache_ok :: "host \<Rightarrow> serve \<Rightarrow> bool" where
  "cache_ok H v \<longleftrightarrow> wf_dict (sv_cache v) \<and> sv_cache_bytes v = cache_bytes (sv_cache v)
     \<and> length (sv_cache v) \<le> LIST_CACHE_MAX_ENTRIES \<and> sv_cache_bytes v \<le> LIST_CACHE_MAX_BYTES
     \<and> (\<forall>(slot, ver, body, tag) \<in> set (sv_cache v). current v slot ver body \<and> tag = etag H body)
     \<and> (\<forall>(slot, ver, body) \<in> set (sv_built v). current v slot ver body)"

lemma cache_bytes_simps [simp]:
  "cache_bytes [] = 0" "cache_bytes ((s, ver, body, tag) # c) = int (length body) + cache_bytes c" "cache_bytes (c @ c') = cache_bytes c + cache_bytes c'"
  by (simp_all add: cache_bytes_def)

lemma cache_bytes_nonneg: "cache_bytes c \<ge> 0"
  unfolding cache_bytes_def by (intro sum_list_nonneg) auto

lemma cache_bytes_delete:
  "wf_dict c \<Longrightarrow> cache_bytes (AList.delete s c) = cache_bytes c - (case map_of c s of None \<Rightarrow> 0 | Some (ver, b, tag) \<Rightarrow> int (length b))"
proof (induction c)
  case (Cons x c)
  obtain a ver b tag where x: "x = (a, ver, b, tag)" by (cases x) auto
  have "a = s \<Longrightarrow> s \<notin> fst ` set c" using Cons.prems by (auto simp: wf_dict_def x)
  then show ?case using Cons.IH Cons.prems by (cases "a = s") (auto simp: x wf_dict_def delete_not_in)
qed simp

lemma trim_cache_spec:
  assumes "trim_cache c bytes = (c1, bytes1)" "bytes = cache_bytes c" "wf_dict c"
  shows "bytes1 = cache_bytes c1 \<and> wf_dict c1 \<and> set c1 \<subseteq> set c \<and> length c1 \<le> LIST_CACHE_MAX_ENTRIES \<and> bytes1 \<le> LIST_CACHE_MAX_BYTES"
  using assms
proof (induction c bytes rule: trim_cache.induct)
  case (1 bytes)
  then show ?case by (simp add: LIST_CACHE_MAX_BYTES_def)
next
  case (2 s ver body tag c bytes)
  show ?case
  proof (cases "length ((s, ver, body, tag) # c) > LIST_CACHE_MAX_ENTRIES \<or> bytes > LIST_CACHE_MAX_BYTES")
    case True
    then have r: "trim_cache c (bytes - int (length body)) = (c1, bytes1)" using "2.prems"(1) by simp
    from "2.IH" [OF True r] "2.prems"(2) wf_dict_ConsD [OF "2.prems"(3)] show ?thesis by auto
  next
    case False
    then have "c1 = (s, ver, body, tag) # c" "bytes1 = bytes" using "2.prems"(1) by auto
    then show ?thesis using False "2.prems" by auto
  qed
qed

lemma list_file_ok:
  assumes ok: "cache_ok H v" and b: "(slot, version, body) \<in> set (sv_built v)"
  shows "cache_ok H ((list_file H slot version body v)\<lparr>sv_built := remove1 (slot, version, body) (sv_built v)\<rparr>)"
proof (cases "case map_of (sv_cache v) slot of None \<Rightarrow> True | Some (ver, b, tag) \<Rightarrow> ver < version")
  case True
  let ?bytes = "sv_cache_bytes v - (case map_of (sv_cache v) slot of None \<Rightarrow> 0 | Some (ver, b, tag) \<Rightarrow> int (length b)) + int (length body)"
  let ?c = "AList.delete slot (sv_cache v) @ [(slot, version, body, etag H body)]"
  obtain c1 bytes1 where t: "trim_cache ?c ?bytes = (c1, bytes1)" by (cases "trim_cache ?c ?bytes") auto
  have f: "list_file H slot version body v = v\<lparr>sv_cache := c1, sv_cache_bytes := bytes1\<rparr>"
    using True t by (simp add: list_file_def Let_def)
  have wf: "wf_dict (sv_cache v)" "sv_cache_bytes v = cache_bytes (sv_cache v)" using ok by (simp_all add: cache_ok_def)
  have "wf_dict ?c" using wf(1) by (auto simp: wf_dict_def map_fst_delete)
  moreover have "?bytes = cache_bytes ?c" using cache_bytes_delete [OF wf(1), of slot] wf(2) by simp
  ultimately have c1: "bytes1 = cache_bytes c1" "wf_dict c1" "set c1 \<subseteq> set ?c" "length c1 \<le> LIST_CACHE_MAX_ENTRIES" "bytes1 \<le> LIST_CACHE_MAX_BYTES"
    using trim_cache_spec [OF t] by blast+
  have "current v slot version body" using ok b by (auto simp: cache_ok_def)
  moreover have "set ?c \<subseteq> insert (slot, version, body, etag H body) (set (sv_cache v))" by (auto simp: AList.delete_eq)
  ultimately have "\<forall>(slot, ver, body, tag) \<in> set c1. current v slot ver body \<and> tag = etag H body"
    using ok c1(3) unfolding cache_ok_def by blast
  moreover have "\<forall>(slot, ver, body) \<in> set (remove1 (slot, version, body) (sv_built v)). current v slot ver body"
    using ok set_remove1_subset [of "(slot, version, body)" "sv_built v"] unfolding cache_ok_def by blast
  ultimately show ?thesis using c1 unfolding f cache_ok_def current_def body_at_def by simp
next
  case False
  then have "list_file H slot version body v = v" by (simp add: list_file_def Let_def)
  moreover have "\<forall>(slot, ver, body) \<in> set (remove1 (slot, version, body) (sv_built v)). current v slot ver body"
    using ok set_remove1_subset [of "(slot, version, body)" "sv_built v"] unfolding cache_ok_def by blast
  ultimately show ?thesis using ok unfolding cache_ok_def current_def body_at_def by simp
qed

lemma delete_filter: "AList.delete k d = filter (\<lambda>p. fst p \<noteq> k) d"
  by (induction d) auto

lemma list_lookup_ok:
  assumes ok: "cache_ok H v" and l: "list_lookup H suffix v = (v1, answer)"
  shows "cache_ok H v1"
proof -
  let ?slot = "case suffix of None \<Rightarrow> [] | Some s \<Rightarrow> s"
  have cur: "current v ?slot (st_version (sv_store v)) (list_body (keys_locked ?slot (sv_store v)))"
    by (simp add: current_def body_at_def)
  consider (hit) ver b tag where "map_of (sv_cache v) ?slot = Some (ver, b, tag)" "ver = st_version (sv_store v)"
      "v1 = v\<lparr>sv_cache := AList.delete ?slot (sv_cache v) @ [(?slot, ver, b, tag)], sv_hits := sv_hits v + 1\<rparr>"
    | (miss) "v1 = v\<lparr>sv_builds := sv_builds v + 1\<rparr> \<or> v1 = v\<lparr>sv_builds := sv_builds v + 1,
          sv_built := sv_built v @ [(?slot, st_version (sv_store v), list_body (keys_locked ?slot (sv_store v)))]\<rparr>"
    using l unfolding list_lookup_def Let_def by (auto split: option.splits prod.splits if_splits)
  then show ?thesis
  proof cases
    case hit
    have wf: "wf_dict (sv_cache v)" using ok by (simp add: cache_ok_def)
    have mem: "(?slot, ver, b, tag) \<in> set (sv_cache v)" using hit(1) by (rule map_of_SomeD)
    let ?c = "AList.delete ?slot (sv_cache v) @ [(?slot, ver, b, tag)]"
    have "length ?c = length (sv_cache v)"
    proof -
      have "length (AList.delete ?slot (sv_cache v)) + length (filter (\<lambda>p. fst p = ?slot) (sv_cache v)) = length (sv_cache v)"
        unfolding delete_filter using sum_length_filter_compl [of "\<lambda>p. fst p \<noteq> ?slot" "sv_cache v"] by simp
      then show ?thesis using filter_key [OF wf, of ?slot] hit(1) by simp
    qed
    moreover have "cache_bytes ?c = cache_bytes (sv_cache v)" using cache_bytes_delete [OF wf, of ?slot] hit(1) by simp
    moreover have "wf_dict ?c" using wf by (auto simp: wf_dict_def map_fst_delete)
    moreover have "set ?c \<subseteq> set (sv_cache v)" using mem by (auto simp: AList.delete_eq)
    then have "\<forall>(slot, ver, body, tag) \<in> set ?c. current v slot ver body \<and> tag = etag H body"
      using ok unfolding cache_ok_def by blast
    ultimately show ?thesis using ok unfolding hit(3) cache_ok_def current_def body_at_def by simp
  next
    case miss
    then show ?thesis
    proof
      assume "v1 = v\<lparr>sv_builds := sv_builds v + 1\<rparr>"
      then show ?thesis using ok by (simp add: cache_ok_def current_def body_at_def)
    next
      assume "v1 = v\<lparr>sv_builds := sv_builds v + 1,
          sv_built := sv_built v @ [(?slot, st_version (sv_store v), list_body (keys_locked ?slot (sv_store v)))]\<rparr>"
      then show ?thesis using ok cur by (simp add: cache_ok_def current_def body_at_def)
    qed
  qed
qed

lemma cache_ok_store:
  assumes "cache_ok H v" "st_version s1 \<ge> st_version (sv_store v)"
    and "st_version s1 = st_version (sv_store v) \<Longrightarrow> (\<forall>kind. dkeys (ks_d (st_kinds s1 kind)) = dkeys (ks_d (st_kinds (sv_store v) kind)))"
  shows "cache_ok H (v\<lparr>sv_store := s1\<rparr>)"
proof -
  have "current (v\<lparr>sv_store := s1\<rparr>) slot ver body" if "current v slot ver body" for slot ver body
    using that assms(2,3) by (auto simp: current_def body_at_def keys_locked_def)
  then have "\<forall>(slot, ver, body, tag) \<in> set (sv_cache v). current (v\<lparr>sv_store := s1\<rparr>) slot ver body \<and> tag = etag H body"
    "\<forall>(slot, ver, body) \<in> set (sv_built v). current (v\<lparr>sv_store := s1\<rparr>) slot ver body"
    using assms(1) unfolding cache_ok_def by blast+
  then show ?thesis using assms(1) by (simp add: cache_ok_def)
qed

lemma cache_ok_removals: "cache_ok H (v\<lparr>sv_removals := x\<rparr>) = cache_ok H v"
  by (simp add: cache_ok_def current_def body_at_def)

lemma step_cache_ok:
  assumes "serve_step H L e v v1" "store_ok (sv_store v)" "cache_ok H v"
  shows "cache_ok H v1"
  using assms(1)
proof (cases rule: serve_step.cases)
  case (Evict now kind s1 evicted said)
  from evict_effect [OF Evict(3) assms(2)] obtain n where n: "ks_d (st_kinds s1 kind) = drop n (ks_d (st_kinds (sv_store v) kind))"
      "evicted = map fst (take n (ks_d (st_kinds (sv_store v) kind)))" "\<forall>c. c \<noteq> kind \<longrightarrow> st_kinds s1 c = st_kinds (sv_store v) c"
      "st_version s1 = (if evicted = [] then st_version (sv_store v) else st_version (sv_store v) + 1)" by (elim exE conjE)
  have "cache_ok H (v\<lparr>sv_store := s1\<rparr>)"
  proof (rule cache_ok_store [OF assms(3)])
    assume "st_version s1 = st_version (sv_store v)"
    then have "take n (ks_d (st_kinds (sv_store v) kind)) = []" using n(2,4) by (simp split: if_splits)
    then have "ks_d (st_kinds s1 kind) = ks_d (st_kinds (sv_store v) kind)" using n(1) by (metis append_Nil append_take_drop_id)
    then show "\<forall>c. dkeys (ks_d (st_kinds s1 c)) = dkeys (ks_d (st_kinds (sv_store v) c))" using n(3) by metis
  qed (use n(4) in simp)
  then show ?thesis using Evict(2) cache_ok_removals [of H _ "v\<lparr>sv_store := s1\<rparr>"] by simp
next
  case (Remove kind key ok)
  have "cache_ok H (v\<lparr>sv_store := remove_key H ok kind key (sv_store v)\<rparr>)"
    by (rule cache_ok_store [OF assms(3)]) (simp_all add: remove_key_def)
  then show ?thesis using Remove(2) cache_ok_removals [of H _ "v\<lparr>sv_store := remove_key H ok kind key (sv_store v)\<rparr>"] by simp
next
  case (Deposit io kind key data s1 r said)
  have "cache_ok H (v\<lparr>sv_store := s1\<rparr>)"
    using Deposit(3) by (cases rule: deposit_cases) (auto intro!: cache_ok_store [OF assms(3)])
  then show ?thesis using Deposit(2) by simp
next
  case (Read suffix answer)
  then show ?thesis using list_lookup_ok [OF assms(3)] by blast
next
  case (Filed slot version body)
  then show ?thesis using list_file_ok [OF assms(3)] by blast
qed

lemma fresh_cache_ok: "cache_ok H (fresh_serve s)"
  by (simp add: cache_ok_def fresh_serve_def LIST_CACHE_MAX_BYTES_def)

lemma run_ok:
  assumes "serve_run H L es v v'" "store_ok (sv_store v)" "cache_ok H v" "under_budget (lm_budget L) base (sv_store v)"
  shows "store_ok (sv_store v') \<and> cache_ok H v' \<and> under_budget (lm_budget L) base (sv_store v')"
  using run_invariant [OF assms(1), of "\<lambda>v. store_ok (sv_store v) \<and> cache_ok H v \<and> under_budget (lm_budget L) base (sv_store v)"]
    assms(2-4) step_store_ok step_cache_ok step_under_budget by blast

section \<open>Properties\<close>


definition sample_io :: "rat \<Rightarrow> int \<Rightarrow> put_io" where
  "sample_io t ns = \<lparr>io_now = t, io_ns = ns, io_err = None, io_remove = (\<lambda>k. True)\<rparr>"

definition sample_held :: store where
  "sample_held = empty_store\<lparr>st_kinds := (st_kinds empty_store)(''res'' :=
     \<lparr>ks_d = [(''a'', ''x'')], ks_t = [(''a'', 10)], ks_used = cost ''a'' ''x'', ks_alarmed = False\<rparr>)\<rparr>"

lemma sample_held_ok: "store_ok sample_held"
  by (simp add: store_ok_def sample_held_def empty_store_def kind_ok_def wf_dict_def empty_kind_def)

lemma sample_run: "\<exists>v. serve_run H L [DepositAt io ''res'' key data, EvictAt now ''res''] v0 v"
proof -
  obtain s1 r said where "deposit H L io ''res'' key data (sv_store v0) = (s1, r, said)" by (rule prod_cases3)
  then have d: "serve_step H L (DepositAt io ''res'' key data) v0 (v0\<lparr>sv_store := s1\<rparr>)" by (rule Deposit) (simp add: STORE_KINDS_def)
  obtain s2 evicted said2 where "evict_section L now ''res'' (sv_store (v0\<lparr>sv_store := s1\<rparr>)) = (s2, evicted, said2)" by (rule prod_cases3)
  then have "\<exists>v. serve_step H L (EvictAt now ''res'') (v0\<lparr>sv_store := s1\<rparr>) v" using Evict [of L now "''res''"] by (force simp: STORE_KINDS_def)
  then show ?thesis using d by (blast intro: Step Idle)
qed


text \<open>
  C4: the relay's books and its queue are exact at every moment. From a store just booted, in any interleaving of the threads: each
  kind's total is the cost of the entries held and never exceeds its budget (or what was reloaded, when that was more), and a queue answered
  from the cache is, byte for byte, the queue of the keys held at that moment, with its validator. The cache stays within its bounds.
\<close>

theorem served_queue_is_current:
  assumes "serve_run H L es (fresh_serve s) v" "store_ok s"
  shows "(\<forall>kind. ks_used (st_kinds (sv_store v) kind) = entry_costs (ks_d (st_kinds (sv_store v) kind))
      \<and> ks_used (st_kinds (sv_store v) kind) \<le> max (lm_budget L) (ks_used (st_kinds s kind)))
    \<and> (\<forall>suffix body tag. snd (list_lookup H suffix v) = Inl (body, tag) \<longrightarrow>
        body = list_body (keys_locked (case suffix of None \<Rightarrow> [] | Some x \<Rightarrow> x) (sv_store v)) \<and> tag = etag H body)
    \<and> length (sv_cache v) \<le> LIST_CACHE_MAX_ENTRIES \<and> cache_bytes (sv_cache v) \<le> LIST_CACHE_MAX_BYTES"
proof -
  have s: "sv_store (fresh_serve s) = s" by (simp add: fresh_serve_def)
  have "under_budget (lm_budget L) (\<lambda>kind. ks_used (st_kinds s kind)) s" by (simp add: under_budget_def)
  with run_ok [OF assms(1), of "\<lambda>kind. ks_used (st_kinds s kind)"] assms(2) fresh_cache_ok
  have ok: "store_ok (sv_store v)" "cache_ok H v" "under_budget (lm_budget L) (\<lambda>kind. ks_used (st_kinds s kind)) (sv_store v)" by (simp_all add: s)
  have "body = list_body (keys_locked (case suffix of None \<Rightarrow> [] | Some x \<Rightarrow> x) (sv_store v)) \<and> tag = etag H body"
    if "snd (list_lookup H suffix v) = Inl (body, tag)" for suffix body tag
  proof -
    have "map_of (sv_cache v) (case suffix of None \<Rightarrow> [] | Some x \<Rightarrow> x) = Some (st_version (sv_store v), body, tag)"
      using that by (auto simp: list_lookup_def Let_def split: option.splits prod.splits if_splits)
    from map_of_SomeD [OF this] ok(2) show ?thesis by (auto simp: cache_ok_def current_def body_at_def)
  qed
  then show ?thesis using ok by (auto simp: store_ok_def kind_ok_def cache_ok_def under_budget_def)
qed

theorem served_queue_is_current_witness:
  "\<exists>v. serve_run sample_host sample_limits [DepositAt (sample_io 20 20) ''res'' ''b'' ''y'', EvictAt 30 ''res''] (fresh_serve sample_held) v
     \<and> ks_used (st_kinds (sv_store v) ''res'') = entry_costs (ks_d (st_kinds (sv_store v) ''res''))"
proof -
  obtain v where v: "serve_run sample_host sample_limits [DepositAt (sample_io 20 20) ''res'' ''b'' ''y'', EvictAt 30 ''res''] (fresh_serve sample_held) v"
    using sample_run by blast
  from served_queue_is_current [OF v sample_held_ok] v show ?thesis by blast
qed

section \<open>A race between two deposits\<close>

text \<open>
  \<open>_put\<close> removes the files of the entries it evicted after it has released the lock. A second thread may deposit the same key
  in between: the first thread then removes the file of the new entry. The relay has answered that the deposit is stored, serves it from
  memory, and loses it at the next restart. The run below is one thread evicting an entry past the retention, a second one
  depositing under the same key, and the first one removing the file.
\<close>

theorem evicted_file_race:
  "\<exists>es v. serve_run H sample_limits es (fresh_serve empty_store) v \<and> get_entry (sv_store v) ''res'' ''a'' = Some ''y''
     \<and> map_of (dk_files (the (st_disk (sv_store v))) ''res'') (fname H ''res'' ''a'') = None"
proof -
  let ?L = sample_limits and ?v0 = "fresh_serve empty_store"
  note defs = deposit_def stored_cost_def cost_def utf8_def utf8_char_def ENTRY_OVERHEAD_def WRITE_ONCE_def disk_write_def next_seq_def Let_def
      fill_transition_def fill_of_def FILL_ALARM_def FILL_REARM_def bump_version_def get_entry_def get_or_def set_kind_def sample_limits_def
      sample_io_def empty_store_def empty_kind_def fresh_serve_def
  obtain s1 r1 m1 where d1: "deposit H ?L (sample_io 10 10) ''res'' ''a'' ''x'' (sv_store ?v0) = (s1, r1, m1)" by (rule prod_cases3)
  have k1: "ks_d (st_kinds s1 ''res'') = [(''a'', ''x'')]" "ks_t (st_kinds s1 ''res'') = [(''a'', 10)]" "ks_used (st_kinds s1 ''res'') = 1026"
      "st_disk s1 \<noteq> None" "\<not> ks_alarmed (st_kinds s1 ''res'')" using d1 by (auto simp: defs)
  let ?v1 = "?v0\<lparr>sv_store := s1\<rparr>"
  obtain s2 ev m2 where e: "evict_section ?L 700000 ''res'' (sv_store ?v1) = (s2, ev, m2)" by (rule prod_cases3)
  have k2: "ev = [''a'']" "ks_d (st_kinds s2 ''res'') = []" "ks_t (st_kinds s2 ''res'') = []" "ks_used (st_kinds s2 ''res'') = 0" "st_disk s2 = st_disk s1"
      "\<not> ks_alarmed (st_kinds s2 ''res'')"
    using e k1 by (auto simp: evict_section_def get_or_def sample_limits_def cost_def utf8_def utf8_char_def ENTRY_OVERHEAD_def Let_def
        fill_transition_def fill_of_def FILL_ALARM_def FILL_REARM_def bump_version_def set_kind_def)
  let ?v2 = "?v1\<lparr>sv_store := s2, sv_removals := sv_removals ?v1 @ map (Pair ''res'') ev\<rparr>"
  obtain s3 r3 m3 where d3: "deposit H ?L (sample_io 700000 700000) ''res'' ''a'' ''y'' (sv_store ?v2) = (s3, r3, m3)" by (rule prod_cases3)
  obtain k where k: "st_disk s2 = Some k" using k1(4) k2(5) by auto
  have k3: "get_entry s3 ''res'' ''a'' = Some ''y''" "st_disk s3 \<noteq> None"
    using d3 k2(2-4,6) k by (auto simp: defs)
  let ?v3 = "?v2\<lparr>sv_store := s3\<rparr>"
  have in_removals: "(''res'', ''a'') \<in> set (sv_removals ?v3)" using k2(1) by simp
  let ?v4 = "?v3\<lparr>sv_store := remove_key H True ''res'' ''a'' (sv_store ?v3), sv_removals := remove1 (''res'', ''a'') (sv_removals ?v3)\<rparr>"
  have res: "''res'' \<in> set STORE_KINDS" by (simp add: STORE_KINDS_def)
  have "serve_run H ?L [DepositAt (sample_io 10 10) ''res'' ''a'' ''x'', EvictAt 700000 ''res'', DepositAt (sample_io 700000 700000) ''res'' ''a'' ''y'', FileRemoved] ?v0 ?v4"
    using Deposit [OF d1 res] Evict [OF e res] Deposit [OF d3 res] Remove [OF in_removals, of H ?L True] by (blast intro: Step Idle)
  moreover have "get_entry (sv_store ?v4) ''res'' ''a'' = Some ''y''" using k3(1) by (simp add: get_entry_def remove_key_def)
  moreover have "map_of (dk_files (the (st_disk (sv_store ?v4))) ''res'') (fname H ''res'' ''a'') = None"
    using k3(2) by (auto simp: remove_key_def disk_remove_def map_of_delete)
  ultimately show ?thesis by blast
qed

end
