(* ===== verification/Relay_Server.thy ===== *)
theory Relay_Server
  imports Relay_Start Relay_Write Relay_Serve
begin

text \<open>
  The requests of the relay, \<open>src/services/relay.py\<close>: the rate limit, the access policy, the token, the check of a signed deposit with
  the refresh of the registries and the counters, the checks of a paid request, the attestation gate, and \<open>do_POST\<close> and \<open>do_GET\<close>
  from the route to the status of the answer. An attestation is checked as \<open>src/services/modea/confine.py\<close> does. What a request carries is
  a record of its values: the headers of a signature are absent, malformed, or decoded (base64, integers and the verifier built from the
  account are standard or third-party code), the length is the integer the header gives, or raises. Elliptic-curve checks,
  \<open>json.loads\<close>, and the answers of the chain's gateway are parameters. A request that raises gets no answer.
\<close>

section \<open>Documents of the chain\<close>

definition JOB_OPEN_STATE :: string where
  "JOB_OPEN_STATE = ''open''"

definition job_of_doc :: "pyval \<Rightarrow> string \<Rightarrow> pydict option" where
  "job_of_doc d job_id = (case d of
     PDict m \<Rightarrow> (case dget m ''job'' of PDict j \<Rightarrow> if eq_str (dget j ''job_id'') job_id then Some j else None | _ \<Rightarrow> None)
   | _ \<Rightarrow> None)"

definition has_key :: "pydict \<Rightarrow> string \<Rightarrow> bool" where
  "has_key d k \<longleftrightarrow> k \<in> fst ` set d"

definition job_fee_from_doc :: "pyval \<Rightarrow> string \<Rightarrow> int option" where
  "job_fee_from_doc d job_id = (case job_of_doc d job_id of
     None \<Rightarrow> None
   | Some j \<Rightarrow>
       if \<not> has_key j ''fee'' then Some 0
       else (case dget j ''fee'' of
           PStr s \<Rightarrow> if s \<noteq> [] \<and> list_all is_digit s then Some (int (read_nat s)) else None
         | PInt i \<Rightarrow> if i \<ge> 0 then Some i else None
         | _ \<Rightarrow> None))"

definition job_state_from_doc :: "pyval \<Rightarrow> string \<Rightarrow> string option" where
  "job_state_from_doc d job_id = (case job_of_doc d job_id of
     None \<Rightarrow> None
   | Some j \<Rightarrow> if \<not> has_key j ''state'' then Some [] else text_of (dget j ''state''))"

definition committee_from_doc :: "pyval \<Rightarrow> string list option" where
  "committee_from_doc d = (case d of
     PDict m \<Rightarrow>
       if \<not> has_key m ''members'' then Some []
       else (case dget m ''members'' of
           PList xs \<Rightarrow> if list_all (\<lambda>x. full_text x \<noteq> None) xs then Some (map (\<lambda>x. the (text_of x)) xs) else None
         | _ \<Rightarrow> None)
   | _ \<Rightarrow> None)"

section \<open>Attestations\<close>

definition ATTEST_SCHEMA :: string where
  "ATTEST_SCHEMA = ''dendra-modea-attest-1''"

text \<open>\<open>verify_attestation\<close> with a list of hashes and no expected key; \<open>ed\<close> is the check of an Ed25519 signature.\<close>

definition verify_attestation :: "host \<Rightarrow> (string \<Rightarrow> string \<Rightarrow> string \<Rightarrow> bool) \<Rightarrow> string list \<Rightarrow> pyval \<Rightarrow> bool" where
  "verify_attestation H ed allowed att = (case att of
     PDict d \<Rightarrow>
       has_key d ''measured_hash'' \<and> has_key d ''attest_pubkey'' \<and> has_key d ''signature''
       \<and> eq_str (dget d ''schema'') ATTEST_SCHEMA
       \<and> (case (dget d ''measured_hash'', dget d ''attest_pubkey'', dget d ''signature'') of
            (PStr h, PStr pub, PStr sg) \<Rightarrow>
              (case (from_hex h, from_hex pub, from_hex sg) of
                 (Some hb, Some pb, Some sb) \<Rightarrow>
                   ed pb sb hb \<and> (has_key d ''measure'' \<longrightarrow> hexdigest (sha256 H (dumps_compact H (dget d ''measure''))) = h) \<and> h \<in> set allowed
               | _ \<Rightarrow> False)
          | _ \<Rightarrow> False)
   | _ \<Rightarrow> False)"

definition attest_ok :: "host \<Rightarrow> (string \<Rightarrow> string \<Rightarrow> string \<Rightarrow> bool) \<Rightarrow> (field \<Rightarrow> pyval result) \<Rightarrow> string list \<Rightarrow> store \<Rightarrow> string \<Rightarrow> bool" where
  "attest_ok H ed loads allow s mid =
     (if allow = [] then False
      else (case get_entry s ''attest'' mid of
          None \<Rightarrow> False
        | Some raw \<Rightarrow>
            if raw = [] then False
            else (case loads (FBytes raw) of
                Inl e \<Rightarrow> False
              | Inr att \<Rightarrow> verify_attestation H ed allow att
                  \<and> (case att of PDict d \<Rightarrow> eq_str (dget d ''miner_id'') mid | _ \<Rightarrow> False))))"

section \<open>The relay\<close>

record config =
  cf_sign :: sign_mode
  cf_registry :: bool
  cf_token :: string
  cf_token_prev :: string
  cf_price :: "int option"
  cf_attest_require :: bool
  cf_attest_allow :: "string list"
  cf_rate_max :: int
  cf_rate_window :: rat
  cf_kit_floor :: "int option"
  cf_kit_deadline :: "rat option"
  cf_limits :: limits

record sign_stats =
  sg_ok :: int
  sg_ko :: int
  sg_unsigned :: int
  sg_attributed :: int
  sg_unattributed :: int
  sg_stale_kit :: int
  sg_request_refused :: int

record relay =
  rl_serve :: serve
  rl_write :: "antireplay write_state"
  rl_attempt_miner :: rat
  rl_attempt_job :: rat
  rl_rate :: "(string, rat list) dict"
  rl_stats :: sign_stats
  rl_refusals :: "(reason option, int) dict"
  rl_prev_hits :: int
  rl_counters :: "(string, int) dict"

abbreviation rl_store :: "relay \<Rightarrow> store" where
  "rl_store r \<equiv> sv_store (rl_serve r)"

text \<open>What one pass of the check of a signature reads: the clocks and the chain's answers.\<close>

record pass =
  ps_now :: rat
  ps_job_clock :: "rat \<times> rat \<times> rat"
  ps_guard_clock :: "rat \<times> rat"
  ps_kit_now :: rat
  ps_job_reader :: "(string \<Rightarrow> pyval result) option"
  ps_committee :: "(string \<Rightarrow> pyval result) option"

record surroundings =
  su_host :: host
  su_loads :: "field \<Rightarrow> pyval result"
  su_ed :: "string \<Rightarrow> string \<Rightarrow> string \<Rightarrow> bool"
  su_rate_now :: rat
  su_mono :: "rat \<times> rat \<times> rat"
  su_wall :: "(rat \<times> rat) \<times> (rat \<times> rat) \<times> (rat \<times> rat)"
  su_miner_list :: "pyval result"
  su_job_list :: "pyval result"
  su_miner_again :: "pyval result"
  su_first :: pass
  su_second :: pass
  su_io :: put_io

datatype signed_headers = Missing | BadHeaders | Headers string string string int "string \<Rightarrow> string \<Rightarrow> string \<Rightarrow> bool result"

record request =
  rq_ip :: string
  rq_path :: string
  rq_token :: string
  rq_length :: "int result"
  rq_body :: string
  rq_headers :: signed_headers
  rq_none_match :: "string option"

section \<open>Rate limit and token\<close>

fun drop_old :: "rat \<Rightarrow> rat \<Rightarrow> rat list \<Rightarrow> rat list" where
  "drop_old window now [] = []"
| "drop_old window now (t # q) = (if now - t > window then drop_old window now q else t # q)"

definition inactive :: "rat \<Rightarrow> rat \<Rightarrow> rat list \<Rightarrow> bool" where
  "inactive window now q \<longleftrightarrow> q = [] \<or> now - last q > window"

definition rate_ok :: "config \<Rightarrow> rat \<Rightarrow> string \<Rightarrow> (string, rat list) dict \<Rightarrow> (string, rat list) dict \<times> bool" where
  "rate_ok C now ip rate =
     (let q = drop_old (cf_rate_window C) now (get_or rate ip []) in
      if int (length q) \<ge> cf_rate_max C then (AList.update ip q rate, False)
      else (let rate1 = AList.update ip (q @ [now]) rate;
                gone = take 4096 (map fst (filter (\<lambda>kq. inactive (cf_rate_window C) now (snd kq)) rate1))
            in (if length rate1 > 8192 then filter (\<lambda>kq. fst kq \<notin> set gone) rate1 else rate1, True)))"

text \<open>\<open>hmac.compare_digest\<close> on texts raises when either is not ASCII.\<close>

definition compare_digest :: "string \<Rightarrow> string \<Rightarrow> bool result" where
  "compare_digest a b = (if list_all is_ascii a \<and> list_all is_ascii b then Inr (a = b) else Inl TypeError)"

definition authed :: "config \<Rightarrow> string \<Rightarrow> int \<Rightarrow> int \<times> bool result" where
  "authed C got prev_hits =
     (if cf_token C = [] then (prev_hits, Inr True)
      else (case compare_digest got (cf_token C) of
          Inl e \<Rightarrow> (prev_hits, Inl e)
        | Inr cur \<Rightarrow>
            if cf_token_prev C = [] then (prev_hits, Inr cur)
            else (case compare_digest got (cf_token_prev C) of
                Inl e \<Rightarrow> (prev_hits, Inl e)
              | Inr prev \<Rightarrow> (if prev \<and> \<not> cur then prev_hits + 1 else prev_hits, Inr (cur \<or> prev)))))"

section \<open>Routes\<close>

text \<open>\<open>_route\<close>: the segments of the path, and the query set apart.\<close>

definition cut_query :: "string \<Rightarrow> string \<times> string" where
  "cut_query path = (takeWhile (\<lambda>c. c \<noteq> CHR ''?'') path, drop 1 (dropWhile (\<lambda>c. c \<noteq> CHR ''?'') path))"

definition route :: "string \<Rightarrow> string list \<times> string" where
  "route path = (filter (\<lambda>p. p \<noteq> []) (py_split ''/'' (fst (cut_query path))), snd (cut_query path))"

datatype policy = POLICY_OPEN | POLICY_TOKEN | POLICY_SIGNED_OR_TOKEN

datatype http_method = GET | POST

definition SIGNED_KINDS :: "string list" where
  "SIGNED_KINDS = [''pub'', ''res'', ''reveal'', ''attest'', ''req'']"

definition policy_of :: "string list \<Rightarrow> http_method \<Rightarrow> policy" where
  "policy_of parts m = (case parts of
     [] \<Rightarrow> POLICY_TOKEN
   | p # ps \<Rightarrow>
       if p = ''list'' then (if m = GET then POLICY_OPEN else POLICY_TOKEN)
       else if p = ''stats'' then POLICY_TOKEN
       else if length parts = 2 \<and> p \<in> set STORE_KINDS then
         (if m = GET then POLICY_OPEN else if p \<in> set SIGNED_KINDS then POLICY_SIGNED_OR_TOKEN else POLICY_TOKEN)
       else POLICY_TOKEN)"

definition count_event :: "string \<Rightarrow> relay \<Rightarrow> relay" where
  "count_event name r = r\<lparr>rl_counters := bump (rl_counters r) name 1\<rparr>"

definition count_code :: "int \<Rightarrow> relay \<Rightarrow> relay" where
  "count_code code r = count_event (''http_'' @ show_int code) r"

text \<open>\<open>_send\<close>: the status that is answered, counted.\<close>

definition send :: "int \<Rightarrow> relay \<Rightarrow> relay \<times> int option" where
  "send code r = (count_code code r, Some code)"

text \<open>\<open>_guard\<close>: pass, answered, or raised.\<close>

datatype guarded_by = Pass | Answered int | Raised

definition guard_request :: "config \<Rightarrow> surroundings \<Rightarrow> request \<Rightarrow> policy \<Rightarrow> relay \<Rightarrow> relay \<times> guarded_by" where
  "guard_request C W rq pol r =
     (let (rate, ok) = rate_ok C (su_rate_now W) (rq_ip rq) (rl_rate r); r1 = r\<lparr>rl_rate := rate\<rparr> in
      if \<not> ok then (count_code 429 r1, Answered 429)
      else if pol = POLICY_OPEN then (r1, Pass)
      else (case authed C (rq_token rq) (rl_prev_hits r1) of
          (h, Inl e) \<Rightarrow> (r1\<lparr>rl_prev_hits := h\<rparr>, Raised)
        | (h, Inr True) \<Rightarrow> (r1\<lparr>rl_prev_hits := h\<rparr>, Pass)
        | (h, Inr False) \<Rightarrow> (count_code 401 (r1\<lparr>rl_prev_hits := h\<rparr>), Answered 401)))"

section \<open>The check of a signed deposit\<close>

definition KEY_IS_THE_MINER :: "string list" where
  "KEY_IS_THE_MINER = [''pub'', ''attest'']"

definition miner_named_by_key :: "string \<Rightarrow> string \<Rightarrow> string option" where
  "miner_named_by_key kind key =
     (if kind \<in> set KEY_IS_THE_MINER then (if key = [] then None else Some key) else map_option snd (cut_last key))"

definition REGISTRY_RETRY :: rat where
  "REGISTRY_RETRY = 30"

text \<open>\<open>_refresh_cache\<close> for the miners, then for the jobs: what was attempted, and the state.\<close>

definition refresh_miners :: "config \<Rightarrow> bool \<Rightarrow> rat \<Rightarrow> rat \<times> rat \<Rightarrow> pyval result \<Rightarrow> relay \<Rightarrow> relay \<times> bool" where
  "refresh_miners C unknown_miner tick wall answer r =
     (case (cf_registry C, ws_registry (rl_write r)) of
        (True, Some reg) \<Rightarrow>
          if state reg (fst wall) = FEES \<and> \<not> unknown_miner then (r, False)
          else if tick - rl_attempt_miner r < REGISTRY_RETRY then (r, False)
          else ((if unknown_miner then count_event ''registry_reread_unknown_miner'' r else r)
                  \<lparr>rl_attempt_miner := tick, rl_write := (rl_write r)\<lparr>ws_registry := Some (fst (refresh answer (snd wall) reg))\<rparr>\<rparr>, True)
      | _ \<Rightarrow> (r, False))"

definition refresh_job_list :: "config \<Rightarrow> rat \<Rightarrow> rat \<times> rat \<Rightarrow> pyval result \<Rightarrow> relay \<Rightarrow> relay" where
  "refresh_job_list C tick wall answer r =
     (case (cf_registry C, ws_jobs (rl_write r)) of
        (True, Some j) \<Rightarrow>
          if state j (fst wall) = FEES then r
          else if tick - rl_attempt_job r < REGISTRY_RETRY then r
          else r\<lparr>rl_attempt_job := tick, rl_write := (rl_write r)\<lparr>ws_jobs := Some (fst (refresh_jobs answer (snd wall) j))\<rparr>\<rparr>
      | _ \<Rightarrow> r)"

text \<open>\<open>_request_refusal\<close>: why a paid request may not be written, or nothing.\<close>

definition request_refusal :: "config \<Rightarrow> surroundings \<Rightarrow> pass \<Rightarrow> store \<Rightarrow> string \<Rightarrow> reason option result" where
  "request_refusal C W P s key =
     (case (cf_price C, cut_last key) of
        (None, _) \<Rightarrow> Inr (Some PRICE_UNSET)
      | (Some price, None) \<Rightarrow> Inl ValueError
      | (Some price, Some (jid, mid)) \<Rightarrow>
          (let doc = (case ps_job_reader P of None \<Rightarrow> None | Some rd \<Rightarrow> (case rd jid of Inl e \<Rightarrow> None | Inr d \<Rightarrow> Some d));
               fee = Option.bind doc (\<lambda>d. job_fee_from_doc d jid);
               st = Option.bind doc (\<lambda>d. job_state_from_doc d jid);
               members = (case ps_committee P of None \<Rightarrow> None | Some rd \<Rightarrow> (case rd jid of Inl e \<Rightarrow> None | Inr d \<Rightarrow> committee_from_doc d))
           in Inr (case (fee, st, members) of
                (None, _, _) \<Rightarrow> Some FEE_UNREADABLE
              | (Some f, None, _) \<Rightarrow> Some JOB_STATE_UNREADABLE
              | (Some f, Some x, ms) \<Rightarrow>
                  if x \<noteq> JOB_OPEN_STATE then Some JOB_NOT_OPEN
                  else if f < price then Some UNDERPAID
                  else (case ms of
                      None \<Rightarrow> Some COMMITTEE_UNREADABLE
                    | Some xs \<Rightarrow>
                        if mid \<notin> set xs then Some UNASSIGNED_MINER
                        else if cf_attest_require C \<and> \<not> attest_ok (su_host W) (su_ed W) (su_loads W) (cf_attest_allow C) s mid
                        then Some NOT_ATTESTED
                        else None))))"

text \<open>\<open>PaidBeforeReplay.verify\<close>: the checks of a request come before the guard records the digest.\<close>

definition paid_guard :: "reason option result \<Rightarrow> rat \<times> rat \<Rightarrow> antireplay \<Rightarrow> field \<Rightarrow> height_arg \<Rightarrow> field \<Rightarrow> pyval \<Rightarrow> antireplay \<times> guard_answer result" where
  "paid_guard refusal clk g writing_key height digest head =
     (case refusal of
        Inl e \<Rightarrow> (g, Inl e)
      | Inr (Some x) \<Rightarrow> (g, Inr \<lparr>ga_accepted = False, ga_regime = None, ga_reason = Some x\<rparr>)
      | Inr None \<Rightarrow> map_prod id (map_sum id answer_of) (verify clk g writing_key height digest head))"

definition REQUEST_REFUSALS :: "reason list" where
  "REQUEST_REFUSALS = [PRICE_UNSET, UNDERPAID, FEE_UNREADABLE, UNASSIGNED_MINER, COMMITTEE_UNREADABLE, NOT_ATTESTED, JOB_NOT_OPEN,
     JOB_STATE_UNREADABLE]"

definition BEFORE_SIGNATURE :: "reason list" where
  "BEFORE_SIGNATURE = [MALFORMED, INVALID_SIGNATURE, UNREADABLE_HEIGHT]"

text \<open>What \<open>verify_write\<close> is called with, in one pass; \<open>kit_floor_now\<close> raises on half a policy, on which \<open>main\<close> does not start.\<close>

definition write_env_of :: "config \<Rightarrow> surroundings \<Rightarrow> pass \<Rightarrow> (string \<Rightarrow> string \<Rightarrow> string \<Rightarrow> bool result) \<Rightarrow> int option \<Rightarrow> string \<Rightarrow> string \<Rightarrow> store
    \<Rightarrow> antireplay write_env" where
  "write_env_of C W P verif kit kind key s =
     \<lparr>we_loads = su_loads W, we_signature = verif, we_job_reader = ps_job_reader P, we_now = ps_now P, we_job_clock = ps_job_clock P,
      we_fresh_only = False, we_kit_floor = kit,
      we_guard = paid_guard (if kind = ''req'' then request_refusal C W P s key else Inr None) (ps_guard_clock P), we_head = PNone\<rparr>"

definition write_of :: "string \<Rightarrow> string \<Rightarrow> string \<Rightarrow> string \<Rightarrow> int \<Rightarrow> string \<Rightarrow> string \<Rightarrow> signed_write" where
  "write_of kind key body miner height pub sig = \<lparr>sw_kind = FText kind, sw_key = FText key, sw_body = FBytes body, sw_miner = FText miner,
     sw_height = PInt height, sw_pubkey = FBytes pub, sw_signature = FBytes sig\<rparr>"

definition verify_pass :: "config \<Rightarrow> surroundings \<Rightarrow> pass \<Rightarrow> (string \<Rightarrow> string \<Rightarrow> string \<Rightarrow> bool result) \<Rightarrow> string \<Rightarrow> string \<Rightarrow> signed_write
    \<Rightarrow> relay \<Rightarrow> relay \<times> write_result result" where
  "verify_pass C W P verif kind key w r =
     (case floor_in_force (cf_kit_floor C) (cf_kit_deadline C) (ps_kit_now P) of
        Inl e \<Rightarrow> (r, Inl e)
      | Inr kit \<Rightarrow>
          (case verdict_of (su_host W) (write_env_of C W P verif kit kind key (rl_store r)) (rl_write r) w of
             (ws, x) \<Rightarrow> (r\<lparr>rl_write := ws\<rparr>, x)))"

datatype why = WOff | WUnsigned | WMalformed | WReason "reason option" | WSigned

definition count_refusal :: "reason option \<Rightarrow> relay \<Rightarrow> relay" where
  "count_refusal x r = r\<lparr>rl_refusals := bump (rl_refusals r) x 1\<rparr>"

definition stat :: "(sign_stats \<Rightarrow> sign_stats) \<Rightarrow> relay \<Rightarrow> relay" where
  "stat f r = r\<lparr>rl_stats := f (rl_stats r)\<rparr>"

text \<open>The counters of a verdict, and the address it is attributed to.\<close>

definition settle :: "string \<Rightarrow> write_result \<Rightarrow> relay \<Rightarrow> relay \<times> string option \<times> why" where
  "settle kind w r =
     (if wr_accepted w then
        (let r1 = stat (\<lambda>g. g\<lparr>sg_ok := sg_ok g + 1\<rparr>) r in
         case attributed_to w of
           None \<Rightarrow> (count_refusal (Some EMPTY_ATTRIBUTION) (stat (\<lambda>g. g\<lparr>sg_unattributed := sg_unattributed g + 1\<rparr>) r1), None, WReason (Some EMPTY_ATTRIBUTION))
         | Some a \<Rightarrow>
             if a = [] then (count_refusal (Some EMPTY_ATTRIBUTION) (stat (\<lambda>g. g\<lparr>sg_unattributed := sg_unattributed g + 1\<rparr>) r1), None, WReason (Some EMPTY_ATTRIBUTION))
             else (stat (\<lambda>g. g\<lparr>sg_attributed := sg_attributed g + 1\<rparr>) r1, Some a, WSigned))
      else
        (let x = wr_reason w; r1 = count_refusal x r in
         (if x \<in> Some ` set BEFORE_SIGNATURE then stat (\<lambda>g. g\<lparr>sg_ko := sg_ko g + 1\<rparr>) r1
          else if x = Some STALE_KIT then stat (\<lambda>g. g\<lparr>sg_ok := sg_ok g + 1, sg_stale_kit := sg_stale_kit g + 1\<rparr>) r1
          else if kind = ''req'' \<and> x \<in> Some ` set REQUEST_REFUSALS then stat (\<lambda>g. g\<lparr>sg_ok := sg_ok g + 1, sg_request_refused := sg_request_refused g + 1\<rparr>) r1
          else stat (\<lambda>g. g\<lparr>sg_ok := sg_ok g + 1, sg_unattributed := sg_unattributed g + 1\<rparr>) r1,
          None, WReason x)))"

definition verify_write_request :: "config \<Rightarrow> surroundings \<Rightarrow> signed_headers \<Rightarrow> string \<Rightarrow> string \<Rightarrow> string \<Rightarrow> relay
    \<Rightarrow> relay \<times> (string option \<times> why) result" where
  "verify_write_request C W hs kind key body r =
     (if cf_sign C = SignOff then (r, Inr (None, WOff))
      else (case hs of
          Missing \<Rightarrow> (stat (\<lambda>g. g\<lparr>sg_unsigned := sg_unsigned g + 1\<rparr>) r, Inr (None, WUnsigned))
        | BadHeaders \<Rightarrow> (stat (\<lambda>g. g\<lparr>sg_ko := sg_ko g + 1\<rparr>) r, Inr (None, WMalformed))
        | Headers pub sig miner height verif \<Rightarrow>
            if miner_named_by_key kind key \<noteq> Some miner
            then (count_refusal (Some KEY_MISMATCH) (stat (\<lambda>g. g\<lparr>sg_ko := sg_ko g + 1\<rparr>) r), Inr (None, WReason (Some KEY_MISMATCH)))
            else
              (let (m1, m2, m3) = su_mono W; (w1, w2, w3) = su_wall W;
                   r1 = fst (refresh_miners C False m1 w1 (su_miner_list W) r);
                   r2 = refresh_job_list C m2 w2 (su_job_list W) r1;
                   w = write_of kind key body miner height pub sig
               in case verify_pass C W (su_first W) verif kind key w r2 of
                    (r3, Inl e) \<Rightarrow> (r3, Inl e)
                  | (r3, Inr x) \<Rightarrow>
                      (let (r4, again) = (if \<not> wr_accepted x \<and> wr_reason x = Some UNKNOWN_MINER
                                          then refresh_miners C True m3 w3 (su_miner_again W) r3 else (r3, False))
                       in if again then
                            (case verify_pass C W (su_second W) verif kind key w r4 of
                               (r5, Inl e) \<Rightarrow> (r5, Inl e)
                             | (r5, Inr y) \<Rightarrow> map_prod id Inr (settle kind y r5))
                          else map_prod id Inr (settle kind x r4)))))"

section \<open>Requests\<close>

definition MAX_BODY :: int where
  "MAX_BODY = 1048576"

definition deposit_status :: "put_error + unit \<Rightarrow> int option" where
  "deposit_status x = (case x of
     Inr u \<Rightarrow> Some 200 | Inl Conflict \<Rightarrow> Some 409 | Inl StoreFull \<Rightarrow> Some 507 | Inl StoreUnavailable \<Rightarrow> Some 503
   | Inl (DiskError e) \<Rightarrow> if e = OSError then Some 503 else None)"

definition store_deposit :: "config \<Rightarrow> surroundings \<Rightarrow> string \<Rightarrow> string \<Rightarrow> string \<Rightarrow> relay \<Rightarrow> relay \<times> int option" where
  "store_deposit C W kind key data r =
     (case put (su_host W) (cf_limits C) (su_io W) kind key data (rl_store r) of
        (s1, x, said) \<Rightarrow> (case deposit_status x of
            None \<Rightarrow> (r\<lparr>rl_serve := (rl_serve r)\<lparr>sv_store := s1\<rparr>\<rparr>, None)
          | Some code \<Rightarrow> send code (r\<lparr>rl_serve := (rl_serve r)\<lparr>sv_store := s1\<rparr>\<rparr>)))"

text \<open>The token as the fallback of a deposit that is not attributed.\<close>

definition token_fallback :: "config \<Rightarrow> string \<Rightarrow> request \<Rightarrow> int \<Rightarrow> int \<times> bool result" where
  "token_fallback C kind rq hits =
     (if cf_sign C = SignEnforce \<and> kind \<noteq> ''req'' then (if cf_token C = [] then (hits, Inr False) else authed C (rq_token rq) hits)
      else authed C (rq_token rq) hits)"

text \<open>The attestation gate of \<open>do_POST\<close>: the miner is what follows the first separator of the key.\<close>

fun after_first :: "string \<Rightarrow> string" where
  "after_first [] = []"
| "after_first (c # s) = (if starts (c # s) ''__'' then drop 2 (c # s) else after_first s)"

definition gate_closed :: "config \<Rightarrow> surroundings \<Rightarrow> string \<Rightarrow> string \<Rightarrow> store \<Rightarrow> bool" where
  "gate_closed C W kind key s \<longleftrightarrow> cf_attest_require C \<and> kind = ''req''
     \<and> (after_first key = [] \<or> \<not> attest_ok (su_host W) (su_ed W) (su_loads W) (cf_attest_allow C) s (after_first key))"

definition gated_deposit :: "config \<Rightarrow> surroundings \<Rightarrow> string \<Rightarrow> string \<Rightarrow> string \<Rightarrow> relay \<Rightarrow> relay \<times> int option" where
  "gated_deposit C W kind key data r = (if gate_closed C W kind key (rl_store r) then send 403 r else store_deposit C W kind key data r)"

definition post_entry :: "config \<Rightarrow> surroundings \<Rightarrow> request \<Rightarrow> policy \<Rightarrow> string \<Rightarrow> string \<Rightarrow> string \<Rightarrow> relay \<Rightarrow> relay \<times> int option" where
  "post_entry C W rq pol kind key data r =
     (case verify_write_request C W (rq_headers rq) kind key data r of
        (r1, Inl e) \<Rightarrow> (r1, None)
      | (r1, Inr (writer, why)) \<Rightarrow>
          if pol = POLICY_SIGNED_OR_TOKEN then
            (case token_fallback C kind rq (rl_prev_hits r1) of
               (h, Inl e) \<Rightarrow> (r1\<lparr>rl_prev_hits := h\<rparr>, None)
             | (h, Inr tok) \<Rightarrow>
                 (let r2 = r1\<lparr>rl_prev_hits := h\<rparr> in
                  if writer = None \<and> \<not> tok then send 401 r2 else gated_deposit C W kind key data r2))
          else gated_deposit C W kind key data r1)"

definition do_POST :: "config \<Rightarrow> surroundings \<Rightarrow> request \<Rightarrow> relay \<Rightarrow> relay \<times> int option" where
  "do_POST C W rq r =
     (let (parts, query) = route (rq_path rq); pol = policy_of parts POST in
      case guard_request C W rq (if pol = POLICY_SIGNED_OR_TOKEN then POLICY_OPEN else pol) r of
        (r1, Raised) \<Rightarrow> (r1, None)
      | (r1, Answered code) \<Rightarrow> (r1, Some code)
      | (r1, Pass) \<Rightarrow>
          if query \<noteq> [] then send 400 r1
          else (case rq_length rq of
              Inl e \<Rightarrow> (r1, None)
            | Inr n \<Rightarrow>
                if n < 0 \<or> n > MAX_BODY then send 413 r1
                else (let data = (if n = 0 then [] else rq_body rq) in
                  case parts of
                    [kind, key] \<Rightarrow> if kind \<in> set STORE_KINDS then post_entry C W rq pol kind key data r1 else send 404 r1
                  | _ \<Rightarrow> send 404 r1)))"

text \<open>\<open>do_GET\<close>: the status and the bytes served; the aggregate counters of \<open>/stats\<close> are not modelled.\<close>

definition list_answer :: "host \<Rightarrow> string option \<Rightarrow> serve \<Rightarrow> serve \<times> string \<times> string" where
  "list_answer H suffix v =
     (let slot = (case suffix of None \<Rightarrow> [] | Some s \<Rightarrow> s) in
      case list_lookup H suffix v of
        (v1, Inl (body, tag)) \<Rightarrow> (v1, body, tag)
      | (v1, Inr body) \<Rightarrow>
          if int (length body) > LIST_CACHE_MAX_BYTES then (v1, body, etag H body)
          else ((list_file H slot (st_version (sv_store v)) body v1)\<lparr>sv_built := sv_built v\<rparr>, body, etag H body))"

definition do_GET :: "config \<Rightarrow> surroundings \<Rightarrow> (string \<Rightarrow> (string, string list) dict result) \<Rightarrow> request \<Rightarrow> relay \<Rightarrow> relay \<times> (int \<times> string option) option" where
  "do_GET C W parse_qs rq r =
     (let (parts, query) = route (rq_path rq); answer = (\<lambda>code body r. (count_code code r, Some (code, body))) in
      case guard_request C W rq (policy_of parts GET) r of
        (r1, Raised) \<Rightarrow> (r1, None)
      | (r1, Answered code) \<Rightarrow> (r1, Some (code, None))
      | (r1, Pass) \<Rightarrow>
          if parts = [''list''] then
            (case list_suffix parse_qs query of
               Inl e \<Rightarrow> answer 400 None r1
             | Inr suffix \<Rightarrow>
                 (case list_answer (su_host W) suffix (rl_serve r1) of
                    (v1, body, tag) \<Rightarrow>
                      (let r2 = r1\<lparr>rl_serve := v1\<rparr> in
                       if etag_matches (rq_none_match rq) tag then answer 304 None r2 else answer 200 (Some body) r2)))
          else if query \<noteq> [] then answer 400 None r1
          else if parts = [''stats''] then answer 200 None r1
          else (case parts of
              [kind, key] \<Rightarrow>
                if kind \<in> set STORE_KINDS then
                  (case get_entry (rl_store r1) kind key of None \<Rightarrow> answer 404 None r1 | Some d \<Rightarrow> answer 200 (Some d) r1)
                else answer 404 None r1
            | _ \<Rightarrow> answer 404 None r1))"

section \<open>What is not touched\<close>

lemma relay_parts [simp]:
  "rl_serve (count_event n r) = rl_serve r" "rl_write (count_event n r) = rl_write r"
  "rl_serve (count_code c r) = rl_serve r" "rl_write (count_code c r) = rl_write r"
  "rl_serve (count_refusal x r) = rl_serve r" "rl_write (count_refusal x r) = rl_write r"
  "rl_serve (stat f r) = rl_serve r" "rl_write (stat f r) = rl_write r"
  by (simp_all add: count_event_def count_code_def count_refusal_def stat_def)

lemma guard_request_serve:
  "rl_serve (fst (guard_request C W rq pol r)) = rl_serve r" "rl_write (fst (guard_request C W rq pol r)) = rl_write r"
  by (auto simp: guard_request_def Let_def split: prod.splits sum.splits bool.splits)

lemma refresh_serve:
  "rl_serve (fst (refresh_miners C u tick wall answer r)) = rl_serve r" "rl_serve (refresh_job_list C tick wall answer r) = rl_serve r"
  "ws_guard (rl_write (fst (refresh_miners C u tick wall answer r))) = ws_guard (rl_write r)"
  "ws_guard (rl_write (refresh_job_list C tick wall answer r)) = ws_guard (rl_write r)"
  by (auto simp: refresh_miners_def refresh_job_list_def split: option.splits bool.splits)

lemma settle_parts:
  "rl_serve (fst (settle kind w r)) = rl_serve r" "rl_write (fst (settle kind w r)) = rl_write r"
  by (auto simp: settle_def Let_def split: option.splits)

lemma settle_writer:
  assumes "settle kind w r = (r1, Some a, why)"
  shows "wr_accepted w \<and> attributed_to w = Some a \<and> a \<noteq> []"
  using assms by (auto simp: settle_def Let_def split: if_splits option.splits)

lemma verify_pass_serve: "rl_serve (fst (verify_pass C W P verif kind key w r)) = rl_serve r"
  by (auto simp: verify_pass_def split: sum.splits prod.splits)

section \<open>A verdict of the relay\<close>

text \<open>Exactly when the checks of a paid request find nothing to refuse.\<close>

definition paid_for :: "config \<Rightarrow> pass \<Rightarrow> string \<Rightarrow> bool" where
  "paid_for C P key \<longleftrightarrow> (\<exists>price jid mid rd d fee crd c xs. cf_price C = Some price \<and> cut_last key = Some (jid, mid)
     \<and> ps_job_reader P = Some rd \<and> rd jid = Inr d \<and> job_fee_from_doc d jid = Some fee \<and> price \<le> fee
     \<and> job_state_from_doc d jid = Some JOB_OPEN_STATE
     \<and> ps_committee P = Some crd \<and> crd jid = Inr c \<and> committee_from_doc c = Some xs \<and> mid \<in> set xs)"

lemma request_refusal_None:
  assumes "request_refusal C W P s key = Inr None"
  shows "paid_for C P key"
proof -
  obtain price jid mid where k: "cf_price C = Some price" "cut_last key = Some (jid, mid)"
    using assms by (auto simp: request_refusal_def split: option.splits)
  obtain rd d where rd: "ps_job_reader P = Some rd" "rd jid = Inr d"
    using assms k by (auto simp: request_refusal_def Let_def split: option.splits sum.splits)
  obtain fee x where f: "job_fee_from_doc d jid = Some fee" "job_state_from_doc d jid = Some x"
    using assms k rd by (auto simp: request_refusal_def Let_def split: option.splits)
  have "x = JOB_OPEN_STATE" "price \<le> fee" using assms k rd f by (auto simp: request_refusal_def Let_def split: if_splits option.splits)
  moreover obtain crd c xs where "ps_committee P = Some crd" "crd jid = Inr c" "committee_from_doc c = Some xs" "mid \<in> set xs"
    using assms k rd f calculation by (auto simp: request_refusal_def Let_def split: option.splits sum.splits if_splits)
  ultimately show ?thesis using k rd f unfolding paid_for_def by blast
qed

lemma guarded_answer:
  assumes "guarded E g0 w pk h dig a s' (Inr r)"
  shows "\<exists>ans. we_guard E g0 (FBytes pk) (Sealed h) (FBytes dig) (we_head E) = (ws_guard s', Inr ans)
    \<and> wr_accepted r = ga_accepted ans \<and> attributed_to r = Some a"
proof -
  obtain y where y: "we_guard E g0 (FBytes pk) (Sealed h) (FBytes dig) (we_head E) = (ws_guard s', y)"
    "case y of Inl e \<Rightarrow> Inr r = (Inl e :: write_result result)
      | Inr ans \<Rightarrow> (\<exists>r'. Inr r = (Inr r' :: write_result result) \<and> wr_accepted r' = ga_accepted ans \<and> wr_regime r' = ga_regime ans
            \<and> wr_reason r' = (if ga_accepted ans then None else ga_reason ans) \<and> attributed_to r' = Some a
            \<and> wr_height r' = Some h \<and> wr_role r' = Some (role_of_kind (sw_kind w)))"
    using assms unfolding guarded_def by blast
  then show ?thesis by (cases y) auto
qed

text \<open>An accepted write: authenticated, and for a request, paid.\<close>

lemma verify_pass_accepted:
  assumes sha: "sha_length (su_host W)" and v: "verify_pass C W P verif kind key (write_of kind key body miner height pub sig) r = (r1, Inr x)"
    and acc: "wr_accepted x"
  shows "\<exists>kit m a. floor_in_force (cf_kit_floor C) (cf_kit_deadline C) (ps_kit_now P) = Inr kit \<and> attributed_to x = Some a
    \<and> authenticated (su_host W) (write_env_of C W P verif kit kind key (rl_store r)) (rl_write r) (write_of kind key body miner height pub sig) pub m height a
    \<and> (kind = ''req'' \<longrightarrow> paid_for C P key)"
proof -
  let ?w = "write_of kind key body miner height pub sig"
  obtain kit where kit: "floor_in_force (cf_kit_floor C) (cf_kit_deadline C) (ps_kit_now P) = Inr kit"
    using v by (auto simp: verify_pass_def split: sum.splits)
  let ?E = "write_env_of C W P verif kit kind key (rl_store r)"
  obtain ws where vd: "verdict_of (su_host W) ?E (rl_write r) ?w = (ws, Inr x)"
    using v kit by (auto simp: verify_pass_def split: prod.splits)
  have "\<not> turned_away (Inr x)" using acc by (simp add: turned_away_def)
  with verdict_cases [OF sha vd] obtain pk m h a where A: "authenticated (su_host W) ?E (rl_write r) ?w pk m h a"
      "guarded ?E (ws_guard (rl_write r)) ?w pk h (sha256 (su_host W) m) a ws (Inr x)" by blast
  have pkh: "pk = pub" "h = height" using authenticated_message [OF A(1)] by (auto simp: write_of_def)
  obtain ans where g: "we_guard ?E (ws_guard (rl_write r)) (FBytes pk) (Sealed h) (FBytes (sha256 (su_host W) m)) (we_head ?E) = (ws_guard ws, Inr ans)"
      "wr_accepted x = ga_accepted ans" "attributed_to x = Some a"
    using guarded_answer [OF A(2)] by blast
  have "kind = ''req'' \<Longrightarrow> request_refusal C W P (rl_store r) key = Inr None"
    using g(1,2) acc by (auto simp: write_env_of_def paid_guard_def split: sum.splits option.splits)
  then have "kind = ''req'' \<longrightarrow> paid_for C P key" using request_refusal_None by blast
  then show ?thesis using kit g(3) A(1) pkh by blast
qed

text \<open>The deposit carries a signature by the address the chain names for it.\<close>

definition signed_by :: "config \<Rightarrow> surroundings \<Rightarrow> request \<Rightarrow> string \<Rightarrow> string \<Rightarrow> string \<Rightarrow> string \<Rightarrow> bool" where
  "signed_by C W rq kind key body a \<longleftrightarrow> cf_sign C \<noteq> SignOff \<and> (\<exists>pub sig miner height verif P kit s ws m.
     rq_headers rq = Headers pub sig miner height verif \<and> miner_named_by_key kind key = Some miner \<and> P \<in> {su_first W, su_second W}
     \<and> authenticated (su_host W) (write_env_of C W P verif kit kind key s) ws (write_of kind key body miner height pub sig) pub m height a
     \<and> (kind = ''req'' \<longrightarrow> paid_for C P key))"

lemma map_prod_Inr [simp]: "map_prod id Inr p = (x, Inr y) \<longleftrightarrow> p = (x, y)"
  by (cases p) simp

lemma writer_signed:
  assumes sha: "sha_length (su_host W)" and v: "verify_write_request C W (rq_headers rq) kind key body r = (r1, Inr (Some a, why))"
  shows "signed_by C W rq kind key body a \<and> a \<noteq> []"
proof -
  obtain pub sig miner height verif where hs: "rq_headers rq = Headers pub sig miner height verif" and on: "cf_sign C \<noteq> SignOff"
    and named: "miner_named_by_key kind key = Some miner"
    using v by (auto simp: verify_write_request_def split: if_splits signed_headers.splits)
  obtain m1 m2 m3 where mono: "su_mono W = (m1, m2, m3)" by (rule prod_cases3)
  obtain w1 w2 w3 where wall: "su_wall W = (w1, w2, w3)" by (rule prod_cases3)
  let ?w = "write_of kind key body miner height pub sig"
  let ?r2 = "refresh_job_list C m2 w2 (su_job_list W) (fst (refresh_miners C False m1 w1 (su_miner_list W) r))"
  obtain r3 y1 where p1: "verify_pass C W (su_first W) verif kind key ?w ?r2 = (r3, y1)" by (cases "verify_pass C W (su_first W) verif kind key ?w ?r2")
  then obtain x where y1: "y1 = Inr x"
    using v hs on named mono wall by (cases y1) (auto simp: verify_write_request_def Let_def)
  have ended: "signed_by C W rq kind key body a \<and> a \<noteq> []"
    if P: "P \<in> {su_first W, su_second W}" and vp: "verify_pass C W P verif kind key ?w r' = (r'', Inr y)" and st: "settle kind y r5 = (r6, Some a, why)" for P r' r'' y r5 r6
  proof -
    have y: "wr_accepted y" "attributed_to y = Some a" "a \<noteq> []" using settle_writer [OF st] by auto
    from verify_pass_accepted [OF sha vp y(1)] y(2) obtain kit m where
      "authenticated (su_host W) (write_env_of C W P verif kit kind key (rl_store r')) (rl_write r') ?w pub m height a"
      "kind = ''req'' \<longrightarrow> paid_for C P key" by auto
    then show ?thesis using P hs on named y(3) unfolding signed_by_def by blast
  qed
  show ?thesis
  proof (cases "\<not> wr_accepted x \<and> wr_reason x = Some UNKNOWN_MINER \<and> snd (refresh_miners C True m3 w3 (su_miner_again W) r3)")
    case True
    let ?r4 = "fst (refresh_miners C True m3 w3 (su_miner_again W) r3)"
    obtain r5 y2 where p2: "verify_pass C W (su_second W) verif kind key ?w ?r4 = (r5, y2)" by (cases "verify_pass C W (su_second W) verif kind key ?w ?r4")
    then obtain y where "y2 = Inr y" "settle kind y r5 = (r1, Some a, why)"
      using v hs on named mono wall p1 y1 True
      by (cases y2; cases "refresh_miners C True m3 w3 (su_miner_again W) r3") (auto simp: verify_write_request_def Let_def split: prod.splits)
    then show ?thesis using ended [of "su_second W" ?r4 r5 y] p2 by blast
  next
    case False
    then have "\<exists>r5. settle kind x r5 = (r1, Some a, why)"
      using v hs on named mono wall p1 y1
      by (auto simp: verify_write_request_def Let_def split: prod.splits if_splits)
    then show ?thesis using ended [of "su_first W" ?r2 r3 x] p1 y1 by blast
  qed
qed

lemma verify_write_request_serve: "rl_serve (fst (verify_write_request C W hs kind key body r)) = rl_serve r"
proof -
  obtain m1 m2 m3 where mono: "su_mono W = (m1, m2, m3)" by (rule prod_cases3)
  obtain w1 w2 w3 where wall: "su_wall W = (w1, w2, w3)" by (rule prod_cases3)
  have vp: "verify_pass C W P verif kind key w r' = (r'', y) \<Longrightarrow> rl_serve r'' = rl_serve r'" for P verif w r' r'' y
    using verify_pass_serve [of C W P verif kind key w r'] by simp
  have rm: "refresh_miners C u t wl an r' = (r'', b) \<Longrightarrow> rl_serve r'' = rl_serve r'" for u t wl an r' r'' b
    using refresh_serve(1) [of C u t wl an r'] by simp
  show ?thesis
    unfolding verify_write_request_def Let_def mono wall
    by (auto simp: settle_parts refresh_serve map_prod_def split: signed_headers.splits prod.splits sum.splits if_splits
        dest!: vp rm) (metis fst_conv settle_parts(1))+
qed

section \<open>Authorised deposits\<close>

lemma compare_digest_true: "compare_digest a b = Inr True \<Longrightarrow> a = b"
  by (auto simp: compare_digest_def split: if_splits)

definition presents_token :: "config \<Rightarrow> request \<Rightarrow> bool" where
  "presents_token C rq \<longleftrightarrow> cf_token C \<noteq> [] \<and> (rq_token rq = cf_token C \<or> cf_token_prev C \<noteq> [] \<and> rq_token rq = cf_token_prev C)"

lemma authed_true:
  assumes "authed C (rq_token rq) h = (h1, Inr True)"
  shows "cf_token C = [] \<or> presents_token C rq"
  using assms by (auto simp: authed_def presents_token_def compare_digest_def split: if_splits)

lemma put_stored:
  assumes "put H L io kind key data s = (s1, Inr (), said)"
  shows "get_entry s1 kind key = Some data"
proof -
  obtain s0 ev said1 where e: "evict_section L (io_now io) kind s = (s0, ev, said1)" by (rule prod_cases3)
  let ?s2 = "foldl (\<lambda>s k. remove_key H (io_remove io k) kind k s) s0 ev"
  obtain s3 r said2 where d: "deposit H L io kind key data ?s2 = (s3, r, said2)" by (rule prod_cases3)
  have "s1 = s3" "r = Inr ()" using assms e d by (auto simp: put_def split: if_splits)
  from d show ?thesis
  proof (cases rule: deposit_cases)
    case (unchanged k)
    then show ?thesis using \<open>s1 = s3\<close> \<open>r = Inr ()\<close> by (simp add: get_entry_def)
  next
    case (written k after)
    then show ?thesis using \<open>s1 = s3\<close> by (simp add: get_entry_def map_add_def map_of_delete)
  qed
qed

lemma store_deposit_status:
  assumes "store_deposit C W kind key data r = (r1, st)"
  shows "(st = Some 200 \<longrightarrow> get_entry (rl_store r1) kind key = Some data) \<and> st \<in> {None, Some 200, Some 409, Some 507, Some 503}"
proof -
  obtain s1 x said where p: "put (su_host W) (cf_limits C) (su_io W) kind key data (rl_store r) = (s1, x, said)" by (rule prod_cases3)
  then show ?thesis using assms put_stored
    by (auto simp: store_deposit_def deposit_status_def send_def split: sum.splits put_error.splits if_splits)
qed

text \<open>Who may write: the address the chain names, a holder of the token, or anyone when the relay has no token and this route does not enforce.\<close>

definition may_write :: "config \<Rightarrow> surroundings \<Rightarrow> request \<Rightarrow> string \<Rightarrow> string \<Rightarrow> string \<Rightarrow> bool" where
  "may_write C W rq kind key data \<longleftrightarrow> (\<exists>a. a \<noteq> [] \<and> signed_by C W rq kind key data a) \<or> presents_token C rq
     \<or> cf_token C = [] \<and> (cf_sign C \<noteq> SignEnforce \<or> kind = ''req'')"

lemma gated_deposit_status:
  assumes "gated_deposit C W kind key data r = (r1, st)"
  shows "(st = Some 200 \<longrightarrow> get_entry (rl_store r1) kind key = Some data) \<and> (st \<notin> {None, Some 200, Some 409, Some 507, Some 503} \<longrightarrow> rl_serve r1 = rl_serve r)"
  using assms store_deposit_status [of C W kind key data r r1 st] by (auto simp: gated_deposit_def send_def split: if_splits)

lemma signed_kinds: "kind \<in> set STORE_KINDS \<Longrightarrow> kind \<in> set SIGNED_KINDS"
  by (auto simp: STORE_KINDS_def SIGNED_KINDS_def)

lemma entry_policy: "kind \<in> set STORE_KINDS \<Longrightarrow> policy_of [kind, key] POST = POLICY_SIGNED_OR_TOKEN"
  using signed_kinds by (auto simp: policy_of_def STORE_KINDS_def)

lemma post_entry_status:
  assumes sha: "sha_length (su_host W)" and p: "post_entry C W rq POLICY_SIGNED_OR_TOKEN kind key data r = (r1, st)"
  shows "(st = Some 200 \<longrightarrow> may_write C W rq kind key data \<and> get_entry (rl_store r1) kind key = Some data)
    \<and> (st \<notin> {None, Some 200, Some 409, Some 507, Some 503} \<longrightarrow> rl_serve r1 = rl_serve r)
    \<and> (\<not> may_write C W rq kind key data \<longrightarrow> rl_serve r1 = rl_serve r)"
proof -
  obtain r2 v where v: "verify_write_request C W (rq_headers rq) kind key data r = (r2, v)" by (cases "verify_write_request C W (rq_headers rq) kind key data r")
  have sv: "rl_serve r2 = rl_serve r" using verify_write_request_serve [of C W "rq_headers rq" kind key data r] v by simp
  show ?thesis
  proof (cases v)
    case (Inl e)
    then show ?thesis using p v sv by (simp add: post_entry_def)
  next
    case (Inr ww)
    obtain writer why where ww: "ww = (writer, why)" by (cases ww)
    obtain h t where t: "token_fallback C kind rq (rl_prev_hits r2) = (h, t)" by (cases "token_fallback C kind rq (rl_prev_hits r2)")
    show ?thesis
    proof (cases t)
      case (Inl e)
      then show ?thesis using p v sv Inr ww t by (auto simp: post_entry_def)
    next
      case tok: (Inr b)
      show ?thesis
      proof (cases "writer = None \<and> \<not> b")
        case True
        then show ?thesis using p v sv Inr ww t tok by (auto simp: post_entry_def send_def)
      next
        case False
        have "may_write C W rq kind key data"
        proof (cases writer)
          case (Some a)
          then show ?thesis using writer_signed [OF sha, of C rq kind key data r r2 a why] v Inr ww by (auto simp: may_write_def)
        next
          case None
          then have "b" using False by simp
          then show ?thesis using t tok authed_true [of C rq "rl_prev_hits r2" h]
            by (auto simp: token_fallback_def may_write_def split: if_splits)
        qed
        moreover have "gated_deposit C W kind key data (r2\<lparr>rl_prev_hits := h\<rparr>) = (r1, st)"
          using p v Inr ww t tok False by (auto simp: post_entry_def Let_def)
        ultimately show ?thesis using gated_deposit_status [of C W kind key data "r2\<lparr>rl_prev_hits := h\<rparr>" r1 st] sv by simp
      qed
    qed
  qed
qed

section \<open>The sliding window\<close>

definition rate_call :: "config \<Rightarrow> (string, rat list) dict \<Rightarrow> rat \<times> string \<Rightarrow> (string, rat list) dict \<times> bool" where
  "rate_call C rate c = rate_ok C (fst c) (snd c) rate"

text \<open>The times at which an address was let through.\<close>

definition let_through :: "config \<Rightarrow> string \<Rightarrow> (rat \<times> string) list \<Rightarrow> rat list" where
  "let_through C ip cs = map (fst \<circ> fst) (filter (\<lambda>x. snd x \<and> snd (fst x) = ip) (zip cs (fst (run_calls (rate_call C) [] cs))))"

definition spaced :: "nat \<Rightarrow> rat \<Rightarrow> rat list \<Rightarrow> bool" where
  "spaced n w ts \<longleftrightarrow> (\<forall>i. i + n < length ts \<longrightarrow> ts ! (i + n) - ts ! i > w)"

lemma drop_old_split: "\<exists>old. q = old @ drop_old w now q \<and> (\<forall>t \<in> set old. now - t > w)"
proof (induction w now q rule: drop_old.induct)
  case (2 w now t q)
  show ?case
  proof (cases "now - t > w")
    case True
    then obtain old where "q = old @ drop_old w now q" "\<forall>t \<in> set old. now - t > w" using "2.IH" by blast
    then show ?thesis using True by (intro exI [of _ "t # old"]) simp
  qed simp
qed simp

lemma map_of_filter_keys: "map_of (filter (\<lambda>kq. fst kq \<notin> S) d) k = (if k \<in> S then None else map_of d k)"
  by (induction d) auto

lemma get_or_filter_keys: "get_or (filter (\<lambda>kq. fst kq \<notin> S) d) k x = (if k \<in> S then x else get_or d k x)"
  by (simp add: get_or_def map_of_filter_keys)

lemma spaced_snoc:
  assumes "spaced n w (old @ q)" "length q < n" "\<forall>t \<in> set old. now - t > w"
  shows "spaced n w ((old @ q) @ [now])"
  unfolding spaced_def
proof (intro allI impI)
  fix i assume i: "i + n < length ((old @ q) @ [now])"
  show "((old @ q) @ [now]) ! (i + n) - ((old @ q) @ [now]) ! i > w"
  proof (cases "i + n < length (old @ q)")
    case True
    then have "((old @ q) @ [now]) ! (i + n) = (old @ q) ! (i + n)" "((old @ q) @ [now]) ! i = (old @ q) ! i"
      by (simp_all only: nth_append [of "old @ q"] if_True) simp
    then show ?thesis using assms(1) True by (simp only: spaced_def)
  next
    case False
    then have e: "i + n = length (old @ q)" using i by simp
    then have "i < length old" using assms(2) by simp
    then have "((old @ q) @ [now]) ! i = old ! i" "old ! i \<in> set old" by (simp_all add: nth_append)
    moreover have "((old @ q) @ [now]) ! (i + n) = now" unfolding e by (rule nth_append_length)
    ultimately show ?thesis using assms(3) by auto
  qed
qed

lemma le_last: "sorted (q :: rat list) \<Longrightarrow> t \<in> set q \<Longrightarrow> t \<le> last q"
  by (induction q) auto

text \<open>The queue of an address is the end of its times; what was dropped is out of the window.\<close>

definition window_ok :: "config \<Rightarrow> string \<Rightarrow> rat \<Rightarrow> (string, rat list) dict \<Rightarrow> rat list \<Rightarrow> bool" where
  "window_ok C ip now rate ts \<longleftrightarrow> wf_dict rate \<and> sorted ts \<and> (\<forall>t \<in> set ts. t \<le> now) \<and> spaced (nat (cf_rate_max C)) (cf_rate_window C) ts
     \<and> (\<exists>old. ts = old @ get_or rate ip [] \<and> (\<forall>t \<in> set old. now - t > cf_rate_window C))"

lemma rate_ok_window:
  assumes inv: "window_ok C ip now0 rate ts" and now: "now0 \<le> now" and r: "rate_ok C now ip' rate = (rate1, ok)"
    and w: "0 \<le> cf_rate_window C"
  shows "window_ok C ip now rate1 (if ok \<and> ip' = ip then ts @ [now] else ts)"
proof -
  let ?w = "cf_rate_window C" and ?q = "get_or rate ip' []"
  let ?q1 = "drop_old ?w now ?q"
  obtain old where I: "wf_dict rate" "sorted ts" "\<forall>t \<in> set ts. t \<le> now0" "spaced (nat (cf_rate_max C)) ?w ts"
      "ts = old @ get_or rate ip []" "\<forall>t \<in> set old. now0 - t > ?w" using inv by (auto simp: window_ok_def)
  have old: "\<forall>t \<in> set old. now - t > ?w" using I(6) now by force
  have le: "\<forall>t \<in> set ts. t \<le> now" using I(3) now by force
  obtain old2 where o2: "?q = old2 @ ?q1" "\<forall>t \<in> set old2. now - t > ?w" using drop_old_split by blast
  let ?d = "AList.update ip' (?q1 @ [now]) rate"
  let ?gone = "set (take 4096 (map fst (filter (\<lambda>kq. inactive ?w now (snd kq)) ?d)))"
  show ?thesis
  proof (cases ok)
    case False
    then have r1: "rate1 = AList.update ip' ?q1 rate" using r by (auto simp: rate_ok_def Let_def split: if_splits)
    have "\<exists>old'. ts = old' @ get_or rate1 ip [] \<and> (\<forall>t \<in> set old'. now - t > ?w)"
    proof (cases "ip' = ip")
      case True
      then have "ts = (old @ old2) @ get_or rate1 ip []" using I(5) o2(1) r1 by simp
      then show ?thesis using old o2(2) by (metis Un_iff set_append)
    qed (use I(5) old r1 in auto)
    then show ?thesis using False I r1 le by (simp add: window_ok_def)
  next
    case True
    then have few: "int (length ?q1) < cf_rate_max C" and r1: "rate1 = (if length ?d > 8192 then filter (\<lambda>kq. fst kq \<notin> ?gone) ?d else ?d)"
      using r by (auto simp: rate_ok_def Let_def split: if_splits)
    have wf: "wf_dict ?d" using I(1) by simp
    have wf1: "wf_dict rate1" unfolding r1 using wf by (auto simp: wf_dict_def distinct_map_filter)
    have gone: "inactive ?w now (get_or ?d k [])" if kg: "k \<in> ?gone" for k
    proof -
      obtain q where "(k, q) \<in> set ?d" "inactive ?w now q" using in_set_takeD [OF kg] by auto
      then show ?thesis using wf by (simp add: wf_dict_map_of_iff [symmetric] get_or_def)
    qed
    show ?thesis
    proof (cases "ip' = ip")
      case same: True
      have "ip \<notin> ?gone"
      proof
        assume "ip \<in> ?gone"
        from gone [OF this] same w show False by (simp add: inactive_def)
      qed
      then have q: "get_or rate1 ip [] = ?q1 @ [now]" unfolding r1 using same by (simp add: get_or_filter_keys)
      have ts: "ts = (old @ old2) @ ?q1" using I(5) o2(1) same by simp
      have all: "\<forall>t \<in> set (old @ old2). now - t > ?w" using old o2(2) by auto
      have "spaced (nat (cf_rate_max C)) ?w (ts @ [now])"
        using spaced_snoc [of "nat (cf_rate_max C)" ?w "old @ old2" ?q1 now] I(4) few all unfolding ts by simp
      moreover have "sorted (ts @ [now])" using I(2) le by (simp add: sorted_append)
      moreover have "ts @ [now] = (old @ old2) @ get_or rate1 ip []" using ts q by simp
      moreover have "\<forall>t \<in> set (ts @ [now]). t \<le> now" using le by simp
      ultimately have "window_ok C ip now rate1 (ts @ [now])" using wf1 all unfolding window_ok_def by blast
      then show ?thesis using True same by simp
    next
      case other: False
      have "\<exists>old'. ts = old' @ get_or rate1 ip [] \<and> (\<forall>t \<in> set old'. now - t > ?w)"
      proof (cases "length ?d > 8192 \<and> ip \<in> ?gone")
        case True
        then have e: "get_or rate1 ip [] = []" unfolding r1 by (simp add: get_or_filter_keys)
        have "inactive ?w now (get_or rate ip [])" using gone [of ip] True other by simp
        moreover have "sorted (get_or rate ip [])" using I(2,5) by (simp add: sorted_append)
        ultimately have "\<forall>t \<in> set (get_or rate ip []). now - t > ?w"
          using le_last [of "get_or rate ip []"] by (force simp: inactive_def)
        then show ?thesis using I(5) old e by (intro exI [of _ ts]) auto
      next
        case False
        then have "get_or rate1 ip [] = get_or rate ip []" unfolding r1 using other by (simp add: get_or_filter_keys)
        then show ?thesis using I(5) old by auto
      qed
      then show ?thesis using other True I wf1 le by (simp add: window_ok_def)
    qed
  qed
qed

fun rate_clock_ok :: "rat \<Rightarrow> (rat \<times> string) list \<Rightarrow> bool" where
  "rate_clock_ok now [] \<longleftrightarrow> True"
| "rate_clock_ok now (c # cs) \<longleftrightarrow> now \<le> fst c \<and> rate_clock_ok (fst c) cs"

definition passed :: "config \<Rightarrow> string \<Rightarrow> (string, rat list) dict \<Rightarrow> (rat \<times> string) list \<Rightarrow> rat list" where
  "passed C ip rate cs = map (fst \<circ> fst) (filter (\<lambda>x. snd x \<and> snd (fst x) = ip) (zip cs (fst (run_calls (rate_call C) rate cs))))"

lemma passed_Cons: "passed C ip rate (c # cs) = (if snd (rate_call C rate c) \<and> snd c = ip then [fst c] else []) @ passed C ip (fst (rate_call C rate c)) cs"
  by (auto simp: passed_def split: prod.splits)

lemma run_window:
  assumes "window_ok C ip now rate ts" "rate_clock_ok now cs" "0 \<le> cf_rate_window C"
  shows "\<exists>now1. window_ok C ip now1 (snd (run_calls (rate_call C) rate cs)) (ts @ passed C ip rate cs)"
  using assms
proof (induction cs arbitrary: now rate ts)
  case (Cons c cs)
  obtain rate1 ok where r: "rate_ok C (fst c) (snd c) rate = (rate1, ok)" by (cases "rate_ok C (fst c) (snd c) rate")
  have "window_ok C ip (fst c) rate1 (if ok \<and> snd c = ip then ts @ [fst c] else ts)"
    using rate_ok_window [OF Cons.prems(1) _ r] Cons.prems(2,3) by simp
  from Cons.IH [OF this] Cons.prems(2,3) show ?case
    by (auto simp: snd_run_calls_Cons passed_Cons rate_call_def r simp del: run_calls.simps)
qed (auto simp: passed_def)

section \<open>Properties\<close>

text \<open>
  C10: no address passes the rate limit more often than it allows. For any requests, from any addresses, with a clock that never goes back:
  of the requests of one address that were let through, any two that are as many apart as the limit are more than the window apart in
  time, so no window holds more of them than the limit. The purge of the table never forgets a request that still counts.
\<close>

theorem rate_limit_holds:
  assumes "rate_clock_ok now cs" "0 \<le> cf_rate_window C" "0 < cf_rate_max C"
  shows "sorted (let_through C ip cs) \<and> spaced (nat (cf_rate_max C)) (cf_rate_window C) (let_through C ip cs)"
proof -
  have "window_ok C ip now [] []" by (simp add: window_ok_def spaced_def)
  from run_window [OF this assms(1,2)] show ?thesis by (auto simp: window_ok_def passed_def let_through_def)
qed

definition sample_config :: config where
  "sample_config = \<lparr>cf_sign = SignObserve, cf_registry = True, cf_token = ''0123456789abcdef'', cf_token_prev = [], cf_price = Some 1000,
     cf_attest_require = False, cf_attest_allow = [], cf_rate_max = 2, cf_rate_window = 10, cf_kit_floor = None, cf_kit_deadline = None,
     cf_limits = sample_limits\<rparr>"

theorem rate_limit_holds_witness:
  "let_through sample_config ''ip'' [(1, ''ip''), (2, ''ip''), (3, ''ip''), (12, ''ip'')] = [1, 2, 12]
   \<and> spaced 2 10 (let_through sample_config ''ip'' [(1, ''ip''), (2, ''ip''), (3, ''ip''), (12, ''ip'')])"
proof -
  have "let_through sample_config ''ip'' [(1, ''ip''), (2, ''ip''), (3, ''ip''), (12, ''ip'')] = [1, 2, 12]"
    by (simp add: let_through_def rate_call_def rate_ok_def sample_config_def get_or_def Let_def)
  moreover have "rate_clock_ok 0 [(1, ''ip''), (2, ''ip''), (3, ''ip''), (12, ''ip'')]" by simp
  ultimately show ?thesis using rate_limit_holds [of 0 "[(1, ''ip''), (2, ''ip''), (3, ''ip''), (12, ''ip'')]" sample_config "''ip''"]
    by (simp add: sample_config_def)
qed


definition sample_pass :: pass where
  "sample_pass = \<lparr>ps_now = 1, ps_job_clock = (1, 1, 1), ps_guard_clock = (1, 1), ps_kit_now = 1, ps_job_reader = None, ps_committee = None\<rparr>"

definition sample_surroundings :: surroundings where
  "sample_surroundings = \<lparr>su_host = sample_host, su_loads = (\<lambda>b. Inl ValueError), su_ed = (\<lambda>p s m. False), su_rate_now = 1, su_mono = (1, 1, 1),
     su_wall = ((1, 1), (1, 1), (1, 1)), su_miner_list = Inl OSError, su_job_list = Inl OSError, su_miner_again = Inl OSError,
     su_first = sample_pass, su_second = sample_pass, su_io = sample_io 1 1\<rparr>"

definition sample_relay :: relay where
  "sample_relay = \<lparr>rl_serve = fresh_serve empty_store, rl_write = sample_state, rl_attempt_miner = 0, rl_attempt_job = 0, rl_rate = [],
     rl_stats = \<lparr>sg_ok = 0, sg_ko = 0, sg_unsigned = 0, sg_attributed = 0, sg_unattributed = 0, sg_stale_kit = 0, sg_request_refused = 0\<rparr>,
     rl_refusals = [], rl_prev_hits = 0, rl_counters = []\<rparr>"

definition sample_request :: request where
  "sample_request = \<lparr>rq_ip = ''ip'', rq_path = ''/res/a'', rq_token = ''0123456789abcdef'', rq_length = Inr 1, rq_body = ''x'', rq_headers = Missing,
     rq_none_match = None\<rparr>"

lemma sample_route: "route ''/res/a'' = ([''res'', ''a''], [])"
  by (simp add: route_def cut_query_def py_split_def split_acc.simps starts_def)

lemma sample_put: "\<exists>s said. put sample_host sample_limits (sample_io 1 1) ''res'' ''a'' ''x'' empty_store = (s, Inr (), said)"
  by (simp add: put_def empty_store_def evict_section_def empty_kind_def sample_limits_def set_kind_def sample_io_def
      deposit_def stored_cost_def cost_def utf8_def utf8_char_def ENTRY_OVERHEAD_def WRITE_ONCE_def disk_write_def next_seq_def Let_def
      fill_transition_def fill_of_def FILL_ALARM_def FILL_REARM_def)

lemma sample_post: "\<exists>r1. do_POST sample_config sample_surroundings sample_request sample_relay = (r1, Some 200)"
proof -
  obtain s said where "put sample_host sample_limits (sample_io 1 1) ''res'' ''a'' ''x'' empty_store = (s, Inr (), said)" using sample_put by blast
  moreover have "policy_of [''res'', ''a''] POST = POLICY_SIGNED_OR_TOKEN" by (rule entry_policy) (simp add: STORE_KINDS_def)
  moreover have "compare_digest ''0123456789abcdef'' ''0123456789abcdef'' = Inr True" by (simp add: compare_digest_def is_ascii_def)
  ultimately show ?thesis
    by (simp add: do_POST_def sample_request_def sample_route Let_def guard_request_def rate_ok_def sample_config_def sample_relay_def sample_surroundings_def
        get_or_def MAX_BODY_def STORE_KINDS_def post_entry_def verify_write_request_def token_fallback_def authed_def gated_deposit_def gate_closed_def
        store_deposit_def deposit_status_def send_def stat_def fresh_serve_def)
qed


text \<open>
  C9: a request turned away on what it paid can be sent again unchanged. When the checks of a paid request refuse (no price set, fee or state or
  committee unreadable, job no longer open, underpaid, miner not assigned or not attested), the write is not accepted and the replay
  guard is exactly as before: the digest is not recorded and no high-water mark moves. When they find nothing, the job is open, escrowed at least the
  price, and the key names a member of its committee.
\<close>

theorem refused_request_can_be_resent:
  assumes "verify_pass C W P verif ''req'' key w r = (r1, y)" "request_refusal C W P (rl_store r) key = Inr refusal"
  shows "(refusal \<noteq> None \<longrightarrow> ws_guard (rl_write r1) = ws_guard (rl_write r) \<and> \<not> accepts y)
    \<and> (refusal = None \<longrightarrow> paid_for C P key) \<and> rl_serve r1 = rl_serve r"
proof -
  have "ws_guard (rl_write r1) = ws_guard (rl_write r) \<and> \<not> accepts y" if x: "refusal = Some x" for x
  proof (cases "floor_in_force (cf_kit_floor C) (cf_kit_deadline C) (ps_kit_now P)")
    case (Inl e)
    then show ?thesis using assms(1) by (auto simp: verify_pass_def accepts_def)
  next
    case (Inr kit)
    let ?E = "write_env_of C W P verif kit ''req'' key (rl_store r)"
    obtain ws where v: "verdict_of (su_host W) ?E (rl_write r) w = (ws, y)" "rl_write r1 = ws"
      using assms(1) Inr by (auto simp: verify_pass_def split: prod.splits)
    have g: "we_guard ?E g0 k h d hd = (g0, Inr \<lparr>ga_accepted = False, ga_regime = None, ga_reason = Some x\<rparr>)" for g0 k h d hd
      using assms(2) x by (simp add: write_env_of_def paid_guard_def)
    from v(1) show ?thesis
    proof (cases rule: verdict_guard_call)
      case (called pk h m a)
      then show ?thesis using v(2) by (auto simp: guarded_def g accepts_def)
    qed (use v(2) in simp)
  qed
  moreover have "rl_serve r1 = rl_serve r" using verify_pass_serve [of C W P verif "''req''" key w r] assms(1) by simp
  ultimately show ?thesis using request_refusal_None assms(2) by blast
qed

theorem refused_request_can_be_resent_witness:
  "\<exists>r1 y. verify_pass sample_config sample_surroundings sample_pass (\<lambda>p m s. Inr True) ''req'' ''j__m'' sample_write sample_relay = (r1, y)
     \<and> ws_guard (rl_write r1) = ws_guard (rl_write sample_relay)"
proof -
  obtain r1 y where v: "verify_pass sample_config sample_surroundings sample_pass (\<lambda>p m s. Inr True) ''req'' ''j__m'' sample_write sample_relay = (r1, y)"
    by (cases "verify_pass sample_config sample_surroundings sample_pass (\<lambda>p m s. Inr True) ''req'' ''j__m'' sample_write sample_relay")
  have "request_refusal sample_config sample_surroundings sample_pass (rl_store sample_relay) ''j__m'' = Inr (Some FEE_UNREADABLE)"
    by (simp add: request_refusal_def sample_config_def sample_pass_def starts_def Let_def)
  from refused_request_can_be_resent [OF v this] v show ?thesis by auto
qed

text \<open>
  The attestation gate of \<open>do_POST\<close> takes the miner from the first separator of the key, the attribution and the checks of the request from the
  last one. For a job whose name holds a separator the two differ: the gate asks for the attestation of a miner that does not exist, and a paid
  request of an attested miner is refused after its digest has been recorded.
\<close>

theorem gate_asks_another_miner:
  assumes "cf_attest_require C" "\<not> attest_ok (su_host W) (su_ed W) (su_loads W) (cf_attest_allow C) s ''b__m''"
  shows "miner_named_by_key ''req'' ''a__b__m'' = Some ''m'' \<and> gate_closed C W ''req'' ''a__b__m'' s"
  using assms by (simp add: miner_named_by_key_def KEY_IS_THE_MINER_def gate_closed_def starts_def)

end
