(* ===== verification/Judge_Settings.thy ===== *)
theory Judge_Settings
  imports Cosmos_Addr
begin

text \<open>
  The settings of the judge's memory guard, from \<open>src/services/modea/memwatch.py\<close>: Python's readers of a number, the durations of a
  keep_alive, the settings read from the environment, the pause that doubles, the words of an engine out of memory.
  A float is its exact rational value, or an infinity, or NaN; the rounding of a sum or of a product is not modelled, its overflow is.
\<close>

section \<open>Python's readers of a number\<close>

datatype number = Finite rat | PosInf | NegInf | NaN

text \<open>The least magnitude that rounds to an infinity.\<close>

definition FLOAT_BOUND :: rat where
  "FLOAT_BOUND = 2 ^ 1024 - 2 ^ 970"

definition float_of_rat :: "rat \<Rightarrow> number" where
  "float_of_rat q = (if FLOAT_BOUND \<le> q then PosInf else if q \<le> - FLOAT_BOUND then NegInf else Finite q)"

definition num_add :: "number \<Rightarrow> number \<Rightarrow> number" where
  "num_add x y = (case (x, y) of (Finite a, Finite b) \<Rightarrow> float_of_rat (a + b) | _ \<Rightarrow> PosInf)"

definition num_scale :: "rat \<Rightarrow> number \<Rightarrow> number" where
  "num_scale k x = (case x of Finite a \<Rightarrow> float_of_rat (k * a) | _ \<Rightarrow> PosInf)"

definition split_sign :: "string \<Rightarrow> bool \<times> string" where
  "split_sign s = (case s of [] \<Rightarrow> (False, []) | c # t \<Rightarrow> if c = CHR ''-'' then (True, t) else if c = CHR ''+'' then (False, t) else (False, s))"

text \<open>An underscore stands between two digits only.\<close>

definition underscores_ok :: "string \<Rightarrow> bool" where
  "underscores_ok s \<longleftrightarrow> list_all (\<lambda>i. s ! i = CHR ''_'' \<longrightarrow> 0 < i \<and> i + 1 < length s \<and> is_digit (s ! (i - 1)) \<and> is_digit (s ! (i + 1))) [0..<length s]"

definition plain_digits :: "string \<Rightarrow> string" where
  "plain_digits s = filter (\<lambda>c. c \<noteq> CHR ''_'') s"

text \<open>\<open>int(text)\<close> in base 10, with its bound of 4300 digits.\<close>

definition int_of_text :: "string \<Rightarrow> int option" where
  "int_of_text s = (case split_sign (strip s) of (neg, u) \<Rightarrow>
     let ds = plain_digits u in
     if ds \<noteq> [] \<and> underscores_ok u \<and> list_all is_digit ds \<and> length ds \<le> 4300
     then Some (if neg then - int (read_nat ds) else int (read_nat ds)) else None)"

definition ten_to :: "int \<Rightarrow> rat" where
  "ten_to e = (if 0 \<le> e then 10 ^ nat e else 1 / 10 ^ nat (- e))"

definition decimal :: "string \<Rightarrow> rat option" where
  "decimal v =
     (let a = takeWhile is_digit v; r = dropWhile is_digit v;
          (b, x) = (if starts r ''.'' then (takeWhile is_digit (tl r), dropWhile is_digit (tl r)) else ([], r)) in
      if a @ b = [] then None
      else if x = [] then Some (of_nat (read_nat (a @ b)) * ten_to (- int (length b)))
      else if hd x = CHR ''e'' \<or> hd x = CHR ''E'' then
        (case split_sign (tl x) of (neg, ds) \<Rightarrow>
           if ds = [] \<or> \<not> list_all is_digit ds then None
           else Some (of_nat (read_nat (a @ b)) * ten_to ((if neg then - int (read_nat ds) else int (read_nat ds)) - int (length b))))
      else None)"

text \<open>\<open>float(text)\<close>\<close>

definition float_text :: "string \<Rightarrow> number option" where
  "float_text s = (case split_sign (strip s) of (neg, u) \<Rightarrow>
     if lower u = ''inf'' \<or> lower u = ''infinity'' then Some (if neg then NegInf else PosInf)
     else if lower u = ''nan'' then Some NaN
     else if \<not> underscores_ok u then None
     else map_option (\<lambda>q. float_of_rat (if neg then - q else q)) (decimal (plain_digits u)))"

section \<open>Durations\<close>

definition is_letter :: "char \<Rightarrow> bool" where
  "is_letter c \<longleftrightarrow> is_alnum c \<and> \<not> is_digit c"

definition unit_seconds :: "string \<Rightarrow> rat option" where
  "unit_seconds u = (if u = ''h'' then Some 3600 else if u = ''m'' then Some 60 else if u = ''s'' then Some 1
     else if u = ''ms'' then Some (1 / 1000) else None)"

definition quantity_char :: "char \<Rightarrow> bool" where
  "quantity_char c \<longleftrightarrow> is_digit c \<or> c = CHR ''.''"

lemma rest_shorter: "takeWhile P t \<noteq> [] \<Longrightarrow> length (dropWhile Q (dropWhile P t)) < length t"
proof -
  assume "takeWhile P t \<noteq> []"
  then have "length (dropWhile P t) < length t" by (cases t) (auto simp: le_imp_less_Suc length_dropWhile_le split: if_splits)
  then show ?thesis using length_dropWhile_le [of Q "dropWhile P t"] by linarith
qed

function unit_total :: "number \<Rightarrow> string \<Rightarrow> number option" where
  "unit_total acc t =
     (if t = [] then Some acc
      else if takeWhile quantity_char t = [] then None
      else (case unit_seconds (takeWhile is_letter (dropWhile quantity_char t)) of
          None \<Rightarrow> None
        | Some k \<Rightarrow>
            (case float_text (takeWhile quantity_char t) of
               None \<Rightarrow> None
             | Some x \<Rightarrow> unit_total (num_add acc (num_scale k x)) (dropWhile is_letter (dropWhile quantity_char t)))))"
  by pat_completeness auto

termination
  by (relation "measure (\<lambda>(acc, t). length t)") (simp_all add: rest_shorter)

declare unit_total.simps [simp del]

text \<open>A negative duration keeps the model without limit.\<close>

definition signed_duration :: "bool \<Rightarrow> number \<Rightarrow> number" where
  "signed_duration neg x = (case x of
     Finite q \<Rightarrow> if (if neg then - q else q) < 0 then PosInf else Finite (if neg then - q else q)
   | _ \<Rightarrow> PosInf)"

definition parse_duration_s :: "string \<Rightarrow> number option" where
  "parse_duration_s text = (case split_sign (lower (strip text)) of (neg, t) \<Rightarrow>
     map_option (signed_duration neg)
       (case float_text t of
          Some (Finite v) \<Rightarrow> Some (Finite v)
        | Some _ \<Rightarrow> None
        | None \<Rightarrow> if t = [] then None else unit_total (Finite 0) t))"

section \<open>The settings\<close>

type_synonym env = "string \<Rightarrow> string option"

definition env_raw :: "env \<Rightarrow> string \<Rightarrow> string" where
  "env_raw E name = strip (case E name of None \<Rightarrow> [] | Some s \<Rightarrow> s)"

text \<open>\<open>_num\<close>: the value, or nothing when unset, and the name of the setting when it is written wrong.\<close>

definition env_num :: "(string \<Rightarrow> 'a::linorder option) \<Rightarrow> 'a option \<Rightarrow> 'a option \<Rightarrow> bool \<Rightarrow> env \<Rightarrow> string \<Rightarrow> 'a option \<times> string list" where
  "env_num kind lo hi lo_open E name =
     (let raw = env_raw E name in
      if raw = [] then (None, [])
      else (case kind raw of
          None \<Rightarrow> (None, [name])
        | Some v \<Rightarrow>
            if (case lo of None \<Rightarrow> False | Some l \<Rightarrow> if lo_open then v \<le> l else v < l) then (None, [name])
            else if (case hi of None \<Rightarrow> False | Some h \<Rightarrow> v > h) then (None, [name])
            else (Some v, [])))"

definition finite_float :: "string \<Rightarrow> rat option" where
  "finite_float s = (case float_text s of Some (Finite q) \<Rightarrow> Some q | _ \<Rightarrow> None)"

datatype mode = Resident | OnDemand

datatype host_kind = Desktop | Server | Wsl

definition mode_of :: "string \<Rightarrow> mode option" where
  "mode_of s = (if s = ''resident'' then Some Resident else if s = ''on-demand'' then Some OnDemand else None)"

definition host_of :: "string \<Rightarrow> host_kind option" where
  "host_of s = (if s = ''desktop'' then Some Desktop else if s = ''server'' then Some Server else if s = ''wsl'' then Some Wsl else None)"

definition PERIOD_S_DEFAULT :: rat where "PERIOD_S_DEFAULT = 5"

definition PERIOD_S_MIN :: rat where "PERIOD_S_MIN = 2"

definition PSI_SOME_PCT_DEFAULT :: rat where "PSI_SOME_PCT_DEFAULT = 10"

definition RESIDENT_KEEPALIVE_DEFAULT :: string where "RESIDENT_KEEPALIVE_DEFAULT = ''1h''"

text \<open>\<open>inference.ollama_timeout_s\<close>, on the value of \<open>OLLAMA_TIMEOUT\<close>.\<close>

definition ollama_timeout_s :: "string option \<Rightarrow> int result" where
  "ollama_timeout_s v = (case int_of_text (case v of None \<Rightarrow> ''600'' | Some s \<Rightarrow> s) of None \<Rightarrow> Inl ValueError | Some n \<Rightarrow> Inr n)"

record mem_conf =
  period_s :: rat
  psi_some_pct :: rat
  promote_after_s :: rat
  headroom_mb :: int
  mem_limit_mb :: "int option"
  resident_keepalive :: string
  ondemand_keepalive :: string
  ceiling :: "mode option"
  host_kind_of :: "host_kind option"

text \<open>The settings written wrong, or the timeout of the engine that is not a number.\<close>

datatype settings_fail = SettingsError "string list" | TimeoutUnread exc

definition positive_finite :: "number option \<Rightarrow> bool" where
  "positive_finite d = (case d of Some (Finite q) \<Rightarrow> 0 < q | _ \<Rightarrow> False)"

definition named_as :: "(string \<Rightarrow> 'a option) \<Rightarrow> env \<Rightarrow> string \<Rightarrow> 'a option \<times> string list" where
  "named_as f E name = (let s = env_raw E name in if s = [] then (None, []) else case f s of None \<Rightarrow> (None, [name]) | Some m \<Rightarrow> (Some m, []))"

definition promote_default :: "string \<Rightarrow> rat" where
  "promote_default resident_ka = (case parse_duration_s resident_ka of
     Some (Finite q) \<Rightarrow> if q \<noteq> 0 then q else 3600
   | _ \<Rightarrow> 3600)"

definition or_default :: "'a option \<Rightarrow> 'a \<Rightarrow> 'a" where
  "or_default x y = (case x of None \<Rightarrow> y | Some v \<Rightarrow> v)"

definition settings :: "env \<Rightarrow> string option \<Rightarrow> settings_fail + mem_conf" where
  "settings E timeout =
     (let (period, e1) = env_num finite_float (Some PERIOD_S_MIN) None False E ''DENDRA_MEMWATCH_PERIOD_S'';
          (psi, e2) = env_num finite_float (Some 0) (Some 100) True E ''DENDRA_MEMWATCH_PSI_SOME_PCT'';
          (promote, e3) = env_num finite_float (Some 0) None True E ''DENDRA_MEMWATCH_PROMOTE_AFTER_S'';
          (headroom, e4) = env_num int_of_text (Some 0) None False E ''DENDRA_JUDGE_HEADROOM_MB'';
          (limit, e5) = env_num int_of_text (Some 0) None True E ''DENDRA_JUDGE_MEM_LIMIT_MB'';
          resident_ka = (let s = env_raw E ''DENDRA_JUDGE_KEEPALIVE'' in if s = [] then RESIDENT_KEEPALIVE_DEFAULT else s);
          e6 = (if parse_duration_s resident_ka = None then [''DENDRA_JUDGE_KEEPALIVE''] else []) in
      case (let s = env_raw E ''DENDRA_JUDGE_ONDEMAND_KEEPALIVE'' in
            if s \<noteq> [] then Inr s else map_sum id (\<lambda>n. show_int n @ ''s'') (ollama_timeout_s timeout)) of
        Inl e \<Rightarrow> Inl (TimeoutUnread e)
      | Inr ondemand_ka \<Rightarrow>
          (let e7 = (if positive_finite (parse_duration_s ondemand_ka) then [] else [''DENDRA_JUDGE_ONDEMAND_KEEPALIVE'']);
               (ceil, e8) = named_as mode_of E ''DENDRA_JUDGE_MODE'';
               (host, e9) = named_as host_of E ''DENDRA_JUDGE_HOST_KIND'';
               errors = e1 @ e2 @ e3 @ e4 @ e5 @ e6 @ e7 @ e8 @ e9 in
           if errors \<noteq> [] then Inl (SettingsError errors)
           else Inr \<lparr>period_s = or_default period PERIOD_S_DEFAULT, psi_some_pct = or_default psi PSI_SOME_PCT_DEFAULT,
                     promote_after_s = or_default promote (promote_default resident_ka), headroom_mb = or_default headroom 0,
                     mem_limit_mb = limit, resident_keepalive = resident_ka, ondemand_keepalive = ondemand_ka,
                     ceiling = ceil, host_kind_of = host\<rparr>))"

section \<open>The engine's context and slots, its words, and the pause\<close>

definition JUDGE_CONTEXT_TOKENS :: int where "JUDGE_CONTEXT_TOKENS = 4096"

definition positive_count :: "int \<Rightarrow> int option" where
  "positive_count n = (if 0 < n then Some n else None)"

definition engine_context_tokens :: "env \<Rightarrow> int option" where
  "engine_context_tokens E = (let raw = env_raw E ''OLLAMA_CONTEXT_LENGTH'' in
     if raw = [] then Some JUDGE_CONTEXT_TOKENS else Option.bind (int_of_text raw) positive_count)"

definition engine_num_parallel :: "env \<Rightarrow> int option" where
  "engine_num_parallel E = (let raw = env_raw E ''DENDRA_JUDGE_NUM_PARALLEL'' in
     if raw = [] then Some 1 else Option.bind (int_of_text raw) positive_count)"

definition OOM_HINTS :: "string list" where
  "OOM_HINTS = [''out of memory'', ''out-of-memory'', ''cannot allocate memory'', ''failed to allocate'', ''unable to allocate'',
     ''requires more system memory'', ''signal: killed'']"

definition out_of_memory :: "string \<Rightarrow> bool" where
  "out_of_memory text \<longleftrightarrow> list_ex (\<lambda>h. occurs h (lower text)) OOM_HINTS"

definition retry_delay :: "int \<Rightarrow> rat \<Rightarrow> rat \<Rightarrow> rat" where
  "retry_delay attempt base cap = min cap (base * 2 ^ nat (min 20 (max 0 (attempt - 1))))"

abbreviation pause_length :: "int \<Rightarrow> rat" where
  "pause_length attempt \<equiv> retry_delay attempt 60 1800"

section \<open>Durations are never negative, and a number of seconds reads back\<close>

lemma FLOAT_BOUND_large: "10 ^ 18 < FLOAT_BOUND"
proof -
  have "(2::rat) ^ 1024 = 2 ^ 54 * 2 ^ 970" unfolding power_add [symmetric] by simp
  then have "FLOAT_BOUND = (2 ^ 54 - 1) * 2 ^ 970" by (simp add: FLOAT_BOUND_def left_diff_distrib del: power_numeral)
  also have "(2::rat) ^ 970 = 2 ^ 64 * 2 ^ 906" unfolding power_add [symmetric] by simp
  finally have b: "FLOAT_BOUND = ((2 ^ 54 - 1) * 2 ^ 64) * 2 ^ 906" by (simp only: mult.assoc)
  have "(1::rat) \<le> 2 ^ 906" by (rule one_le_power) simp
  then have "((2 ^ 54 - 1) * 2 ^ 64) * 1 \<le> FLOAT_BOUND" unfolding b by (rule mult_left_mono) simp
  moreover have "(10::rat) ^ 18 < ((2 ^ 54 - 1) * 2 ^ 64) * 1" by simp
  ultimately show ?thesis by (rule less_le_trans [rotated])
qed

lemma float_of_rat_small: "\<bar>q\<bar> \<le> 10 ^ 18 \<Longrightarrow> float_of_rat q = Finite q"
  using FLOAT_BOUND_large by (auto simp: float_of_rat_def abs_le_iff)

lemma parse_duration_nonneg: "parse_duration_s t = Some d \<Longrightarrow> d = PosInf \<or> (\<exists>q. 0 \<le> q \<and> d = Finite q)"
proof -
  assume "parse_duration_s t = Some d"
  then obtain neg x where "d = signed_duration neg x" unfolding parse_duration_s_def by (auto simp only: split_beta map_option_eq_Some)
  then show ?thesis by (cases x) (auto simp: signed_duration_def split: if_splits)
qed

lemma strip_id: "s \<noteq> [] \<Longrightarrow> \<not> is_space (hd s) \<Longrightarrow> \<not> is_space (last s) \<Longrightarrow> strip s = s"
proof -
  assume s: "s \<noteq> []" "\<not> is_space (hd s)" "\<not> is_space (last s)"
  have "dropWhile is_space s = s" using s(1,2) by (cases s) simp_all
  moreover have "dropWhile is_space (rev s) = rev s" using s(1,3) by (cases s rule: rev_cases) simp_all
  ultimately show ?thesis by (simp add: strip_def)
qed

lemma digit_facts:
  assumes "is_digit c"
  shows "\<not> is_space c" "lower_char c = c" "c \<noteq> CHR ''_''" "c \<noteq> CHR ''-''" "c \<noteq> CHR ''+''" "c \<noteq> CHR ''i''" "c \<noteq> CHR ''n''" "quantity_char c"
proof -
  have "int (of_char c :: nat) = ord c" by (rule of_nat_of_char)
  moreover have "int (of_char c) \<le> 57" using assms unfolding is_digit_def by linarith
  ultimately have "ord c \<le> 57" by simp
  then show "lower_char c = c" by (simp add: lower_char_def)
qed (use assms in \<open>auto simp: is_digit_def is_space_def quantity_char_def Let_def\<close>)

lemma hd_show_nat [simp]: "is_digit (hd (show_nat n))"
  using show_nat_digits [of n] by (cases "show_nat n") auto

lemma last_show_nat [simp]: "is_digit (last (show_nat n))"
  using show_nat_digits [of n] last_in_set [OF show_nat_nonempty] by blast

lemma split_sign_digit: "u \<noteq> [] \<Longrightarrow> is_digit (hd u) \<Longrightarrow> split_sign u = (False, u)"
  using digit_facts [of "hd u"] by (cases u) (auto simp: split_sign_def)

lemma float_text_digit:
  assumes "u \<noteq> []" "is_digit (hd u)" "\<not> is_space (last u)" "CHR ''_'' \<notin> set u"
  shows "float_text u = map_option float_of_rat (decimal u)"
proof -
  have "strip u = u" using assms digit_facts(1) by (intro strip_id) auto
  moreover have "lower u \<noteq> ''inf'' \<and> lower u \<noteq> ''infinity'' \<and> lower u \<noteq> ''nan''"
    using assms(1,2) digit_facts [of "hd u"] by (cases u) (auto simp: lower_def)
  moreover have "underscores_ok u" using assms(4) by (auto simp: underscores_ok_def list_all_iff) (metis nth_mem)+
  moreover have "plain_digits u = u" using assms(4) by (auto simp: plain_digits_def filter_id_conv)
  ultimately show ?thesis by (simp add: float_text_def split_sign_digit [OF assms(1,2)] Let_def)
qed

lemma no_underscore [simp]: "CHR ''_'' \<notin> set (show_nat n)"
  using show_nat_digits [of n] digit_facts(3) by blast

lemma float_text_show_nat: "float_text (show_nat n) = Some (float_of_rat (of_nat n))"
proof -
  have d: "takeWhile is_digit (show_nat n) = show_nat n" "dropWhile is_digit (show_nat n) = []"
    using takeWhile_digits [of "[]"] dropWhile_digits [of "[]"] by simp_all
  have "decimal (show_nat n) = Some (of_nat n)" unfolding decimal_def Let_def d by (simp add: starts_def ten_to_def)
  then show ?thesis using digit_facts(1) by (subst float_text_digit) simp_all
qed

lemma float_text_unit:
  assumes "c = CHR ''s'' \<or> c = CHR ''h''"
  shows "float_text (show_nat n @ [c]) = None"
proof -
  have c: "\<not> is_digit c" "\<not> is_space c" "\<not> starts [c] ''.''" "c \<noteq> CHR ''_'' \<and> c \<noteq> CHR ''e'' \<and> c \<noteq> CHR ''E''"
    using assms by (auto simp: is_digit_def is_space_def starts_def)
  have d: "takeWhile is_digit (show_nat n @ [c]) = show_nat n" "dropWhile is_digit (show_nat n @ [c]) = [c]"
    using takeWhile_digits [of "[c]"] dropWhile_digits [of "[c]"] c(1) by simp_all
  have "decimal (show_nat n @ [c]) = None" unfolding decimal_def Let_def d using c by simp
  then show ?thesis using c by (subst float_text_digit) auto
qed

text \<open>What the settings write for a number of seconds is read as that number of seconds.\<close>

lemma seconds_read_back: "of_nat n \<le> (10::rat) ^ 18 \<Longrightarrow> parse_duration_s (show_nat n @ ''s'') = Some (Finite (of_nat n))"
proof -
  assume n: "of_nat n \<le> (10::rat) ^ 18"
  let ?t = "show_nat n @ ''s''"
  have t: "strip ?t = ?t" "lower ?t = ?t" "split_sign ?t = (False, ?t)"
    using digit_facts(1) show_nat_digits [of n] digit_facts(2)
    by (auto intro!: strip_id split_sign_digit simp: is_space_def lower_def lower_char_def map_idI)
  have q: "takeWhile quantity_char ?t = show_nat n" "dropWhile quantity_char ?t = ''s''"
    using show_nat_digits [of n] digit_facts(8) by (auto simp: takeWhile_append dropWhile_append quantity_char_def is_digit_def)
  have u: "takeWhile is_letter ''s'' = ''s''" "dropWhile is_letter ''s'' = []" by (simp_all add: is_letter_def is_alnum_def is_lower_alnum_def is_digit_def)
  have "unit_total (Finite 0) ?t = unit_total (num_add (Finite 0) (num_scale 1 (float_of_rat (of_nat n)))) []"
    unfolding unit_total.simps [of _ ?t] q u by (simp add: unit_seconds_def float_text_show_nat)
  also have "\<dots> = Some (Finite (of_nat n))" using n by (subst unit_total.simps) (simp add: float_of_rat_small num_add_def num_scale_def)
  finally show ?thesis by (simp add: parse_duration_s_def t float_text_unit signed_duration_def)
qed

section \<open>Settings that are read are in range\<close>

lemma env_num_accepts:
  assumes "env_num kind lo hi lo_open E name = (v, [])"
  shows "(v = None \<longleftrightarrow> env_raw E name = []) \<and> (\<forall>x. v = Some x \<longrightarrow> kind (env_raw E name) = Some x
    \<and> (\<forall>l. lo = Some l \<longrightarrow> (if lo_open then l < x else l \<le> x)) \<and> (\<forall>h. hi = Some h \<longrightarrow> x \<le> h))"
  using assms by (cases "kind (env_raw E name)") (auto simp: env_num_def Let_def not_le not_less split: option.splits if_splits, metis+)

lemma named_as_accepts: "named_as f E name = (v, []) \<Longrightarrow> v = (if env_raw E name = [] then None else f (env_raw E name)) \<and> (v = None \<longleftrightarrow> env_raw E name = [])"
  by (cases "f (env_raw E name)") (auto simp: named_as_def Let_def split: if_splits, metis)

lemma promote_default_pos: "0 < promote_default t"
  using parse_duration_nonneg [of t] by (fastforce simp: promote_default_def split: option.splits number.splits)

lemma settings_Inr:
  assumes "settings E t = Inr c"
  obtains period psi promote headroom limit ondemand
  where "env_num finite_float (Some PERIOD_S_MIN) None False E ''DENDRA_MEMWATCH_PERIOD_S'' = (period, [])"
    "env_num finite_float (Some 0) (Some 100) True E ''DENDRA_MEMWATCH_PSI_SOME_PCT'' = (psi, [])"
    "env_num finite_float (Some 0) None True E ''DENDRA_MEMWATCH_PROMOTE_AFTER_S'' = (promote, [])"
    "env_num int_of_text (Some 0) None False E ''DENDRA_JUDGE_HEADROOM_MB'' = (headroom, [])"
    "env_num int_of_text (Some 0) None True E ''DENDRA_JUDGE_MEM_LIMIT_MB'' = (limit, [])"
    "named_as mode_of E ''DENDRA_JUDGE_MODE'' = (ceiling c, [])" "named_as host_of E ''DENDRA_JUDGE_HOST_KIND'' = (host_kind_of c, [])"
    "parse_duration_s (resident_keepalive c) \<noteq> None" "positive_finite (parse_duration_s (ondemand_keepalive c))"
    "period_s c = or_default period PERIOD_S_DEFAULT" "psi_some_pct c = or_default psi PSI_SOME_PCT_DEFAULT"
    "promote_after_s c = or_default promote (promote_default (resident_keepalive c))"
    "headroom_mb c = or_default headroom 0" "mem_limit_mb c = limit"
  using assms unfolding settings_def Let_def by (auto split: prod.splits sum.splits if_splits)

text \<open>
  A setting that is read is in range. When the settings are accepted, the period is at least the 2 s of the kernel's averages, the
  pressure threshold is above 0 and at most 100 percent, the clean time before a promotion is above 0, no headroom is negative, a memory
  limit is above 0, both keep_alives are durations, the on-demand one positive and finite; and there is no ceiling, the judge staying on
  demand, unless one was written.
\<close>

theorem settings_in_range:
  assumes "settings E t = Inr c"
  shows "2 \<le> period_s c \<and> 0 < psi_some_pct c \<and> psi_some_pct c \<le> 100 \<and> 0 < promote_after_s c \<and> 0 \<le> headroom_mb c
    \<and> (\<forall>l. mem_limit_mb c = Some l \<longrightarrow> 0 < l) \<and> parse_duration_s (resident_keepalive c) \<noteq> None
    \<and> positive_finite (parse_duration_s (ondemand_keepalive c))
    \<and> (ceiling c = Some Resident \<longleftrightarrow> env_raw E ''DENDRA_JUDGE_MODE'' = ''resident'')
    \<and> (host_kind_of c = Some Wsl \<longleftrightarrow> env_raw E ''DENDRA_JUDGE_HOST_KIND'' = ''wsl'')"
  using assms
proof (rule settings_Inr)
  fix period psi promote headroom limit
  assume e: "env_num finite_float (Some PERIOD_S_MIN) None False E ''DENDRA_MEMWATCH_PERIOD_S'' = (period, [])"
    "env_num finite_float (Some 0) (Some 100) True E ''DENDRA_MEMWATCH_PSI_SOME_PCT'' = (psi, [])"
    "env_num finite_float (Some 0) None True E ''DENDRA_MEMWATCH_PROMOTE_AFTER_S'' = (promote, [])"
    "env_num int_of_text (Some 0) None False E ''DENDRA_JUDGE_HEADROOM_MB'' = (headroom, [])"
    "env_num int_of_text (Some 0) None True E ''DENDRA_JUDGE_MEM_LIMIT_MB'' = (limit, [])"
    and n: "named_as mode_of E ''DENDRA_JUDGE_MODE'' = (ceiling c, [])" "named_as host_of E ''DENDRA_JUDGE_HOST_KIND'' = (host_kind_of c, [])"
    and d: "parse_duration_s (resident_keepalive c) \<noteq> None" "positive_finite (parse_duration_s (ondemand_keepalive c))"
    and v: "period_s c = or_default period PERIOD_S_DEFAULT" "psi_some_pct c = or_default psi PSI_SOME_PCT_DEFAULT"
      "promote_after_s c = or_default promote (promote_default (resident_keepalive c))" "headroom_mb c = or_default headroom 0" "mem_limit_mb c = limit"
  have "2 \<le> period_s c" "0 < psi_some_pct c \<and> psi_some_pct c \<le> 100" "0 < promote_after_s c" "0 \<le> headroom_mb c"
    "\<forall>l. mem_limit_mb c = Some l \<longrightarrow> 0 < l"
    using e [THEN env_num_accepts] promote_default_pos
    by (auto simp: v or_default_def PERIOD_S_MIN_def PERIOD_S_DEFAULT_def PSI_SOME_PCT_DEFAULT_def split: option.splits)
  moreover have "ceiling c = Some Resident \<longleftrightarrow> env_raw E ''DENDRA_JUDGE_MODE'' = ''resident''"
    using named_as_accepts [OF n(1)] by (auto simp: mode_of_def)
  moreover have "host_kind_of c = Some Wsl \<longleftrightarrow> env_raw E ''DENDRA_JUDGE_HOST_KIND'' = ''wsl''"
    using named_as_accepts [OF n(2)] by (auto simp: host_of_def)
  ultimately show ?thesis using d by blast
qed

text \<open>An environment that sets nothing, or the ceiling and the kind of the machine alone.\<close>

lemma hour_default: "parse_duration_s ''1h'' = Some (Finite 3600)"
proof -
  have "show_nat 1 = ''1''" by code_simp
  then have "float_text ''1h'' = None" using float_text_unit [of "CHR ''h''" 1] by simp
  moreover have "unit_total (Finite 0) ''1h'' = Some (Finite 3600)"
  proof -
    have "show_nat 1 = ''1''" by code_simp
    then have "float_text ''1'' = Some (Finite 1)" using float_text_show_nat [of 1] by (simp add: float_of_rat_small)
    then show ?thesis
      by (subst unit_total.simps) (simp add: quantity_char_def is_digit_def is_letter_def is_alnum_def is_lower_alnum_def unit_seconds_def
          num_add_def num_scale_def float_of_rat_small unit_total.simps [of _ "[]"])
  qed
  moreover have "split_sign (lower (strip ''1h'')) = (False, ''1h'')" by code_simp
  ultimately show ?thesis by (simp add: parse_duration_s_def signed_duration_def)
qed

lemma timeout_default: "ollama_timeout_s None = Inr 600"
  by code_simp

lemma settings_default:
  assumes "\<forall>n. n \<noteq> ''DENDRA_JUDGE_MODE'' \<and> n \<noteq> ''DENDRA_JUDGE_HOST_KIND'' \<longrightarrow> env_raw E n = []"
    and "named_as mode_of E ''DENDRA_JUDGE_MODE'' = (m, [])" "named_as host_of E ''DENDRA_JUDGE_HOST_KIND'' = (h, [])"
  shows "settings E None = Inr \<lparr>period_s = 5, psi_some_pct = 10, promote_after_s = 3600, headroom_mb = 0, mem_limit_mb = None,
    resident_keepalive = ''1h'', ondemand_keepalive = ''600s'', ceiling = m, host_kind_of = h\<rparr>"
proof -
  have "show_int 600 = ''600''" by code_simp
  moreover have "show_nat 600 @ ''s'' = ''600s''" by code_simp
  then have "parse_duration_s ''600s'' = Some (Finite 600)" using seconds_read_back [of 600] by simp
  ultimately show ?thesis using assms
    by (simp add: settings_def env_num_def Let_def RESIDENT_KEEPALIVE_DEFAULT_def hour_default timeout_default positive_finite_def
        or_default_def promote_default_def PERIOD_S_DEFAULT_def PSI_SOME_PCT_DEFAULT_def)
qed

definition judge_env :: env where
  "judge_env n = (if n = ''DENDRA_JUDGE_MODE'' then Some ''resident'' else if n = ''DENDRA_JUDGE_HOST_KIND'' then Some ''desktop'' else None)"

definition sample_conf :: mem_conf where
  "sample_conf = \<lparr>period_s = 5, psi_some_pct = 10, promote_after_s = 3600, headroom_mb = 0, mem_limit_mb = None,
    resident_keepalive = ''1h'', ondemand_keepalive = ''600s'', ceiling = Some Resident, host_kind_of = Some Desktop\<rparr>"

lemma sample_settings: "settings judge_env None = Inr sample_conf"
proof -
  have "strip ''resident'' = ''resident''" "strip ''desktop'' = ''desktop''" "strip [] = []" by code_simp+
  then show ?thesis unfolding sample_conf_def
    by (intro settings_default) (auto simp: named_as_def env_raw_def judge_env_def Let_def mode_of_def host_of_def)
qed

theorem settings_in_range_witness:
  "settings judge_env None = Inr sample_conf \<and> 0 < promote_after_s sample_conf \<and> ceiling sample_conf = Some Resident"
  using settings_in_range [OF sample_settings] sample_settings by (simp add: sample_conf_def)

section \<open>The pause after a shortage\<close>

lemma pause_length_bounds: "60 \<le> pause_length k" "pause_length k \<le> 1800"
  using one_le_power [of "2 :: rat" "nat (min 20 (max 0 (k - 1)))"] by (auto simp: retry_delay_def)

lemma pause_length_doubles: "1 \<le> k \<Longrightarrow> pause_length (k + 1) = min 1800 (2 * pause_length k)"
proof -
  assume k: "1 \<le> k"
  show ?thesis
  proof (cases "k \<le> 20")
    case True
    then have e: "nat (min 20 (max 0 (k + 1 - 1))) = Suc (nat (min 20 (max 0 (k - 1))))" using k by (simp add: Suc_nat_eq_nat_zadd1)
    have "pause_length (k + 1) = min 1800 (2 * (60 * 2 ^ nat (min 20 (max 0 (k - 1)))))" unfolding retry_delay_def e by simp
    also have "\<dots> = min 1800 (2 * pause_length k)" unfolding retry_delay_def by (simp add: min_def)
    finally show ?thesis .
  next
    case False
    then have "nat (min 20 (max 0 (k + 1 - 1))) = 20" "nat (min 20 (max 0 (k - 1))) = 20" by simp_all
    then show ?thesis by (simp add: retry_delay_def)
  qed
qed

end
