(* ===== verification/Judge_Engine.thy ===== *)
theory Judge_Engine
  imports Judge_Settings
begin

text \<open>
  What the memory guard of the judge reads, from \<open>src/services/modea/memwatch.py\<close>: the kernel's files as texts, the answers of the judge
  engine as JSON documents, and the footprint of the judge model made from them. A file or an answer that was not read is \<open>None\<close>.
\<close>

section \<open>The kernel's files\<close>

text \<open>\<open>str.splitlines\<close>, \<open>str.split\<close> without a separator and \<open>str.partition\<close>, on code points up to 255.\<close>

definition is_break :: "char \<Rightarrow> bool" where
  "is_break c \<longleftrightarrow> (let n = (of_char c :: nat) in (10 \<le> n \<and> n \<le> 13) \<or> (28 \<le> n \<and> n \<le> 30) \<or> n = 133)"

fun crlf :: "string \<Rightarrow> string" where
  "crlf [] = []"
| "crlf [c] = [c]"
| "crlf (c # d # s) = (if c = CHR 0x0D \<and> d = CHR 0x0A then d # crlf s else c # crlf (d # s))"

fun cut_lines :: "string \<Rightarrow> string \<Rightarrow> string list" where
  "cut_lines acc [] = (if acc = [] then [] else [rev acc])"
| "cut_lines acc (c # s) = (if is_break c then rev acc # cut_lines [] s else cut_lines (c # acc) s)"

definition splitlines :: "string \<Rightarrow> string list" where
  "splitlines s = cut_lines [] (crlf s)"

fun cut_words :: "string \<Rightarrow> string \<Rightarrow> string list" where
  "cut_words acc [] = (if acc = [] then [] else [rev acc])"
| "cut_words acc (c # s) = (if is_space c then (if acc = [] then cut_words [] s else rev acc # cut_words [] s) else cut_words (c # acc) s)"

definition split_words :: "string \<Rightarrow> string list" where
  "split_words s = cut_words [] s"

definition partition_at :: "char \<Rightarrow> string \<Rightarrow> string \<times> bool \<times> string" where
  "partition_at c s = (takeWhile (\<lambda>x. x \<noteq> c) s, c \<in> set s, tl (dropWhile (\<lambda>x. x \<noteq> c) s))"

definition meminfo_line :: "(string, int) dict \<Rightarrow> string \<Rightarrow> (string, int) dict" where
  "meminfo_line out line = (case partition_at (CHR '':'') line of (key, sep, rest) \<Rightarrow>
     (case split_words rest of
        [] \<Rightarrow> out
      | p # ps \<Rightarrow>
          if \<not> sep then out
          else (case int_of_text p of
              None \<Rightarrow> out
            | Some v \<Rightarrow> AList.update (strip key) (if take 1 ps = [''kB''] then v div 1024 else v div (1024 * 1024)) out)))"

definition read_meminfo :: "string option \<Rightarrow> (string, int) dict option" where
  "read_meminfo text = map_option (\<lambda>t. foldl meminfo_line [] (splitlines t)) text"

definition vmstat_line :: "(string, int) dict \<Rightarrow> string \<Rightarrow> (string, int) dict" where
  "vmstat_line out line = (case split_words line of
     [p, q] \<Rightarrow>
       if p = ''pswpout'' \<or> p = ''pswpin'' then (case int_of_text q of None \<Rightarrow> out | Some v \<Rightarrow> AList.update p v out) else out
   | _ \<Rightarrow> out)"

definition read_vmstat :: "string option \<Rightarrow> (string, int) dict option" where
  "read_vmstat text = map_option (\<lambda>t. foldl vmstat_line [] (splitlines t)) text"

definition pressure_field :: "string \<Rightarrow> (string, number) dict \<Rightarrow> string \<Rightarrow> (string, number) dict" where
  "pressure_field kind out p = (case partition_at (CHR ''='') p of (k, s, v) \<Rightarrow>
     if k = ''avg10'' \<or> k = ''avg300'' then
       (case float_text v of None \<Rightarrow> out | Some x \<Rightarrow> AList.update (kind @ ''_'' @ k) x out)
     else out)"

definition pressure_line :: "(string, number) dict \<Rightarrow> string \<Rightarrow> (string, number) dict" where
  "pressure_line out line = (case split_words line of
     [] \<Rightarrow> out
   | p # ps \<Rightarrow> if p = ''some'' \<or> p = ''full'' then foldl (pressure_field p) out ps else out)"

definition read_pressure :: "string option \<Rightarrow> (string, number) dict option" where
  "read_pressure text = Option.bind text (\<lambda>t.
     let out = foldl pressure_line [] (splitlines t) in if out = [] then None else Some out)"

text \<open>\<open>int(x)\<close> of a float.\<close>

definition truncated :: "rat \<Rightarrow> int" where
  "truncated x = (if 0 \<le> x then \<lfloor>x\<rfloor> else \<lceil>x\<rceil>)"

record reading =
  rd_at :: int
  mem_total :: "int option"
  mem_available :: "int option"
  mem_free :: "int option"
  active_file :: "int option"
  swap_total :: "int option"
  swap_used :: "int option"
  rd_pswpout :: "int option"
  some_avg10 :: "number option"
  full_avg10 :: "number option"
  some_avg300 :: "number option"

definition readings :: "string option \<Rightarrow> string option \<Rightarrow> string option \<Rightarrow> rat \<Rightarrow> reading" where
  "readings meminfo vmstat pressure now =
     (let mi = or_default (read_meminfo meminfo) []; vm = or_default (read_vmstat vmstat) []; ps = or_default (read_pressure pressure) [] in
      \<lparr>rd_at = truncated now, mem_total = map_of mi ''MemTotal'', mem_available = map_of mi ''MemAvailable'',
       mem_free = map_of mi ''MemFree'', active_file = map_of mi ''Active(file)'', swap_total = map_of mi ''SwapTotal'',
       swap_used = (case (map_of mi ''SwapTotal'', map_of mi ''SwapFree'') of (Some t, Some f) \<Rightarrow> Some (t - f) | _ \<Rightarrow> None),
       rd_pswpout = map_of vm ''pswpout'', some_avg10 = map_of ps ''some_avg10'', full_avg10 = map_of ps ''full_avg10'',
       some_avg300 = map_of ps ''some_avg300''\<rparr>)"

section \<open>The engine's lists\<close>

text \<open>
  The answers of one moment: \<open>/api/ps\<close> and \<open>/api/tags\<close> as \<open>_get\<close> gives them, \<open>/api/show\<close> as \<open>_post_to\<close> does, \<open>None\<close> when it raised.
  \<open>py_str\<close> is Python's \<open>str\<close> on a value that is neither a text nor false.
\<close>

record engine =
  en_ps :: "pydict option"
  en_tags :: "pydict option"
  en_show :: "pyval option"

definition model_ref :: "string \<Rightarrow> string" where
  "model_ref name = (let n = strip name in
     if n = [] then [] else if CHR '':'' \<in> set (takeWhile (\<lambda>c. c \<noteq> CHR ''/'') (rev n)) then n else n @ '':latest'')"

definition name_text :: "(pyval \<Rightarrow> string) \<Rightarrow> pyval \<Rightarrow> string" where
  "name_text py_str v = (if \<not> truthy v then [] else case v of PStr s \<Rightarrow> s | _ \<Rightarrow> py_str v)"

definition iterated :: "pyval \<Rightarrow> pyval list result" where
  "iterated v = (case v of
     PList xs \<Rightarrow> Inr xs
   | PStr s \<Rightarrow> Inr (map (\<lambda>c. PStr [c]) s)
   | PDict d \<Rightarrow> Inr (map (\<lambda>(k, x). PStr k) d)
   | _ \<Rightarrow> if truthy v then Inl TypeError else Inr [])"

definition lists_model :: "(pyval \<Rightarrow> string) \<Rightarrow> string \<Rightarrow> pyval \<Rightarrow> bool" where
  "lists_model py_str want v = (case v of
     PDict m \<Rightarrow> want \<noteq> [] \<and> (want = model_ref (name_text py_str (dget m ''name'')) \<or> want = model_ref (name_text py_str (dget m ''model'')))
   | _ \<Rightarrow> False)"

definition listed :: "(pyval \<Rightarrow> string) \<Rightarrow> pydict \<Rightarrow> string \<Rightarrow> pydict option result" where
  "listed py_str doc model = bind_res (iterated (dget doc ''models'')) (\<lambda>ms.
     Inr (Option.bind (find (lists_model py_str (model_ref model)) ms) dict_of))"

definition mib :: "pyval \<Rightarrow> int option" where
  "mib v = (case v of PInt i \<Rightarrow> if 0 < i then Some (i div (1024 * 1024)) else None | _ \<Rightarrow> None)"

text \<open>Whether the model is loaded (\<open>None\<close>: not read, or no model named), and the engine's own size of it.\<close>

definition model_loaded :: "(pyval \<Rightarrow> string) \<Rightarrow> engine \<Rightarrow> string option \<Rightarrow> (bool option \<times> int option) result" where
  "model_loaded py_str en model = (case model of
     None \<Rightarrow> Inr (None, None)
   | Some name \<Rightarrow>
       if name = [] then Inr (None, None)
       else (case en_ps en of
           None \<Rightarrow> Inr (None, None)
         | Some doc \<Rightarrow> bind_res (listed py_str doc name) (\<lambda>m.
             Inr (case m of None \<Rightarrow> (Some False, None) | Some d \<Rightarrow> (Some True, mib (dget d ''size''))))))"

definition model_file_mb :: "(pyval \<Rightarrow> string) \<Rightarrow> engine \<Rightarrow> string option \<Rightarrow> int option result" where
  "model_file_mb py_str en model = (case model of
     None \<Rightarrow> Inr None
   | Some name \<Rightarrow>
       if name = [] then Inr None
       else (case en_tags en of
           None \<Rightarrow> Inr None
         | Some doc \<Rightarrow> bind_res (listed py_str doc name) (\<lambda>m. Inr (Option.bind m (\<lambda>d. mib (dget d ''size''))))))"

definition model_info :: "engine \<Rightarrow> string option \<Rightarrow> pydict option" where
  "model_info en model = (if model = None \<or> model = Some [] then None
     else (case en_show en of Some (PDict d) \<Rightarrow> dict_of (dget d ''model_info'') | _ \<Rightarrow> None))"

section \<open>The footprint before a load\<close>

definition whole :: "pyval \<Rightarrow> int option" where
  "whole v = (case v of PInt i \<Rightarrow> positive_count i | _ \<Rightarrow> None)"

definition KV_BYTES_PER_ELEMENT :: int where "KV_BYTES_PER_ELEMENT = 2"

text \<open>The sum of the heads over the layers: one count for each layer, or one count for all.\<close>

definition head_sum :: "int \<Rightarrow> pyval \<Rightarrow> int option" where
  "head_sum blocks heads = (case heads of
     PList hs \<Rightarrow>
       if int (length hs) \<noteq> blocks \<or> list_ex (\<lambda>h. whole h = None) hs then None
       else Some (sum_list (map (\<lambda>h. the (whole h)) hs))
   | _ \<Rightarrow> map_option (\<lambda>h. blocks * h) (whole heads))"

definition kv_cache_bytes :: "pydict option \<Rightarrow> int option \<Rightarrow> int option \<Rightarrow> int option" where
  "kv_cache_bytes info context_tokens num_parallel = (case (info, context_tokens, num_parallel) of
     (Some d, Some ctx, Some par) \<Rightarrow>
       if positive_count ctx = None \<or> positive_count par = None then None
       else (case dget d ''general.architecture'' of
           PStr arch \<Rightarrow>
             if arch = [] then None
             else (case (whole (dget d (arch @ ''.block_count'')), whole (dget d (arch @ ''.attention.key_length'')),
                         whole (dget d (arch @ ''.attention.value_length''))) of
                 (Some blocks, Some k, Some v) \<Rightarrow>
                   map_option (\<lambda>hs. hs * (k + v) * ctx * par * KV_BYTES_PER_ELEMENT)
                     (head_sum blocks (dget d (arch @ ''.attention.head_count_kv'')))
               | _ \<Rightarrow> None)
         | _ \<Rightarrow> None)
   | _ \<Rightarrow> None)"

definition kv_cache_mb :: "pydict option \<Rightarrow> int option \<Rightarrow> int option \<Rightarrow> int option" where
  "kv_cache_mb info ctx par = map_option (\<lambda>nbytes. - (- nbytes div (1024 * 1024))) (kv_cache_bytes info ctx par)"

definition DECLARED_JUDGE_MODELS :: "(string, int list) dict" where
  "DECLARED_JUDGE_MODELS = [(''qwen3:30b-a3b-instruct-2507-q4_K_M'', [17697, 48, 4, 128, 128, 4096, 18167, 18644])]"

definition declared_info :: "int \<Rightarrow> int \<Rightarrow> int \<Rightarrow> int \<Rightarrow> pydict" where
  "declared_info blocks heads k v = [(''general.architecture'', PStr ''declared''), (''declared.block_count'', PInt blocks),
     (''declared.attention.head_count_kv'', PInt heads), (''declared.attention.key_length'', PInt k),
     (''declared.attention.value_length'', PInt v)]"

definition declared_footprint :: "string option \<Rightarrow> int option \<Rightarrow> int option \<Rightarrow> int option \<Rightarrow> int option" where
  "declared_footprint model ctx par file_mb = (case model of
     None \<Rightarrow> None
   | Some name \<Rightarrow>
       (case map_of DECLARED_JUDGE_MODELS (model_ref name) of
          Some (dfile # blocks # heads # k # v # measured) \<Rightarrow>
            if file_mb \<noteq> None \<and> file_mb \<noteq> Some dfile then None
            else map_option (\<lambda>kv. dfile + kv) (kv_cache_mb (Some (declared_info blocks heads k v)) ctx par)
        | _ \<Rightarrow> None))"

datatype source = EnginePs | LoadDelta | FileKv | Declared | FileOnly | LimitReached

definition lower_bound :: "source option \<Rightarrow> bool" where
  "lower_bound src \<longleftrightarrow> src = Some FileOnly \<or> src = Some LimitReached"

definition measured_source :: "source option \<Rightarrow> bool" where
  "measured_source src \<longleftrightarrow> src = Some EnginePs \<or> src = Some LoadDelta"

definition source_name :: "source \<Rightarrow> string" where
  "source_name s = (case s of EnginePs \<Rightarrow> ''engine-ps'' | LoadDelta \<Rightarrow> ''load-delta'' | FileKv \<Rightarrow> ''file+kv'' | Declared \<Rightarrow> ''declared''
     | FileOnly \<Rightarrow> ''file'' | LimitReached \<Rightarrow> ''limit-reached'')"

definition source_of :: "string \<Rightarrow> source option" where
  "source_of s = find (\<lambda>x. source_name x = s) [EnginePs, LoadDelta, FileKv, Declared, FileOnly, LimitReached]"

definition footprint_estimate :: "(pyval \<Rightarrow> string) \<Rightarrow> engine \<Rightarrow> string option \<Rightarrow> env \<Rightarrow> (int \<times> source) option result" where
  "footprint_estimate py_str en model E = bind_res (model_file_mb py_str en model) (\<lambda>f. Inr (case f of
     None \<Rightarrow> None
   | Some mb \<Rightarrow>
       (case kv_cache_mb (model_info en model) (engine_context_tokens E) (engine_num_parallel E) of
          Some kv \<Rightarrow> Some (mb + kv, FileKv)
        | None \<Rightarrow>
            (case declared_footprint model (engine_context_tokens E) (engine_num_parallel E) (Some mb) of
               Some d \<Rightarrow> Some (d, Declared) | None \<Rightarrow> Some (mb, FileOnly)))))"

section \<open>The context cache is never counted short\<close>

lemma whole_Some: "whole v = Some i \<longleftrightarrow> v = PInt i \<and> 0 < i"
  by (auto simp: whole_def positive_count_def split: pyval.splits if_splits)

lemma positive_count_Some [simp]: "positive_count n = Some i \<longleftrightarrow> i = n \<and> 0 < n"
  by (auto simp: positive_count_def)

text \<open>A model of one head count per layer has the sum of the counts; one count for all stands for the same count in every layer.\<close>

lemma head_sum_spec:
  assumes "head_sum blocks heads = Some n" "0 < blocks"
  obtains hs where "int (length hs) = blocks" "\<forall>h \<in> set hs. 0 < h" "n = sum_list hs"
proof (cases "\<exists>xs. heads = PList xs")
  case True
  then obtain xs where "heads = PList xs" by blast
  from this have x: "int (length xs) = blocks" "\<forall>h \<in> set xs. \<exists>i. whole h = Some i" "n = sum_list (map (\<lambda>h. the (whole h)) xs)"
    using assms(1) by (auto simp: head_sum_def list_ex_iff split: if_splits)
  moreover have "0 < the (whole h)" if "h \<in> set xs" for h 
  proof -
    obtain i where "whole h = Some i" using x(2) \<open>h \<in> set xs\<close> by blast
    then show ?thesis by simp (simp only: whole_Some)
  qed
  ultimately show thesis by (intro that [of "map (\<lambda>h. the (whole h)) xs"]) auto
next
  case False
  then obtain h where "whole heads = Some h" "n = blocks * h" using assms(1) by (auto simp: head_sum_def split: pyval.splits)
  then show thesis using assms(2) by (intro that [of "replicate (nat blocks) h"]) (auto simp: whole_Some sum_list_replicate)
qed

lemma head_sum_uniform: "0 < b \<Longrightarrow> head_sum b (PList (replicate (nat b) (PInt h))) = head_sum b (PInt h)"
  by (auto simp: head_sum_def list_ex_iff whole_def positive_count_def sum_list_replicate)

lemma kv_cache_bytes_pos:
  assumes "kv_cache_bytes info ctx par = Some b"
  shows "0 < b"
proof -
  obtain d c p arch blocks k v n where D: "0 < c" "0 < p" "0 < blocks" "0 < k" "0 < v" "head_sum blocks (dget d (arch @ ''.attention.head_count_kv'')) = Some n"
    "b = n * (k + v) * c * p * KV_BYTES_PER_ELEMENT"
    using assms by (auto simp: kv_cache_bytes_def positive_count_def whole_Some split: option.splits pyval.splits if_splits)
  obtain hs where h: "int (length hs) = blocks" "\<forall>h \<in> set hs. 0 < h" "n = sum_list hs" by (rule head_sum_spec [OF D(6,3)])
  then obtain x xs where "hs = x # xs" using D(3) by (cases hs) auto
  then have "0 < n" using h by (auto intro!: add_pos_nonneg sum_list_nonneg simp: less_imp_le)
  then show ?thesis using D by (simp add: KV_BYTES_PER_ELEMENT_def)
qed

lemma kv_cache_mb_rounds_up:
  "kv_cache_mb info ctx par = Some mb \<Longrightarrow> \<exists>b. kv_cache_bytes info ctx par = Some b \<and> 0 < b \<and> b \<le> mb * 1048576 \<and> mb * 1048576 < b + 1048576"
proof -
  assume "kv_cache_mb info ctx par = Some mb"
  then obtain b where b: "kv_cache_bytes info ctx par = Some b" "mb = - (- b div 1048576)" by (auto simp: kv_cache_mb_def)
  have "b \<le> mb * 1048576 \<and> mb * 1048576 < b + 1048576" unfolding b(2) by linarith
  then show ?thesis using b(1) kv_cache_bytes_pos by blast
qed

text \<open>
  The estimate of a model's memory is never short of the file and the cache it is made of. An estimate is at least the file the engine
  lists; it is the file alone exactly when it says so, a lower bound; otherwise what it adds is the context cache, in bytes the product of
  its metadata, rounded up to whole MiB and never down, from the engine's metadata or, only when the engine gives none and lists the file at
  the declared size, from the declared figures.
\<close>

theorem footprint_estimate_covers:
  assumes "footprint_estimate py_str en model E = Inr (Some (mb, src))"
  shows "\<exists>f. model_file_mb py_str en model = Inr (Some f) \<and> f \<le> mb \<and> (src = FileOnly \<longleftrightarrow> mb = f) \<and> (lower_bound (Some src) \<longleftrightarrow> src = FileOnly)
    \<and> (mb \<noteq> f \<longrightarrow> (\<exists>info b. kv_cache_bytes (Some info) (engine_context_tokens E) (engine_num_parallel E) = Some b
         \<and> 0 < b \<and> b \<le> (mb - f) * 1048576 \<and> (mb - f) * 1048576 < b + 1048576
         \<and> (src = FileKv \<and> model_info en model = Some info \<or> src = Declared
              \<and> kv_cache_bytes (model_info en model) (engine_context_tokens E) (engine_num_parallel E) = None
              \<and> (\<exists>h k v n. info = declared_info n h k v))))"
proof -
  let ?c = "engine_context_tokens E" and ?p = "engine_num_parallel E"
  obtain fo where fo: "model_file_mb py_str en model = Inr fo"
    using assms unfolding footprint_estimate_def bind_res_eq_Inr by blast
  then obtain f where "fo = Some f" using assms by (cases fo) (simp_all add: footprint_estimate_def)
  with fo have f: "model_file_mb py_str en model = Inr (Some f)" by simp
  consider (kv) kv where "kv_cache_mb (model_info en model) ?c ?p = Some kv" "mb = f + kv" "src = FileKv"
    | (decl) "kv_cache_mb (model_info en model) ?c ?p = None" "declared_footprint model ?c ?p (Some f) = Some mb" "src = Declared"
    | (alone) "mb = f" "src = FileOnly"
    using assms f by (auto simp: footprint_estimate_def split: option.splits)
  then show ?thesis
  proof cases
    case kv
    obtain b where b: "kv_cache_bytes (model_info en model) ?c ?p = Some b" "0 < b" "b \<le> kv * 1048576" "kv * 1048576 < b + 1048576"
      using kv_cache_mb_rounds_up [OF kv(1)] by blast
    obtain info where "model_info en model = Some info" using b(1) by (cases "model_info en model") (auto simp: kv_cache_bytes_def)
    then show ?thesis using f kv b by (auto simp: lower_bound_def)
  next
    case decl
    obtain dfile n h k v kv where d: "dfile = f" "kv_cache_mb (Some (declared_info n h k v)) ?c ?p = Some kv" "mb = dfile + kv"
      using decl(2) by (auto simp: declared_footprint_def split: option.splits list.splits if_splits)
    obtain b where b: "kv_cache_bytes (Some (declared_info n h k v)) ?c ?p = Some b" "0 < b" "b \<le> kv * 1048576" "kv * 1048576 < b + 1048576"
      using kv_cache_mb_rounds_up [OF d(2)] by blast
    have "kv_cache_bytes (model_info en model) ?c ?p = None" using decl(1) by (simp add: kv_cache_mb_def)
    moreover have "\<exists>h' k' v' n'. declared_info n h k v = declared_info n' h' k' v'" by blast
    moreover have "mb - f = kv" "f \<le> mb" "mb \<noteq> f" using d b by auto
    ultimately show ?thesis using f b decl(3) by (intro exI [of _ f] conjI impI exI [of _ "declared_info n h k v"] exI [of _ b]) (simp_all add: lower_bound_def)
  next
    case alone
    then show ?thesis using f by (simp add: lower_bound_def)
  qed
qed

text \<open>The engine of a kit that lists the judge model and gives no metadata for it.\<close>

definition sample_model :: string where
  "sample_model = ''qwen3:30b-a3b-instruct-2507-q4_K_M''"

definition sample_engine :: engine where
  "sample_engine = \<lparr>en_ps = Some [(''models'', PList [])],
     en_tags = Some [(''models'', PList [PDict [(''name'', PStr sample_model), (''size'', PInt (17697 * 1048576))]])], en_show = None\<rparr>"

lemma sample_model_file: "model_file_mb (\<lambda>v. []) sample_engine (Some sample_model) = Inr (Some 17697)"
  unfolding sample_engine_def sample_model_def by code_simp

lemma sample_estimate: "footprint_estimate (\<lambda>v. []) sample_engine (Some sample_model) (\<lambda>_. None) = Inr (Some (18081, Declared))"
proof -
  note sample_model_file
  moreover have "engine_context_tokens (\<lambda>_. None) = Some 4096" "engine_num_parallel (\<lambda>_. None) = Some 1" by code_simp+
  moreover have "declared_footprint (Some sample_model) (Some 4096) (Some 1) (Some 17697) = Some 18081" unfolding sample_model_def by code_simp
  moreover have "model_info sample_engine (Some sample_model) = None" by (simp add: model_info_def sample_engine_def)
  ultimately show ?thesis by (simp add: footprint_estimate_def kv_cache_mb_def kv_cache_bytes_def)
qed

theorem footprint_estimate_covers_witness:
  "footprint_estimate (\<lambda>v. []) sample_engine (Some sample_model) (\<lambda>_. None) = Inr (Some (18081, Declared))
   \<and> (\<exists>f. model_file_mb (\<lambda>v. []) sample_engine (Some sample_model) = Inr (Some f) \<and> f < 18081)"
proof -
  note C = footprint_estimate_covers [OF sample_estimate]
  obtain f where f: "model_file_mb (\<lambda>v. []) sample_engine (Some sample_model) = Inr (Some f)" "f \<le> 18081" "Declared = FileOnly \<longleftrightarrow> 18081 = f"
    using C by (elim exE conjE) (rule that)
  then have "f < 18081" by auto
  with f(1) sample_estimate show ?thesis by blast
qed

end
