(* ===== verification/Judge_Memory.thy ===== *)
theory Judge_Memory
  imports Judge_Engine
begin

text \<open>
  The judge's memory guard of \<open>src/services/modea/memwatch.py\<close>: the gate before a load, the signals that unload the model, the state machine
  of the mode (\<open>MemWatch\<close>), the daemon's periods and its own check before a load (\<open>Watcher\<close>), and the juror's side, which reads the daemon's
  decision and checks the room itself. Times and pressures are rationals; the texts of a reason are its constructor.
\<close>

section \<open>The gate before a load and the signals of a shortage\<close>

datatype gate_why = PausedUntil rat | MemUnread | CacheUnread | NoFootprint | Stalled | OverLimit | NoRoom int int | LowerBoundOnly
  | WrongSettings | EngineUnread | ReadingFailed

datatype gate_state = GateOpen | GateClosed gate_why

definition above_zero :: "number option \<Rightarrow> bool" where
  "above_zero x = (case x of Some (Finite q) \<Rightarrow> 0 < q | Some PosInf \<Rightarrow> True | _ \<Rightarrow> False)"

definition reaches :: "number option \<Rightarrow> rat \<Rightarrow> bool" where
  "reaches x pct = (case x of Some (Finite q) \<Rightarrow> pct \<le> q | Some PosInf \<Rightarrow> True | _ \<Rightarrow> False)"

definition running :: "rat option \<Rightarrow> rat \<Rightarrow> bool" where
  "running pause now = (case pause of None \<Rightarrow> False | Some p \<Rightarrow> now < p)"

definition gate :: "reading \<Rightarrow> int option \<Rightarrow> int \<Rightarrow> int option \<Rightarrow> int option \<Rightarrow> rat option \<Rightarrow> rat \<Rightarrow> source option \<Rightarrow> gate_state" where
  "gate r footprint_mb headroom limit w_ref_mb paused_until now src =
     (if running paused_until now then GateClosed (PausedUntil (the paused_until))
      else (case mem_available r of
          None \<Rightarrow> GateClosed MemUnread
        | Some a \<Rightarrow>
            (case w_ref_mb of
               None \<Rightarrow> GateClosed CacheUnread
             | Some w \<Rightarrow>
                 (case footprint_mb of
                    None \<Rightarrow> GateClosed NoFootprint
                  | Some fp \<Rightarrow>
                      if above_zero (full_avg10 r) then GateClosed Stalled
                      else if (case limit of None \<Rightarrow> False | Some l \<Rightarrow> fp > l) then GateClosed OverLimit
                      else if a - w < fp + headroom then GateClosed (NoRoom (a - w) (fp + headroom))
                      else if lower_bound src then GateClosed LowerBoundOnly
                      else GateOpen))))"

datatype shortage = SwapLoaded | SwapNoRoom | SwapUnknown | Pressure | CacheTaken

definition unload_reasons :: "reading \<Rightarrow> int option \<Rightarrow> int option \<Rightarrow> int option \<Rightarrow> rat \<Rightarrow> bool \<Rightarrow> int \<Rightarrow> shortage list" where
  "unload_reasons r swap_out_pages w_ref_mb footprint_mb psi_pct loaded headroom =
     (let a = mem_available r;
          room = (case (a, w_ref_mb) of (Some x, Some w) \<Rightarrow> Some (x - w) | _ \<Rightarrow> None);
          swapped = (swap_out_pages \<noteq> None \<and> swap_out_pages \<noteq> Some 0) in
      (if swapped \<and> room \<noteq> None \<and> loaded then (if the room < headroom then [SwapLoaded] else [])
       else if swapped \<and> room \<noteq> None \<and> footprint_mb \<noteq> None then (if the room < the footprint_mb then [SwapNoRoom] else [])
       else if swapped then [SwapUnknown] else [])
      @ (if reaches (some_avg10 r) psi_pct then [Pressure] else [])
      @ (case (a, w_ref_mb) of (Some x, Some w) \<Rightarrow> if x < w then [CacheTaken] else [] | _ \<Rightarrow> []))"

section \<open>The state machine of the mode\<close>

datatype mode_why = SettingsWrong | ServerResident | WslOnDemand | StartsOnDemand | CeilingOnDemand | NoCeiling
  | OomLoading string | UnloadedFor "shortage list" | CleanReadings int

record mem_watch =
  mw_conf :: mem_conf
  mw_err :: bool
  mw_mode :: mode
  mw_since :: int
  mw_why :: mode_why
  mw_gate :: "gate_state option"
  mw_resident :: "bool option"
  w_ref :: "int option"
  prev_pswpout :: "int option"
  prev_loaded :: "bool option"
  swap_out_period :: "int option"
  mw_r :: "reading option"
  engine_ps_mb :: "int option"
  load_delta_mb :: "int option"
  mw_file_mb :: "int option"
  mw_kv_mb :: "int option"
  mw_declared_mb :: "int option"
  limit_floor_mb :: "int option"
  mw_load_s :: pyval
  mw_unloads :: int
  oom_own :: int
  oom_juror :: int
  juror_oom_last :: "int option"
  strikes :: int
  pause_until :: "rat option"
  clean_since :: "rat option"
  clean_unloaded :: bool
  mw_at :: "int option"
  last_reasons :: "shortage list"

definition start_mode :: "mem_conf \<Rightarrow> bool \<Rightarrow> mode \<times> mode_why" where
  "start_mode conf err =
     (if err then (OnDemand, SettingsWrong)
      else if ceiling conf = Some Resident \<and> host_kind_of conf = Some Server then (Resident, ServerResident)
      else if ceiling conf = Some Resident \<and> host_kind_of conf = Some Wsl then (OnDemand, WslOnDemand)
      else if ceiling conf = Some Resident then (OnDemand, StartsOnDemand)
      else if ceiling conf = Some OnDemand then (OnDemand, CeilingOnDemand)
      else (OnDemand, NoCeiling))"

definition mem_watch_init :: "mem_conf \<Rightarrow> bool \<Rightarrow> rat \<Rightarrow> mem_watch" where
  "mem_watch_init conf err now =
     \<lparr>mw_conf = conf, mw_err = err, mw_mode = fst (start_mode conf err), mw_since = truncated now, mw_why = snd (start_mode conf err),
      mw_gate = None, mw_resident = None, w_ref = None, prev_pswpout = None, prev_loaded = None, swap_out_period = None, mw_r = None,
      engine_ps_mb = None, load_delta_mb = None, mw_file_mb = None, mw_kv_mb = None, mw_declared_mb = None, limit_floor_mb = None,
      mw_load_s = PNone, mw_unloads = 0, oom_own = 0, oom_juror = 0, juror_oom_last = None, strikes = 0, pause_until = None,
      clean_since = None, clean_unloaded = False, mw_at = None, last_reasons = []\<rparr>"

definition estimated :: "mem_watch \<Rightarrow> int option \<times> source option" where
  "estimated s = (case mw_file_mb s of
     None \<Rightarrow> (None, None)
   | Some f \<Rightarrow>
       (case mw_kv_mb s of
          Some kv \<Rightarrow> (Some (f + kv), Some FileKv)
        | None \<Rightarrow> (case mw_declared_mb s of Some d \<Rightarrow> (Some d, Some Declared) | None \<Rightarrow> (Some f, Some FileOnly))))"

definition footprint :: "mem_watch \<Rightarrow> int option \<times> source option" where
  "footprint s =
     (if engine_ps_mb s \<noteq> None then (engine_ps_mb s, Some EnginePs)
      else if load_delta_mb s \<noteq> None then (load_delta_mb s, Some LoadDelta)
      else if (case (limit_floor_mb s, fst (estimated s)) of
                 (Some l, Some e) \<Rightarrow> e < l | (Some l, None) \<Rightarrow> True | _ \<Rightarrow> False)
      then (limit_floor_mb s, Some LimitReached) else estimated s)"

definition set_mode :: "mode \<Rightarrow> mode_why \<Rightarrow> rat \<Rightarrow> mem_watch \<Rightarrow> mem_watch" where
  "set_mode m why now s = s\<lparr>mw_mode := m, mw_since := (if m \<noteq> mw_mode s then truncated now else mw_since s), mw_why := why\<rparr>"

text \<open>\<open>isinstance(v, int)\<close>, which a bool is too.\<close>

definition int_or_bool :: "pyval \<Rightarrow> int option" where
  "int_or_bool v = (case v of PInt i \<Rightarrow> Some i | PBool b \<Rightarrow> Some (if b then 1 else 0) | _ \<Rightarrow> None)"

definition last_load_delta :: "pydict \<Rightarrow> int option" where
  "last_load_delta ll = (case (int_or_bool (dget ll ''available_before_mb''), int_or_bool (dget ll ''available_after_mb'')) of
     (Some b, Some a) \<Rightarrow> if b > a then Some (b - a) else None | _ \<Rightarrow> None)"

definition note_last_load :: "pydict \<Rightarrow> mem_watch \<Rightarrow> mem_watch" where
  "note_last_load ll s =
     (let s1 = (case last_load_delta ll of None \<Rightarrow> s | Some d \<Rightarrow> s\<lparr>load_delta_mb := Some d\<rparr>) in
      case dget ll ''load_s'' of PInt i \<Rightarrow> s1\<lparr>mw_load_s := PInt i\<rparr> | PFloat q \<Rightarrow> s1\<lparr>mw_load_s := PFloat q\<rparr> | _ \<Rightarrow> s1)"

definition note_juror :: "pydict \<Rightarrow> mem_watch \<Rightarrow> mem_watch \<times> int option" where
  "note_juror counters s =
     (let s1 = (case dget counters ''last_load'' of PDict ll \<Rightarrow> note_last_load ll s | _ \<Rightarrow> s) in
      case dget counters ''oom_seen'' of
        PInt n \<Rightarrow>
          (case juror_oom_last s1 of
             None \<Rightarrow> (s1\<lparr>juror_oom_last := Some n, oom_juror := n\<rparr>, None)
           | Some x \<Rightarrow>
               (let new = (if n \<ge> x then n - x else n) in
                (s1\<lparr>juror_oom_last := Some n, oom_juror := oom_juror s1 + new\<rparr>, Some new)))
      | _ \<Rightarrow> (s1, None))"

definition learns_limit :: "mem_watch \<Rightarrow> bool" where
  "learns_limit s = (case mem_limit_mb (mw_conf s) of
     None \<Rightarrow> False
   | Some l \<Rightarrow> \<not> measured_source (snd (footprint s)) \<and> (case fst (footprint s) of None \<Rightarrow> True | Some fp \<Rightarrow> fp \<le> l))"

definition note_oom :: "rat \<Rightarrow> string \<Rightarrow> mem_watch \<Rightarrow> mem_watch" where
  "note_oom now who s =
     (let s1 = (if learns_limit s then s\<lparr>limit_floor_mb := Some (the (mem_limit_mb (mw_conf s)) + 1)\<rparr> else s) in
      set_mode OnDemand (OomLoading who) now
        (s1\<lparr>strikes := strikes s1 + 1, pause_until := Some (now + pause_length (strikes s1 + 1)),
            clean_since := None, clean_unloaded := False\<rparr>))"

section \<open>One period\<close>

text \<open>What a period reads: the machine, whether the model is loaded, the sizes the engine gave, and the time.\<close>

record mem_period =
  pr_r :: reading
  pr_loaded :: "bool option"
  pr_size :: "int option"
  pr_file :: "int option"
  pr_kv :: "int option"
  pr_declared :: "int option"
  pr_now :: rat

definition first_of :: "'a option \<Rightarrow> 'a option \<Rightarrow> 'a option" where
  "first_of x y = (case x of None \<Rightarrow> y | Some v \<Rightarrow> Some v)"

definition take_reading :: "mem_period \<Rightarrow> mem_watch \<Rightarrow> mem_watch" where
  "take_reading p s = s\<lparr>mw_at := Some (truncated (pr_now p)), mw_r := Some (pr_r p), mw_resident := pr_loaded p,
     mw_file_mb := first_of (pr_file p) (mw_file_mb s), mw_kv_mb := first_of (pr_kv p) (mw_kv_mb s),
     mw_declared_mb := first_of (pr_declared p) (mw_declared_mb s),
     engine_ps_mb := (if pr_loaded p = Some True then first_of (pr_size p) (engine_ps_mb s) else engine_ps_mb s),
     w_ref := (if pr_loaded p = Some False then first_of (active_file (pr_r p)) (w_ref s) else w_ref s),
     swap_out_period := (case (rd_pswpout (pr_r p), prev_pswpout s) of
        (Some x, Some y) \<Rightarrow> if x \<ge> y then Some (x - y) else None | _ \<Rightarrow> None),
     prev_pswpout := rd_pswpout (pr_r p)\<rparr>"

definition reasons_on :: "mem_period \<Rightarrow> int option \<Rightarrow> mem_watch \<Rightarrow> shortage list" where
  "reasons_on p swap s = unload_reasons (pr_r p) swap (w_ref s) (fst (footprint s)) (psi_some_pct (mw_conf s))
     (pr_loaded p = Some True) (headroom_mb (mw_conf s))"

text \<open>The signals of a period, after its reading was taken: a swap-out counts only over a period loaded from end to end.\<close>

definition period_reasons :: "mem_period \<Rightarrow> mem_watch \<Rightarrow> shortage list" where
  "period_reasons p s =
     reasons_on p (if pr_loaded p = Some True \<and> prev_loaded s = Some True then swap_out_period s else None) s"

definition unloads :: "mem_period \<Rightarrow> mem_watch \<Rightarrow> bool" where
  "unloads p s \<longleftrightarrow> pr_loaded p = Some True \<and> period_reasons p s \<noteq> []"

definition after_reasons :: "mem_period \<Rightarrow> mem_watch \<Rightarrow> mem_watch" where
  "after_reasons p s =
     (let rs = period_reasons p s; s1 = s\<lparr>prev_loaded := pr_loaded p, last_reasons := rs\<rparr> in
      if unloads p s then
        set_mode OnDemand (UnloadedFor rs) (pr_now p)
          (s1\<lparr>mw_unloads := mw_unloads s1 + 1, strikes := strikes s1 + 1, pause_until := Some (pr_now p + pause_length (strikes s1 + 1))\<rparr>)
      else s1)"

text \<open>Whether a period breaks the clean readings; \<open>s\<close> is the state after its reasons.\<close>

definition bad_period :: "mem_period \<Rightarrow> mem_watch \<Rightarrow> bool" where
  "bad_period p s \<longleftrightarrow>
     (case footprint s of (fp, src) \<Rightarrow>
        last_reasons s \<noteq> [] \<or> reasons_on p (swap_out_period s) s \<noteq> [] \<or> above_zero (full_avg10 (pr_r p))
        \<or> mem_available (pr_r p) = None \<or> w_ref s = None \<or> fp = None \<or> lower_bound src
        \<or> running (pause_until s) (pr_now p)
        \<or> pr_loaded p = Some False \<and> the (mem_available (pr_r p)) - the (w_ref s) < the fp + headroom_mb (mw_conf s)
        \<or> pr_loaded p = None)"

definition may_promote :: "mem_watch \<Rightarrow> bool" where
  "may_promote s \<longleftrightarrow> mw_mode s = OnDemand \<and> ceiling (mw_conf s) = Some Resident \<and> \<not> mw_err s \<and> host_kind_of (mw_conf s) \<noteq> Some Wsl"

definition count_clean :: "mem_period \<Rightarrow> mem_watch \<Rightarrow> mem_watch" where
  "count_clean p s =
     (if bad_period p s then s\<lparr>clean_since := None, clean_unloaded := False\<rparr>
      else
        (let since = or_default (clean_since s) (pr_now p); unl = (clean_unloaded s \<or> pr_loaded p = Some False);
             s1 = s\<lparr>clean_since := Some since, clean_unloaded := unl\<rparr> in
         if unl \<and> pr_now p - since \<ge> promote_after_s (mw_conf s) then
           (let s2 = s1\<lparr>strikes := 0\<rparr> in
            if may_promote s2 then set_mode Resident (CleanReadings (truncated (pr_now p - since))) (pr_now p) s2 else s2)
         else s1))"

definition gate_now :: "mem_watch \<Rightarrow> reading \<Rightarrow> rat \<Rightarrow> gate_state" where
  "gate_now s r now =
     (if mw_err s then GateClosed WrongSettings
      else gate r (fst (footprint s)) (headroom_mb (mw_conf s)) (mem_limit_mb (mw_conf s)) (w_ref s) (pause_until s) now (snd (footprint s)))"

definition observe :: "mem_period \<Rightarrow> mem_watch \<Rightarrow> mem_watch \<times> bool" where
  "observe p s =
     (let s1 = take_reading p s; s2 = after_reasons p s1; s3 = count_clean p s2 in
      (s3\<lparr>mw_gate := Some (gate_now s3 (pr_r p) (pr_now p))\<rparr>, unloads p s1))"

section \<open>Runs\<close>

text \<open>
  Everything that touches the state: a period, a load that ran out of memory, the juror's counters, the figures a check before a load
  refreshes, and the daemon's own count of such loads.
\<close>

datatype mw_op = Observe mem_period | NoteOom rat string | NoteJuror pydict
  | Refresh "int option" "int option" "int option" "int option" "gate_state option" | CountOwn

definition refresh_figures :: "int option \<Rightarrow> int option \<Rightarrow> int option \<Rightarrow> int option \<Rightarrow> gate_state option \<Rightarrow> mem_watch \<Rightarrow> mem_watch" where
  "refresh_figures w f k d g s = s\<lparr>w_ref := first_of w (w_ref s), mw_file_mb := first_of f (mw_file_mb s), mw_kv_mb := first_of k (mw_kv_mb s),
     mw_declared_mb := first_of d (mw_declared_mb s), mw_gate := first_of g (mw_gate s)\<rparr>"

fun mw_step :: "mem_watch \<Rightarrow> mw_op \<Rightarrow> mem_watch" where
  "mw_step s (Observe p) = fst (observe p s)"
| "mw_step s (NoteOom now who) = note_oom now who s"
| "mw_step s (NoteJuror counters) = fst (note_juror counters s)"
| "mw_step s (Refresh w f k d g) = refresh_figures w f k d g s"
| "mw_step s CountOwn = s\<lparr>oom_own := oom_own s + 1\<rparr>"

definition run_ops :: "mem_watch \<Rightarrow> mw_op list \<Rightarrow> mem_watch" where
  "run_ops s ops = foldl mw_step s ops"

lemma run_ops_simps [simp]: "run_ops s [] = s" "run_ops s (op # ops) = run_ops (mw_step s op) ops" "run_ops s (xs @ ys) = run_ops (run_ops s xs) ys"
  by (simp_all add: run_ops_def)

text \<open>What each operation does to the fields of the mode, the pause and the clean readings.\<close>

named_theorems mw_fields

lemma footprint_cong:
  assumes "engine_ps_mb t = engine_ps_mb s" "load_delta_mb t = load_delta_mb s" "limit_floor_mb t = limit_floor_mb s"
    and "mw_file_mb t = mw_file_mb s" "mw_kv_mb t = mw_kv_mb s" "mw_declared_mb t = mw_declared_mb s"
  shows "footprint t = footprint s"
  unfolding footprint_def estimated_def assms ..

lemma set_mode_fields [mw_fields, simp]:
  "mw_mode (set_mode m why now s) = m" "mw_conf (set_mode m why now s) = mw_conf s" "mw_err (set_mode m why now s) = mw_err s"
  "strikes (set_mode m why now s) = strikes s" "pause_until (set_mode m why now s) = pause_until s" "w_ref (set_mode m why now s) = w_ref s"
  "clean_since (set_mode m why now s) = clean_since s" "clean_unloaded (set_mode m why now s) = clean_unloaded s"
  "last_reasons (set_mode m why now s) = last_reasons s" "swap_out_period (set_mode m why now s) = swap_out_period s"
  "limit_floor_mb (set_mode m why now s) = limit_floor_mb s" "engine_ps_mb (set_mode m why now s) = engine_ps_mb s"
  "load_delta_mb (set_mode m why now s) = load_delta_mb s" "mw_file_mb (set_mode m why now s) = mw_file_mb s"
  "mw_kv_mb (set_mode m why now s) = mw_kv_mb s" "mw_declared_mb (set_mode m why now s) = mw_declared_mb s"
  by (simp_all add: set_mode_def)

lemma take_reading_fields [mw_fields, simp]:
  "mw_mode (take_reading p s) = mw_mode s" "mw_conf (take_reading p s) = mw_conf s" "mw_err (take_reading p s) = mw_err s"
  "strikes (take_reading p s) = strikes s" "pause_until (take_reading p s) = pause_until s"
  "clean_since (take_reading p s) = clean_since s" "clean_unloaded (take_reading p s) = clean_unloaded s"
  "limit_floor_mb (take_reading p s) = limit_floor_mb s" "load_delta_mb (take_reading p s) = load_delta_mb s"
  by (simp_all add: take_reading_def)

lemma after_reasons_fields [mw_fields, simp]:
  "mw_conf (after_reasons p s) = mw_conf s" "mw_err (after_reasons p s) = mw_err s" "w_ref (after_reasons p s) = w_ref s"
  "clean_since (after_reasons p s) = clean_since s" "clean_unloaded (after_reasons p s) = clean_unloaded s"
  "swap_out_period (after_reasons p s) = swap_out_period s"
  "last_reasons (after_reasons p s) = period_reasons p s"
  "limit_floor_mb (after_reasons p s) = limit_floor_mb s" "engine_ps_mb (after_reasons p s) = engine_ps_mb s"
  "load_delta_mb (after_reasons p s) = load_delta_mb s"
  "mw_mode (after_reasons p s) = (if unloads p s then OnDemand else mw_mode s)"
  "strikes (after_reasons p s) = (if unloads p s then strikes s + 1 else strikes s)"
  "pause_until (after_reasons p s) = (if unloads p s then Some (pr_now p + pause_length (strikes s + 1)) else pause_until s)"
  by (simp_all add: after_reasons_def Let_def)

text \<open>The three ends of the count: a bad period, a clean one that promotes nothing, a promotion.\<close>

lemma count_clean_cases:
  obtains (bad) "bad_period p s" "count_clean p s = s\<lparr>clean_since := None, clean_unloaded := False\<rparr>"
  | (counted) k where "\<not> bad_period p s"
      "count_clean p s = s\<lparr>clean_since := Some (or_default (clean_since s) (pr_now p)), clean_unloaded := clean_unloaded s \<or> pr_loaded p = Some False, strikes := k\<rparr>"
      "k = (if (clean_unloaded s \<or> pr_loaded p = Some False) \<and> promote_after_s (mw_conf s) \<le> pr_now p - or_default (clean_since s) (pr_now p) then 0 else strikes s)"
  | (promoted) why where "\<not> bad_period p s" "may_promote s" "clean_unloaded s \<or> pr_loaded p = Some False"
      "promote_after_s (mw_conf s) \<le> pr_now p - or_default (clean_since s) (pr_now p)"
      "count_clean p s = set_mode Resident why (pr_now p)
         (s\<lparr>clean_since := Some (or_default (clean_since s) (pr_now p)), clean_unloaded := True, strikes := 0\<rparr>)"
proof -
  let ?since = "or_default (clean_since s) (pr_now p)" and ?unl = "clean_unloaded s \<or> pr_loaded p = Some False"
  let ?s1 = "s\<lparr>clean_since := Some ?since, clean_unloaded := ?unl\<rparr>"
  have promote: "may_promote (?s1\<lparr>strikes := 0\<rparr>) = may_promote s" by (simp add: may_promote_def)
  show thesis
  proof (cases "bad_period p s")
    case True
    then show thesis using bad by (simp add: count_clean_def)
  next
    case False
    then have c: "count_clean p s = (if ?unl \<and> pr_now p - ?since \<ge> promote_after_s (mw_conf s)
        then if may_promote s then set_mode Resident (CleanReadings (truncated (pr_now p - ?since))) (pr_now p) (?s1\<lparr>strikes := 0\<rparr>)
             else ?s1\<lparr>strikes := 0\<rparr> else ?s1)"
      unfolding count_clean_def Let_def promote by (simp only: if_False mem_watch.simps)
    consider "?unl \<and> pr_now p - ?since \<ge> promote_after_s (mw_conf s)" "may_promote s"
      | "?unl \<and> pr_now p - ?since \<ge> promote_after_s (mw_conf s)" "\<not> may_promote s"
      | "\<not> (?unl \<and> pr_now p - ?since \<ge> promote_after_s (mw_conf s))" by blast
    then show thesis
    proof cases
      case 1
      moreover from this have "?s1 = s\<lparr>clean_since := Some ?since, clean_unloaded := True\<rparr>" by simp
      ultimately show thesis using promoted [OF False] c by simp
    next
      case 2
      then show thesis using counted [OF False, of 0] c by simp
    next
      case 3
      then have "count_clean p s = ?s1\<lparr>strikes := strikes s\<rparr>" unfolding c by (simp only: if_False) simp
      then show thesis using counted [OF False] 3 by metis
    qed
  qed
qed

lemma count_clean_fields [mw_fields, simp]:
  "mw_conf (count_clean p s) = mw_conf s" "mw_err (count_clean p s) = mw_err s" "w_ref (count_clean p s) = w_ref s"
  "pause_until (count_clean p s) = pause_until s" "limit_floor_mb (count_clean p s) = limit_floor_mb s"
  "engine_ps_mb (count_clean p s) = engine_ps_mb s" "load_delta_mb (count_clean p s) = load_delta_mb s"
  "mw_file_mb (count_clean p s) = mw_file_mb s" "mw_kv_mb (count_clean p s) = mw_kv_mb s" "mw_declared_mb (count_clean p s) = mw_declared_mb s"
  by (rule count_clean_cases [of p s]; simp)+

lemma footprint_fields [mw_fields, simp]: "footprint (after_reasons p s) = footprint s" "footprint (count_clean p s) = footprint s"
  by (rule footprint_cong; simp add: after_reasons_def Let_def)+

text \<open>What the juror's counters change: the measured load, its time, and the count of the loads out of memory.\<close>

lemma note_last_load_form: "\<exists>v. note_last_load ll s = s\<lparr>load_delta_mb := first_of (last_load_delta ll) (load_delta_mb s), mw_load_s := v\<rparr>"
proof -
  have s1: "(case last_load_delta ll of None \<Rightarrow> s | Some d \<Rightarrow> s\<lparr>load_delta_mb := Some d\<rparr>) = s\<lparr>load_delta_mb := first_of (last_load_delta ll) (load_delta_mb s)\<rparr>"
    by (cases "last_load_delta ll") (simp_all add: first_of_def)
  have "\<exists>v. (case w of PInt i \<Rightarrow> t\<lparr>mw_load_s := PInt i\<rparr> | PFloat q \<Rightarrow> t\<lparr>mw_load_s := PFloat q\<rparr> | _ \<Rightarrow> t) = t\<lparr>mw_load_s := v\<rparr>" for w and t :: mem_watch
  proof (cases "\<exists>i. w = PInt i \<or> (\<exists>q. w = PFloat q)")
    case True
    then show ?thesis by auto
  next
    case False
    then show ?thesis by (intro exI [of _ "mw_load_s t"]) (cases w; simp)
  qed
  then show ?thesis unfolding note_last_load_def Let_def s1 by simp
qed

definition juror_delta :: "pydict \<Rightarrow> int option" where
  "juror_delta counters = (case dget counters ''last_load'' of PDict ll \<Rightarrow> last_load_delta ll | _ \<Rightarrow> None)"

lemma note_juror_form:
  "\<exists>v x n. fst (note_juror c s) = s\<lparr>load_delta_mb := first_of (juror_delta c) (load_delta_mb s), mw_load_s := v, juror_oom_last := x, oom_juror := n\<rparr>"
proof -
  obtain t v where t: "t = (case dget c ''last_load'' of PDict ll \<Rightarrow> note_last_load ll s | _ \<Rightarrow> s)"
    "t = s\<lparr>load_delta_mb := first_of (juror_delta c) (load_delta_mb s), mw_load_s := v\<rparr>"
  proof (cases "\<exists>ll. dget c ''last_load'' = PDict ll")
    case True
    then obtain ll where ll: "dget c ''last_load'' = PDict ll" by blast
    obtain v where "note_last_load ll s = s\<lparr>load_delta_mb := first_of (last_load_delta ll) (load_delta_mb s), mw_load_s := v\<rparr>"
      using note_last_load_form by blast
    then show thesis using ll by (intro that [OF refl, of v]) (simp add: juror_delta_def)
  next
    case False
    then have "(case dget c ''last_load'' of PDict ll \<Rightarrow> note_last_load ll s | _ \<Rightarrow> s) = s" "juror_delta c = None"
      by (cases "dget c ''last_load''"; simp add: juror_delta_def)+
    then show thesis by (intro that [OF refl, of "mw_load_s s"]) (simp add: first_of_def)
  qed
  have "\<exists>x n. fst (note_juror c s) = t\<lparr>juror_oom_last := x, oom_juror := n\<rparr>"
  proof (cases "\<exists>n. dget c ''oom_seen'' = PInt n")
    case True
    then obtain n where n: "dget c ''oom_seen'' = PInt n" by blast
    show ?thesis unfolding note_juror_def t(1) [symmetric] Let_def n by (cases "juror_oom_last t") auto
  next
    case False
    then have "fst (note_juror c s) = t" unfolding note_juror_def t(1) [symmetric] Let_def by (cases "dget c ''oom_seen''") simp_all
    then show ?thesis by (intro exI [of _ "juror_oom_last t"] exI [of _ "oom_juror t"]) simp
  qed
  then show ?thesis unfolding t(2) by blast
qed

lemma note_juror_fields [mw_fields, simp]:
  "mw_conf (fst (note_juror c s)) = mw_conf s" "mw_err (fst (note_juror c s)) = mw_err s" "mw_mode (fst (note_juror c s)) = mw_mode s"
  "strikes (fst (note_juror c s)) = strikes s" "pause_until (fst (note_juror c s)) = pause_until s"
  "clean_since (fst (note_juror c s)) = clean_since s" "clean_unloaded (fst (note_juror c s)) = clean_unloaded s"
  "limit_floor_mb (fst (note_juror c s)) = limit_floor_mb s" "engine_ps_mb (fst (note_juror c s)) = engine_ps_mb s"
  "load_delta_mb (fst (note_juror c s)) = first_of (juror_delta c) (load_delta_mb s)"
  using note_juror_form [of c s] by auto

lemma note_oom_fields [mw_fields, simp]:
  "mw_conf (note_oom now who s) = mw_conf s" "mw_err (note_oom now who s) = mw_err s" "mw_mode (note_oom now who s) = OnDemand"
  "strikes (note_oom now who s) = strikes s + 1" "pause_until (note_oom now who s) = Some (now + pause_length (strikes s + 1))"
  "clean_since (note_oom now who s) = None" "clean_unloaded (note_oom now who s) = False"
  "engine_ps_mb (note_oom now who s) = engine_ps_mb s" "load_delta_mb (note_oom now who s) = load_delta_mb s"
  by (simp_all add: note_oom_def Let_def)

lemma refresh_fields [mw_fields, simp]:
  "mw_conf (refresh_figures w f k d g s) = mw_conf s" "mw_err (refresh_figures w f k d g s) = mw_err s" "mw_mode (refresh_figures w f k d g s) = mw_mode s"
  "strikes (refresh_figures w f k d g s) = strikes s" "pause_until (refresh_figures w f k d g s) = pause_until s"
  "clean_since (refresh_figures w f k d g s) = clean_since s" "clean_unloaded (refresh_figures w f k d g s) = clean_unloaded s"
  "limit_floor_mb (refresh_figures w f k d g s) = limit_floor_mb s" "engine_ps_mb (refresh_figures w f k d g s) = engine_ps_mb s"
  "load_delta_mb (refresh_figures w f k d g s) = load_delta_mb s"
  by (simp_all add: refresh_figures_def)

lemma observe_state: "fst (observe p s) = (let s3 = count_clean p (after_reasons p (take_reading p s)) in s3\<lparr>mw_gate := Some (gate_now s3 (pr_r p) (pr_now p))\<rparr>)"
  by (simp add: observe_def Let_def)

lemma observe_fields [mw_fields, simp]:
  "mw_conf (fst (observe p s)) = mw_conf s" "mw_err (fst (observe p s)) = mw_err s"
  by (simp_all add: observe_state Let_def)

lemma step_conf [simp]: "mw_conf (mw_step s op) = mw_conf s" "mw_err (mw_step s op) = mw_err s"
  by (cases op; simp)+

lemma run_conf [simp]: "mw_conf (run_ops s ops) = mw_conf s" "mw_err (run_ops s ops) = mw_err s"
  by (induction ops arbitrary: s) auto

section \<open>A promotion is earned by clean readings\<close>

text \<open>
  A clean reading, in the state once it is taken: everything it needs was read, no signal of a shortage and no stall, no pause running, a
  footprint that is not a lower bound, and, while the model is not loaded, the room for it and the operator's headroom.
\<close>

definition clean_reading :: "mem_period \<Rightarrow> mem_watch \<Rightarrow> bool" where
  "clean_reading p s \<longleftrightarrow> (\<exists>a w fp src. mem_available (pr_r p) = Some a \<and> w_ref s = Some w \<and> footprint s = (Some fp, src)
     \<and> \<not> lower_bound src \<and> w \<le> a \<and> \<not> above_zero (full_avg10 (pr_r p)) \<and> \<not> reaches (some_avg10 (pr_r p)) (psi_some_pct (mw_conf s))
     \<and> \<not> running (pause_until s) (pr_now p) \<and> pr_loaded p \<noteq> None
     \<and> (pr_loaded p = Some False \<longrightarrow> fp + headroom_mb (mw_conf s) \<le> a - w))"

lemma no_reasons:
  "unload_reasons r swap w fp pct l h = [] \<Longrightarrow> mem_available r = Some a \<Longrightarrow> w = Some x \<Longrightarrow> x \<le> a \<and> \<not> reaches (some_avg10 r) pct"
  by (auto simp: unload_reasons_def Let_def split: if_splits)

lemma not_bad_clean:
  assumes "\<not> bad_period p (after_reasons p s)"
  shows "clean_reading p s" "\<not> unloads p s"
proof -
  obtain fp src where f: "footprint s = (fp, src)" by (cases "footprint s")
  have none: "period_reasons p s = []" and rest: "reasons_on p (swap_out_period s) s = []" "\<not> above_zero (full_avg10 (pr_r p))"
    "mem_available (pr_r p) \<noteq> None" "w_ref s \<noteq> None" "fp \<noteq> None" "\<not> lower_bound src" "pr_loaded p \<noteq> None"
    "pr_loaded p = Some False \<longrightarrow> the fp + headroom_mb (mw_conf s) \<le> the (mem_available (pr_r p)) - the (w_ref s)"
    and pause: "\<not> running (pause_until (after_reasons p s)) (pr_now p)"
    using assms unfolding bad_period_def by (auto simp: f reasons_on_def not_less)
  show u: "\<not> unloads p s" using none by (simp add: unloads_def)
  obtain a w g where v: "mem_available (pr_r p) = Some a" "w_ref s = Some w" "fp = Some g" using rest by auto
  have "w \<le> a \<and> \<not> reaches (some_avg10 (pr_r p)) (psi_some_pct (mw_conf s))"
    by (rule no_reasons [OF rest(1) [unfolded reasons_on_def] v(1,2)])
  then show "clean_reading p s" using rest pause u v by (auto simp: clean_reading_def f)
qed

fun clean_op :: "mem_watch \<Rightarrow> mw_op \<Rightarrow> bool" where
  "clean_op s (Observe p) = clean_reading p (take_reading p s)"
| "clean_op s (NoteOom now who) = False"
| "clean_op s op = True"

fun clean_stretch :: "mem_watch \<Rightarrow> mw_op list \<Rightarrow> bool" where
  "clean_stretch s [] = True"
| "clean_stretch s (op # ops) = (clean_op s op \<and> clean_stretch (mw_step s op) ops)"

text \<open>A shortage: a period that unloads the model, or a load that ran out of memory.\<close>

fun shortage_op :: "mem_watch \<Rightarrow> mw_op \<Rightarrow> bool" where
  "shortage_op s (Observe p) = unloads p (take_reading p s)"
| "shortage_op s (NoteOom now who) = True"
| "shortage_op s op = False"

fun calm :: "mem_watch \<Rightarrow> mw_op list \<Rightarrow> bool" where
  "calm s [] = True"
| "calm s (op # ops) = (\<not> shortage_op s op \<and> calm (mw_step s op) ops)"

lemma clean_stretch_snoc: "clean_stretch s (ops @ [op]) \<longleftrightarrow> clean_stretch s ops \<and> clean_op (run_ops s ops) op"
  by (induction ops arbitrary: s) auto

lemma calm_snoc: "calm s (ops @ [op]) \<longleftrightarrow> calm s ops \<and> \<not> shortage_op (run_ops s ops) op"
  by (induction ops arbitrary: s) auto

text \<open>The clean readings behind \<open>clean_since\<close>: all that followed the one it dates from, one of them without the model.\<close>

definition counted_since :: "mem_watch \<Rightarrow> mw_op list \<Rightarrow> rat \<Rightarrow> bool \<Rightarrow> bool" where
  "counted_since s0 ops t unl \<longleftrightarrow> (\<exists>pre p mid. ops = pre @ Observe p # mid \<and> pr_now p = t \<and> clean_stretch (run_ops s0 pre) (Observe p # mid)
     \<and> (unl \<longrightarrow> (\<exists>u. Observe u \<in> set (Observe p # mid) \<and> pr_loaded u = Some False)))"

text \<open>A promotion earned: a clean stretch long enough that ends with a period, one of its readings without the model, and calm ever since.\<close>

definition earned :: "mem_watch \<Rightarrow> mw_op list \<Rightarrow> bool" where
  "earned s0 ops \<longleftrightarrow> (\<exists>pre mid p q post. ops = pre @ mid @ post \<and> hd mid = Observe p \<and> last mid = Observe q \<and> mid \<noteq> []
     \<and> clean_stretch (run_ops s0 pre) mid \<and> promote_after_s (mw_conf s0) \<le> pr_now q - pr_now p
     \<and> (\<exists>u. Observe u \<in> set mid \<and> pr_loaded u = Some False) \<and> calm (run_ops s0 (pre @ mid)) post)"

lemma earned_snoc: "earned s0 ops \<Longrightarrow> \<not> shortage_op (run_ops s0 ops) op \<Longrightarrow> earned s0 (ops @ [op])"
  unfolding earned_def by (elim exE conjE) (force simp: calm_snoc intro!: exI)

lemma counted_snoc:
  assumes "counted_since s0 ops t unl" "clean_op (run_ops s0 ops) op"
    and "unl' \<Longrightarrow> unl \<or> (\<exists>u. op = Observe u \<and> pr_loaded u = Some False)"
  shows "counted_since s0 (ops @ [op]) t unl'"
proof -
  obtain pre p mid where C: "ops = pre @ Observe p # mid" "pr_now p = t" "clean_stretch (run_ops s0 pre) (Observe p # mid)"
    "unl \<longrightarrow> (\<exists>u. Observe u \<in> set (Observe p # mid) \<and> pr_loaded u = Some False)"
    using assms(1) unfolding counted_since_def by blast
  have "clean_stretch (run_ops s0 pre) (Observe p # (mid @ [op]))"
    using clean_stretch_snoc [of "run_ops s0 pre" "Observe p # mid" op] C(1,3) assms(2) by simp
  then show ?thesis unfolding counted_since_def using C assms(3) by (intro exI [of _ pre] exI [of _ p] exI [of _ "mid @ [op]"]) auto
qed

lemma counted_new: "clean_op (run_ops s0 ops) (Observe p) \<Longrightarrow> counted_since s0 (ops @ [Observe p]) (pr_now p) (pr_loaded p = Some False)"
  unfolding counted_since_def by (intro exI [of _ ops] exI [of _ p] exI [of _ "[]"]) auto

lemma counted_earns:
  assumes "counted_since s0 (ops @ [Observe p]) t True" "promote_after_s (mw_conf s0) \<le> pr_now p - t"
  shows "earned s0 (ops @ [Observe p])"
proof -
  obtain pre q mid where C: "ops @ [Observe p] = pre @ Observe q # mid" "pr_now q = t" "clean_stretch (run_ops s0 pre) (Observe q # mid)"
    "\<exists>u. Observe u \<in> set (Observe q # mid) \<and> pr_loaded u = Some False"
    using assms(1) unfolding counted_since_def by blast
  have "last (Observe q # mid) = Observe p" using arg_cong [OF C(1), of last] by simp
  then show ?thesis using C assms(2) unfolding earned_def
    by (intro exI [of _ pre] exI [of _ "Observe q # mid"] exI [of _ q] exI [of _ p] exI [of _ "[]"]) auto
qed

lemma observe_mode:
  defines "t p s \<equiv> fst (observe p s)"
  obtains (bad) "clean_since (t p s) = None" "\<not> clean_unloaded (t p s)" "mw_mode (t p s) = (if unloads p (take_reading p s) then OnDemand else mw_mode s)"
  | (good) "clean_reading p (take_reading p s)" "\<not> unloads p (take_reading p s)"
      "clean_since (t p s) = Some (or_default (clean_since s) (pr_now p))" "clean_unloaded (t p s) = (clean_unloaded s \<or> pr_loaded p = Some False)"
      "mw_mode (t p s) = mw_mode s \<or> mw_mode (t p s) = Resident \<and> may_promote s \<and> clean_unloaded (t p s)
         \<and> promote_after_s (mw_conf s) \<le> pr_now p - or_default (clean_since s) (pr_now p)"
proof -
  let ?s1 = "take_reading p s"
  let ?s2 = "after_reasons p ?s1"
  have t: "clean_since (t p s) = clean_since (count_clean p ?s2)" "clean_unloaded (t p s) = clean_unloaded (count_clean p ?s2)"
    "mw_mode (t p s) = mw_mode (count_clean p ?s2)" by (simp_all add: t_def observe_state Let_def)
  show thesis
  proof (rule count_clean_cases [of p ?s2])
    assume "bad_period p ?s2" "count_clean p ?s2 = ?s2\<lparr>clean_since := None, clean_unloaded := False\<rparr>"
    then show thesis using bad unfolding t by simp
  next
    fix k
    assume n: "\<not> bad_period p ?s2" and c: "count_clean p ?s2 = ?s2\<lparr>clean_since := Some (or_default (clean_since ?s2) (pr_now p)),
      clean_unloaded := clean_unloaded ?s2 \<or> pr_loaded p = Some False, strikes := k\<rparr>"
    show thesis using not_bad_clean [OF n] by (intro good) (simp_all add: t c)
  next
    fix why
    assume n: "\<not> bad_period p ?s2" and m: "may_promote ?s2" "clean_unloaded ?s2 \<or> pr_loaded p = Some False"
      "promote_after_s (mw_conf ?s2) \<le> pr_now p - or_default (clean_since ?s2) (pr_now p)"
      and c: "count_clean p ?s2 = set_mode Resident why (pr_now p)
         (?s2\<lparr>clean_since := Some (or_default (clean_since ?s2) (pr_now p)), clean_unloaded := True, strikes := 0\<rparr>)"
    note u = not_bad_clean [OF n]
    have "may_promote s" using m(1) u(2) by (simp add: may_promote_def)
    then show thesis using u m(2,3) by (intro good) (simp_all add: t c)
  qed
qed

text \<open>The mode a run may be in, and what its clean readings are.\<close>

definition mode_inv :: "mem_watch \<Rightarrow> mw_op list \<Rightarrow> bool" where
  "mode_inv s0 ops \<longleftrightarrow> (let s = run_ops s0 ops in
     (\<forall>t. clean_since s = Some t \<longrightarrow> counted_since s0 ops t (clean_unloaded s)) \<and> (clean_since s = None \<longrightarrow> \<not> clean_unloaded s)
     \<and> (mw_mode s = Resident \<longrightarrow> (mw_mode s0 = Resident \<and> calm s0 ops) \<or> (may_promote (s0\<lparr>mw_mode := OnDemand\<rparr>) \<and> earned s0 ops)))"

lemma mode_inv_observe:
  assumes "mode_inv s0 ops"
  shows "mode_inv s0 (ops @ [Observe p])"
proof -
  let ?s = "run_ops s0 ops"
  have I: "\<And>t. clean_since ?s = Some t \<Longrightarrow> counted_since s0 ops t (clean_unloaded ?s)" "clean_since ?s = None \<Longrightarrow> \<not> clean_unloaded ?s"
    "mw_mode ?s = Resident \<Longrightarrow> (mw_mode s0 = Resident \<and> calm s0 ops) \<or> (may_promote (s0\<lparr>mw_mode := OnDemand\<rparr>) \<and> earned s0 ops)"
    using assms by (auto simp: mode_inv_def Let_def)
  have still: "(mw_mode s0 = Resident \<and> calm s0 (ops @ [Observe p])) \<or> (may_promote (s0\<lparr>mw_mode := OnDemand\<rparr>) \<and> earned s0 (ops @ [Observe p]))"
    if "mw_mode ?s = Resident" "\<not> unloads p (take_reading p ?s)"
    using I(3) [OF that(1)] that(2) by (auto simp: calm_snoc intro!: earned_snoc)
  show ?thesis
  proof (rule observe_mode [of p ?s])
    assume "clean_since (fst (observe p ?s)) = None" "\<not> clean_unloaded (fst (observe p ?s))"
      "mw_mode (fst (observe p ?s)) = (if unloads p (take_reading p ?s) then OnDemand else mw_mode ?s)"
    then show ?thesis using still by (auto simp: mode_inv_def)
  next
    let ?since = "or_default (clean_since ?s) (pr_now p)"
    assume G: "clean_reading p (take_reading p ?s)" "\<not> unloads p (take_reading p ?s)"
      "clean_since (fst (observe p ?s)) = Some ?since" "clean_unloaded (fst (observe p ?s)) = (clean_unloaded ?s \<or> pr_loaded p = Some False)"
      "mw_mode (fst (observe p ?s)) = mw_mode ?s \<or> mw_mode (fst (observe p ?s)) = Resident \<and> may_promote ?s \<and> clean_unloaded (fst (observe p ?s))
         \<and> promote_after_s (mw_conf ?s) \<le> pr_now p - ?since"
    have C: "counted_since s0 (ops @ [Observe p]) ?since (clean_unloaded (fst (observe p ?s)))"
    proof (cases "clean_since ?s")
      case None
      then show ?thesis using counted_new [of s0 ops p] G(1,4) I(2) by (simp add: or_default_def)
    next
      case (Some t)
      have c: "clean_op (run_ops s0 ops) (Observe p)" using G(1) by simp
      show ?thesis using counted_snoc [OF I(1) [OF Some] c] G(4) Some by (simp add: or_default_def)
    qed
    have "(mw_mode s0 = Resident \<and> calm s0 (ops @ [Observe p])) \<or> (may_promote (s0\<lparr>mw_mode := OnDemand\<rparr>) \<and> earned s0 (ops @ [Observe p]))"
      if r: "mw_mode (fst (observe p ?s)) = Resident"
    proof (cases "mw_mode ?s = Resident")
      case True
      then show ?thesis using still G(2) by blast
    next
      case False
      then have P: "may_promote ?s" "clean_unloaded (fst (observe p ?s))" "promote_after_s (mw_conf s0) \<le> pr_now p - ?since"
        using G(5) r by auto
      then have "earned s0 (ops @ [Observe p])" using counted_earns C by simp
      then show ?thesis using P(1) by (simp add: may_promote_def)
    qed
    then show ?thesis using C G(3) by (simp add: mode_inv_def Let_def)
  qed
qed

lemma mode_inv_quiet:
  assumes "mode_inv s0 ops" "\<not> shortage_op (run_ops s0 ops) op" "clean_op (run_ops s0 ops) op"
    and "clean_since (mw_step (run_ops s0 ops) op) = clean_since (run_ops s0 ops)"
    "clean_unloaded (mw_step (run_ops s0 ops) op) = clean_unloaded (run_ops s0 ops)" "mw_mode (mw_step (run_ops s0 ops) op) = mw_mode (run_ops s0 ops)"
  shows "mode_inv s0 (ops @ [op])"
  using assms counted_snoc [OF _ assms(3)] earned_snoc [OF _ assms(2)] by (auto simp: mode_inv_def Let_def calm_snoc)

lemma mode_inv_run:
  assumes "clean_since s0 = None" "\<not> clean_unloaded s0"
  shows "mode_inv s0 ops"
proof (induction ops rule: rev_induct)
  case Nil
  then show ?case using assms by (simp add: mode_inv_def)
next
  case (snoc op ops)
  then show ?case
  proof (cases op)
    case (Observe p)
    then show ?thesis using mode_inv_observe snoc by blast
  next
    case (NoteOom now who)
    then show ?thesis by (simp add: mode_inv_def)
  qed (intro mode_inv_quiet [OF snoc]; simp)+
qed

text \<open>
  The judge stays resident only where it has earned it. However the machine's readings, the loads and the juror's counters follow each
  other, the mode is resident only under a resident ceiling with settings that read, and either on a server where no shortage was seen since
  the start, or, never under WSL, after a clean stretch: every reading of it complete, free of any signal, stall and pause, with room for the
  model and the headroom whenever it was not loaded, at least one such reading without it, from the first to the last as long as the settings
  ask, and no shortage since.
\<close>

theorem resident_is_earned:
  assumes "mw_mode (run_ops (mem_watch_init conf err t0) ops) = Resident"
  shows "ceiling conf = Some Resident \<and> \<not> err
    \<and> (host_kind_of conf = Some Server \<and> calm (mem_watch_init conf err t0) ops
       \<or> host_kind_of conf \<noteq> Some Wsl \<and> earned (mem_watch_init conf err t0) ops)"
proof -
  have "mode_inv (mem_watch_init conf err t0) ops" by (rule mode_inv_run) (simp_all add: mem_watch_init_def)
  then show ?thesis using assms
    by (auto simp: mode_inv_def Let_def mem_watch_init_def start_mode_def may_promote_def split: if_splits)
qed

section \<open>A shortage pauses the loads, and no later event shortens the pause\<close>

fun op_time :: "mw_op \<Rightarrow> rat option" where
  "op_time (Observe p) = Some (pr_now p)"
| "op_time (NoteOom now who) = Some now"
| "op_time op = None"

fun clock_forward :: "rat \<Rightarrow> mw_op list \<Rightarrow> bool" where
  "clock_forward T [] = True"
| "clock_forward T (op # ops) = (case op_time op of None \<Rightarrow> clock_forward T ops | Some t \<Rightarrow> T \<le> t \<and> clock_forward t ops)"

lemma pause_length_mono: "j \<le> k \<Longrightarrow> pause_length j \<le> pause_length k"
proof -
  assume "j \<le> k"
  then have "(2::rat) ^ nat (min 20 (max 0 (j - 1))) \<le> 2 ^ nat (min 20 (max 0 (k - 1)))" by (intro power_increasing nat_mono) auto
  then show ?thesis unfolding retry_delay_def by (intro min.mono order_refl mult_left_mono) auto
qed

text \<open>The pause is that of one of the strikes still counted, or it is over.\<close>

definition pause_inv :: "rat \<Rightarrow> mem_watch \<Rightarrow> bool" where
  "pause_inv T s \<longleftrightarrow> 0 \<le> strikes s \<and> (\<forall>p. pause_until s = Some p \<longrightarrow> p \<le> T \<or> (\<exists>t k. t \<le> T \<and> k \<le> strikes s \<and> p = t + pause_length k))"

definition pause_le :: "mem_watch \<Rightarrow> mem_watch \<Rightarrow> bool" where
  "pause_le s t \<longleftrightarrow> (\<forall>p. pause_until s = Some p \<longrightarrow> (\<exists>q. pause_until t = Some q \<and> p \<le> q))"

lemma pause_le_refl: "pause_until t = pause_until s \<Longrightarrow> pause_le s t"
  by (simp add: pause_le_def)

lemma pause_le_trans: "pause_le s t \<Longrightarrow> pause_le t u \<Longrightarrow> pause_le s u"
  unfolding pause_le_def by (meson order_trans)

lemma pause_inv_later: "pause_inv T s \<Longrightarrow> T \<le> t \<Longrightarrow> pause_inv t s"
  unfolding pause_inv_def by (meson order_trans)

lemma new_pause:
  assumes "pause_inv T s" "T \<le> t"
  shows "\<forall>p. pause_until s = Some p \<longrightarrow> p \<le> t + pause_length (strikes s + 1)"
proof (intro allI impI)
  fix p assume p: "pause_until s = Some p"
  show "p \<le> t + pause_length (strikes s + 1)"
  proof (cases "p \<le> T")
    case True
    then show ?thesis using assms(2) pause_length_bounds(1) [of "strikes s + 1"] by linarith
  next
    case False
    then obtain u k where "u \<le> T" "k \<le> strikes s" "p = u + pause_length k" using assms(1) p by (auto simp: pause_inv_def)
    then show ?thesis using assms(2) pause_length_mono [of k "strikes s + 1"] by linarith
  qed
qed

lemma pause_struck:
  assumes "pause_inv T s" "T \<le> t" "strikes u = strikes s + 1" "pause_until u = Some (t + pause_length (strikes s + 1))"
  shows "pause_inv t u \<and> pause_le s u"
  using new_pause [OF assms(1,2)] assms by (auto simp: pause_inv_def pause_le_def)

lemma observe_pause: "pause_until (fst (observe p s)) = (if unloads p (take_reading p s) then Some (pr_now p + pause_length (strikes s + 1)) else pause_until s)"
  by (simp add: observe_state Let_def)

lemma observe_strikes:
  "strikes (fst (observe p s)) = (if unloads p (take_reading p s) then strikes s + 1 else strikes s)
     \<or> strikes (fst (observe p s)) = 0 \<and> \<not> unloads p (take_reading p s) \<and> \<not> running (pause_until s) (pr_now p)"
proof -
  let ?s2 = "after_reasons p (take_reading p s)"
  have t: "strikes (fst (observe p s)) = strikes (count_clean p ?s2)" by (simp add: observe_state Let_def)
  have ok: "\<not> unloads p (take_reading p s) \<and> \<not> running (pause_until s) (pr_now p)" if "\<not> bad_period p ?s2"
    using not_bad_clean [OF that] by (auto simp: clean_reading_def)
  show ?thesis unfolding t by (rule count_clean_cases [of p ?s2]) (use ok in auto)
qed

lemma pause_inv_step:
  assumes "pause_inv T s" "\<And>t. op_time op = Some t \<Longrightarrow> T \<le> t"
  shows "pause_inv (case op_time op of None \<Rightarrow> T | Some t \<Rightarrow> t) (mw_step s op) \<and> pause_le s (mw_step s op)"
proof (cases op)
  case (Observe p)
  then have T: "T \<le> pr_now p" using assms(2) by simp
  show ?thesis
  proof (cases "unloads p (take_reading p s)")
    case True
    then have "strikes (fst (observe p s)) = strikes s + 1" using observe_strikes [of p s] by auto
    then show ?thesis using pause_struck [OF assms(1) T] True by (simp add: Observe observe_pause)
  next
    case False
    then have p: "pause_until (fst (observe p s)) = pause_until s" by (simp add: observe_pause)
    then have "pause_le s (fst (observe p s))" by (rule pause_le_refl)
    moreover have "pause_inv (pr_now p) (fst (observe p s))"
      using observe_strikes [of p s]
    proof
      assume "strikes (fst (observe p s)) = (if unloads p (take_reading p s) then strikes s + 1 else strikes s)"
      then show ?thesis using pause_inv_later [OF assms(1) T] False p by (simp add: pause_inv_def)
    next
      assume "strikes (fst (observe p s)) = 0 \<and> \<not> unloads p (take_reading p s) \<and> \<not> running (pause_until s) (pr_now p)"
      then show ?thesis using p by (auto simp: pause_inv_def running_def not_less)
    qed
    ultimately show ?thesis by (simp add: Observe)
  qed
next
  case (NoteOom now who)
  then have "T \<le> now" using assms(2) by simp
  then show ?thesis using pause_struck [OF assms(1), of now "note_oom now who s"] by (simp add: NoteOom)
qed (use assms(1) in \<open>auto simp: pause_inv_def intro: pause_le_refl\<close>)

lemma pause_inv_run: "pause_inv T s \<Longrightarrow> clock_forward T ops \<Longrightarrow> pause_le s (run_ops s ops)"
proof (induction ops arbitrary: T s)
  case Nil
  then show ?case by (simp add: pause_le_refl)
next
  case (Cons op ops)
  let ?T = "case op_time op of None \<Rightarrow> T | Some t \<Rightarrow> t"
  have "\<And>t. op_time op = Some t \<Longrightarrow> T \<le> t" "clock_forward ?T ops" using Cons.prems(2) by (auto split: option.splits)
  note S = pause_inv_step [OF Cons.prems(1) this(1)]
  have "pause_le (mw_step s op) (run_ops (mw_step s op) ops)"
    by (rule Cons.IH [of ?T]) (use S \<open>clock_forward ?T ops\<close> in auto)
  then show ?case using S pause_le_trans by auto
qed

lemma pause_inv_reached: "pause_inv T s \<Longrightarrow> clock_forward T (pre @ post) \<Longrightarrow> \<exists>T'. pause_inv T' (run_ops s pre) \<and> clock_forward T' post"
proof (induction pre arbitrary: T s)
  case (Cons op ops)
  let ?T = "case op_time op of None \<Rightarrow> T | Some t \<Rightarrow> t"
  have c: "\<And>t. op_time op = Some t \<Longrightarrow> T \<le> t" "clock_forward ?T (ops @ post)" using Cons.prems(2) by (auto split: option.splits)
  show ?case using Cons.IH [of ?T, OF _ c(2)] pause_inv_step [OF Cons.prems(1) c(1)] by auto
qed auto

text \<open>
  C29: a shortage pauses the loads, and nothing that follows shortens the pause. When a period unloads the model or a load runs out of
  memory at a time t, the judge is on demand and the gate is closed until a time between t + 60 s and t + 30 min, which doubles with each
  strike; and as long as the clock does not go back, whatever is read, promoted or struck afterwards, the gate opens at no time before it.
\<close>

theorem shortage_closes_the_gate:
  assumes "clock_forward t0 (pre @ op # post)" "shortage_op (run_ops (mem_watch_init conf err t0) pre) op" "op_time op = Some t"
  shows "mw_mode (run_ops (mem_watch_init conf err t0) (pre @ [op])) = OnDemand
    \<and> (\<exists>p. pause_until (run_ops (mem_watch_init conf err t0) (pre @ [op])) = Some p
         \<and> p = t + pause_length (strikes (run_ops (mem_watch_init conf err t0) pre) + 1) \<and> t + 60 \<le> p \<and> p \<le> t + 1800
         \<and> (\<forall>r x. x < p \<longrightarrow> gate_now (run_ops (mem_watch_init conf err t0) (pre @ op # post)) r x \<noteq> GateOpen))"
proof -
  let ?init = "mem_watch_init conf err t0"
  let ?s = "run_ops ?init pre"
  let ?p = "t + pause_length (strikes ?s + 1)"
  have "pause_inv t0 ?init" by (simp add: pause_inv_def mem_watch_init_def)
  then obtain T where T: "pause_inv T ?s" "clock_forward T (op # post)" using pause_inv_reached assms(1) by blast
  then have c: "T \<le> t" "clock_forward t post" using assms(3) by auto
  have struck: "mw_mode (mw_step ?s op) = OnDemand \<and> pause_until (mw_step ?s op) = Some ?p"
  proof (cases op)
    case (Observe p)
    then have u: "unloads p (take_reading p ?s)" "t = pr_now p" using assms(2,3) by auto
    have "mw_mode (fst (observe p ?s)) = OnDemand" by (rule observe_mode [of p ?s]) (use u in auto)
    then show ?thesis using u by (simp add: Observe observe_pause)
  qed (use assms(2,3) in auto)
  have "pause_inv t (mw_step ?s op)"
    using pause_inv_step [OF T(1), of op] assms(3) c(1) by auto
  then have "pause_le (mw_step ?s op) (run_ops (mw_step ?s op) post)" using c(2) by (rule pause_inv_run)
  then obtain q where q: "pause_until (run_ops ?init (pre @ op # post)) = Some q" "?p \<le> q" using struck by (auto simp: pause_le_def)
  have "gate_now (run_ops ?init (pre @ op # post)) r x \<noteq> GateOpen" if "x < ?p" for r x
    using q that by (auto simp: gate_now_def gate_def running_def)
  then show ?thesis using struck pause_length_bounds [of "strikes ?s + 1"] by auto
qed

section \<open>A figure that let a load run out of memory never lets one through again\<close>

fun unmeasured :: "mw_op \<Rightarrow> bool" where
  "unmeasured (Observe p) \<longleftrightarrow> pr_loaded p \<noteq> Some True \<or> pr_size p = None"
| "unmeasured (NoteJuror counters) \<longleftrightarrow> juror_delta counters = None"
| "unmeasured op \<longleftrightarrow> True"

definition floored :: "int \<Rightarrow> mem_watch \<Rightarrow> bool" where
  "floored l s \<longleftrightarrow> mem_limit_mb (mw_conf s) = Some l \<and> engine_ps_mb s = None \<and> load_delta_mb s = None \<and> limit_floor_mb s = Some (l + 1)"

lemma floored_footprint: "floored l s \<Longrightarrow> \<exists>fp src. footprint s = (Some fp, src) \<and> l < fp"
  by (cases "estimated s") (auto simp: floored_def footprint_def split: option.splits)

lemma floored_step: "floored l s \<Longrightarrow> unmeasured op \<Longrightarrow> floored l (mw_step s op)"
  by (cases op) (auto simp: floored_def observe_state Let_def take_reading_def first_of_def note_oom_def)

lemma floored_run: "floored l s \<Longrightarrow> list_all unmeasured ops \<Longrightarrow> floored l (run_ops s ops)"
  by (induction ops arbitrary: s) (auto intro: floored_step)

text \<open>
  C30: a figure that let a load run out of memory never lets one through again. When a load runs out of memory under the container's limit on
  a footprint that was only estimated and fitted it, the footprint is from then on more than that limit, and the gate is closed, at every
  reading and every time, until the engine or the juror gives a measured size of the loaded model.
\<close>

theorem limit_is_learned:
  assumes "mem_limit_mb (mw_conf s) = Some l" "learns_limit s" "list_all unmeasured ops"
  shows "(\<exists>fp src. footprint (run_ops (note_oom now who s) ops) = (Some fp, src) \<and> l < fp)
    \<and> gate_now (run_ops (note_oom now who s) ops) r x \<noteq> GateOpen"
proof -
  have "\<not> measured_source (snd (footprint s))" using assms(1,2) by (simp add: learns_limit_def)
  then have "engine_ps_mb s = None" "load_delta_mb s = None" by (auto simp: footprint_def measured_source_def split: if_splits)
  then have "floored l (note_oom now who s)" using assms(1,2) by (simp add: floored_def note_oom_def)
  then have f: "floored l (run_ops (note_oom now who s) ops)" using assms(3) by (rule floored_run)
  obtain fp src where g: "footprint (run_ops (note_oom now who s) ops) = (Some fp, src)" "l < fp" using floored_footprint [OF f] by blast
  have "gate_now (run_ops (note_oom now who s) ops) r x \<noteq> GateOpen"
    using f g by (auto simp: floored_def gate_now_def gate_def split: option.splits if_splits)
  then show ?thesis using g by blast
qed

section \<open>An hour of clean readings, and a load that ran out of memory\<close>

definition clean_machine :: reading where
  "clean_machine = \<lparr>rd_at = 0, mem_total = Some 32000, mem_available = Some 28000, mem_free = Some 20000, active_file = Some 4000,
     swap_total = Some 0, swap_used = Some 0, rd_pswpout = Some 0, some_avg10 = Some (Finite 0), full_avg10 = Some (Finite 0),
     some_avg300 = Some (Finite 0)\<rparr>"

definition idle_period :: "rat \<Rightarrow> mem_period" where
  "idle_period t = \<lparr>pr_r = clean_machine, pr_loaded = Some False, pr_size = None, pr_file = Some 17697, pr_kv = Some 384, pr_declared = None,
     pr_now = t\<rparr>"

definition clean_hour :: "mw_op list" where
  "clean_hour = [Observe (idle_period 0), Observe (idle_period 1800), Observe (idle_period 3600)]"

lemma clean_hour_resident: "mw_mode (run_ops (mem_watch_init sample_conf False 0) clean_hour) = Resident"
  by code_simp

theorem resident_is_earned_witness:
  "mw_mode (run_ops (mem_watch_init sample_conf False 0) clean_hour) = Resident \<and> earned (mem_watch_init sample_conf False 0) clean_hour"
  using resident_is_earned [OF clean_hour_resident] clean_hour_resident by (simp add: sample_conf_def)

theorem shortage_closes_the_gate_witness:
  "\<exists>p. pause_until (run_ops (mem_watch_init sample_conf False 0) ([Observe (idle_period 0)] @ [NoteOom 10 ''engine''])) = Some p \<and> 70 \<le> p
     \<and> gate_now (run_ops (mem_watch_init sample_conf False 0) ([Observe (idle_period 0)] @ NoteOom 10 ''engine'' # [Observe (idle_period 20)])) clean_machine 30 \<noteq> GateOpen"
proof -
  have "clock_forward 0 ([Observe (idle_period 0)] @ NoteOom 10 ''engine'' # [Observe (idle_period 20)])" by (simp add: idle_period_def)
  from shortage_closes_the_gate [OF this, where conf = sample_conf and err = False and t = 10] obtain p
    where p: "pause_until (run_ops (mem_watch_init sample_conf False 0) ([Observe (idle_period 0)] @ [NoteOom 10 ''engine''])) = Some p" "10 + 60 \<le> p"
      "\<forall>r x. x < p \<longrightarrow> gate_now (run_ops (mem_watch_init sample_conf False 0) ([Observe (idle_period 0)] @ NoteOom 10 ''engine'' # [Observe (idle_period 20)])) r x \<noteq> GateOpen"
    by auto
  then have "30 < p" by simp
  then show ?thesis using p by auto
qed

definition limited_judge :: mem_watch where
  "limited_judge = run_ops (mem_watch_init (sample_conf\<lparr>mem_limit_mb := Some 18100\<rparr>) False 0) [Observe (idle_period 0)]"

theorem limit_is_learned_witness:
  "gate_now limited_judge clean_machine 1 = GateOpen
     \<and> gate_now (run_ops (note_oom 1 ''engine'' limited_judge) [Observe (idle_period 4000)]) clean_machine 5000 \<noteq> GateOpen"
proof -
  have "mem_limit_mb (mw_conf limited_judge) = Some 18100" by code_simp
  moreover have "learns_limit limited_judge" by code_simp
  moreover have "list_all unmeasured [Observe (idle_period 4000)]" by (simp add: idle_period_def)
  ultimately have "gate_now (run_ops (note_oom 1 ''engine'' limited_judge) [Observe (idle_period 4000)]) clean_machine 5000 \<noteq> GateOpen"
    using limit_is_learned by blast
  moreover have "gate_now limited_judge clean_machine 1 = GateOpen" by code_simp
  ultimately show ?thesis by blast
qed

end
