(* ===== verification/Judge_Guard.thy ===== *)
theory Judge_Guard
  imports Judge_Memory
begin

text \<open>
  The two sides of the judge's memory guard that use its state machine, from \<open>src/services/modea/memwatch.py\<close>: the daemon's thread
  (\<open>Watcher\<close>: a period, its own check before a load, the document it publishes), and the juror's side (\<open>daemon_decision\<close>, \<open>check_room\<close>,
  \<open>hold_check\<close>). The thread's lock makes each of them one step. The heartbeat and the juror's state are the documents their readers give.
\<close>

section \<open>The daemon\<close>

record watcher =
  wt_mw :: mem_watch
  wt_kv :: "string option \<times> int option"

definition fallback_conf :: "int \<Rightarrow> mem_conf" where
  "fallback_conf timeout = \<lparr>period_s = PERIOD_S_DEFAULT, psi_some_pct = PSI_SOME_PCT_DEFAULT, promote_after_s = 3600, headroom_mb = 0,
     mem_limit_mb = None, resident_keepalive = RESIDENT_KEEPALIVE_DEFAULT, ondemand_keepalive = show_int timeout @ ''s'', ceiling = None,
     host_kind_of = None\<rparr>"

definition watcher_init :: "env \<Rightarrow> string option \<Rightarrow> rat \<Rightarrow> watcher result" where
  "watcher_init E timeout now = (case settings E timeout of
     Inr c \<Rightarrow> Inr \<lparr>wt_mw = mem_watch_init c False now, wt_kv = (None, None)\<rparr>
   | Inl (TimeoutUnread e) \<Rightarrow> Inl e
   | Inl (SettingsError names) \<Rightarrow>
       map_sum id (\<lambda>n. \<lparr>wt_mw = mem_watch_init (fallback_conf n) True now, wt_kv = (None, None)\<rparr>) (ollama_timeout_s timeout))"

text \<open>What one turn of the daemon reads: the time, the judge model named, the kernel's files, the engine, the juror's state.\<close>

record turn =
  tn_now :: rat
  tn_model :: "string option"
  tn_meminfo :: "string option"
  tn_vmstat :: "string option"
  tn_pressure :: "string option"
  tn_engine :: engine
  tn_state :: "pydict option"

definition turn_readings :: "turn \<Rightarrow> reading" where
  "turn_readings t = readings (tn_meminfo t) (tn_vmstat t) (tn_pressure t) (tn_now t)"

text \<open>\<open>_estimate\<close>: the context cache is read once for a model.\<close>

definition estimate :: "(pyval \<Rightarrow> string) \<Rightarrow> env \<Rightarrow> turn \<Rightarrow> watcher \<Rightarrow> (watcher \<times> int option \<times> int option \<times> int option) result" where
  "estimate py_str E t w = bind_res (model_file_mb py_str (tn_engine t) (tn_model t)) (\<lambda>f.
     let kv = (if fst (wt_kv w) \<noteq> tn_model t \<or> snd (wt_kv w) = None
               then (tn_model t, kv_cache_mb (model_info (tn_engine t) (tn_model t)) (engine_context_tokens E) (engine_num_parallel E))
               else wt_kv w);
         decl = (if snd kv = None \<and> f \<noteq> None then declared_footprint (tn_model t) (engine_context_tokens E) (engine_num_parallel E) f else None) in
     Inr (w\<lparr>wt_kv := kv\<rparr>, f, snd kv, decl))"

definition take_counters :: "turn \<Rightarrow> mem_watch \<Rightarrow> mem_watch" where
  "take_counters t s = (case tn_state t of
     None \<Rightarrow> s
   | Some doc \<Rightarrow>
       (case dget doc ''counters'' of
          PDict c \<Rightarrow>
            (case note_juror c s of (s1, new) \<Rightarrow>
               if new = None \<or> new = Some 0 then s1 else note_oom (tn_now t) ''the juror's engine'' s1)
        | _ \<Rightarrow> s))"

text \<open>A period: what is read, then the machine; a period that raises closes the gate and nothing else. The answer is whether the model is unloaded.\<close>

definition watch_step :: "(pyval \<Rightarrow> string) \<Rightarrow> env \<Rightarrow> turn \<Rightarrow> watcher \<Rightarrow> watcher \<times> bool" where
  "watch_step py_str E t w =
     (case bind_res (model_loaded py_str (tn_engine t) (tn_model t)) (\<lambda>(loaded, size).
             bind_res (if size = None then estimate py_str E t w else Inr (w, None, None, None)) (\<lambda>(w1, f, k, d).
               Inr (w1, \<lparr>pr_r = turn_readings t, pr_loaded = loaded, pr_size = size, pr_file = f, pr_kv = k, pr_declared = d, pr_now = tn_now t\<rparr>))) of
        Inl e \<Rightarrow> (w\<lparr>wt_mw := refresh_figures None None None None (Some (GateClosed ReadingFailed)) (wt_mw w)\<rparr>, False)
      | Inr (w1, p) \<Rightarrow>
          (case observe p (take_counters t (wt_mw w1)) of (s, act) \<Rightarrow>
             (w1\<lparr>wt_mw := s\<rparr>, act \<and> tn_model t \<noteq> None \<and> tn_model t \<noteq> Some [])))"

definition load_gate :: "(pyval \<Rightarrow> string) \<Rightarrow> env \<Rightarrow> turn \<Rightarrow> watcher \<Rightarrow> (watcher \<times> bool) result" where
  "load_gate py_str E t w = bind_res (model_loaded py_str (tn_engine t) (tn_model t)) (\<lambda>(loaded, size).
     if loaded = Some True then Inr (w, True)
     else
       bind_res (if fst (footprint (wt_mw w)) = None \<or> lower_bound (snd (footprint (wt_mw w))) then estimate py_str E t w
                 else Inr (w, None, None, None)) (\<lambda>(w1, f, k, d).
         let r = turn_readings t; s = refresh_figures (if loaded = Some False then active_file r else None) f k d None (wt_mw w1);
             g = (if loaded = None then GateClosed EngineUnread else gate_now s r (tn_now t)) in
         Inr (w1\<lparr>wt_mw := refresh_figures None None None None (Some g) s\<rparr>, g = GateOpen)))"

definition own_oom :: "rat \<Rightarrow> string \<Rightarrow> watcher \<Rightarrow> watcher" where
  "own_oom now who w = w\<lparr>wt_mw := note_oom now who ((wt_mw w)\<lparr>oom_own := oom_own (wt_mw w) + 1\<rparr>)\<rparr>"

datatype daemon_event = Turn turn | LoadCheck turn | OwnOom rat string

text \<open>A check before a load that raises leaves the daemon as it was.\<close>

fun daemon_step :: "(pyval \<Rightarrow> string) \<Rightarrow> env \<Rightarrow> watcher \<Rightarrow> daemon_event \<Rightarrow> watcher" where
  "daemon_step py_str E w (Turn t) = fst (watch_step py_str E t w)"
| "daemon_step py_str E w (LoadCheck t) = (case load_gate py_str E t w of Inl e \<Rightarrow> w | Inr (w1, ok) \<Rightarrow> w1)"
| "daemon_step py_str E w (OwnOom now who) = own_oom now who w"

definition daemon_run :: "(pyval \<Rightarrow> string) \<Rightarrow> env \<Rightarrow> watcher \<Rightarrow> daemon_event list \<Rightarrow> watcher" where
  "daemon_run py_str E w evs = foldl (daemon_step py_str E) w evs"

section \<open>The document the daemon publishes\<close>

text \<open>The texts of the reasons, and what the JSON reader gives back for a float.\<close>

record wording =
  wd_mode :: "mode_why \<Rightarrow> string"
  wd_gate :: "gate_state \<Rightarrow> string"
  wd_err :: string
  wd_float :: "number \<Rightarrow> pyval"

definition judge_mode_name :: "mode \<Rightarrow> string" where
  "judge_mode_name m = (case m of Resident \<Rightarrow> ''resident'' | OnDemand \<Rightarrow> ''on-demand'')"

definition opt_of :: "('a \<Rightarrow> pyval) \<Rightarrow> 'a option \<Rightarrow> pyval" where
  "opt_of f x = (case x of None \<Rightarrow> PNone | Some v \<Rightarrow> f v)"

definition read_field :: "mem_watch \<Rightarrow> (reading \<Rightarrow> 'a option) \<Rightarrow> 'a option" where
  "read_field s f = Option.bind (mw_r s) f"

definition mw_doc :: "wording \<Rightarrow> mem_watch \<Rightarrow> pydict" where
  "mw_doc W s = (case footprint s of (fp, src) \<Rightarrow>
     [(''at'', opt_of PInt (mw_at s)), (''settings_error'', if mw_err s then PStr (wd_err W) else PNone),
      (''ceiling'', opt_of (\<lambda>m. PStr (judge_mode_name m)) (ceiling (mw_conf s))), (''mode'', PStr (judge_mode_name (mw_mode s))),
      (''mode_since'', PInt (mw_since s)), (''mode_why'', PStr (wd_mode W (mw_why s))),
      (''gate'', opt_of (\<lambda>g. PStr (if g = GateOpen then ''open'' else ''closed'')) (mw_gate s)),
      (''gate_why'', PStr (case mw_gate s of None \<Rightarrow> [] | Some g \<Rightarrow> wd_gate W g)), (''resident'', opt_of PBool (mw_resident s)),
      (''footprint_mb'', opt_of PInt fp), (''footprint_source'', opt_of (\<lambda>x. PStr (source_name x)) src), (''load_s'', mw_load_s s),
      (''mem_total_mb'', opt_of PInt (read_field s mem_total)), (''mem_available_mb'', opt_of PInt (read_field s mem_available)),
      (''active_file_ref_mb'', opt_of PInt (w_ref s)), (''swap_total_mb'', opt_of PInt (read_field s swap_total)),
      (''swap_used_mb'', opt_of PInt (read_field s swap_used)), (''swap_out_pages_period'', opt_of PInt (swap_out_period s)),
      (''psi_some_avg10'', opt_of (wd_float W) (read_field s some_avg10)), (''psi_full_avg10'', opt_of (wd_float W) (read_field s full_avg10)),
      (''psi_some_avg300'', opt_of (wd_float W) (read_field s some_avg300)), (''unloads'', PInt (mw_unloads s)),
      (''oom_seen'', PInt (oom_own s + oom_juror s)), (''pause_until'', opt_of (\<lambda>p. PInt (truncated p)) (pause_until s))])"

section \<open>The juror\<close>

definition STALE_PERIODS :: rat where "STALE_PERIODS = 3"

text \<open>The daemon's \<open>judge_memory\<close> when its heartbeat, as its reader gives it, holds one fresh enough.\<close>

definition daemon_decision :: "pydict option \<Rightarrow> rat \<Rightarrow> rat \<Rightarrow> pydict option" where
  "daemon_decision heartbeat now period = (case heartbeat of
     None \<Rightarrow> None
   | Some doc \<Rightarrow>
       (case dget doc ''judge_memory'' of
          PDict jm \<Rightarrow>
            (case dget jm ''at'' of
               PInt at_s \<Rightarrow>
                 if now - of_int at_s > STALE_PERIODS * period then None
                 else (case dget jm ''mode'' of PStr m \<Rightarrow> if mode_of m = None then None else Some jm | _ \<Rightarrow> None)
             | _ \<Rightarrow> None)
        | _ \<Rightarrow> None))"

text \<open>The period a reader of the decision assumes when its own settings are written wrong.\<close>

definition reader_period :: "env \<Rightarrow> string option \<Rightarrow> rat result" where
  "reader_period E timeout = (case settings E timeout of
     Inr c \<Rightarrow> Inr (period_s c) | Inl (SettingsError names) \<Rightarrow> Inr PERIOD_S_DEFAULT | Inl (TimeoutUnread e) \<Rightarrow> Inl e)"

definition current_mode :: "watcher option \<Rightarrow> env \<Rightarrow> string option \<Rightarrow> pydict option \<Rightarrow> rat \<Rightarrow> mode result" where
  "current_mode local_w E timeout heartbeat now = (case local_w of
     Some w \<Rightarrow> Inr (mw_mode (wt_mw w))
   | None \<Rightarrow> bind_res (reader_period E timeout) (\<lambda>period.
       Inr (case daemon_decision heartbeat now period of
              None \<Rightarrow> OnDemand
            | Some jm \<Rightarrow> or_default (Option.bind (text_of (dget jm ''mode'')) mode_of) OnDemand)))"

definition keepalive_for_call :: "watcher option \<Rightarrow> env \<Rightarrow> string option \<Rightarrow> pydict option \<Rightarrow> rat \<Rightarrow> settings_fail + string" where
  "keepalive_for_call local_w E timeout heartbeat now = (case settings E timeout of
     Inl e \<Rightarrow> Inl e
   | Inr c \<Rightarrow>
       (case current_mode local_w E timeout heartbeat now of
          Inl e \<Rightarrow> Inl (TimeoutUnread e)
        | Inr m \<Rightarrow> Inr (if m = Resident then resident_keepalive c else ondemand_keepalive c)))"

text \<open>The abstention stage of a call that must not go, with its reason.\<close>

datatype stage = MayGo | MemoryGuard gate_why | MemorySettings | EngineUnreadStage

definition daemon_figure :: "pydict option \<Rightarrow> int option \<times> source option" where
  "daemon_figure jm = (case jm of
     None \<Rightarrow> (None, None)
   | Some d \<Rightarrow>
       (case (whole (dget d ''footprint_mb''), Option.bind (text_of (dget d ''footprint_source'')) source_of) of
          (Some f, Some src) \<Rightarrow> (Some f, Some src) | _ \<Rightarrow> (None, None)))"

definition daemon_pause :: "pydict option \<Rightarrow> rat option" where
  "daemon_pause jm = (case jm of None \<Rightarrow> None | Some d \<Rightarrow> map_option of_int (whole_of (dget d ''pause_until'')))"

definition later :: "rat option \<Rightarrow> rat option \<Rightarrow> rat option" where
  "later x y = (case (x, y) of (Some a, Some b) \<Rightarrow> Some (max a b) | (Some a, None) \<Rightarrow> Some a | (None, z) \<Rightarrow> z)"

definition juror_figure :: "int option \<times> source option \<Rightarrow> (int \<times> source) option result \<Rightarrow> (int option \<times> source option) result" where
  "juror_figure daemon est = (case daemon of (fp, src) \<Rightarrow>
     if fp = None \<or> lower_bound src then
       bind_res est (\<lambda>e. Inr (case e of
           None \<Rightarrow> (fp, src)
         | Some (efp, esrc) \<Rightarrow>
             if fp = None \<or> \<not> lower_bound (Some esrc) \<and> efp \<ge> the fp then (Some efp, Some esrc) else (fp, src)))
     else Inr (fp, src))"

definition check_room :: "(pyval \<Rightarrow> string) \<Rightarrow> env \<Rightarrow> string option \<Rightarrow> pydict option \<Rightarrow> engine \<Rightarrow> string option \<Rightarrow> reading \<Rightarrow> rat
    \<Rightarrow> rat option \<Rightarrow> stage result" where
  "check_room py_str E timeout heartbeat en model r now extra_pause = (case settings E timeout of
     Inl (SettingsError names) \<Rightarrow> Inr MemorySettings
   | Inl (TimeoutUnread e) \<Rightarrow> Inl e
   | Inr c \<Rightarrow>
       (let jm = daemon_decision heartbeat now (period_s c) in
        bind_res (juror_figure (daemon_figure jm) (footprint_estimate py_str en model E)) (\<lambda>(fp, src).
          Inr (case gate r fp (headroom_mb c) (mem_limit_mb c) (active_file r) (later (daemon_pause jm) extra_pause) now src of
                 GateOpen \<Rightarrow> MayGo | GateClosed why \<Rightarrow> MemoryGuard why))))"

text \<open>Before a call: the daemon's own check in its process, the juror's in any other; \<open>t\<close> is what that check reads.\<close>

definition hold_check :: "(pyval \<Rightarrow> string) \<Rightarrow> env \<Rightarrow> string option \<Rightarrow> watcher option \<Rightarrow> pydict option \<Rightarrow> engine \<Rightarrow> turn
    \<Rightarrow> (watcher option \<times> stage) result" where
  "hold_check py_str E timeout local_w heartbeat en t =
     bind_res (model_loaded py_str en (tn_model t)) (\<lambda>(loaded, size).
       if loaded = Some True then Inr (local_w, MayGo)
       else if loaded = None then Inr (local_w, EngineUnreadStage)
       else (case local_w of
           Some w \<Rightarrow>
             if mw_err (wt_mw w) then Inr (local_w, MemorySettings)
             else bind_res (load_gate py_str E t w) (\<lambda>(w1, ok).
                    Inr (Some w1, if ok then MayGo else MemoryGuard (case mw_gate (wt_mw w1) of Some (GateClosed why) \<Rightarrow> why | _ \<Rightarrow> ReadingFailed)))
         | None \<Rightarrow>
             bind_res (check_room py_str E timeout heartbeat (tn_engine t) (tn_model t) (turn_readings t) (tn_now t) None) (\<lambda>st.
               Inr (local_w, st))))"

section \<open>The daemon runs the state machine\<close>

lemma estimate_mw: "estimate py_str E t w = Inr (w1, x) \<Longrightarrow> wt_mw w1 = wt_mw w"
  by (auto simp: estimate_def bind_res_eq_Inr Let_def)

lemma take_counters_ops: "\<exists>ops. take_counters t s = run_ops s ops"
proof (cases "tn_state t")
  case None
  then show ?thesis by (intro exI [of _ "[]"]) (simp add: take_counters_def)
next
  case (Some doc)
  show ?thesis
  proof (cases "\<exists>c. dget doc ''counters'' = PDict c")
    case True
    then obtain c where c: "dget doc ''counters'' = PDict c" by blast
    obtain s1 new where n: "note_juror c s = (s1, new)" by (cases "note_juror c s")
    then have s1: "s1 = run_ops s [NoteJuror c]" by simp
    show ?thesis
    proof (cases "new = None \<or> new = Some 0")
      case True
      then have "take_counters t s = s1" using Some c n unfolding take_counters_def by (auto simp only: option.case pyval.case prod.case if_True)
      then show ?thesis using s1 by blast
    next
      case False
      then have "take_counters t s = run_ops s [NoteJuror c, NoteOom (tn_now t) ''the juror's engine'']"
        using Some c n unfolding take_counters_def by (simp only: option.case pyval.case prod.case if_False) simp
      then show ?thesis by blast
    qed
  next
    case False
    then have "take_counters t s = s" using Some by (cases "dget doc ''counters''") (simp_all add: take_counters_def)
    then show ?thesis by (intro exI [of _ "[]"]) simp
  qed
qed

lemma watch_step_ops: "\<exists>ops. wt_mw (fst (watch_step py_str E t w)) = run_ops (wt_mw w) ops"
proof (cases "bind_res (model_loaded py_str (tn_engine t) (tn_model t)) (\<lambda>(loaded, size).
    bind_res (if size = None then estimate py_str E t w else Inr (w, None, None, None)) (\<lambda>(w1, f, k, d).
      Inr (w1, \<lparr>pr_r = turn_readings t, pr_loaded = loaded, pr_size = size, pr_file = f, pr_kv = k, pr_declared = d, pr_now = tn_now t\<rparr>)))")
  case (Inl e)
  then have "wt_mw (fst (watch_step py_str E t w)) = run_ops (wt_mw w) [Refresh None None None None (Some (GateClosed ReadingFailed))]"
    unfolding watch_step_def by simp
  then show ?thesis by blast
next
  case (Inr x)
  obtain w1 p where x: "x = (w1, p)" by (cases x)
  have w1: "wt_mw w1 = wt_mw w"
    using Inr unfolding x by (auto simp: bind_res_eq_Inr split: prod.splits if_splits dest: estimate_mw)
  obtain s act where o: "observe p (take_counters t (wt_mw w1)) = (s, act)" by (cases "observe p (take_counters t (wt_mw w1))")
  obtain ops where ops: "take_counters t (wt_mw w) = run_ops (wt_mw w) ops" using take_counters_ops by blast
  have "wt_mw (fst (watch_step py_str E t w)) = s" using Inr o unfolding watch_step_def x by simp
  then have "wt_mw (fst (watch_step py_str E t w)) = run_ops (wt_mw w) (ops @ [Observe p])" using o by (simp add: w1 ops)
  then show ?thesis by blast
qed

text \<open>A check before a load: the model is loaded, or the gate is asked on the figures it has just refreshed.\<close>

lemma load_gate_Inr:
  assumes "load_gate py_str E t w = Inr (w1, ok)"
  obtains (loaded) size where "model_loaded py_str (tn_engine t) (tn_model t) = Inr (Some True, size)" "w1 = w"
  | (checked) loaded s f k d g where "s = refresh_figures (if loaded = Some False then active_file (turn_readings t) else None) f k d None (wt_mw w)"
      "g = (if loaded = None then GateClosed EngineUnread else gate_now s (turn_readings t) (tn_now t))"
      "wt_mw w1 = refresh_figures None None None None (Some g) s" "ok \<longleftrightarrow> g = GateOpen"
proof -
  obtain loaded size where l: "model_loaded py_str (tn_engine t) (tn_model t) = Inr (loaded, size)"
    using assms unfolding load_gate_def by (auto simp: bind_res_eq_Inr)
  show thesis
  proof (cases "loaded = Some True")
    case True
    then show thesis using assms l by (intro that(1)) (simp_all add: load_gate_def)
  next
    case False
    let ?est = "if fst (footprint (wt_mw w)) = None \<or> lower_bound (snd (footprint (wt_mw w))) then estimate py_str E t w else Inr (w, None, None, None)"
    let ?s = "\<lambda>w2 f k d. refresh_figures (if loaded = Some False then active_file (turn_readings t) else None) f k d None (wt_mw w2)"
    let ?g = "\<lambda>w2 f k d. if loaded = None then GateClosed EngineUnread else gate_now (?s w2 f k d) (turn_readings t) (tn_now t)"
    have L: "bind_res ?est (\<lambda>(w2, f, k, d). Inr (w2\<lparr>wt_mw := refresh_figures None None None None (Some (?g w2 f k d)) (?s w2 f k d)\<rparr>, ?g w2 f k d = GateOpen))
        = Inr (w1, ok)"
      using assms l False by (simp only: load_gate_def Let_def bind_res_Inr prod.case if_False)
    then obtain y where y: "?est = Inr y" by (auto simp only: bind_res_eq_Inr)
    obtain w2 f k d where e: "y = (w2, f, k, d)" by (cases y)
    have m: "wt_mw w2 = wt_mw w" using y unfolding e by (auto split: if_splits dest: estimate_mw)
    show thesis using L unfolding y e bind_res_Inr prod.case sum.inject prod.inject
      by (intro that(2) [OF refl refl, of loaded f k d]) (auto simp: m)
  qed
qed

lemma load_gate_ops:
  assumes "load_gate py_str E t w = Inr (w1, ok)"
  shows "\<exists>ops. wt_mw w1 = run_ops (wt_mw w) ops"
  using assms
proof (cases rule: load_gate_Inr)
  case (loaded size)
  then show ?thesis by (intro exI [of _ "[]"]) simp
next
  case (checked loaded s f k d g)
  have "wt_mw w1 = run_ops (wt_mw w) [Refresh (if loaded = Some False then active_file (turn_readings t) else None) f k d None,
      Refresh None None None None (Some g)]" using checked(1,3) by simp
  then show ?thesis by blast
qed

lemma daemon_step_ops: "\<exists>ops. wt_mw (daemon_step py_str E w ev) = run_ops (wt_mw w) ops"
proof (cases ev)
  case (Turn t)
  then show ?thesis using watch_step_ops by simp
next
  case (LoadCheck t)
  show ?thesis
  proof (cases "load_gate py_str E t w")
    case (Inl e)
    then have e: "daemon_step py_str E w ev = w" by (simp add: LoadCheck)
    have "wt_mw w = run_ops (wt_mw w) []" by simp
    then show ?thesis unfolding e by (rule exI)
  next
    case (Inr x)
    then show ?thesis using load_gate_ops by (cases x) (simp add: LoadCheck)
  qed
next
  case (OwnOom now who)
  have "wt_mw (own_oom now who w) = run_ops (wt_mw w) [CountOwn, NoteOom now who]" by (simp add: own_oom_def)
  then show ?thesis unfolding OwnOom daemon_step.simps by blast
qed

lemma daemon_run_ops: "\<exists>ops. wt_mw (daemon_run py_str E w evs) = run_ops (wt_mw w) ops"
proof (induction evs rule: rev_induct)
  case Nil
  show ?case by (intro exI [of _ "[]"]) (simp add: daemon_run_def)
next
  case (snoc ev evs)
  then obtain ops where "wt_mw (daemon_run py_str E w evs) = run_ops (wt_mw w) ops" by blast
  moreover obtain ops' where "wt_mw (daemon_step py_str E (daemon_run py_str E w evs) ev) = run_ops (wt_mw (daemon_run py_str E w evs)) ops'"
    using daemon_step_ops by blast
  ultimately have "wt_mw (daemon_run py_str E w (evs @ [ev])) = run_ops (wt_mw w) (ops @ ops')" by (simp add: daemon_run_def)
  then show ?case by blast
qed

lemma ceiling_written: "ceiling c = Some Resident \<Longrightarrow> settings E timeout = Inr c \<Longrightarrow> env_raw E ''DENDRA_JUDGE_MODE'' = ''resident''"
proof -
  assume c: "ceiling c = Some Resident" "settings E timeout = Inr c"
  have "named_as mode_of E ''DENDRA_JUDGE_MODE'' = (ceiling c, [])" by (rule settings_Inr [OF c(2)])
  then have "Some Resident = (if env_raw E ''DENDRA_JUDGE_MODE'' = [] then None else mode_of (env_raw E ''DENDRA_JUDGE_MODE''))"
    using named_as_accepts c(1) by metis
  then show ?thesis by (auto simp: mode_of_def split: if_splits)
qed


section \<open>No load without room\<close>

text \<open>The room for a model of footprint \<open>fp\<close>, beside the warm cache and the headroom, within the limit, in no pause and no stall.\<close>

definition room_for :: "reading \<Rightarrow> int option \<Rightarrow> mem_conf \<Rightarrow> rat option \<Rightarrow> rat \<Rightarrow> int \<Rightarrow> source option \<Rightarrow> bool" where
  "room_for r cache c pause now fp src \<longleftrightarrow>
     (\<exists>a w. mem_available r = Some a \<and> cache = Some w \<and> fp + headroom_mb c \<le> a - w)
     \<and> (\<forall>l. mem_limit_mb c = Some l \<longrightarrow> fp \<le> l) \<and> \<not> running pause now \<and> \<not> above_zero (full_avg10 r) \<and> \<not> lower_bound src"

lemma gate_open:
  "gate r fp (headroom_mb c) (mem_limit_mb c) cache pause now src = GateOpen \<longleftrightarrow> (\<exists>f. fp = Some f \<and> room_for r cache c pause now f src)"
  by (auto simp: gate_def room_for_def not_less split: option.splits)

lemma gate_now_open:
  "gate_now s r now = GateOpen \<longleftrightarrow>
     \<not> mw_err s \<and> (\<exists>f src. footprint s = (Some f, src) \<and> room_for r (w_ref s) (mw_conf s) (pause_until s) now f src)"
  by (cases "footprint s") (auto simp: gate_now_def gate_open)

text \<open>The figure a juror checks the room with: the daemon's, or one of its own that is not below the daemon's lower bound.\<close>

definition follows_daemon :: "int option \<times> source option \<Rightarrow> int \<Rightarrow> source option \<Rightarrow> bool" where
  "follows_daemon daemon f src \<longleftrightarrow> (case daemon of (None, x) \<Rightarrow> True | (Some g, x) \<Rightarrow> if lower_bound x then g \<le> f else f = g \<and> src = x)"

lemma juror_figure_follows:
  assumes "juror_figure d est = Inr (Some f, src)"
  shows "follows_daemon d f src"
proof -
  obtain g x where d: "d = (g, x)" by (cases d)
  show ?thesis
  proof (cases g)
    case None
    then show ?thesis by (simp add: follows_daemon_def d)
  next
    case (Some h)
    then show ?thesis using assms
      by (cases "lower_bound x") (auto simp: follows_daemon_def d juror_figure_def bind_res_eq_Inr split: option.splits if_splits)
  qed
qed

lemma may_go_iff [simp]: "(case g of GateOpen \<Rightarrow> MayGo | GateClosed why \<Rightarrow> MemoryGuard why) = MayGo \<longleftrightarrow> g = GateOpen"
  by (cases g) simp_all

lemma check_room_goes:
  assumes "check_room py_str E timeout heartbeat en model r now extra = Inr MayGo"
  obtains c f src where "settings E timeout = Inr c" "follows_daemon (daemon_figure (daemon_decision heartbeat now (period_s c))) f src"
    "room_for r (active_file r) c (later (daemon_pause (daemon_decision heartbeat now (period_s c))) extra) now f src"
proof -
  obtain c where c: "settings E timeout = Inr c" using assms by (auto simp: check_room_def split: sum.splits settings_fail.splits)
  let ?jm = "daemon_decision heartbeat now (period_s c)"
  obtain fp src where j: "juror_figure (daemon_figure ?jm) (footprint_estimate py_str en model E) = Inr (fp, src)"
    and g: "gate r fp (headroom_mb c) (mem_limit_mb c) (active_file r) (later (daemon_pause ?jm) extra) now src = GateOpen"
    using assms c by (auto simp: check_room_def Let_def bind_res_eq_Inr)
  obtain f where "fp = Some f" "room_for r (active_file r) c (later (daemon_pause ?jm) extra) now f src" using g by (auto simp: gate_open)
  then show thesis using that [OF c] juror_figure_follows j by blast
qed

lemma refresh_same [simp]: "w_ref (refresh_figures w f k d g s) = first_of w (w_ref s)"
  by (simp add: refresh_figures_def)

lemma later_None [simp]: "later p None = p"
  by (simp add: later_def split: option.splits)


section \<open>The juror follows the daemon\<close>

lemma mw_doc_fields:
  "dget (mw_doc W s) ''at'' = opt_of PInt (mw_at s)" "dget (mw_doc W s) ''mode'' = PStr (judge_mode_name (mw_mode s))"
  "dget (mw_doc W s) ''footprint_mb'' = opt_of PInt (fst (footprint s))"
  "dget (mw_doc W s) ''footprint_source'' = opt_of (\<lambda>x. PStr (source_name x)) (snd (footprint s))"
  "dget (mw_doc W s) ''pause_until'' = opt_of (\<lambda>p. PInt (truncated p)) (pause_until s)"
  by (cases "footprint s"; simp add: mw_doc_def dget_def get_or_def)+

lemma mode_round_trip [simp]: "mode_of (judge_mode_name m) = Some m"
  by (cases m) (simp_all add: judge_mode_name_def mode_of_def)

lemma source_round_trip [simp]: "source_of (source_name x) = Some x"
  by (cases x) (simp_all add: source_of_def source_name_def)

lemma published_is_read:
  assumes "dget hb ''judge_memory'' = PDict (mw_doc W s)" "mw_at s = Some a" "now - of_int a \<le> 3 * period"
  shows "daemon_decision (Some hb) now period = Some (mw_doc W s)"
  using assms by (simp add: daemon_decision_def mw_doc_fields opt_of_def STALE_PERIODS_def)

text \<open>
  C31: the juror follows the daemon's decision, and only while it is fresh. What the daemon publishes is read back as it is by a juror no more
  than three of its periods later, with the same mode; until the published end of the daemon's pause the juror's own check lets no load go;
  and what it lets go has room for the daemon's own figure, or for one that is no lower bound and not below the bound the daemon learned.
  A decision older than that, or a heartbeat that names no mode, is no decision: the juror is on demand.
\<close>

theorem juror_follows_the_daemon:
  assumes "dget hb ''judge_memory'' = PDict (mw_doc W s)" "mw_at s = Some a" "settings E timeout = Inr c"
  shows "(now - of_int a \<le> 3 * period_s c \<longrightarrow>
       daemon_decision (Some hb) now (period_s c) = Some (mw_doc W s)
       \<and> current_mode None E timeout (Some hb) now = Inr (mw_mode s)
       \<and> (\<forall>p. pause_until s = Some p \<and> now < of_int (truncated p)
            \<longrightarrow> check_room py_str E timeout (Some hb) en model r now extra \<noteq> Inr MayGo)
       \<and> (\<forall>fp src. footprint s = (Some fp, Some src) \<and> 0 < fp \<and> check_room py_str E timeout (Some hb) en model r now extra = Inr MayGo
            \<longrightarrow> (\<exists>f fsrc. follows_daemon (Some fp, Some src) f fsrc
                  \<and> room_for r (active_file r) c (later (daemon_pause (Some (mw_doc W s))) extra) now f fsrc)))
    \<and> (now - of_int a > 3 * period_s c \<longrightarrow> current_mode None E timeout (Some hb) now = Inr OnDemand)"
proof (intro conjI impI allI)
  assume fresh: "now - of_int a \<le> 3 * period_s c"
  show d: "daemon_decision (Some hb) now (period_s c) = Some (mw_doc W s)" by (rule published_is_read [OF assms(1,2) fresh])
  then show "current_mode None E timeout (Some hb) now = Inr (mw_mode s)"
    using assms(3) by (simp add: current_mode_def reader_period_def mw_doc_fields or_default_def)
  fix p assume p: "pause_until s = Some p \<and> now < of_int (truncated p)"
  show "check_room py_str E timeout (Some hb) en model r now extra \<noteq> Inr MayGo"
  proof
    assume "check_room py_str E timeout (Some hb) en model r now extra = Inr MayGo"
    then obtain c' f src where "settings E timeout = Inr c'"
      "room_for r (active_file r) c' (later (daemon_pause (daemon_decision (Some hb) now (period_s c'))) extra) now f src"
      by (rule check_room_goes)
    then have "\<not> running (later (daemon_pause (Some (mw_doc W s))) extra) now" using assms(3) d by (simp add: room_for_def)
    moreover have "daemon_pause (Some (mw_doc W s)) = Some (of_int (truncated p))" using p by (simp add: daemon_pause_def mw_doc_fields opt_of_def)
    ultimately show False using p by (cases extra) (auto simp: later_def running_def)
  qed
next
  fix fp src
  assume fresh: "now - of_int a \<le> 3 * period_s c"
    and f: "footprint s = (Some fp, Some src) \<and> 0 < fp \<and> check_room py_str E timeout (Some hb) en model r now extra = Inr MayGo"
  have d: "daemon_decision (Some hb) now (period_s c) = Some (mw_doc W s)" by (rule published_is_read [OF assms(1,2) fresh])
  have fig: "daemon_figure (Some (mw_doc W s)) = (Some fp, Some src)"
    using f by (simp add: daemon_figure_def mw_doc_fields opt_of_def whole_def positive_count_def)
  obtain c' g gsrc where "settings E timeout = Inr c'" "follows_daemon (daemon_figure (daemon_decision (Some hb) now (period_s c'))) g gsrc"
    "room_for r (active_file r) c' (later (daemon_pause (daemon_decision (Some hb) now (period_s c'))) extra) now g gsrc"
    using f by (auto elim: check_room_goes)
  then show "\<exists>f fsrc. follows_daemon (Some fp, Some src) f fsrc \<and> room_for r (active_file r) c (later (daemon_pause (Some (mw_doc W s))) extra) now f fsrc"
    using assms(3) d fig by auto
next
  assume "now - of_int a > 3 * period_s c"
  then show "current_mode None E timeout (Some hb) now = Inr OnDemand"
    using assms by (simp add: current_mode_def reader_period_def daemon_decision_def mw_doc_fields opt_of_def STALE_PERIODS_def)
qed

section \<open>A machine with room, and a juror on it\<close>

definition sample_turn :: "rat \<Rightarrow> turn" where
  "sample_turn now = \<lparr>tn_now = now, tn_model = Some sample_model,
     tn_meminfo = Some (''MemAvailable: 28672000 kB'' @ [CHR 0x0A] @ ''Active(file): 4096000 kB''), tn_vmstat = None, tn_pressure = None,
     tn_engine = sample_engine, tn_state = None\<rparr>"

lemma int_of_text_digits: "u \<noteq> [] \<Longrightarrow> list_all is_digit u \<Longrightarrow> length u \<le> 4300 \<Longrightarrow> int_of_text u = Some (int (read_nat u))"
proof -
  assume u: "u \<noteq> []" "list_all is_digit u" "length u \<le> 4300"
  have d: "is_digit c" if "c \<in> set u" for c using u(2) that by (simp add: list_all_iff)
  have "strip u = u" using u(1) d [of "hd u"] d [of "last u"] digit_facts(1) by (intro strip_id) auto
  moreover have "split_sign u = (False, u)" using u(1) d [of "hd u"] by (intro split_sign_digit) auto
  moreover have "underscores_ok u" using d digit_facts(3) by (fastforce simp: underscores_ok_def list_all_iff)
  moreover have "plain_digits u = u" using d digit_facts(3) by (auto simp: plain_digits_def filter_id_conv)
  ultimately show ?thesis using u by (simp add: int_of_text_def)
qed

lemma sample_reading: "turn_readings (sample_turn now) = \<lparr>rd_at = truncated now, mem_total = None, mem_available = Some 28000, mem_free = None,
    active_file = Some 4000, swap_total = None, swap_used = None, rd_pswpout = None, some_avg10 = None, full_avg10 = None, some_avg300 = None\<rparr>"
proof -
  have "read_meminfo (Some (''MemAvailable: 28672000 kB'' @ [CHR 0x0A] @ ''Active(file): 4096000 kB''))
      = Some [(''MemAvailable'', 28000), (''Active(file)'', 4000)]"
  proof -
    have l: "splitlines (''MemAvailable: 28672000 kB'' @ [CHR 0x0A] @ ''Active(file): 4096000 kB'')
        = [''MemAvailable: 28672000 kB'', ''Active(file): 4096000 kB'']" by code_simp
    have p: "partition_at (CHR '':'') ''MemAvailable: 28672000 kB'' = (''MemAvailable'', True, '' 28672000 kB'')"
      "partition_at (CHR '':'') ''Active(file): 4096000 kB'' = (''Active(file)'', True, '' 4096000 kB'')" by code_simp+
    have w: "split_words '' 28672000 kB'' = [''28672000'', ''kB'']" "split_words '' 4096000 kB'' = [''4096000'', ''kB'']" by code_simp+
    have n: "int_of_text ''28672000'' = Some 28672000" "int_of_text ''4096000'' = Some 4096000"
      by (subst int_of_text_digits; simp add: is_digit_def read_nat_def digit_val_def)+
    have k: "strip ''MemAvailable'' = ''MemAvailable''" "strip ''Active(file)'' = ''Active(file)''" by code_simp+
    show ?thesis unfolding read_meminfo_def option.map l by (simp add: meminfo_line_def p w n k)
  qed
  then show ?thesis by (simp add: turn_readings_def sample_turn_def readings_def or_default_def read_vmstat_def read_pressure_def)
qed

lemma sample_unloaded: "model_loaded py_str sample_engine (Some sample_model) = Inr (Some False, None)"
  by (simp add: model_loaded_def sample_engine_def sample_model_def listed_def iterated_def dget_def get_or_def)

lemma sample_slots: "engine_context_tokens judge_env = Some 4096" "engine_num_parallel judge_env = Some 1"
  by code_simp+

lemma sample_figure: "footprint_estimate (\<lambda>v. []) sample_engine (Some sample_model) judge_env = Inr (Some (18081, Declared))"
proof -
  have n: "engine_context_tokens (\<lambda>_. None) = Some 4096" "engine_num_parallel (\<lambda>_. None) = Some 1" by code_simp+
  show ?thesis using sample_estimate unfolding footprint_estimate_def sample_slots n .
qed


definition struck_judge :: mem_watch where
  "struck_judge = run_ops (mem_watch_init sample_conf False 0) [Observe (idle_period 0), NoteOom 10 ''engine'']"

definition sample_wording :: wording where
  "sample_wording = \<lparr>wd_mode = (\<lambda>w. []), wd_gate = (\<lambda>g. []), wd_err = [], wd_float = (\<lambda>x. PNone)\<rparr>"

theorem juror_follows_the_daemon_witness:
  "daemon_decision (Some [(''judge_memory'', PDict (mw_doc sample_wording struck_judge))]) 12 (period_s sample_conf)
      = Some (mw_doc sample_wording struck_judge)
   \<and> check_room (\<lambda>v. []) judge_env None (Some [(''judge_memory'', PDict (mw_doc sample_wording struck_judge))]) sample_engine (Some sample_model)
       clean_machine 12 None \<noteq> Inr MayGo"
proof -
  have j: "dget [(''judge_memory'', PDict (mw_doc sample_wording struck_judge))] ''judge_memory'' = PDict (mw_doc sample_wording struck_judge)"
    by (simp add: dget_def get_or_def)
  have s: "mw_at struck_judge = Some 0" "pause_until struck_judge = Some 70" by code_simp+
  have t: "12 - of_int 0 \<le> 3 * period_s sample_conf" "(12::rat) < of_int (truncated 70)" by (simp_all add: sample_conf_def truncated_def)
  show ?thesis using juror_follows_the_daemon [OF j s(1) sample_settings] s(2) t by blast
qed

definition sample_watcher :: watcher where
  "sample_watcher = \<lparr>wt_mw = mem_watch_init sample_conf False 0, wt_kv = (None, None)\<rparr>"

lemma sample_watcher_starts: "watcher_init judge_env None 0 = Inr sample_watcher"
  by (simp add: watcher_init_def sample_settings sample_watcher_def)

text \<open>What the daemon observes at a turn of this machine.\<close>

definition sample_period :: "rat \<Rightarrow> mem_period" where
  "sample_period now = \<lparr>pr_r = turn_readings (sample_turn now), pr_loaded = Some False, pr_size = None, pr_file = Some 17697, pr_kv = None,
     pr_declared = Some 18081, pr_now = now\<rparr>"

lemma sample_watch_step:
  assumes "snd (wt_kv w) = None"
  shows "wt_mw (fst (watch_step (\<lambda>v. []) judge_env (sample_turn now) w)) = mw_step (wt_mw w) (Observe (sample_period now))"
    "snd (wt_kv (fst (watch_step (\<lambda>v. []) judge_env (sample_turn now) w))) = None"
proof -
  have f: "model_file_mb (\<lambda>v. []) sample_engine (Some sample_model) = Inr (Some 17697)" by (rule sample_model_file)
  have d: "declared_footprint (Some sample_model) (Some 4096) (Some 1) (Some 17697) = Some 18081" unfolding sample_model_def by code_simp
  have i: "model_info sample_engine (Some sample_model) = None" by (simp add: model_info_def sample_engine_def)
  have e: "estimate (\<lambda>v. []) judge_env (sample_turn now) w = Inr (w\<lparr>wt_kv := (Some sample_model, None)\<rparr>, Some 17697, None, Some 18081)"
    using assms by (simp add: estimate_def sample_turn_def f d i sample_slots kv_cache_mb_def kv_cache_bytes_def)
  have t: "tn_engine (sample_turn now) = sample_engine" "tn_model (sample_turn now) = Some sample_model" "tn_now (sample_turn now) = now"
    "tn_state (sample_turn now) = None" by (simp_all add: sample_turn_def)
  show "wt_mw (fst (watch_step (\<lambda>v. []) judge_env (sample_turn now) w)) = mw_step (wt_mw w) (Observe (sample_period now))"
    "snd (wt_kv (fst (watch_step (\<lambda>v. []) judge_env (sample_turn now) w))) = None"
    by (simp_all add: watch_step_def t sample_unloaded e take_counters_def sample_period_def split: prod.split)
qed

lemma sample_daemon_resident:
  "mw_mode (wt_mw (daemon_run (\<lambda>v. []) judge_env sample_watcher [Turn (sample_turn 0), Turn (sample_turn 1800), Turn (sample_turn 3600)])) = Resident"
proof -
  let ?ops = "[Observe (sample_period 0), Observe (sample_period 1800), Observe (sample_period 3600)]"
  have "snd (wt_kv sample_watcher) = None" by (simp add: sample_watcher_def)
  then have "wt_mw (daemon_run (\<lambda>v. []) judge_env sample_watcher [Turn (sample_turn 0), Turn (sample_turn 1800), Turn (sample_turn 3600)])
      = run_ops (wt_mw sample_watcher) ?ops"
    by (simp add: daemon_run_def sample_watch_step del: mw_step.simps)
  moreover have "mw_mode (run_ops (wt_mw sample_watcher) ?ops) = Resident"
    unfolding sample_period_def sample_reading by code_simp
  ultimately show ?thesis by simp
qed


end
