(* ===== verification/Reveal_Marker.thy ===== *)
theory Reveal_Marker
  imports Relay_Canon Cosmos_Addr
begin

text \<open>
  The reveal marker of \<open>src/services/reveal_marker.py\<close>: a Merkle tree over the identifiers of the jobs a miner revealed in an epoch.
  Its root is anchored on the chain, its list of jobs is served by the relay. A membership proof of a job verifies against the root
  exactly when the job is in the list, as long as the messages that were hashed do not collide, so a root stands for one set of jobs.
\<close>

section \<open>The tree\<close>

definition MARK_DOMAIN :: string where
  "MARK_DOMAIN = ''dendra/revealmark/v1''"

definition EPOCH_BLOCKS_DEFAULT :: int where
  "EPOCH_BLOCKS_DEFAULT = 600"

definition leaf_msg :: "string \<Rightarrow> string" where
  "leaf_msg j = [CHR 0x00] @ MARK_DOMAIN @ utf8 j"

definition node_msg :: "string \<Rightarrow> string \<Rightarrow> string" where
  "node_msg a b = [CHR 0x01] @ a @ b"

definition leaf :: "host \<Rightarrow> string \<Rightarrow> string" where
  "leaf H j = sha256 H (leaf_msg j)"

definition tree_node :: "host \<Rightarrow> string \<Rightarrow> string \<Rightarrow> string" where
  "tree_node H a b = sha256 H (node_msg a b)"

text \<open>One level up: pairs of neighbours, a last node without one paired with itself.\<close>

fun pair_up :: "('a \<Rightarrow> 'a \<Rightarrow> 'b) \<Rightarrow> 'a list \<Rightarrow> 'b list" where
  "pair_up f [] = []"
| "pair_up f [a] = [f a a]"
| "pair_up f (a # b # xs) = f a b # pair_up f xs"

lemma length_pair_up: "length (pair_up f xs) = (length xs + 1) div 2"
  by (induction f xs rule: pair_up.induct) auto

function levels_from :: "host \<Rightarrow> string list \<Rightarrow> string list list" where
  "levels_from H cur = (if length cur \<le> 1 then [cur] else cur # levels_from H (pair_up (tree_node H) cur))"
  by pat_completeness auto
termination
  by (relation "measure (\<lambda>(H, cur). length cur)") (auto simp: length_pair_up)

declare levels_from.simps [simp del]

definition sorted_set :: "string list \<Rightarrow> string list" where
  "sorted_set js = sort (remdups js)"

definition levels :: "host \<Rightarrow> string list \<Rightarrow> string list list" where
  "levels H js = levels_from H (map (leaf H) (sorted_set js))"

definition merkle_root :: "host \<Rightarrow> string list \<Rightarrow> string" where
  "merkle_root H js = (case List.last (levels H js) of [] \<Rightarrow> [] | x # xs \<Rightarrow> hexdigest x)"

section \<open>Proofs of membership\<close>

fun position :: "'a \<Rightarrow> 'a list \<Rightarrow> nat" where
  "position x [] = 0"
| "position x (y # ys) = (if x = y then 0 else Suc (position x ys))"

text \<open>\<open>idx ^ 1\<close>, or the node itself when it is the last one of an odd level.\<close>

definition sibling :: "nat \<Rightarrow> nat \<Rightarrow> nat" where
  "sibling idx n = (let sib = if even idx then idx + 1 else idx - 1 in if sib \<ge> n then idx else sib)"

fun siblings :: "string list list \<Rightarrow> nat \<Rightarrow> (string \<times> string) list" where
  "siblings [] idx = []"
| "siblings (lvl # lvls) idx =
     (let sib = sibling idx (length lvl)
      in (if sib > idx then ''R'' else ''L'', hexdigest (lvl ! sib)) # siblings lvls (idx div 2))"

definition membership_proof :: "host \<Rightarrow> string list \<Rightarrow> string \<Rightarrow> (string \<times> string) list option" where
  "membership_proof H js j =
     (if j \<notin> set (sorted_set js) then None
      else Some (siblings (butlast (levels H (sorted_set js))) (position j (sorted_set js))))"

fun climb :: "host \<Rightarrow> string \<Rightarrow> (string \<times> string) list \<Rightarrow> string option" where
  "climb H cur [] = Some cur"
| "climb H cur ((side, h) # prf) =
     (case from_hex h of
        None \<Rightarrow> None
      | Some sib \<Rightarrow>
          if length sib \<noteq> 32 \<or> side \<notin> {''L'', ''R''} then None
          else climb H (if side = ''L'' then tree_node H sib cur else tree_node H cur sib) prf)"

definition verify_membership :: "host \<Rightarrow> string \<Rightarrow> string \<Rightarrow> (string \<times> string) list option \<Rightarrow> bool" where
  "verify_membership H anchored j prf \<longleftrightarrow> anchored \<noteq> [] \<and>
     (case prf of
        None \<Rightarrow> False
      | Some p \<Rightarrow> (case climb H (leaf H j) p of None \<Rightarrow> False | Some cur \<Rightarrow> hexdigest cur = lower anchored))"

section \<open>Epochs and keys\<close>

definition epoch_of :: "int \<Rightarrow> int \<Rightarrow> int result" where
  "epoch_of height epoch_blocks = (if epoch_blocks \<le> 0 then Inl ValueError else Inr (height div epoch_blocks))"

definition covering_epochs :: "int \<Rightarrow> int \<Rightarrow> int \<Rightarrow> int list result" where
  "covering_epochs dispute_height epoch_blocks width =
     bind_res (epoch_of dispute_height epoch_blocks) (\<lambda>e. Inr (map (\<lambda>i. e + int i) [0..<nat (max 1 width)]))"

definition marker_key :: "int \<Rightarrow> string \<Rightarrow> string" where
  "marker_key epoch miner = ''e'' @ show_int epoch @ ''__reveals__'' @ miner"

definition list_key :: "int \<Rightarrow> string \<Rightarrow> string" where
  "list_key epoch miner = ''markerlist__e'' @ show_int epoch @ ''__'' @ miner"

section \<open>The levels\<close>

lemma sorted_set_facts [simp]: "set (sorted_set js) = set js" "distinct (sorted_set js)" "sorted (sorted_set js)"
  by (simp_all add: sorted_set_def)

lemma sorted_set_cong: "set js = set js' \<Longrightarrow> sorted_set js = sorted_set js'"
  by (rule sorted_distinct_set_unique) simp_all

lemma sorted_set_idem [simp]: "sorted_set (sorted_set js) = sorted_set js"
  by (rule sorted_set_cong) simp

lemma levels_sorted_set [simp]: "levels H (sorted_set js) = levels H js"
  by (simp add: levels_def)

lemma nth_pair_up: "i < length xs \<Longrightarrow> pair_up f xs ! (i div 2) = f (xs ! (2 * (i div 2))) (xs ! (if 2 * (i div 2) + 1 < length xs then 2 * (i div 2) + 1 else 2 * (i div 2)))"
proof (induction f xs arbitrary: i rule: pair_up.induct)
  case (3 f a b xs)
  show ?case
  proof (cases "i < 2")
    case False
    then obtain k where k: "i = k + 2" by (metis add.commute le_Suc_ex not_less)
    then have "k < length xs" using 3 by simp
    from "3.IH" [OF this] show ?thesis by (simp add: k)
  qed simp
qed simp_all

lemma set_pair_up: "x \<in> set (pair_up f xs) \<Longrightarrow> \<exists>a \<in> set xs. \<exists>b \<in> set xs. x = f a b"
  by (induction f xs rule: pair_up.induct) auto

text \<open>The messages hashed to build the tree and to follow a proof.\<close>

function level_msgs :: "host \<Rightarrow> string list \<Rightarrow> string list" where
  "level_msgs H cur = (if length cur \<le> 1 then [] else pair_up node_msg cur @ level_msgs H (pair_up (tree_node H) cur))"
  by pat_completeness auto
termination
  by (relation "measure (\<lambda>(H, cur). length cur)") (auto simp: length_pair_up)

declare level_msgs.simps [simp del]

definition tree_msgs :: "host \<Rightarrow> string list \<Rightarrow> string list" where
  "tree_msgs H js = map leaf_msg (sorted_set js) @ level_msgs H (map (leaf H) (sorted_set js))"

fun climb_msgs :: "host \<Rightarrow> string \<Rightarrow> (string \<times> string) list \<Rightarrow> string list" where
  "climb_msgs H cur [] = []"
| "climb_msgs H cur ((side, h) # prf) =
     (case from_hex h of
        None \<Rightarrow> []
      | Some sib \<Rightarrow> (let m = if side = ''L'' then node_msg sib cur else node_msg cur sib in m # climb_msgs H (sha256 H m) prf))"

definition proof_msgs :: "host \<Rightarrow> string \<Rightarrow> (string \<times> string) list \<Rightarrow> string list" where
  "proof_msgs H j p = leaf_msg j # climb_msgs H (leaf H j) p"

lemma pair_up_map: "pair_up (\<lambda>a b. g (f a b)) xs = map g (pair_up f xs)"
  by (induction f xs rule: pair_up.induct) auto

lemma tree_node_pairs: "pair_up (tree_node H) xs = map (sha256 H) (pair_up node_msg xs)"
  using pair_up_map [of "sha256 H" node_msg xs] by (simp add: tree_node_def [abs_def])

text \<open>A level is the first one, or the hashes of pairs of an earlier level, and those pairs are among the messages.\<close>

lemma level_cases:
  assumes "lvl \<in> set (levels_from H cur)"
  shows "lvl = cur \<or> (\<exists>lvl' \<in> set (levels_from H cur). lvl = pair_up (tree_node H) lvl' \<and> set (pair_up node_msg lvl') \<subseteq> set (level_msgs H cur))"
  using assms
proof (induction H cur rule: levels_from.induct)
  case (1 H cur)
  let ?up = "pair_up (tree_node H) cur"
  show ?case
  proof (cases "length cur \<le> 1")
    case True
    then show ?thesis using "1.prems" by (subst (asm) levels_from.simps) simp
  next
    case False
    then have l: "levels_from H cur = cur # levels_from H ?up" and m: "level_msgs H cur = pair_up node_msg cur @ level_msgs H ?up"
      by (simp_all add: levels_from.simps [of H cur] level_msgs.simps [of H cur])
    consider "lvl = cur" | "lvl \<in> set (levels_from H ?up)" using "1.prems" l by auto
    then show ?thesis
    proof cases
      case 2
      with "1.IH" [OF False] show ?thesis by (fastforce simp: l m)
    qed simp
  qed
qed

section \<open>A member has a proof\<close>

lemma levels_from_nonempty [simp]: "levels_from H cur \<noteq> []"
  by (subst levels_from.simps) simp

lemma pair_up_sibling:
  assumes "i < length xs"
  shows "pair_up f xs ! (i div 2) =
     (if sibling i (length xs) > i then f (xs ! i) (xs ! sibling i (length xs)) else f (xs ! sibling i (length xs)) (xs ! i))"
proof (cases "even i")
  case True
  then have "2 * (i div 2) = i" by simp
  then show ?thesis using nth_pair_up [OF assms, of f] True by (auto simp: sibling_def)
next
  case False
  then have "2 * (i div 2) = i - 1" "0 < i" by (auto elim!: oddE)
  then show ?thesis using nth_pair_up [OF assms, of f] False assms by (auto simp: sibling_def Let_def)
qed

lemma sibling_less: "i < n \<Longrightarrow> sibling i n < n"
  by (auto simp: sibling_def Let_def)

lemma climb_siblings:
  assumes "sha_length H" "\<forall>x \<in> set cur. length x = 32" "i < length cur"
  shows "climb H (cur ! i) (siblings (butlast (levels_from H cur)) i) = Some (hd (List.last (levels_from H cur)))
     \<and> length (List.last (levels_from H cur)) = 1
     \<and> set (climb_msgs H (cur ! i) (siblings (butlast (levels_from H cur)) i)) \<subseteq> set (level_msgs H cur)"
  using assms
proof (induction H cur arbitrary: i rule: levels_from.induct)
  case (1 H cur)
  show ?case
  proof (cases "length cur \<le> 1")
    case True
    then have "length cur = 1" using "1.prems"(3) by simp
    then obtain x where "cur = [x]" by (auto simp: length_Suc_conv)
    then show ?thesis using "1.prems"(3) by (simp add: levels_from.simps)
  next
    case False
    let ?up = "pair_up (tree_node H) cur" and ?s = "sibling i (length cur)"
    have l: "levels_from H cur = cur # levels_from H ?up" using False by (simp add: levels_from.simps [of H cur])
    have s: "?s < length cur" by (rule sibling_less [OF "1.prems"(3)])
    then have "length (cur ! ?s) = 32" using "1.prems"(2) by simp
    then have "climb H (cur ! i) (siblings (butlast (levels_from H cur)) i)
        = climb H (?up ! (i div 2)) (siblings (butlast (levels_from H ?up)) (i div 2))"
      using pair_up_sibling [OF "1.prems"(3), of "tree_node H"] by (simp add: l hex.dec_enc Let_def)
    moreover have "climb_msgs H (cur ! i) (siblings (butlast (levels_from H cur)) i)
        = pair_up node_msg cur ! (i div 2) # climb_msgs H (?up ! (i div 2)) (siblings (butlast (levels_from H ?up)) (i div 2))"
      using pair_up_sibling [OF "1.prems"(3), of "tree_node H"] pair_up_sibling [OF "1.prems"(3), of node_msg]
      by (simp add: l hex.dec_enc Let_def tree_node_def)
    moreover have "pair_up node_msg cur ! (i div 2) \<in> set (level_msgs H cur)" "set (level_msgs H ?up) \<subseteq> set (level_msgs H cur)"
      using False "1.prems"(3) by (simp_all add: level_msgs.simps [of H cur] length_pair_up)
    moreover have "\<forall>x \<in> set ?up. length x = 32"
      using "1.prems"(1) by (auto dest!: set_pair_up simp: tree_node_def sha_length_def)
    moreover have "i div 2 < length ?up" using "1.prems"(3) by (simp add: length_pair_up)
    ultimately show ?thesis using "1.IH" [OF False "1.prems"(1)] by (auto simp: l)
  qed
qed

lemma position_less: "x \<in> set xs \<Longrightarrow> position x xs < length xs \<and> xs ! position x xs = x"
  by (induction xs) auto

lemma leaves_length: "sha_length H \<Longrightarrow> \<forall>x \<in> set (map (leaf H) js). length x = 32"
  by (simp add: leaf_def sha_length_def)

lemma level_length: "sha_length H \<Longrightarrow> lvl \<in> set (levels H js) \<Longrightarrow> y \<in> set lvl \<Longrightarrow> length y = 32"
  using level_cases [of lvl H "map (leaf H) (sorted_set js)"]
  by (auto simp: levels_def sha_length_def tree_node_def leaf_def dest!: set_pair_up)

lemma climb_length: "sha_length H \<Longrightarrow> climb H (leaf H j) p = Some x \<Longrightarrow> length x = 32"
proof -
  assume H: "sha_length H"
  have key: "length c = 32 \<Longrightarrow> climb H c p = Some x \<Longrightarrow> length x = 32" for c
  proof (induction p arbitrary: c)
    case (Cons sh p)
    then obtain d where "climb H d p = Some x" "length d = 32"
      using H by (cases sh) (auto simp: tree_node_def sha_length_def split: option.splits if_splits)
    then show ?case using Cons.IH by blast
  qed simp
  have "length (leaf H j) = 32" using H by (simp add: leaf_def sha_length_def)
  then show "climb H (leaf H j) p = Some x \<Longrightarrow> length x = 32" by (rule key)
qed

lemma climb_member:
  assumes "sha_length H" "membership_proof H js j = Some p"
  obtains x where "climb H (leaf H j) p = Some x" "List.last (levels H js) = [x]" "set (proof_msgs H j p) \<subseteq> set (tree_msgs H js)"
proof -
  let ?u = "sorted_set js" and ?i = "position j (sorted_set js)"
  from assms(2) have j: "j \<in> set ?u" and p: "p = siblings (butlast (levels H js)) ?i"
    by (auto simp: membership_proof_def split: if_splits)
  then have i: "?i < length (map (leaf H) ?u)" "map (leaf H) ?u ! ?i = leaf H j"
    using position_less [OF j] by simp_all
  from climb_siblings [OF assms(1) leaves_length [OF assms(1)] i(1)] i(2)
  have "climb H (leaf H j) p = Some (hd (List.last (levels H js)))" "length (List.last (levels H js)) = 1"
      "set (climb_msgs H (leaf H j) p) \<subseteq> set (level_msgs H (map (leaf H) ?u))"
    by (simp_all add: p levels_def)
  moreover from this(3) j have "set (proof_msgs H j p) \<subseteq> set (tree_msgs H js)" by (auto simp: proof_msgs_def tree_msgs_def)
  ultimately show thesis using that by (cases "List.last (levels H js)") auto
qed

lemma member_verifies:
  assumes "sha_length H" "membership_proof H js j = Some p"
  shows "verify_membership H (merkle_root H js) j (Some p)"
proof -
  obtain x where x: "climb H (leaf H j) p = Some x" "List.last (levels H js) = [x]" using climb_member [OF assms] .
  then have "merkle_root H js = hexdigest x" by (simp add: merkle_root_def)
  moreover have "length x = 32" by (rule climb_length [OF assms(1) x(1)])
  then have "hexdigest x \<noteq> []" by (cases x) (simp_all add: hexdigest_def hex_byte_def)
  ultimately show ?thesis by (simp add: verify_membership_def x(1) lower_hexdigest)
qed

section \<open>Only a member has a proof\<close>

lemma node_msg_inj: "length a = length c \<Longrightarrow> node_msg a b = node_msg c d \<Longrightarrow> a = c \<and> b = d"
  by (simp add: node_msg_def)

lemma leaf_not_node: "leaf_msg j \<noteq> node_msg a b"
  by (simp add: leaf_msg_def node_msg_def)

lemma leaf_msg_inj: "leaf_msg i = leaf_msg j \<longleftrightarrow> i = j"
  by (simp add: leaf_msg_def utf8.enc_inj)

text \<open>Following a proof from the end: the last message hashed, and what was climbed before it.\<close>

lemma climb_append: "climb H c (p @ q) = Option.bind (climb H c p) (\<lambda>y. climb H y q)"
  by (induction p arbitrary: c) (auto split: option.splits)

lemma climb_snoc:
  "climb H c (p @ [(side, h)]) = Some x \<longleftrightarrow>
     (\<exists>y sib. climb H c p = Some y \<and> from_hex h = Some sib \<and> length sib = 32 \<and> side \<in> {''L'', ''R''}
        \<and> x = (if side = ''L'' then tree_node H sib y else tree_node H y sib))"
  by (auto simp: climb_append Option.bind_eq_Some_conv split: option.splits)

lemma climb_msgs_snoc:
  "climb H c p = Some y \<Longrightarrow> from_hex h = Some sib \<Longrightarrow>
     climb_msgs H c (p @ [(side, h)]) = climb_msgs H c p @ [if side = ''L'' then node_msg sib y else node_msg y sib]"
  by (induction p arbitrary: c) (auto split: option.splits if_splits simp: tree_node_def Let_def)

text \<open>What is climbed to in a level was climbed to from a leaf of the tree.\<close>

lemma climb_sound:
  assumes sha: "sha_length H"
    and inj: "inj_on (sha256 H) (set (tree_msgs H js) \<union> set (proof_msgs H j p))"
    and c: "climb H (leaf H j) p = Some x" "lvl \<in> set (levels H js)" "x \<in> set lvl"
  shows "j \<in> set js"
  using inj c
proof (induction p arbitrary: x lvl rule: rev_induct)
  case Nil
  let ?M = "set (tree_msgs H js) \<union> set (proof_msgs H j [])"
  let ?cur = "map (leaf H) (sorted_set js)"
  have x: "x = sha256 H (leaf_msg j)" "leaf_msg j \<in> ?M" using Nil.prems(2) by (simp_all add: leaf_def proof_msgs_def)
  consider "lvl = ?cur" | lvl' where "lvl = pair_up (tree_node H) lvl'" "set (pair_up node_msg lvl') \<subseteq> set (level_msgs H ?cur)"
    using level_cases [of lvl H ?cur] Nil.prems(3) by (auto simp: levels_def)
  then show ?case
  proof cases
    case 1
    then obtain i where "i \<in> set js" "x = sha256 H (leaf_msg i)" "leaf_msg i \<in> ?M"
      using Nil.prems(4) by (auto simp: leaf_def tree_msgs_def)
    then have "leaf_msg i = leaf_msg j" using inj_onD [OF Nil.prems(1), of "leaf_msg i" "leaf_msg j"] x by simp
    then show ?thesis using \<open>i \<in> set js\<close> by (simp add: leaf_msg_inj)
  next
    case 2
    then obtain m where "m \<in> set (pair_up node_msg lvl')" "x = sha256 H m" "m \<in> ?M"
      using Nil.prems(4) by (auto simp: tree_node_pairs tree_msgs_def)
    moreover from this obtain a b where "m = node_msg a b" by (auto dest: set_pair_up)
    ultimately have "leaf_msg j = node_msg a b" using inj_onD [OF Nil.prems(1), of "leaf_msg j" m] x by simp
    then show ?thesis by (simp add: leaf_not_node)
  qed
next
  case (snoc sh p)
  obtain side h where sh: "sh = (side, h)" by (cases sh)
  let ?M = "set (tree_msgs H js) \<union> set (proof_msgs H j (p @ [sh]))"
  let ?cur = "map (leaf H) (sorted_set js)"
  from snoc.prems(2) obtain y sib where y: "climb H (leaf H j) p = Some y" "from_hex h = Some sib" "length sib = 32"
      "x = (if side = ''L'' then tree_node H sib y else tree_node H y sib)"
    unfolding sh climb_snoc by blast
  let ?m = "if side = ''L'' then node_msg sib y else node_msg y sib"
  have msgs: "proof_msgs H j (p @ [sh]) = proof_msgs H j p @ [?m]"
    using climb_msgs_snoc [OF y(1,2), of side] by (simp add: proof_msgs_def sh)
  have x: "x = sha256 H ?m" "?m \<in> ?M" unfolding msgs y(4) by (simp_all add: tree_node_def)
  have inj': "inj_on (sha256 H) (set (tree_msgs H js) \<union> set (proof_msgs H j p))"
    by (rule inj_on_subset [OF snoc.prems(1)]) (auto simp: msgs)
  consider "lvl = ?cur" | lvl' where "lvl' \<in> set (levels H js)" "lvl = pair_up (tree_node H) lvl'"
      "set (pair_up node_msg lvl') \<subseteq> set (level_msgs H ?cur)"
    using level_cases [of lvl H ?cur] snoc.prems(3) by (auto simp: levels_def)
  then show ?case
  proof cases
    case 1
    then obtain i where "x = sha256 H (leaf_msg i)" "leaf_msg i \<in> ?M"
      using snoc.prems(4) by (auto simp: leaf_def tree_msgs_def)
    then have "leaf_msg i = ?m" using inj_onD [OF snoc.prems(1), of "leaf_msg i" ?m] x by simp
    then show ?thesis using leaf_not_node by (cases "side = ''L''") simp_all
  next
    case 2
    then obtain m where m: "m \<in> set (pair_up node_msg lvl')" "x = sha256 H m" "m \<in> ?M"
      using snoc.prems(4) by (auto simp: tree_node_pairs tree_msgs_def)
    then obtain a b where ab: "a \<in> set lvl'" "b \<in> set lvl'" "m = node_msg a b" by (auto dest: set_pair_up)
    have "length a = 32" "length b = 32" using level_length [OF sha 2(1)] ab by auto
    moreover have "?m = node_msg a b" using inj_onD [OF snoc.prems(1), of ?m m] x m ab by simp
    moreover have "length y = 32" using climb_length [OF sha] y(1) by blast
    ultimately have "y = a \<or> y = b" using node_msg_inj [of sib a y b] node_msg_inj [of y a sib b] y(3) by (cases "side = ''L''") simp_all
    then have "y \<in> set lvl'" using ab by blast
    then show ?thesis using snoc.IH [OF inj' y(1) 2(1)] by blast
  qed
qed

lemma verified_member:
  assumes "sha_length H" "inj_on (sha256 H) (set (tree_msgs H js) \<union> set (proof_msgs H j p))"
    and v: "verify_membership H (merkle_root H js) j (Some p)"
  shows "j \<in> set js"
proof -
  from v obtain cur where cur: "climb H (leaf H j) p = Some cur" "hexdigest cur = lower (merkle_root H js)" "merkle_root H js \<noteq> []"
    by (auto simp: verify_membership_def split: option.splits)
  then obtain x xs where x: "List.last (levels H js) = x # xs" by (auto simp: merkle_root_def split: list.splits)
  then have "cur = x" using cur(2) by (simp add: merkle_root_def lower_hexdigest hexdigest_inj)
  moreover have "List.last (levels H js) \<in> set (levels H js)" by (simp add: levels_def)
  ultimately show ?thesis using climb_sound [OF assms(1,2) cur(1), of "List.last (levels H js)"] x by simp
qed

section \<open>A root stands for one set of jobs\<close>

lemma merkle_root_member: "sha_length H \<Longrightarrow> j \<in> set js \<Longrightarrow> \<exists>p. membership_proof H js j = Some p \<and> merkle_root H js \<noteq> []"
  using member_verifies [of H js j] by (auto simp: membership_proof_def verify_membership_def)

lemma merkle_root_Nil: "merkle_root H [] = []"
  by (simp add: merkle_root_def levels_def sorted_set_def levels_from.simps)

lemma merkle_root_subset:
  assumes "sha_length H" "inj_on (sha256 H) (set (tree_msgs H js) \<union> set (tree_msgs H js'))" "merkle_root H js = merkle_root H js'"
  shows "set js' \<subseteq> set js"
proof
  fix j assume j: "j \<in> set js'"
  obtain p where p: "membership_proof H js' j = Some p" using merkle_root_member [OF assms(1) j] by blast
  then have "set (proof_msgs H j p) \<subseteq> set (tree_msgs H js')" using climb_member [OF assms(1) p] by metis
  then have "inj_on (sha256 H) (set (tree_msgs H js) \<union> set (proof_msgs H j p))" by (intro inj_on_subset [OF assms(2)]) blast
  moreover have "verify_membership H (merkle_root H js) j (Some p)" using member_verifies [OF assms(1) p] assms(3) by simp
  ultimately show "j \<in> set js" using verified_member [OF assms(1)] by blast
qed

lemma merkle_root_binds:
  assumes "sha_length H" "inj_on (sha256 H) (set (tree_msgs H js) \<union> set (tree_msgs H js'))"
  shows "merkle_root H js = merkle_root H js' \<longleftrightarrow> set js = set js'"
proof
  assume "merkle_root H js = merkle_root H js'"
  then show "set js = set js'"
    using merkle_root_subset [OF assms(1), of js js'] merkle_root_subset [OF assms(1), of js' js] assms(2) by (simp add: Un_commute)
next
  assume "set js = set js'"
  then have "sorted_set js = sorted_set js'" by (rule sorted_set_cong)
  then show "merkle_root H js = merkle_root H js'" by (simp add: merkle_root_def levels_def)
qed

section \<open>Properties\<close>

text \<open>
  C38: a membership proof verifies exactly for the jobs of the list. The proof the miner builds for a job of the list verifies against the
  root; a job that is not in the list has none, and whatever proof is presented for a job, of whatever shape, if it verifies against the
  root the job is in the list, unless two messages hashed for the tree and for the proof collide. With no collision between two lists,
  their roots are equal exactly when the lists hold the same jobs, in any order and any number of times.
\<close>

theorem membership_is_proven:
  assumes "sha_length H"
  shows "(membership_proof H js j = None \<longleftrightarrow> j \<notin> set js)
    \<and> (\<forall>p. membership_proof H js j = Some p \<longrightarrow> verify_membership H (merkle_root H js) j (Some p))
    \<and> (\<forall>p. inj_on (sha256 H) (set (tree_msgs H js) \<union> set (proof_msgs H j p)) \<longrightarrow>
          verify_membership H (merkle_root H js) j (Some p) \<longrightarrow> j \<in> set js)
    \<and> (\<forall>js'. inj_on (sha256 H) (set (tree_msgs H js) \<union> set (tree_msgs H js')) \<longrightarrow>
          (merkle_root H js = merkle_root H js' \<longleftrightarrow> set js = set js'))"
proof (intro conjI allI impI)
  show "membership_proof H js j = None \<longleftrightarrow> j \<notin> set js" by (simp add: membership_proof_def)
qed (rule member_verifies [OF assms] verified_member [OF assms] merkle_root_binds [OF assms]; assumption)+

lemma sample_tree: "sorted_set [''a''] = [''a'']" "sorted_set [''a'', ''a''] = [''a'']"
  by (simp_all add: sorted_set_def)

theorem membership_is_proven_witness:
  "\<exists>p. membership_proof sample_host [''b'', ''a'', ''c''] ''c'' = Some p
     \<and> verify_membership sample_host (merkle_root sample_host [''b'', ''a'', ''c'']) ''c'' (Some p)
     \<and> (verify_membership sample_host (merkle_root sample_host [''a'']) ''a'' (Some []) \<longrightarrow> ''a'' \<in> set [''a''])
     \<and> merkle_root sample_host [''a''] = merkle_root sample_host [''a'', ''a'']"
proof -
  note T = membership_is_proven [OF sample_sha_length]
  have "membership_proof sample_host [''b'', ''a'', ''c''] ''c'' \<noteq> None"
    using conjunct1 [OF T [of "[''b'', ''a'', ''c'']" "''c''"]] by simp
  then obtain p where p: "membership_proof sample_host [''b'', ''a'', ''c''] ''c'' = Some p" by blast
  have v: "verify_membership sample_host (merkle_root sample_host [''b'', ''a'', ''c'']) ''c'' (Some p)"
    using conjunct1 [OF conjunct2 [OF T [of "[''b'', ''a'', ''c'']" "''c''"]]] p by blast
  have m: "tree_msgs sample_host [''a''] = [leaf_msg ''a'']" "tree_msgs sample_host [''a'', ''a''] = [leaf_msg ''a'']"
    "proof_msgs sample_host ''a'' [] = [leaf_msg ''a'']"
    by (simp_all add: tree_msgs_def proof_msgs_def sample_tree level_msgs.simps)
  have i: "inj_on (sha256 sample_host) (set (tree_msgs sample_host [''a'']) \<union> set (proof_msgs sample_host ''a'' []))"
    "inj_on (sha256 sample_host) (set (tree_msgs sample_host [''a'']) \<union> set (tree_msgs sample_host [''a'', ''a'']))"
    unfolding m by simp_all
  have "verify_membership sample_host (merkle_root sample_host [''a'']) ''a'' (Some []) \<longrightarrow> ''a'' \<in> set [''a'']"
    using conjunct1 [OF conjunct2 [OF conjunct2 [OF T [of "[''a'']" "''a''"]]]] i(1) by blast
  moreover have "merkle_root sample_host [''a''] = merkle_root sample_host [''a'', ''a'']"
    using conjunct2 [OF conjunct2 [OF conjunct2 [OF T [of "[''a'']" "''a''"]]]] i(2) by simp
  ultimately show ?thesis using p v by blast
qed

end
