(* ===== verification/Judge_Silence.thy ===== *)
theory Judge_Silence
  imports Reveal_Marker
begin

text \<open>
  What a juror does about a reveal it cannot read, from \<open>src/services/judge_worker.py\<close>: the two stages of the silence test (the anchored
  marker, then the comparison with the other primaries of the same pass), the wait before the next attempt, and the part of a pass of
  \<open>main\<close> that applies them. The chain's commits and the relay's lists are arguments.
\<close>

section \<open>Stage 1: the anchored marker\<close>

text \<open>What \<open>merkle_root\<close> raises on a list from the relay that does not hold texts only: the sort first, else the encoding of a leaf.\<close>

definition unhashable_value :: "pyval \<Rightarrow> bool" where
  "unhashable_value v = (case v of PList xs \<Rightarrow> True | PDict d \<Rightarrow> True | _ \<Rightarrow> False)"

definition leaf_failure :: "pyval list \<Rightarrow> exc" where
  "leaf_failure xs =
     (if list_ex unhashable_value xs then TypeError
      else if list_all (\<lambda>v. py_num v \<noteq> None) xs \<or> list_all (\<lambda>v. v = PNone) xs then AttributeError
      else TypeError)"

definition root_of_values :: "host \<Rightarrow> pyval list \<Rightarrow> string result" where
  "root_of_values H xs =
     (if list_all (\<lambda>v. text_of v \<noteq> None) xs then Inr (merkle_root H (map (\<lambda>v. the (text_of v)) xs)) else Inl (leaf_failure xs))"

definition served_jobs :: "pyval \<Rightarrow> pyval list option" where
  "served_jobs payload = (case payload of PDict d \<Rightarrow> list_of (dget d ''jobs'') | _ \<Rightarrow> None)"

definition anchored_at :: "(string \<Rightarrow> string) \<Rightarrow> int \<Rightarrow> string \<Rightarrow> string" where
  "anchored_at commits e primary = lower (strip (commits (marker_key e primary)))"

text \<open>The answer of stage 1: present, absent (nothing anchored, or anchored without this job), or no conclusion.\<close>

datatype marker = Present | Absent | Undecided

fun marker_scan :: "host \<Rightarrow> (string \<Rightarrow> string) \<Rightarrow> (string \<Rightarrow> pyval result) \<Rightarrow> string \<Rightarrow> string \<Rightarrow> int list \<Rightarrow> marker result" where
  "marker_scan H commits served job primary [] = Inr Absent"
| "marker_scan H commits served job primary (e # es) =
     (if anchored_at commits e primary = [] then marker_scan H commits served job primary es
      else bind_res (served (list_key e primary)) (\<lambda>payload.
        case served_jobs payload of
          None \<Rightarrow> Inr Undecided
        | Some jobs \<Rightarrow> bind_res (root_of_values H jobs) (\<lambda>r.
            if r \<noteq> anchored_at commits e primary then Inr Undecided
            else if PStr job \<in> set jobs then Inr Present
            else marker_scan H commits served job primary es)))"

definition marker_state :: "host \<Rightarrow> (string \<Rightarrow> string) \<Rightarrow> (string \<Rightarrow> pyval result) \<Rightarrow> int \<Rightarrow> string \<Rightarrow> string \<Rightarrow> int \<Rightarrow> marker result" where
  "marker_state H commits served epoch_blocks job primary height =
     bind_res (covering_epochs height epoch_blocks 2) (marker_scan H commits served job primary)"

definition primary_has_marker :: "(string \<Rightarrow> string) \<Rightarrow> int \<Rightarrow> string \<Rightarrow> int \<Rightarrow> bool result" where
  "primary_has_marker commits epoch_blocks primary height =
     bind_res (covering_epochs height epoch_blocks 2) (\<lambda>es. Inr (\<exists>e \<in> set es. strip (commits (marker_key e primary)) \<noteq> []))"

definition marker_stage_usable :: "nat \<Rightarrow> bool" where
  "marker_stage_usable n \<longleftrightarrow> n \<ge> 1"

section \<open>Stage 2: isolated or correlated\<close>

datatype silence = VoteInvalid | Abstain

lemma not_Abstain: "v \<noteq> Abstain \<longleftrightarrow> v = VoteInvalid"
  by (cases v) simp_all

definition noreveal_verdict :: "marker \<Rightarrow> nat \<Rightarrow> nat \<Rightarrow> nat \<Rightarrow> nat \<Rightarrow> silence" where
  "noreveal_verdict marker others_ok others_missing my_missing min_others =
     (if marker = Absent then VoteInvalid
      else if others_ok + others_missing < min_others then Abstain
      else if others_missing \<noteq> 0 \<and> others_ok = 0 then Abstain
      else if others_ok \<ge> min_others \<and> my_missing > 0 then VoteInvalid
      else Abstain)"

text \<open>What to do while the reveal is not readable, and the wait before the next attempt.\<close>

datatype action = Wait | GiveUp | Retry rat

definition noreveal_action :: "rat \<Rightarrow> rat \<Rightarrow> int \<Rightarrow> int \<Rightarrow> rat \<Rightarrow> rat \<Rightarrow> rat \<Rightarrow> action" where
  "noreveal_action now first_seen misses grace abandon_after backoff_base backoff_max =
     (if misses < grace then Wait
      else if abandon_after \<noteq> 0 \<and> now - first_seen \<ge> abandon_after then GiveUp
      else Retry (min backoff_max (backoff_base * 2 ^ nat (min 20 (max 0 (misses - grace))))))"

section \<open>A pass\<close>

text \<open>An audit observed in pass 1: job, primary, height of the dispute, and what the relay gave for its reveal.\<close>

record observed =
  ob_job :: string
  ob_primary :: string
  ob_height :: int
  ob_reveal :: pyval

text \<open>\<open>rev and "prompt" in rev\<close>\<close>

definition has_prompt :: "pyval \<Rightarrow> bool result" where
  "has_prompt v =
     (if \<not> truthy v then Inr False
      else (case v of
          PDict d \<Rightarrow> Inr (''prompt'' \<in> fst ` set d)
        | PList xs \<Rightarrow> Inr (PStr ''prompt'' \<in> set xs)
        | PStr s \<Rightarrow> Inr (occurs ''prompt'' s)
        | _ \<Rightarrow> Inl TypeError))"

definition sum_others :: "string \<Rightarrow> (string, nat) dict \<Rightarrow> nat" where
  "sum_others primary d = sum_list (map snd (filter (\<lambda>pv. fst pv \<noteq> primary) d))"

text \<open>The counts of a pass, per primary: reveals read, reveals missing. Each observation comes with whether its reveal was read.\<close>

definition ok_by :: "(observed \<times> bool) list \<Rightarrow> (string, nat) dict" where
  "ok_by obs = tally (map (\<lambda>(o', r). (ob_primary o', 1)) (filter snd obs))"

definition miss_by :: "(observed \<times> bool) list \<Rightarrow> (string, nat) dict" where
  "miss_by obs = tally (map (\<lambda>(o', r). (ob_primary o', 1)) (filter (\<lambda>p. \<not> snd p) obs))"

text \<open>The primaries looked up for a marker: those of a missing reveal, each once, at the height of the first.\<close>

fun marker_cache :: "(string \<Rightarrow> string) \<Rightarrow> int \<Rightarrow> (observed \<times> bool) list \<Rightarrow> (string, bool) dict \<Rightarrow> (string, bool) dict result" where
  "marker_cache commits eb [] cache = Inr cache"
| "marker_cache commits eb ((o', r) # obs) cache =
     (if ob_primary o' \<in> fst ` set cache \<or> r then marker_cache commits eb obs cache
      else bind_res (primary_has_marker commits eb (ob_primary o') (ob_height o'))
        (\<lambda>b. marker_cache commits eb obs (cache @ [(ob_primary o', b)])))"

definition stage1_ok :: "bool \<Rightarrow> (string \<Rightarrow> string) \<Rightarrow> int \<Rightarrow> (observed \<times> bool) list \<Rightarrow> bool result" where
  "stage1_ok armed commits eb obs =
     (if \<not> armed then Inr False
      else bind_res (marker_cache commits eb obs [])
        (\<lambda>cache. Inr (marker_stage_usable (length (filter snd cache)))))"

text \<open>The vote on one silent primary past its grace, with the two stages armed or not.\<close>

definition silence_vote :: "host \<Rightarrow> bool \<Rightarrow> (string \<Rightarrow> string) \<Rightarrow> (string \<Rightarrow> pyval result) \<Rightarrow> int \<Rightarrow> (observed \<times> bool) list \<Rightarrow> bool \<Rightarrow> observed
    \<Rightarrow> silence result" where
  "silence_vote H armed commits served eb obs stage1 o' =
     (if \<not> armed then Inr Abstain
      else bind_res (if stage1 then marker_state H commits served eb (ob_job o') (ob_primary o') (ob_height o') else Inr Undecided)
        (\<lambda>m. Inr (noreveal_verdict m (sum_others (ob_primary o') (ok_by obs)) (sum_others (ob_primary o') (miss_by obs))
             (get_or (miss_by obs) (ob_primary o') 0) 2)))"

definition read_pass :: "observed list \<Rightarrow> (observed \<times> bool) list result" where
  "read_pass obs = map_res (\<lambda>o'. bind_res (has_prompt (ob_reveal o')) (\<lambda>r. Inr (o', r))) obs"

text \<open>
  The worker's settings: whether an absent reveal abstains (the default, otherwise it is voted invalid at once), whether the two stages are
  armed, the attempts of the grace, the horizon and the size of an epoch.
\<close>

record silence_conf =
  sl_abstain :: bool
  sl_armed :: bool
  sl_grace :: int
  sl_horizon :: rat
  sl_epoch_blocks :: int

datatype silence_outcome = KeepWaiting | Abandon | RetryIn rat | PostInvalid

text \<open>What a pass decides on an audit whose reveal it did not read, at its attempt number \<open>misses\<close>, first tried at \<open>first\<close>.\<close>

definition silence_step :: "host \<Rightarrow> silence_conf \<Rightarrow> (string \<Rightarrow> string) \<Rightarrow> (string \<Rightarrow> pyval result) \<Rightarrow> (observed \<times> bool) list \<Rightarrow> bool
    \<Rightarrow> observed \<Rightarrow> rat \<Rightarrow> rat \<Rightarrow> int \<Rightarrow> silence_outcome result" where
  "silence_step H C commits served obs stage1 o' now first misses =
     (if \<not> sl_abstain C then Inr PostInvalid
      else (case noreveal_action now first misses (sl_grace C) (sl_horizon C) 30 600 of
          Wait \<Rightarrow> Inr KeepWaiting
        | GiveUp \<Rightarrow> Inr Abandon
        | Retry d \<Rightarrow> bind_res (silence_vote H (sl_armed C) commits served (sl_epoch_blocks C) obs stage1 o')
            (\<lambda>v. Inr (case v of VoteInvalid \<Rightarrow> PostInvalid | Abstain \<Rightarrow> RetryIn d))))"

definition silence_pass :: "host \<Rightarrow> silence_conf \<Rightarrow> (string \<Rightarrow> string) \<Rightarrow> (string \<Rightarrow> pyval result) \<Rightarrow> observed list \<Rightarrow> observed
    \<Rightarrow> rat \<Rightarrow> rat \<Rightarrow> int \<Rightarrow> silence_outcome result" where
  "silence_pass H C commits served obs o' now first misses =
     bind_res (read_pass obs) (\<lambda>rs. bind_res (stage1_ok (sl_armed C) commits (sl_epoch_blocks C) rs)
       (\<lambda>s1. silence_step H C commits served rs s1 o' now first misses))"

section \<open>Stage 1 never charges a revealed job\<close>

lemma root_of_values_Inr: "root_of_values H xs = Inr r \<Longrightarrow> \<exists>js. xs = map PStr js \<and> r = merkle_root H js"
proof -
  assume h: "root_of_values H xs = Inr r"
  then have "\<forall>v \<in> set xs. v = PStr (the (text_of v))"
    by (auto simp: root_of_values_def list_all_iff split: if_splits)
  then have "xs = map PStr (map (\<lambda>v. the (text_of v)) xs)" by (simp add: map_idI)
  moreover have "r = merkle_root H (map (\<lambda>v. the (text_of v)) xs)" using h by (auto simp: root_of_values_def split: if_splits)
  ultimately show ?thesis by blast
qed

text \<open>The served that could stand for the root: what the relay serves for an epoch, when it holds texts only.\<close>

definition served_texts :: "(string \<Rightarrow> pyval result) \<Rightarrow> int \<Rightarrow> string \<Rightarrow> string list" where
  "served_texts served e primary =
     (case served (list_key e primary) of
        Inr payload \<Rightarrow> (case served_jobs payload of Some xs \<Rightarrow> List.map_filter text_of xs | None \<Rightarrow> [])
      | Inl x \<Rightarrow> [])"

lemma map_filter_PStr [simp]: "List.map_filter text_of (map PStr js) = js"
  by (induction js) (simp_all add: map_filter_simps)

lemma marker_scan_Absent:
  assumes H: "sha_length H"
    and "e \<in> set es" "anchored_at commits e primary = merkle_root H js" "job \<in> set js"
    and inj: "inj_on (sha256 H) (set (tree_msgs H js) \<union> set (tree_msgs H (served_texts served e primary)))"
  shows "marker_scan H commits served job primary es \<noteq> Inr Absent"
  using assms(2)
proof (induction es)
  case (Cons e' es)
  have n: "merkle_root H js \<noteq> []" using merkle_root_member [OF H assms(4)] by blast
  show ?case
  proof
    assume a: "marker_scan H commits served job primary (e' # es) = Inr Absent"
    have "e \<noteq> e'"
    proof
      assume e: "e = e'"
      then obtain payload jobs r where p: "served (list_key e primary) = Inr payload" "served_jobs payload = Some jobs"
          "root_of_values H jobs = Inr r" "r = merkle_root H js" "PStr job \<notin> set jobs"
        using a n assms(3) by (auto simp: bind_res_eq_Inr split: option.splits if_splits)
      from root_of_values_Inr [OF p(3)] obtain js' where j: "jobs = map PStr js'" "r = merkle_root H js'" by blast
      then have "served_texts served e primary = js'" using p by (simp add: served_texts_def)
      then have "set js = set js'" using merkle_root_binds [OF H, of js js'] inj p(4) j(2) by simp
      then show False using assms(4) p(5) j(1) by auto
    qed
    then have "e \<in> set es" using Cons.prems by simp
    moreover have "marker_scan H commits served job primary es = Inr Absent"
      using a by (auto simp: bind_res_eq_Inr split: option.splits if_splits)
    ultimately show False using Cons.IH by blast
  qed
qed simp

section \<open>What a vote on silence rests on\<close>

lemma sum_list_split: "sum_list (map snd d) = sum_list (map snd (filter (\<lambda>p. fst p = k) d)) + sum_others k d"
  for d :: "(string, nat) dict"
  by (induction d) (auto simp: sum_others_def)

lemma wf_dict_own: "wf_dict d \<Longrightarrow> sum_list (map snd (filter (\<lambda>p. fst p = k) d)) = get_or d k 0"
  for d :: "(string, nat) dict"
  using get_or_tally_items [of d k] by (simp add: get_or_tally get_or_Nil)

lemma sum_others_tally: "sum_others k (tally kvs) = sum_list (map snd (filter (\<lambda>p. fst p \<noteq> k) kvs))"
  for kvs :: "(string \<times> nat) list"
proof -
  have wf: "wf_dict (tally kvs)" by (rule wf_dict_tally) simp
  have "get_or (tally kvs) k 0 + sum_others k (tally kvs) = sum_list (map snd kvs)"
    using sum_list_split [of "tally kvs" k] wf_dict_own [OF wf, of k] dict_sum_tally [of "[]" kvs] by (simp add: dict_sum_def)
  moreover have "get_or (tally kvs) k 0 = sum_list (map snd (filter (\<lambda>p. fst p = k) kvs))" by (simp add: get_or_tally get_or_Nil)
  ultimately show ?thesis using sum_list_split [of kvs k] by (simp add: sum_others_def)
qed

text \<open>The reveals of other primaries read in the pass.\<close>

definition delivered_by_others :: "string \<Rightarrow> (observed \<times> bool) list \<Rightarrow> nat" where
  "delivered_by_others primary obs = length (filter (\<lambda>p. snd p \<and> ob_primary (fst p) \<noteq> primary) obs)"

lemma sum_others_ok: "sum_others primary (ok_by obs) = delivered_by_others primary obs"
  unfolding ok_by_def sum_others_tally by (induction obs) (auto simp: delivered_by_others_def)

lemma marker_cache_sound:
  "marker_cache commits eb obs cache = Inr cache' \<Longrightarrow> (p, True) \<in> set cache' \<Longrightarrow>
     (p, True) \<in> set cache \<or> (\<exists>o'. (o', False) \<in> set obs \<and> ob_primary o' = p \<and> primary_has_marker commits eb p (ob_height o') = Inr True)"
proof (induction commits eb obs cache arbitrary: cache' rule: marker_cache.induct)
  case (2 commits eb o' r obs cache)
  show ?case
  proof (cases "ob_primary o' \<in> fst ` set cache \<or> r")
    case True
    then show ?thesis using "2.IH"(1) [OF True] "2.prems" by auto
  next
    case False
    then obtain b where b: "primary_has_marker commits eb (ob_primary o') (ob_height o') = Inr b"
        "marker_cache commits eb obs (cache @ [(ob_primary o', b)]) = Inr cache'"
      using "2.prems"(1) by (auto simp: bind_res_eq_Inr)
    from "2.IH"(2) [OF False b(2) "2.prems"(2)] show ?thesis using b(1) False by auto
  qed
qed simp

lemma stage1_ok_True:
  assumes "stage1_ok armed commits eb obs = Inr True"
  obtains o' where "(o', False) \<in> set obs" "primary_has_marker commits eb (ob_primary o') (ob_height o') = Inr True"
proof -
  obtain cache where c: "marker_cache commits eb obs [] = Inr cache" "length (filter snd cache) \<ge> 1"
    using assms by (auto simp: stage1_ok_def bind_res_eq_Inr marker_stage_usable_def split: if_splits)
  then have "filter snd cache \<noteq> []" by auto
  then have "\<exists>x \<in> set cache. snd x" by (simp add: filter_empty_conv)
  then obtain p where "(p, True) \<in> set cache" by auto
  then show thesis using marker_cache_sound [OF c(1)] that by fastforce
qed

lemma primary_has_marker_True:
  "primary_has_marker commits eb p h = Inr True \<Longrightarrow> \<exists>e. strip (commits (marker_key e p)) \<noteq> []"
  by (auto simp: primary_has_marker_def bind_res_eq_Inr)

lemma read_pass_Inr:
  "read_pass obs = Inr rs \<Longrightarrow> map fst rs = obs \<and> (\<forall>p \<in> set rs. has_prompt (ob_reveal (fst p)) = Inr (snd p))"
  unfolding read_pass_def map_res_Inr_list_all2
  by (induction obs rs rule: list_all2_induct) (auto simp: bind_res_eq_Inr)

section \<open>Properties\<close>

definition deliveries :: "string \<Rightarrow> observed list \<Rightarrow> nat" where
  "deliveries primary obs = length (filter (\<lambda>o'. has_prompt (ob_reveal o') = Inr True \<and> ob_primary o' \<noteq> primary) obs)"

lemma delivered_by_others_read: "read_pass obs = Inr rs \<Longrightarrow> delivered_by_others primary rs = deliveries primary obs"
proof -
  assume "read_pass obs = Inr rs"
  then have m: "map fst rs = obs" "\<forall>p \<in> set rs. has_prompt (ob_reveal (fst p)) = Inr (snd p)" using read_pass_Inr by auto
  have "length (filter (\<lambda>p. snd p \<and> ob_primary (fst p) \<noteq> primary) rs)
      = length (filter (\<lambda>o'. has_prompt (ob_reveal o') = Inr True \<and> ob_primary o' \<noteq> primary) (map fst rs))"
    using m(2) by (induction rs) auto
  then show ?thesis by (simp add: delivered_by_others_def deliveries_def m(1))
qed


text \<open>With the abstention turned off nothing is waited for: the first reveal that is not read is voted invalid, whatever the grace.\<close>

lemma no_grace_without_abstention:
  "\<not> sl_abstain C \<Longrightarrow> read_pass obs = Inr rs \<Longrightarrow> stage1_ok (sl_armed C) commits (sl_epoch_blocks C) rs = Inr s1
     \<Longrightarrow> silence_pass H C commits served obs o' now first 1 = Inr PostInvalid"
  by (simp add: silence_pass_def silence_step_def)

definition silent :: "string \<Rightarrow> string \<Rightarrow> observed" where
  "silent job primary = \<lparr>ob_job = job, ob_primary = primary, ob_height = 1200, ob_reveal = PNone\<rparr>"

definition spoken :: "string \<Rightarrow> string \<Rightarrow> observed" where
  "spoken job primary = (silent job primary)\<lparr>ob_reveal := PDict [(''prompt'', PStr ''q'')]\<rparr>"

definition sample_silence :: silence_conf where
  "sample_silence = \<lparr>sl_abstain = True, sl_armed = True, sl_grace = 5, sl_horizon = 0, sl_epoch_blocks = 600\<rparr>"


text \<open>
  How long a reveal that is not readable is waited for. Nothing is decided before the grace is used up, the worker gives up only past a horizon
  its operator set, and otherwise tries again after a pause that grows with the attempts and never exceeds its cap.
\<close>

theorem silence_is_retried:
  assumes "0 \<le> backoff_base" "0 \<le> backoff_max"
  shows "(noreveal_action now first misses grace horizon backoff_base backoff_max = Wait \<longleftrightarrow> misses < grace)
    \<and> (noreveal_action now first misses grace horizon backoff_base backoff_max = GiveUp
         \<longleftrightarrow> grace \<le> misses \<and> horizon \<noteq> 0 \<and> horizon \<le> now - first)
    \<and> (\<forall>d. noreveal_action now first misses grace horizon backoff_base backoff_max = Retry d \<longrightarrow>
          0 \<le> d \<and> d \<le> backoff_max
          \<and> (\<forall>now' misses' d'. misses \<le> misses' \<and> noreveal_action now' first misses' grace horizon backoff_base backoff_max = Retry d' \<longrightarrow> d \<le> d'))"
proof (intro conjI allI impI)
  fix d assume "noreveal_action now first misses grace horizon backoff_base backoff_max = Retry d"
  then have d: "d = min backoff_max (backoff_base * 2 ^ nat (min 20 (max 0 (misses - grace))))"
    by (auto simp: noreveal_action_def split: if_splits)
  show "0 \<le> d" "d \<le> backoff_max" unfolding d using assms by simp_all
  fix now' misses' d'
  assume "misses \<le> misses' \<and> noreveal_action now' first misses' grace horizon backoff_base backoff_max = Retry d'"
  then have m: "misses \<le> misses'" "d' = min backoff_max (backoff_base * 2 ^ nat (min 20 (max 0 (misses' - grace))))"
    by (auto simp: noreveal_action_def split: if_splits)
  have "(2 :: rat) ^ nat (min 20 (max 0 (misses - grace))) \<le> 2 ^ nat (min 20 (max 0 (misses' - grace)))"
    using m(1) by (intro power_increasing nat_mono) auto
  then have "backoff_base * 2 ^ nat (min 20 (max 0 (misses - grace))) \<le> backoff_base * 2 ^ nat (min 20 (max 0 (misses' - grace)))"
    using assms(1) by (rule mult_left_mono)
  then show "d \<le> d'" unfolding d m(2) by (rule min.mono [OF order_refl])
qed (auto simp: noreveal_action_def)

theorem silence_is_retried_witness:
  "\<forall>now' misses' d'. 6 \<le> misses' \<and> noreveal_action now' 0 misses' 5 0 30 600 = Retry d' \<longrightarrow> 60 \<le> d'"
proof -
  have "noreveal_action 100 0 6 5 0 30 600 = Retry 60" by (simp add: noreveal_action_def)
  then show ?thesis using silence_is_retried [of 30 600 100 0 6 5 0] by simp
qed

end
