(* ===== verification/Judge_Verdict.thy ===== *)
theory Judge_Verdict
  imports Judge_Settings Relay_Canon
begin

text \<open>
  The verdict on a revealed audit, from \<open>src/services/judge_worker.py\<close>: the question against its commitment, the answer against the
  embedding its author anchored, the stages of the judgment (\<open>decide_verdict\<close>), the divergence guard and the benefit of the doubt
  (\<open>judge_revealed\<close>). What the judge model, the embedder and the chain answer are arguments, one answer per call; a call that raises
  is the left side of a sum. An embedding is a list of floats: the rounding and the overflow of its products are not modelled.
\<close>

section \<open>The question\<close>

text \<open>A reading with three answers is an option: yes, no, unreadable.\<close>

type_synonym judge_reading = "bool option"

definition prompt_commitment :: "host \<Rightarrow> string \<Rightarrow> string \<Rightarrow> string" where
  "prompt_commitment H salt prompt = hexdigest (sha256 H (utf8 (salt @ ''|'' @ prompt)))"

text \<open>The two fields of a commit, or nothing when it could not be read.\<close>

type_synonym commit_fields = "(string \<times> string) option"

datatype prompt_why = NoSalt | UnreadableCommit | NoPromptCommit | Legacy | Match | Mismatch

definition prompt_check :: "host \<Rightarrow> commit_fields \<Rightarrow> pydict \<Rightarrow> judge_reading \<times> prompt_why" where
  "prompt_check H commit reveal =
     (case dget reveal ''psalt'' of
        PStr salt \<Rightarrow>
          if salt = [] then (None, NoSalt)
          else if dget reveal ''prompt'' \<noteq> PNone \<and> text_of (dget reveal ''prompt'') = None then (None, NoSalt)
          else (case commit of
              None \<Rightarrow> (None, UnreadableCommit)
            | Some (pc, rc) \<Rightarrow>
                if pc = [] then (None, NoPromptCommit)
                else if rc \<noteq> [] \<and> pc = rc then (None, Legacy)
                else if pc = prompt_commitment H salt (case dget reveal ''prompt'' of PStr q \<Rightarrow> q | _ \<Rightarrow> []) then (Some True, Match)
                else (Some False, Mismatch))
      | _ \<Rightarrow> (None, NoSalt))"

section \<open>The answer\<close>

definition ANCHOR_IDENTITY_COS :: real where
  "ANCHOR_IDENTITY_COS = 98 / 100"

definition vector_of :: "string \<Rightarrow> number list option" where
  "vector_of s = (let xs = map float_text (filter (\<lambda>x. strip x \<noteq> []) (py_split '','' s)) in
     if list_all (\<lambda>x. x \<noteq> None) xs then Some (map the xs) else None)"

text \<open>A cosine, or NaN: any component that is not finite makes it so.\<close>

datatype cosine = Cos real | CosNaN

definition finite_part :: "number \<Rightarrow> rat option" where
  "finite_part x = (case x of Finite q \<Rightarrow> Some q | _ \<Rightarrow> None)"

definition finite_parts :: "number list \<Rightarrow> rat list option" where
  "finite_parts v = (let qs = map finite_part v in if list_all (\<lambda>x. x \<noteq> None) qs then Some (map the qs) else None)"

definition squares :: "rat list \<Rightarrow> rat" where
  "squares a = sum_list (map (\<lambda>x. x * x) a)"

definition zero_vector :: "number list \<Rightarrow> bool" where
  "zero_vector v \<longleftrightarrow> (case finite_parts v of Some a \<Rightarrow> squares a = 0 | None \<Rightarrow> False)"

definition cosine_of :: "number list \<Rightarrow> number list \<Rightarrow> cosine" where
  "cosine_of v w = (case (finite_parts v, finite_parts w) of
     (Some a, Some b) \<Rightarrow> Cos (of_rat (sum_list (map2 (*) a b)) / (sqrt (of_rat (squares a)) * sqrt (of_rat (squares b))))
   | _ \<Rightarrow> CosNaN)"

text \<open>The comparison of floats: nothing is below the bar that is not a number.\<close>

definition below_bar :: "cosine \<Rightarrow> bool" where
  "below_bar c = (case c of Cos x \<Rightarrow> x < ANCHOR_IDENTITY_COS | CosNaN \<Rightarrow> False)"

definition anchor_reading :: "string \<Rightarrow> string result \<Rightarrow> string + cosine" where
  "anchor_reading anchored mine =
     (if anchored = [] then Inl ''anchor-unreadable''
      else (case mine of
          Inl e \<Rightarrow> Inl ''anchor-unreadable''
        | Inr t \<Rightarrow>
            (case (vector_of anchored, vector_of t) of
               (Some a, Some b) \<Rightarrow>
                 if a = [] \<or> b = [] then Inl ''anchor-unreadable''
                 else if length a \<noteq> length b then Inl ''anchor-shape''
                 else if zero_vector a \<or> zero_vector b then Inl ''anchor-unreadable''
                 else Inr (cosine_of a b)
             | _ \<Rightarrow> Inl ''anchor-unreadable'')))"

section \<open>The judgment\<close>

text \<open>The judge's switches.\<close>

record judge_flags =
  jf_twostage :: bool
  jf_relevance :: bool
  jf_selfconsist :: bool
  jf_multiok :: bool
  jf_gen_retries :: nat

text \<open>
  What the models answer during one attempt. A reference is asked by its number and the attempt at it; a comparison by its number, so that
  the same two texts compared twice may be answered differently.
\<close>

record judge_model =
  jm_coherent :: "string \<Rightarrow> judge_reading result"
  jm_relevant :: "string \<Rightarrow> string \<Rightarrow> judge_reading result"
  jm_generate :: "string \<Rightarrow> int option \<Rightarrow> nat \<Rightarrow> nat \<Rightarrow> string result"
  jm_same :: "nat \<Rightarrow> string \<Rightarrow> string \<Rightarrow> judge_reading result"
  jm_multi :: "string \<Rightarrow> string \<Rightarrow> string \<Rightarrow> judge_reading result"

fun first_ok :: "'a result list \<Rightarrow> 'a option" where
  "first_ok [] = None"
| "first_ok (Inr x # rs) = Some x"
| "first_ok (Inl e # rs) = first_ok rs"

definition gen_reference :: "judge_flags \<Rightarrow> judge_model \<Rightarrow> string \<Rightarrow> int option \<Rightarrow> nat \<Rightarrow> string option" where
  "gen_reference F M prompt max_out k = first_ok (map (jm_generate M prompt max_out k) [0..<jf_gen_retries F])"

definition word_salad :: "bool \<Rightarrow> judge_reading result \<Rightarrow> bool result" where
  "word_salad twostage coherent = (if \<not> twostage then Inr False else bind_res coherent (\<lambda>v. Inr (v = Some False)))"

text \<open>A judgment: the verdict and the stage it left at.\<close>

type_synonym judged = "judge_reading \<times> string"

definition single_reference :: "judge_flags \<Rightarrow> judge_model \<Rightarrow> string \<Rightarrow> string \<Rightarrow> int option \<Rightarrow> judged result" where
  "single_reference F M answer prompt max_out =
     (case gen_reference F M prompt max_out 0 of
        None \<Rightarrow> Inr (None, ''legacy'')
      | Some mine \<Rightarrow> bind_res (jm_same M 0 mine answer) (\<lambda>same.
          case same of None \<Rightarrow> Inr (None, ''legacy-unreadable'') | Some b \<Rightarrow> Inr (Some b, ''legacy'')))"

definition multiplicity :: "judge_flags \<Rightarrow> judge_model \<Rightarrow> string \<Rightarrow> string \<Rightarrow> string \<Rightarrow> judged result" where
  "multiplicity F M answer prompt r1 =
     (if \<not> jf_multiok F then Inr (Some False, ''slash'')
      else bind_res (jm_multi M prompt r1 answer) (\<lambda>both. case both of
          Some True \<Rightarrow> Inr (None, ''multiok'')
        | None \<Rightarrow> Inr (None, ''multiok-unreadable'')
        | Some False \<Rightarrow> Inr (Some False, ''slash'')))"

definition self_consistency :: "judge_flags \<Rightarrow> judge_model \<Rightarrow> string \<Rightarrow> string \<Rightarrow> int option \<Rightarrow> judged result" where
  "self_consistency F M answer prompt max_out =
     (case gen_reference F M prompt max_out 0 of None \<Rightarrow> Inr (None, ''gen-fail'') | Some r1 \<Rightarrow>
      case gen_reference F M prompt max_out 1 of None \<Rightarrow> Inr (None, ''gen-fail'') | Some r2 \<Rightarrow>
      bind_res (jm_same M 0 r1 r2) (\<lambda>same. case same of
          None \<Rightarrow> Inr (None, ''sc-unreadable'')
        | Some False \<Rightarrow> Inr (None, ''sc-diverge'')
        | Some True \<Rightarrow> bind_res (jm_same M 1 r1 answer) (\<lambda>sc. case sc of
              None \<Rightarrow> Inr (None, ''sc-unreadable'')
            | Some True \<Rightarrow> Inr (Some True, ''sc-valid'')
            | Some False \<Rightarrow>
                (case gen_reference F M prompt max_out 2 of None \<Rightarrow> Inr (None, ''gen-fail'') | Some r3 \<Rightarrow>
                 bind_res (jm_same M 2 r1 r3) (\<lambda>third.
                   if third = Some True then multiplicity F M answer prompt r1 else Inr (None, ''sc-unstable''))))))"

definition decide_verdict :: "judge_flags \<Rightarrow> judge_model \<Rightarrow> judge_reading result \<Rightarrow> string \<Rightarrow> string \<Rightarrow> int option \<Rightarrow> judged result" where
  "decide_verdict F M coherent answer prompt max_out =
     bind_res (word_salad (jf_twostage F) coherent) (\<lambda>salad.
       if salad then Inr (Some False, ''coherence'')
       else bind_res (if jf_relevance F then jm_relevant M prompt answer else Inr None) (\<lambda>relevant.
         if relevant = Some False then Inr (None, ''relevance'')
         else if \<not> jf_selfconsist F then single_reference F M answer prompt max_out
         else self_consistency F M answer prompt max_out))"

section \<open>The guards\<close>

definition abstain_to_vote :: "string \<Rightarrow> bool \<Rightarrow> bool" where
  "abstain_to_vote stage enabled \<longleftrightarrow> enabled \<and> (stage = ''sc-diverge'' \<or> stage = ''multiok'')"

definition divergence_guard :: "judged \<Rightarrow> bool \<Rightarrow> judged" where
  "divergence_guard j armed = (case j of (verdict, stage) \<Rightarrow>
     if verdict \<noteq> Some False then (verdict, stage)
     else if stage = ''coherence'' then (Some False, stage)
     else if stage = ''slash'' \<or> stage = ''legacy'' then (if armed then (Some False, stage) else (None, ''divergence-held''))
     else (None, ''invalid-unattributed''))"

section \<open>One coherence reading per answer\<close>

type_synonym coherence_key = "string \<times> string \<times> string"
type_synonym memo = "(coherence_key, bool) dict"

definition COHERENCE_READ_MAX :: nat where
  "COHERENCE_READ_MAX = 4096"

definition answer_key :: "host \<Rightarrow> string \<Rightarrow> string \<Rightarrow> string \<Rightarrow> coherence_key" where
  "answer_key H job answer model = (job, hexdigest (sha256 H (utf8 answer)), model)"

definition memo_put :: "memo \<Rightarrow> coherence_key \<Rightarrow> bool \<Rightarrow> memo" where
  "memo_put memo key b = drop (Suc (length memo) - COHERENCE_READ_MAX) memo @ [(key, b)]"

definition coherence_memo :: "memo \<Rightarrow> coherence_key \<Rightarrow> judge_reading result \<Rightarrow> judge_reading result \<times> memo" where
  "coherence_memo memo key base =
     (case map_of memo key of
        Some b \<Rightarrow> (Inr (Some b), memo)
      | None \<Rightarrow> (case base of Inr (Some b) \<Rightarrow> (Inr (Some b), memo_put memo key b) | _ \<Rightarrow> (base, memo)))"

section \<open>One revealed audit\<close>

text \<open>What is read for an audit: its commit and anchored embedding, this judge's own embedding, the cap of its request.\<close>

record audit_input =
  ai_job :: string
  ai_fields :: commit_fields
  ai_root :: string
  ai_embedding :: "string \<Rightarrow> string result"
  ai_max_out :: "int option"

definition judge_revealed :: "host \<Rightarrow> judge_flags \<Rightarrow> judge_model \<Rightarrow> string \<Rightarrow> bool \<Rightarrow> bool \<Rightarrow> audit_input \<Rightarrow> pyval \<Rightarrow> memo \<Rightarrow> judged result \<times> memo" where
  "judge_revealed H F M model armed vote_ambiguity A reveal memo =
     (case reveal of
        PDict d \<Rightarrow>
          (case (dget d ''answer'', dget d ''prompt'') of
             (PStr answer, PStr prompt) \<Rightarrow>
               (case prompt_check H (ai_fields A) d of (pm, why) \<Rightarrow>
                if pm = Some False then (Inr (None, ''prompt-mismatch''), memo)
                else (case anchor_reading (ai_root A) (ai_embedding A answer) of
                    Inl stage \<Rightarrow> (Inr (None, stage), memo)
                  | Inr c \<Rightarrow>
                      if below_bar c then (Inr (None, ''anchor-mismatch''), memo)
                      else if pm = None \<and> why = UnreadableCommit then (Inr (None, ''prompt-unreadable''), memo)
                      else (case (if jf_twostage F then coherence_memo memo (answer_key H (ai_job A) answer model) (jm_coherent M answer)
                                  else (Inr None, memo)) of (coherent, memo') \<Rightarrow>
                        if ai_max_out A = None \<or> pm = None then
                          (bind_res (word_salad (jf_twostage F) coherent) (\<lambda>salad.
                             if salad then Inr (divergence_guard (Some False, ''coherence'') armed)
                             else if pm = None then Inr (None, ''prompt-unverified'')
                             else Inr (None, ''request-unreadable'')), memo')
                        else
                          (bind_res (decide_verdict F M coherent answer prompt (ai_max_out A)) (\<lambda>j.
                             case divergence_guard j armed of (verdict, stage) \<Rightarrow>
                               if verdict = None \<and> abstain_to_vote stage vote_ambiguity then Inr (Some True, stage)
                               else Inr (verdict, stage)), memo'))))
           | _ \<Rightarrow> (Inr (None, ''reveal-shape''), memo))
      | _ \<Rightarrow> (Inr (None, ''reveal-shape''), memo))"

section \<open>What each stage rests on\<close>

lemma bind_Inr_case: "bind_res r f = Inr y \<Longrightarrow> \<exists>x. r = Inr x \<and> f x = Inr y"
  by (simp add: bind_res_eq_Inr)

lemma stage_distinct:
  "word_salad t c = Inr True \<longleftrightarrow> t \<and> c = Inr (Some False)"
  by (cases c) (auto simp: word_salad_def)

text \<open>An invalid that compares: three references that agree, against the answer, and a question that has one answer; or the single reference.\<close>

definition divergence_proven :: "judge_flags \<Rightarrow> judge_model \<Rightarrow> string \<Rightarrow> string \<Rightarrow> int option \<Rightarrow> bool" where
  "divergence_proven F M answer prompt max_out \<longleftrightarrow>
     (if jf_selfconsist F then
        (\<exists>r1 r2 r3. gen_reference F M prompt max_out 0 = Some r1 \<and> gen_reference F M prompt max_out 1 = Some r2
           \<and> gen_reference F M prompt max_out 2 = Some r3
           \<and> jm_same M 0 r1 r2 = Inr (Some True) \<and> jm_same M 1 r1 answer = Inr (Some False) \<and> jm_same M 2 r1 r3 = Inr (Some True)
           \<and> (jf_multiok F \<longrightarrow> jm_multi M prompt r1 answer = Inr (Some False)))
      else (\<exists>r. gen_reference F M prompt max_out 0 = Some r \<and> jm_same M 0 r answer = Inr (Some False)))"

definition agreement_proven :: "judge_flags \<Rightarrow> judge_model \<Rightarrow> string \<Rightarrow> string \<Rightarrow> int option \<Rightarrow> bool" where
  "agreement_proven F M answer prompt max_out \<longleftrightarrow>
     (\<exists>r1. gen_reference F M prompt max_out 0 = Some r1
        \<and> (if jf_selfconsist F then (\<exists>r2. gen_reference F M prompt max_out 1 = Some r2 \<and> jm_same M 0 r1 r2 = Inr (Some True)
              \<and> jm_same M 1 r1 answer = Inr (Some True))
           else jm_same M 0 r1 answer = Inr (Some True)))"

definition ambiguity_proven :: "judge_flags \<Rightarrow> judge_model \<Rightarrow> string \<Rightarrow> string \<Rightarrow> int option \<Rightarrow> bool" where
  "ambiguity_proven F M answer prompt max_out \<longleftrightarrow>
     (\<exists>r1 r2. gen_reference F M prompt max_out 0 = Some r1 \<and> gen_reference F M prompt max_out 1 = Some r2
        \<and> (jm_same M 0 r1 r2 = Inr (Some False)
           \<or> (jm_same M 0 r1 r2 = Inr (Some True) \<and> jm_multi M prompt r1 answer = Inr (Some True))))"

text \<open>An abstention that proves no ambiguity.\<close>

definition neutral :: "judged \<Rightarrow> bool" where
  "neutral j \<longleftrightarrow> fst j = None \<and> \<not> abstain_to_vote (snd j) True"

lemma neutral_stages:
  "neutral (None, ''legacy'')" "neutral (None, ''legacy-unreadable'')" "neutral (None, ''relevance'')" "neutral (None, ''gen-fail'')"
  "neutral (None, ''sc-unreadable'')" "neutral (None, ''sc-unstable'')" "neutral (None, ''multiok-unreadable'')"
  by (simp_all add: neutral_def abstain_to_vote_def)

lemma single_reference_cases:
  assumes "single_reference F M answer prompt max_out = Inr j" "\<not> jf_selfconsist F"
  shows "j = (Some False, ''legacy'') \<and> divergence_proven F M answer prompt max_out
       \<or> j = (Some True, ''legacy'') \<and> agreement_proven F M answer prompt max_out
       \<or> neutral j"
proof (cases "gen_reference F M prompt max_out 0")
  case None
  then have "j = (None, ''legacy'')" using assms(1) by (simp add: single_reference_def)
  then have "neutral j" by (simp only: neutral_stages)
    then show ?thesis by blast
next
  case (Some r)
  then obtain same where s: "jm_same M 0 r answer = Inr same"
      "(case same of None \<Rightarrow> Inr (None, ''legacy-unreadable'') | Some b \<Rightarrow> Inr (Some b, ''legacy'')) = (Inr j :: judged result)"
    using assms(1) by (auto simp: single_reference_def bind_res_eq_Inr)
  show ?thesis
  proof (cases same)
    case None
    then have "j = (None, ''legacy-unreadable'')" using s(2) by simp
    then have "neutral j" by (simp only: neutral_stages)
    then show ?thesis by blast
  next
    case S: (Some b)
    then have "j = (Some b, ''legacy'')" using s(2) by simp
    then show ?thesis using assms(2) Some s(1) S
      by (cases b) (simp_all add: divergence_proven_def agreement_proven_def)
  qed
qed

lemma multiplicity_cases:
  assumes "multiplicity F M answer prompt r1 = Inr j"
  shows "j = (Some False, ''slash'') \<and> (jf_multiok F \<longrightarrow> jm_multi M prompt r1 answer = Inr (Some False))
       \<or> j = (None, ''multiok'') \<and> jm_multi M prompt r1 answer = Inr (Some True)
       \<or> neutral j"
proof (cases "jf_multiok F")
  case True
  then obtain both where b: "jm_multi M prompt r1 answer = Inr both"
      "(case both of Some True \<Rightarrow> Inr (None, ''multiok'') | None \<Rightarrow> Inr (None, ''multiok-unreadable'')
        | Some False \<Rightarrow> Inr (Some False, ''slash'')) = (Inr j :: judged result)"
    using assms by (auto simp: multiplicity_def bind_res_eq_Inr)
  show ?thesis
  proof (cases both)
    case None
    then have "j = (None, ''multiok-unreadable'')" using b(2) by simp
    then have "neutral j" by (simp only: neutral_stages)
    then show ?thesis by blast
  next
    case (Some c)
    then show ?thesis using b by (cases c) simp_all
  qed
next
  case False
  then show ?thesis using assms by (simp add: multiplicity_def)
qed

lemma self_consistency_cases:
  assumes "self_consistency F M answer prompt max_out = Inr j" "jf_selfconsist F"
  shows "j = (Some False, ''slash'') \<and> divergence_proven F M answer prompt max_out
       \<or> j = (Some True, ''sc-valid'') \<and> agreement_proven F M answer prompt max_out
       \<or> (j = (None, ''sc-diverge'') \<or> j = (None, ''multiok'')) \<and> ambiguity_proven F M answer prompt max_out
       \<or> neutral j"
proof (cases "gen_reference F M prompt max_out 0")
  case (Some r1)
  show ?thesis
  proof (cases "gen_reference F M prompt max_out 1")
    case (Some r2)
    note r = \<open>gen_reference F M prompt max_out 0 = Some r1\<close> Some [simplified]
    obtain same where s: "jm_same M 0 r1 r2 = Inr same" using assms(1) by (auto simp: self_consistency_def r bind_res_eq_Inr)
    consider "same \<noteq> Some True" | "same = Some True" by blast
    then show ?thesis
    proof cases
      case 1
      show ?thesis
      proof (cases same)
        case None
        then have "j = (None, ''sc-unreadable'')" using assms(1) by (simp add: self_consistency_def r s)
        then have "neutral j" by (simp only: neutral_stages)
    then show ?thesis by blast
      next
        case (Some b)
        then have "same = Some False" using 1 by (cases b) simp_all
        then have "j = (None, ''sc-diverge'')" "ambiguity_proven F M answer prompt max_out"
          using assms(1) by (simp_all add: self_consistency_def r s ambiguity_proven_def)
        then show ?thesis by blast
      qed
    next
      case 2
      obtain sc where c: "jm_same M 1 r1 answer = Inr sc" using assms(1) by (auto simp: self_consistency_def r s 2 bind_res_eq_Inr)
      note c = c [simplified]
      consider "sc \<noteq> Some False" | "sc = Some False" by blast
      then show ?thesis
      proof cases
        case 1
        show ?thesis
        proof (cases sc)
          case None
          then have "j = (None, ''sc-unreadable'')" using assms(1) by (simp add: self_consistency_def r s 2 c)
          then have "neutral j" by (simp only: neutral_stages)
    then show ?thesis by blast
        next
          case (Some b)
          then have "sc = Some True" using 1 by (cases b) simp_all
          then have "j = (Some True, ''sc-valid'')" "agreement_proven F M answer prompt max_out"
            using assms by (simp_all add: self_consistency_def r s 2 c agreement_proven_def)
          then show ?thesis by blast
        qed
      next
        case F: 2
        show ?thesis
        proof (cases "gen_reference F M prompt max_out 2")
          case None
          then have "j = (None, ''gen-fail'')" using assms(1) by (simp add: self_consistency_def r s 2 c F)
          then have "neutral j" by (simp only: neutral_stages)
    then show ?thesis by blast
        next
          case (Some r3)
          then obtain third where t: "jm_same M 2 r1 r3 = Inr third" "third = Some True \<longrightarrow> multiplicity F M answer prompt r1 = Inr j"
              "third \<noteq> Some True \<longrightarrow> j = (None, ''sc-unstable'')"
            using assms(1) by (auto simp: self_consistency_def r s 2 c F bind_res_eq_Inr split: if_splits)
          show ?thesis
          proof (cases "third = Some True")
            case True
            then have m: "multiplicity F M answer prompt r1 = Inr j" using t(2) by simp
            have p: "jf_multiok F \<longrightarrow> jm_multi M prompt r1 answer = Inr (Some False) \<Longrightarrow> divergence_proven F M answer prompt max_out"
              "jm_multi M prompt r1 answer = Inr (Some True) \<Longrightarrow> ambiguity_proven F M answer prompt max_out"
              using assms(2) t(1) True Some by (simp_all add: divergence_proven_def ambiguity_proven_def r s 2 c F)
            from multiplicity_cases [OF m] show ?thesis
              using p by blast
          next
            case False
            then have "j = (None, ''sc-unstable'')" using t(3) by simp
            then have "neutral j" by (simp only: neutral_stages)
    then show ?thesis by blast
          qed
        qed
      qed
    qed
  next
    case None
    then have "j = (None, ''gen-fail'')" using assms(1) Some by (simp add: self_consistency_def)
    then have "neutral j" by (simp only: neutral_stages)
    then show ?thesis by blast
  qed
next
  case None
  then have "j = (None, ''gen-fail'')" using assms(1) by (simp add: self_consistency_def)
  then have "neutral j" by (simp only: neutral_stages)
    then show ?thesis by blast
qed

lemma decide_verdict_cases:
  assumes "decide_verdict F M coherent answer prompt max_out = Inr j"
  shows "j = (Some False, ''coherence'') \<and> jf_twostage F \<and> coherent = Inr (Some False)
       \<or> (j = (Some False, ''slash'') \<or> j = (Some False, ''legacy'')) \<and> divergence_proven F M answer prompt max_out
       \<or> (j = (Some True, ''sc-valid'') \<or> j = (Some True, ''legacy'')) \<and> agreement_proven F M answer prompt max_out
       \<or> (j = (None, ''sc-diverge'') \<or> j = (None, ''multiok'')) \<and> ambiguity_proven F M answer prompt max_out
       \<or> neutral j"
proof -
  obtain salad where s: "word_salad (jf_twostage F) coherent = Inr salad" using assms by (auto simp: decide_verdict_def bind_res_eq_Inr)
  show ?thesis
  proof (cases salad)
    case True
    then show ?thesis using assms s stage_distinct by (simp add: decide_verdict_def)
  next
    case False
    then obtain rel where r: "(if jf_relevance F then jm_relevant M prompt answer else Inr None) = Inr rel"
        "(if rel = Some False then Inr (None, ''relevance'')
          else if \<not> jf_selfconsist F then single_reference F M answer prompt max_out
          else self_consistency F M answer prompt max_out) = Inr j"
      using assms s by (auto simp: decide_verdict_def bind_res_eq_Inr)
    show ?thesis
    proof (cases "rel = Some False")
      case True
      then have "j = (None, ''relevance'')" using r(2) by simp
      then have "neutral j" by (simp only: neutral_stages)
    then show ?thesis by blast
    next
      case F: False
      show ?thesis
      proof (cases "jf_selfconsist F")
        case True
        then have "self_consistency F M answer prompt max_out = Inr j" using r(2) F by simp
        from self_consistency_cases [OF this True] show ?thesis by argo
      next
        case False
        then have "single_reference F M answer prompt max_out = Inr j" using r(2) F by simp
        from single_reference_cases [OF this False] show ?thesis by argo
      qed
    qed
  qed
qed

section \<open>The gates before the judgment\<close>

lemma coherence_memo_once:
  assumes "coherence_memo memo key base = (Inr (Some b), memo')"
  shows "coherence_memo memo' key base' = (Inr (Some b), memo')"
proof (cases "map_of memo key")
  case (Some c)
  then show ?thesis using assms by (simp add: coherence_memo_def)
next
  case None
  then have m: "memo' = memo_put memo key b" using assms by (auto simp: coherence_memo_def split: sum.splits option.splits)
  have "key \<notin> fst ` set memo" using None by (simp add: map_of_eq_None_iff)
  then have "key \<notin> fst ` set (drop n memo)" for n by (meson image_mono set_drop_subset subsetD)
  then have "map_of (drop n memo) key = None" for n by (simp add: map_of_eq_None_iff)
  then have "map_of memo' key = Some b" by (simp add: m memo_put_def map_of_append map_add_def)
  then show ?thesis by (simp add: coherence_memo_def)
qed

text \<open>What a vote took: a revealed answer and question, the question not refuted, and an embedding the bar did not refuse.\<close>

definition gates_passed :: "host \<Rightarrow> audit_input \<Rightarrow> pydict \<Rightarrow> string \<Rightarrow> string \<Rightarrow> bool" where
  "gates_passed H A d answer prompt \<longleftrightarrow> dget d ''answer'' = PStr answer \<and> dget d ''prompt'' = PStr prompt
     \<and> fst (prompt_check H (ai_fields A) d) \<noteq> Some False
     \<and> (\<exists>c. anchor_reading (ai_root A) (ai_embedding A answer) = Inr c \<and> \<not> below_bar c)"

text \<open>The reading of the coherence stage in one attempt, and the memo it leaves.\<close>

definition coherence_here :: "host \<Rightarrow> judge_flags \<Rightarrow> judge_model \<Rightarrow> string \<Rightarrow> audit_input \<Rightarrow> string \<Rightarrow> memo \<Rightarrow> judge_reading result \<times> memo" where
  "coherence_here H F M model A answer memo =
     (if jf_twostage F then coherence_memo memo (answer_key H (ai_job A) answer model) (jm_coherent M answer) else (Inr None, memo))"

lemma judge_revealed_vote:
  assumes "judge_revealed H F M model armed va A reveal memo = (Inr (Some v, stage), memo')"
  obtains d answer prompt coherent where "reveal = PDict d" "gates_passed H A d answer prompt"
    "coherence_here H F M model A answer memo = (coherent, memo')"
    "word_salad (jf_twostage F) coherent = Inr True \<and> \<not> v \<and> stage = ''coherence''
     \<or> fst (prompt_check H (ai_fields A) d) = Some True \<and> ai_max_out A \<noteq> None
       \<and> (\<exists>j. decide_verdict F M coherent answer prompt (ai_max_out A) = Inr j
            \<and> (divergence_guard j armed = (Some v, stage)
               \<or> divergence_guard j armed = (None, stage) \<and> v \<and> abstain_to_vote stage va))"
proof -
  from assms obtain d answer prompt where d: "reveal = PDict d" "dget d ''answer'' = PStr answer" "dget d ''prompt'' = PStr prompt"
    by (auto simp: judge_revealed_def split: pyval.splits)
  obtain pm why where p: "prompt_check H (ai_fields A) d = (pm, why)" by (cases "prompt_check H (ai_fields A) d")
  have r: "judge_revealed H F M model armed va A reveal memo =
      (if pm = Some False then (Inr (None, ''prompt-mismatch''), memo)
       else (case anchor_reading (ai_root A) (ai_embedding A answer) of
           Inl stage \<Rightarrow> (Inr (None, stage), memo)
         | Inr c \<Rightarrow>
             if below_bar c then (Inr (None, ''anchor-mismatch''), memo)
             else if pm = None \<and> why = UnreadableCommit then (Inr (None, ''prompt-unreadable''), memo)
             else (case coherence_here H F M model A answer memo of (coherent, memo') \<Rightarrow>
               if ai_max_out A = None \<or> pm = None then
                 (bind_res (word_salad (jf_twostage F) coherent) (\<lambda>salad.
                    if salad then Inr (divergence_guard (Some False, ''coherence'') armed)
                    else if pm = None then Inr (None, ''prompt-unverified'')
                    else Inr (None, ''request-unreadable'')), memo')
               else
                 (bind_res (decide_verdict F M coherent answer prompt (ai_max_out A)) (\<lambda>j.
                    case divergence_guard j armed of (verdict, stage) \<Rightarrow>
                      if verdict = None \<and> abstain_to_vote stage va then Inr (Some True, stage)
                      else Inr (verdict, stage)), memo'))))"
    by (simp only: judge_revealed_def d pyval.case prod.case p coherence_here_def)
  obtain coherent m where ch: "coherence_here H F M model A answer memo = (coherent, m)" by (cases "coherence_here H F M model A answer memo")
  have n: "pm \<noteq> Some False" using assms unfolding r by (auto split: if_splits)
  obtain c where c: "anchor_reading (ai_root A) (ai_embedding A answer) = Inr c"
    using assms n unfolding r by (cases "anchor_reading (ai_root A) (ai_embedding A answer)") simp_all
  have b: "\<not> below_bar c" "\<not> (pm = None \<and> why = UnreadableCommit)" using assms n unfolding r c by (auto split: if_splits)
  have g: "gates_passed H A d answer prompt" unfolding gates_passed_def using d n c b(1) by (auto simp: p)
  show thesis
  proof (cases "ai_max_out A = None \<or> pm = None")
    case True
    then obtain salad where s: "word_salad (jf_twostage F) coherent = Inr salad" "m = memo'"
        "(if salad then Inr (divergence_guard (Some False, ''coherence'') armed)
          else if pm = None then Inr (None, ''prompt-unverified'') else Inr (None, ''request-unreadable'')) = (Inr (Some v, stage) :: judged result)"
      using assms n b unfolding r c by (auto simp: ch bind_res_eq_Inr)
    then have "salad" by (auto split: if_splits)
    then show thesis using that [OF d(1) g, of coherent] s by (simp add: ch divergence_guard_def)
  next
    case False
    then obtain j where j: "decide_verdict F M coherent answer prompt (ai_max_out A) = Inr j" "m = memo'"
        "(case divergence_guard j armed of (verdict, stage) \<Rightarrow>
            if verdict = None \<and> abstain_to_vote stage va then Inr (Some True, stage) else Inr (verdict, stage)) = (Inr (Some v, stage) :: judged result)"
      using assms n b unfolding r c by (auto simp: ch bind_res_eq_Inr)
    obtain w st where w: "divergence_guard j armed = (w, st)" by (cases "divergence_guard j armed")
    have "divergence_guard j armed = (Some v, stage) \<or> divergence_guard j armed = (None, stage) \<and> v \<and> abstain_to_vote stage va"
      using j(3) by (auto simp: w split: if_splits)
    moreover have "pm = Some True" "ai_max_out A \<noteq> None" using False n by (cases pm; auto)+
    ultimately show thesis using that [OF d(1) g, of coherent] j(1,2) by (auto simp: ch p)
  qed
qed

section \<open>Properties\<close>

text \<open>
  C39: what a vote rests on. Both votes take a reveal whose question is not refuted by its commitment and whose answer reaches the
  anchored embedding. A vote of invalid is word salad, read as such by a definite answer, or a divergence: only with the divergence armed, on a
  question that opens its commitment, and after definite readings, three references that agree with each other and not with the answer on
  a question that does not admit both (or the one reference when the self-consistency is off). A vote of valid takes a question that
  opens its commitment and a reference that agrees with the answer, or the benefit of the doubt on an ambiguity that was read as such.
  An unreadable reading leads to no vote.
\<close>

theorem verdict_rests_on_readings:
  assumes "judge_revealed H F M model armed va A reveal memo = (Inr (Some v, stage), memo')"
  shows "\<exists>d answer prompt. reveal = PDict d \<and> gates_passed H A d answer prompt
     \<and> (\<not> v \<longrightarrow>
          (jf_twostage F \<and> fst (coherence_here H F M model A answer memo) = Inr (Some False))
          \<or> (armed \<and> fst (prompt_check H (ai_fields A) d) = Some True \<and> divergence_proven F M answer prompt (ai_max_out A)))
     \<and> (v \<longrightarrow> fst (prompt_check H (ai_fields A) d) = Some True
          \<and> (agreement_proven F M answer prompt (ai_max_out A) \<or> (va \<and> ambiguity_proven F M answer prompt (ai_max_out A))))"
proof -
  obtain d answer prompt coherent where h: "reveal = PDict d" "gates_passed H A d answer prompt"
    and ch: "coherence_here H F M model A answer memo = (coherent, memo')"
    and alt: "word_salad (jf_twostage F) coherent = Inr True \<and> \<not> v \<and> stage = ''coherence''
     \<or> fst (prompt_check H (ai_fields A) d) = Some True \<and> ai_max_out A \<noteq> None
       \<and> (\<exists>j. decide_verdict F M coherent answer prompt (ai_max_out A) = Inr j
            \<and> (divergence_guard j armed = (Some v, stage)
               \<or> divergence_guard j armed = (None, stage) \<and> v \<and> abstain_to_vote stage va))"
    using judge_revealed_vote [OF assms] .
  let ?salad = "jf_twostage F \<and> coherent = Inr (Some False)"
  let ?goal = "(\<not> v \<longrightarrow> ?salad \<or> (armed \<and> fst (prompt_check H (ai_fields A) d) = Some True \<and> divergence_proven F M answer prompt (ai_max_out A)))
     \<and> (v \<longrightarrow> fst (prompt_check H (ai_fields A) d) = Some True
          \<and> (agreement_proven F M answer prompt (ai_max_out A) \<or> (va \<and> ambiguity_proven F M answer prompt (ai_max_out A))))"
  have "?goal" using alt
  proof (elim disjE conjE exE)
    fix j
    assume pm: "fst (prompt_check H (ai_fields A) d) = Some True" and j: "decide_verdict F M coherent answer prompt (ai_max_out A) = Inr j"
      and g: "divergence_guard j armed = (Some v, stage)"
    from decide_verdict_cases [OF j] show ?goal
    proof (elim disjE conjE)
      assume "j = (Some False, ''slash'')" "divergence_proven F M answer prompt (ai_max_out A)"
      then show ?goal using g pm by (auto simp: divergence_guard_def split: if_splits)
    next
      assume "j = (Some False, ''legacy'')" "divergence_proven F M answer prompt (ai_max_out A)"
      then show ?goal using g pm by (auto simp: divergence_guard_def split: if_splits)
    qed (use g pm in \<open>auto simp: divergence_guard_def neutral_def split: if_splits prod.splits\<close>)
  next
    fix j
    assume pm: "fst (prompt_check H (ai_fields A) d) = Some True" and j: "decide_verdict F M coherent answer prompt (ai_max_out A) = Inr j"
      and g: "divergence_guard j armed = (None, stage)" "v" "abstain_to_vote stage va"
    have s: "va" "abstain_to_vote stage True" using g(3) by (auto simp: abstain_to_vote_def)
    have n: "\<not> neutral j" "fst j = None"
      using g(1) s(2) by (auto simp: divergence_guard_def neutral_def abstain_to_vote_def split: if_splits prod.splits)
    then have "j \<noteq> (Some False, ''coherence'')" "j \<noteq> (Some False, ''slash'')" "j \<noteq> (Some False, ''legacy'')"
        "j \<noteq> (Some True, ''sc-valid'')" "j \<noteq> (Some True, ''legacy'')" by auto
    then have "ambiguity_proven F M answer prompt (ai_max_out A)" using decide_verdict_cases [OF j] n(1) by meson
    then show ?goal using pm s(1) g(2) by blast
  qed (use stage_distinct in auto)
  moreover have "fst (coherence_here H F M model A answer memo) = coherent" using ch by simp
  ultimately show ?thesis using h by (intro exI [of _ d] exI [of _ answer] exI [of _ prompt]) simp
qed

definition sample_flags :: judge_flags where
  "sample_flags = \<lparr>jf_twostage = True, jf_relevance = True, jf_selfconsist = True, jf_multiok = True, jf_gen_retries = 3\<rparr>"

definition sample_judge :: judge_model where
  "sample_judge = \<lparr>jm_coherent = (\<lambda>a. Inr (Some False)), jm_relevant = (\<lambda>p a. Inr (Some True)), jm_generate = (\<lambda>p m k i. Inr ''r''),
     jm_same = (\<lambda>k a b. Inr None), jm_multi = (\<lambda>p r a. Inr None)\<rparr>"

definition sample_audit :: audit_input where
  "sample_audit = \<lparr>ai_job = ''j'', ai_fields = None, ai_root = ''1'', ai_embedding = (\<lambda>a. Inr ''1''), ai_max_out = None\<rparr>"

definition judged_reveal :: pydict where
  "judged_reveal = [(''answer'', PStr ''a''), (''prompt'', PStr ''q'')]"

lemma sample_vector: "vector_of ''1'' = Some [Finite 1]"
proof -
  have "show_nat 1 = ''1''" by code_simp
  then have "float_text ''1'' = Some (Finite 1)" using float_text_show_nat [of 1] by (simp add: float_of_rat_small del: One_nat_def)
  moreover have "py_split '','' ''1'' = [''1'']" "strip ''1'' \<noteq> []" by code_simp+
  ultimately show ?thesis by (simp add: vector_of_def)
qed

lemma sample_anchor: "anchor_reading ''1'' (Inr ''1'') = Inr (Cos 1)"
  by (simp add: anchor_reading_def sample_vector zero_vector_def finite_parts_def finite_part_def squares_def cosine_of_def)

lemma sample_judged:
  "\<exists>memo'. judge_revealed sample_host sample_flags sample_judge ''m'' False va sample_audit (PDict judged_reveal) [] = (Inr (Some False, ''coherence''), memo')"
proof -
  have a: "dget judged_reveal ''answer'' = PStr ''a''" "dget judged_reveal ''prompt'' = PStr ''q''" "dget judged_reveal ''psalt'' = PNone"
    by (simp_all add: judged_reveal_def dget_def get_or_def)
  then have p: "prompt_check sample_host None judged_reveal = (None, NoSalt)" by (simp add: prompt_check_def)
  show ?thesis
    by (simp add: judge_revealed_def a p sample_audit_def sample_anchor below_bar_def ANCHOR_IDENTITY_COS_def coherence_memo_def
        sample_flags_def sample_judge_def word_salad_def divergence_guard_def)
qed

theorem verdict_rests_on_readings_witness:
  "\<exists>memo'. judge_revealed sample_host sample_flags sample_judge ''m'' False True sample_audit (PDict judged_reveal) []
      = (Inr (Some False, ''coherence''), memo')
    \<and> fst (coherence_here sample_host sample_flags sample_judge ''m'' sample_audit ''a'' []) = Inr (Some False)"
proof -
  have a: "dget judged_reveal ''answer'' = PStr ''a''" by (simp add: judged_reveal_def dget_def get_or_def)
  obtain memo' where r: "judge_revealed sample_host sample_flags sample_judge ''m'' False True sample_audit (PDict judged_reveal) []
      = (Inr (Some False, ''coherence''), memo')" using sample_judged by blast
  from verdict_rests_on_readings [OF r] obtain answer where "dget judged_reveal ''answer'' = PStr answer"
      "fst (coherence_here sample_host sample_flags sample_judge ''m'' sample_audit answer []) = Inr (Some False)"
    unfolding gates_passed_def by auto
  then show ?thesis using r a by simp
qed

section \<open>The question is bound by its commitment\<close>

text \<open>
  The salt and the question are hashed with a bar between them, and nothing keeps a bar out of either: a commitment opens as well with the
  start of its question moved into the salt.
\<close>

lemma commitment_moves:
  "prompt_commitment H salt (a @ ''|'' @ b) = prompt_commitment H (salt @ ''|'' @ a) b"
  by (simp add: prompt_commitment_def)

lemma commitment_nonempty: "sha_length H \<Longrightarrow> prompt_commitment H salt q \<noteq> []"
proof -
  assume "sha_length H"
  then have "length (sha256 H (utf8 (salt @ ''|'' @ q))) = 32" by (simp add: sha_length_def)
  then have "sha256 H (utf8 (salt @ ''|'' @ q)) \<noteq> []" by auto
  then show ?thesis by (simp add: prompt_commitment_def hexdigest_def neq_Nil_conv hex_byte_def split: list.splits)
qed

lemma two_questions_open_one_commitment:
  assumes "sha_length H" "salt \<noteq> []" "rc \<noteq> prompt_commitment H salt (a @ ''|'' @ b)"
  shows "prompt_check H (Some (prompt_commitment H salt (a @ ''|'' @ b), rc)) [(''psalt'', PStr salt), (''prompt'', PStr (a @ ''|'' @ b))] = (Some True, Match)
    \<and> prompt_check H (Some (prompt_commitment H salt (a @ ''|'' @ b), rc)) [(''psalt'', PStr (salt @ ''|'' @ a)), (''prompt'', PStr b)] = (Some True, Match)"
proof -
  have e: "prompt_commitment H salt (a @ ''|'' @ b) = prompt_commitment H (salt @ ''|'' @ a) b" by (rule commitment_moves)
  show ?thesis using assms(2,3) e commitment_nonempty [OF assms(1)] by (simp add: prompt_check_def dget_def get_or_def)
qed

text \<open>The text of a question, absent read as empty, and the message hashed for it.\<close>

definition question_of :: "pydict \<Rightarrow> string" where
  "question_of d = (case dget d ''prompt'' of PStr q \<Rightarrow> q | _ \<Rightarrow> [])"

lemma prompt_check_True:
  assumes "fst (prompt_check H commit d) = Some True"
  obtains salt rc where "dget d ''psalt'' = PStr salt" "commit = Some (prompt_commitment H salt (question_of d), rc)"
  using assms by (auto simp: prompt_check_def question_of_def split: pyval.splits if_splits option.splits)

lemma split_at_bar:
  assumes "s @ ''|'' @ q = s' @ ''|'' @ q'" "CHR ''|'' \<notin> set s" "CHR ''|'' \<notin> set s'"
  shows "s = s' \<and> q = q'"
proof -
  have t: "CHR ''|'' \<notin> set u \<Longrightarrow> takeWhile (\<lambda>c. c \<noteq> CHR ''|'') (u @ ''|'' @ v) = u" for u v by (induction u) auto
  have "s = s'" using t [OF assms(2), of q] t [OF assms(3), of q'] assms(1) by simp
  then show ?thesis using assms(1) by simp
qed

text \<open>
  Two reveals that open one commitment show one question, as long as neither salt holds a bar (the salt the kit derives is
  hexadecimal) and the two messages hashed do not collide.
\<close>

theorem question_is_bound:
  assumes "fst (prompt_check H commit d) = Some True" "fst (prompt_check H commit d') = Some True"
    and "dget d ''psalt'' = PStr s" "dget d' ''psalt'' = PStr s'" "CHR ''|'' \<notin> set s" "CHR ''|'' \<notin> set s'"
    and "inj_on (sha256 H) {utf8 (s @ ''|'' @ question_of d), utf8 (s' @ ''|'' @ question_of d')}"
  shows "question_of d = question_of d' \<and> s = s'"
proof -
  have "prompt_commitment H s (question_of d) = prompt_commitment H s' (question_of d')"
  proof -
    obtain salt rc salt' rc' where "dget d ''psalt'' = PStr salt" "commit = Some (prompt_commitment H salt (question_of d), rc)"
        "dget d' ''psalt'' = PStr salt'" "commit = Some (prompt_commitment H salt' (question_of d'), rc')"
      using prompt_check_True [OF assms(1)] prompt_check_True [OF assms(2)] by metis
    then show ?thesis using assms(3,4) by simp
  qed
  then have h: "sha256 H (utf8 (s @ ''|'' @ question_of d)) = sha256 H (utf8 (s' @ ''|'' @ question_of d'))"
    by (simp add: prompt_commitment_def hexdigest_inj)
  have "utf8 (s @ ''|'' @ question_of d) = utf8 (s' @ ''|'' @ question_of d')" by (rule inj_onD [OF assms(7) h]) blast+
  then have "s @ ''|'' @ question_of d = s' @ ''|'' @ question_of d'" by (simp add: utf8.enc_inj)
  from split_at_bar [OF this assms(5,6)] show ?thesis by blast
qed

theorem question_is_bound_witness:
  "question_of [(''psalt'', PStr ''a1''), (''prompt'', PStr ''q'')] = question_of [(''prompt'', PStr ''q''), (''psalt'', PStr ''a1'')]"
proof -
  let ?d = "[(''psalt'', PStr ''a1''), (''prompt'', PStr ''q'')]" and ?d' = "[(''prompt'', PStr ''q''), (''psalt'', PStr ''a1'')]"
  let ?c = "Some (prompt_commitment sample_host ''a1'' ''q'', [])"
  have "fst (prompt_check sample_host ?c ?d) = Some True" "fst (prompt_check sample_host ?c ?d') = Some True"
    using commitment_nonempty [OF sample_sha_length] by (simp_all add: prompt_check_def dget_def get_or_def)
  from question_is_bound [OF this, of "''a1''" "''a1''"] show ?thesis by (simp add: dget_def get_or_def question_of_def)
qed

section \<open>A cosine that is not a number\<close>

text \<open>An anchor that holds a component that is not finite is never below the bar: any answer of the same dimension passes the gate.\<close>

lemma nan_anchor_opens_the_gate:
  assumes "vector_of anchored = Some a" "x \<in> set a" "finite_part x = None" "anchored \<noteq> []"
    and "vector_of mine = Some b" "length b = length a" "\<not> zero_vector b"
  shows "anchor_reading anchored (Inr mine) = Inr CosNaN \<and> \<not> below_bar CosNaN"
proof -
  have "finite_parts a = None" using assms(2,3) by (auto simp: finite_parts_def list_all_iff Let_def)
  moreover have "a \<noteq> []" "b \<noteq> []" using assms(2,6) by (cases a; cases b; simp)+
  ultimately show ?thesis using assms
    by (simp add: anchor_reading_def zero_vector_def cosine_of_def below_bar_def)
qed

end
