(* ===== verification/Judge_Worker.thy ===== *)
theory Judge_Worker
  imports Judge_Verdict
begin

text \<open>
  The second pass of the judge's loop, from \<open>src/services/judge_worker.py\<close>: an audit whose reveal was read is judged, its verdict is
  broadcast, and what became of both decides whether it is tried again. Here are the reading of a transaction's outcome, the counts of
  \<open>JudgeLedger\<close>, and the state \<open>main\<close> keeps_verdicts between passes. The order of the audits and what each call answers are arguments.
\<close>

section \<open>What became of a transaction\<close>

text \<open>The lines of a text, each with everything after its start; \<open>\s\<close> may run over the end of a line.\<close>

fun line_starts :: "bool \<Rightarrow> string \<Rightarrow> string list" where
  "line_starts fresh [] = (if fresh then [[]] else [])"
| "line_starts fresh (c # s) = (if fresh then [c # s] else []) @ line_starts (c = CHR 0x0A) s"

definition code_at :: "string \<Rightarrow> nat option" where
  "code_at s = (case drop_prefix ''code: '' s of
     None \<Rightarrow> None | Some r \<Rightarrow> if takeWhile is_digit r = [] then None else Some (read_nat (takeWhile is_digit r)))"

definition is_hex :: "char \<Rightarrow> bool" where
  "is_hex c \<longleftrightarrow> is_lower_hex (lower_char c)"

definition txhash_at :: "string \<Rightarrow> bool" where
  "txhash_at s \<longleftrightarrow> (case drop_prefix ''txhash:'' s of
     None \<Rightarrow> False
   | Some r \<Rightarrow> (let u = dropWhile is_space r; w = (case u of c # x \<Rightarrow> if c = CHR 0x22 then x else u | [] \<Rightarrow> u)
               in 64 \<le> length w \<and> list_all is_hex (take 64 w)))"

definition tx_code :: "string \<Rightarrow> nat option" where
  "tx_code t = (case List.map_filter code_at (line_starts True t) of
     n # ns \<Rightarrow> Some n
   | [] \<Rightarrow> if list_ex txhash_at (line_starts True t) then Some 0 else None)"

datatype post = Anchored | AlreadySet | Refused | Unconfirmed

definition TRANSIENT_BROADCAST :: "string list" where
  "TRANSIENT_BROADCAST = [''account sequence mismatch'', ''tx already exists in cache'', ''mempool is full'']"

text \<open>\<open>included\<close> is the text of the transaction once it is in a block, empty when it was not seen there.\<close>

definition verdict_post_outcome :: "string \<Rightarrow> string \<Rightarrow> post" where
  "verdict_post_outcome out included =
     (case tx_code out of
        None \<Rightarrow> Unconfirmed
      | Some code \<Rightarrow>
          if code \<noteq> 0 then
            (if occurs ''index already set'' out then AlreadySet
             else if list_ex (\<lambda>t. occurs t out) TRANSIENT_BROADCAST then Unconfirmed
             else Refused)
          else if included = [] then Unconfirmed
          else if tx_code included = Some 0 then Anchored
          else if occurs ''index already set'' included then AlreadySet
          else Refused)"

datatype own_verdict = PresentHere | AbsentHere | UnknownHere

definition own_verdict_reading :: "(string \<Rightarrow> pyval result) \<Rightarrow> int option \<Rightarrow> string \<Rightarrow> string \<Rightarrow> own_verdict" where
  "own_verdict_reading loads rc out err =
     (case rc of
        None \<Rightarrow> UnknownHere
      | Some code \<Rightarrow>
          if code \<noteq> 0 then (if occurs ''code = NotFound'' err then AbsentHere else UnknownHere)
          else (case loads out of
              Inr (PDict d) \<Rightarrow> if dict_of (dget d ''commit'') \<noteq> None then PresentHere else UnknownHere
            | _ \<Rightarrow> UnknownHere))"

section \<open>The ledger\<close>

record ledger =
  lg_already :: "string list"
  lg_anchored :: "(string, int) dict"
  lg_refused :: int
  lg_abstentions :: "(string, int) dict"
  lg_attempts :: "(string, int) dict"
  lg_pending :: "(string, string) dict"

definition new_ledger :: ledger where
  "new_ledger = \<lparr>lg_already = [], lg_anchored = [(''0'', 0), (''1'', 0)], lg_refused = 0, lg_abstentions = [], lg_attempts = [], lg_pending = []\<rparr>"

definition lg_abstain :: "string \<Rightarrow> string \<Rightarrow> ledger \<Rightarrow> ledger" where
  "lg_abstain job stage L = L\<lparr>lg_attempts := bump (lg_attempts L) stage 1, lg_pending := AList.update job stage (lg_pending L)\<rparr>"

definition lg_answered :: "string \<Rightarrow> ledger \<Rightarrow> ledger" where
  "lg_answered job L = L\<lparr>lg_pending := AList.delete job (lg_pending L)\<rparr>"

definition lg_concluded :: "string \<Rightarrow> ledger \<Rightarrow> ledger" where
  "lg_concluded job L = (case map_of (lg_pending L) job of
     None \<Rightarrow> L
   | Some stage \<Rightarrow> L\<lparr>lg_pending := AList.delete job (lg_pending L), lg_abstentions := bump (lg_abstentions L) stage 1\<rparr>)"

definition lg_concluded_outside :: "string set \<Rightarrow> ledger \<Rightarrow> ledger" where
  "lg_concluded_outside open_jobs L = fold lg_concluded (filter (\<lambda>j. j \<notin> open_jobs) (map fst (lg_pending L))) L"

definition lg_verdict :: "string \<Rightarrow> ledger \<Rightarrow> ledger" where
  "lg_verdict v L = L\<lparr>lg_anchored := bump (lg_anchored L) v 1\<rparr>"

definition lg_already_on_chain :: "string \<Rightarrow> ledger \<Rightarrow> ledger" where
  "lg_already_on_chain job L = (let A = lg_answered job L in if job \<in> set (lg_already A) then A else A\<lparr>lg_already := lg_already A @ [job]\<rparr>)"

definition lg_refusal :: "ledger \<Rightarrow> ledger" where
  "lg_refusal L = L\<lparr>lg_refused := lg_refused L + 1\<rparr>"

section \<open>The state of the loop\<close>

definition RETRY_STAGES :: "string list" where
  "RETRY_STAGES = [''judge-error'', ''gen-fail'', ''request-unreadable'', ''anchor-unreadable'', ''sc-unreadable'', ''multiok-unreadable'',
     ''legacy-unreadable'', ''prompt-unreadable'', ''memory-guard'', ''memory-settings'', ''judge-engine-unread'']"

definition AGREED_REFS_STAGES :: "string list" where
  "AGREED_REFS_STAGES = [''sc-unreadable'', ''multiok-unreadable'']"

record worker =
  wk_done :: "string set"
  wk_agreed :: "string set"
  wk_decided :: "(string, string) dict"
  wk_tries :: "(string, int) dict"
  wk_next :: "(string, rat) dict"
  wk_memo :: memo
  wk_ledger :: ledger

definition new_worker :: worker where
  "new_worker = \<lparr>wk_done = {}, wk_agreed = {}, wk_decided = [], wk_tries = [], wk_next = [], wk_memo = [], wk_ledger = new_ledger\<rparr>"

definition ambiguity_vote_allowed :: "string \<Rightarrow> string set \<Rightarrow> bool \<Rightarrow> bool" where
  "ambiguity_vote_allowed job agreed_refs flag \<longleftrightarrow> flag \<and> job \<notin> agreed_refs"

definition verdict_commit :: "bool \<Rightarrow> string" where
  "verdict_commit valid = (if valid then ''1'' else ''0'')"

text \<open>
  One audit of one pass: what its calls answer. A call of the judge's side may raise; \<open>vi_fault\<close> is the stage the handler gives an exception
  (a call held back, a load out of memory, or the judge's own failure). \<open>vi_adjudicate\<close> is what the closing of the dispute raises, if it is asked for and
  raises: its answer is only printed.
\<close>

record visit =
  vi_job :: string
  vi_reveal :: pyval
  vi_own :: own_verdict
  vi_guard :: "(bool \<times> string) result"
  vi_audit :: "audit_input result"
  vi_judge :: judge_model
  vi_post :: "string \<Rightarrow> post result"
  vi_adjudicate :: "exc option"
  vi_fault :: "exc \<Rightarrow> string"
  vi_clock :: rat

record worker_conf =
  wc_flags :: judge_flags
  wc_model :: string
  wc_armed :: bool
  wc_abstain_vote :: bool
  wc_retry_pause :: rat

datatype judge_event = Judged string judged | Broadcast string string

text \<open>The next attempt, after a pause that grows with the attempts.\<close>

definition try_later :: "worker_conf \<Rightarrow> visit \<Rightarrow> worker \<Rightarrow> worker" where
  "try_later C v W = (let n = get_or (wk_tries W) (vi_job v) 0 + 1 in
     W\<lparr>wk_tries := AList.update (vi_job v) n (wk_tries W),
       wk_next := AList.update (vi_job v) (vi_clock v + retry_delay n (wc_retry_pause C) 1800) (wk_next W)\<rparr>)"

definition abstain_later :: "worker_conf \<Rightarrow> visit \<Rightarrow> string \<Rightarrow> worker \<Rightarrow> worker" where
  "abstain_later C v stage W = try_later C v (W\<lparr>wk_ledger := lg_abstain (vi_job v) stage (wk_ledger W)\<rparr>)"

definition settle_audit :: "visit \<Rightarrow> (ledger \<Rightarrow> ledger) \<Rightarrow> worker \<Rightarrow> worker" where
  "settle_audit v f W = W\<lparr>wk_done := insert (vi_job v) (wk_done W), wk_decided := AList.delete (vi_job v) (wk_decided W), wk_ledger := f (wk_ledger W)\<rparr>"

definition broadcast :: "worker_conf \<Rightarrow> visit \<Rightarrow> string \<Rightarrow> worker \<Rightarrow> worker" where
  "broadcast C v b W =
     (case vi_post v b of
        Inl e \<Rightarrow> abstain_later C v (vi_fault v e) W
      | Inr Anchored \<Rightarrow>
          (let W1 = settle_audit v (lg_verdict b) W in case vi_adjudicate v of None \<Rightarrow> W1 | Some e \<Rightarrow> abstain_later C v (vi_fault v e) W1)
      | Inr AlreadySet \<Rightarrow> settle_audit v (lg_already_on_chain (vi_job v)) W
      | Inr Refused \<Rightarrow> try_later C v (W\<lparr>wk_ledger := lg_refusal (wk_ledger W)\<rparr>)
      | Inr Unconfirmed \<Rightarrow> try_later C v W)"

definition judge_audit :: "host \<Rightarrow> worker_conf \<Rightarrow> visit \<Rightarrow> audit_input \<Rightarrow> worker \<Rightarrow> worker \<times> judge_event list" where
  "judge_audit H C v A W =
     (case judge_revealed H (wc_flags C) (vi_judge v) (wc_model C) (wc_armed C)
          (ambiguity_vote_allowed (vi_job v) (wk_agreed W) (wc_abstain_vote C)) A (vi_reveal v) (wk_memo W) of
        (Inl e, memo) \<Rightarrow> (abstain_later C v (vi_fault v e) (W\<lparr>wk_memo := memo\<rparr>), [])
      | (Inr (None, stage), memo) \<Rightarrow>
          (let W1 = W\<lparr>wk_memo := memo, wk_ledger := lg_abstain (vi_job v) stage (wk_ledger W),
                 wk_agreed := (if stage \<in> set AGREED_REFS_STAGES then insert (vi_job v) (wk_agreed W) else wk_agreed W)\<rparr>
           in (if stage \<in> set RETRY_STAGES then try_later C v W1
               else W1\<lparr>wk_done := insert (vi_job v) (wk_done W1), wk_ledger := lg_concluded (vi_job v) (wk_ledger W1)\<rparr>,
               [Judged (vi_job v) (None, stage)]))
      | (Inr (Some valid, stage), memo) \<Rightarrow>
          (let b = verdict_commit valid;
               W1 = W\<lparr>wk_memo := memo, wk_decided := AList.update (vi_job v) b (wk_decided W), wk_ledger := lg_answered (vi_job v) (wk_ledger W)\<rparr>
           in (broadcast C v b W1, [Judged (vi_job v) (Some valid, stage), Broadcast (vi_job v) b])))"

definition visit_ready :: "host \<Rightarrow> worker_conf \<Rightarrow> visit \<Rightarrow> worker \<Rightarrow> worker \<times> judge_event list" where
  "visit_ready H C v W =
     (if vi_own v = PresentHere then (settle_audit v (lg_already_on_chain (vi_job v)) W, [])
      else (case map_of (wk_decided W) (vi_job v) of
          Some b \<Rightarrow> (broadcast C v b W, [Broadcast (vi_job v) b])
        | None \<Rightarrow>
            (case vi_guard v of
               Inl e \<Rightarrow> (abstain_later C v (vi_fault v e) W, [])
             | Inr (ok, stage) \<Rightarrow>
                 if \<not> ok then (abstain_later C v stage W, [])
                 else (case vi_audit v of
                     Inl e \<Rightarrow> (abstain_later C v (vi_fault v e) W, [])
                   | Inr A \<Rightarrow> judge_audit H C v A W))))"

definition visit_audit :: "host \<Rightarrow> worker_conf \<Rightarrow> visit \<Rightarrow> worker \<Rightarrow> worker \<times> judge_event list" where
  "visit_audit H C v W =
     (if vi_job v \<in> wk_done W \<or> vi_clock v < get_or (wk_next W) (vi_job v) 0 then (W, [])
      else visit_ready H C v (W\<lparr>wk_next := AList.delete (vi_job v) (wk_next W)\<rparr>))"

fun run_visits :: "host \<Rightarrow> worker_conf \<Rightarrow> visit list \<Rightarrow> worker \<Rightarrow> worker \<times> judge_event list" where
  "run_visits H C [] W = (W, [])"
| "run_visits H C (v # vs) W = (case visit_audit H C v W of (W', es) \<Rightarrow> (case run_visits H C vs W' of (W2, es') \<Rightarrow> (W2, es @ es')))"

section \<open>What a visit changes\<close>

lemma delete_Some: "map_of (AList.delete k d) k' = (if k' = k then None else map_of d k')"
  by (simp add: delete_conv')

lemma try_later_fields [simp]:
  "wk_done (try_later C v W) = wk_done W" "wk_agreed (try_later C v W) = wk_agreed W" "wk_decided (try_later C v W) = wk_decided W"
  by (simp_all add: try_later_def Let_def)

lemma abstain_later_fields [simp]:
  "wk_done (abstain_later C v s W) = wk_done W" "wk_agreed (abstain_later C v s W) = wk_agreed W" "wk_decided (abstain_later C v s W) = wk_decided W"
  by (simp_all add: abstain_later_def)

text \<open>A state that keeps a decided audit decided or done.\<close>

definition keeps_verdicts :: "worker \<Rightarrow> worker \<Rightarrow> bool" where
  "keeps_verdicts W W' \<longleftrightarrow> wk_done W \<subseteq> wk_done W' \<and> wk_agreed W \<subseteq> wk_agreed W'
     \<and> (\<forall>j b. map_of (wk_decided W) j = Some b \<longrightarrow> j \<in> wk_done W' \<or> map_of (wk_decided W') j = Some b)
     \<and> (\<forall>j b. map_of (wk_decided W') j = Some b \<longrightarrow> map_of (wk_decided W) j = Some b)"

lemma keeps_verdicts_refl [simp]: "keeps_verdicts W W"
  by (simp add: keeps_verdicts_def)

lemma keeps_verdicts_settle_audit [simp]: "keeps_verdicts W (settle_audit v f W)"
  by (auto simp: keeps_verdicts_def settle_audit_def delete_Some)

lemma keeps_verdicts_broadcast [simp]: "keeps_verdicts W (broadcast C v b W)"
  by (auto simp: broadcast_def settle_audit_def keeps_verdicts_def delete_Some Let_def split: sum.split post.split option.split)

lemma keeps_verdicts_abstain_later [simp]: "keeps_verdicts W (abstain_later C v s W)"
  by (simp add: keeps_verdicts_def)

datatype kind = Quiet | Posted string | Passed string | Voted bool string

definition judge_events_of :: "string \<Rightarrow> kind \<Rightarrow> judge_event list" where
  "judge_events_of job k = (case k of
     Quiet \<Rightarrow> [] | Posted b \<Rightarrow> [Broadcast job b] | Passed s \<Rightarrow> [Judged job (None, s)]
   | Voted x s \<Rightarrow> [Judged job (Some x, s), Broadcast job (verdict_commit x)])"

definition visit_kind_ok :: "string \<Rightarrow> worker \<Rightarrow> worker \<Rightarrow> kind \<Rightarrow> bool" where
  "visit_kind_ok job W W' k = (case k of
     Quiet \<Rightarrow> keeps_verdicts W W'
   | Posted b \<Rightarrow> keeps_verdicts W W' \<and> job \<notin> wk_done W \<and> map_of (wk_decided W) job = Some b
   | Passed s \<Rightarrow> keeps_verdicts W W' \<and> job \<notin> wk_done W \<and> map_of (wk_decided W) job = None
       \<and> (s \<notin> set RETRY_STAGES \<longrightarrow> job \<in> wk_done W') \<and> (s \<in> set AGREED_REFS_STAGES \<longrightarrow> job \<in> wk_agreed W')
   | Voted x s \<Rightarrow> job \<notin> wk_done W \<and> map_of (wk_decided W) job = None
       \<and> keeps_verdicts (W\<lparr>wk_decided := AList.update job (verdict_commit x) (wk_decided W)\<rparr>) W'
       \<and> (job \<in> wk_agreed W \<and> x \<longrightarrow> \<not> abstain_to_vote s True))"

lemma keeps_verdicts_fields:
  assumes "wk_done V = wk_done W" "wk_agreed V = wk_agreed W" "wk_decided V = wk_decided W"
  shows "keeps_verdicts V X = keeps_verdicts W X" "keeps_verdicts X V = keeps_verdicts X W"
  using assms by (simp_all add: keeps_verdicts_def)

text \<open>Without the benefit of the doubt an ambiguity is never voted valid.\<close>

lemma decided_valid_stage:
  assumes "decide_verdict F M coherent answer prompt max_out = Inr (Some True, s)"
  shows "\<not> abstain_to_vote s True"
  using decide_verdict_cases [OF assms] by (auto simp: neutral_def abstain_to_vote_def)

lemma no_ambiguity_vote:
  assumes "judge_revealed H F M model armed False A reveal memo = (Inr (Some True, stage), memo')"
  shows "\<not> abstain_to_vote stage True"
proof -
  from judge_revealed_vote [OF assms] obtain coherent answer prompt j where
    "decide_verdict F M coherent answer prompt (ai_max_out A) = Inr j" "divergence_guard j armed = (Some True, stage)"
    by (metis abstain_to_vote_def)
  moreover from this(2) have "j = (Some True, stage)" by (auto simp: divergence_guard_def split: if_splits prod.splits)
  ultimately show ?thesis using decided_valid_stage by blast
qed

lemma judge_audit_effect:
  assumes "judge_audit H C v A W = (W', es)" "vi_job v \<notin> wk_done W" "map_of (wk_decided W) (vi_job v) = None"
  shows "\<exists>k. es = judge_events_of (vi_job v) k \<and> visit_kind_ok (vi_job v) W W' k"
proof -
  obtain r memo where r: "judge_revealed H (wc_flags C) (vi_judge v) (wc_model C) (wc_armed C)
      (ambiguity_vote_allowed (vi_job v) (wk_agreed W) (wc_abstain_vote C)) A (vi_reveal v) (wk_memo W) = (r, memo)" by force
  show ?thesis
  proof (cases r)
    case (Inl e)
    then have "es = judge_events_of (vi_job v) Quiet" "visit_kind_ok (vi_job v) W W' Quiet"
      using assms(1) r by (auto simp: judge_audit_def judge_events_of_def visit_kind_ok_def keeps_verdicts_def)
    then show ?thesis by blast
  next
    case (Inr j)
    obtain x stage where j: "j = (x, stage)" by (cases j)
    show ?thesis
    proof (cases x)
      case None
      then have "es = judge_events_of (vi_job v) (Passed stage)" "visit_kind_ok (vi_job v) W W' (Passed stage)"
        using assms r Inr j by (auto simp: judge_audit_def judge_events_of_def visit_kind_ok_def keeps_verdicts_def Let_def split: if_splits)
      then show ?thesis by blast
    next
      case (Some valid)
      let ?W1 = "W\<lparr>wk_memo := memo, wk_decided := AList.update (vi_job v) (verdict_commit valid) (wk_decided W),
         wk_ledger := lg_answered (vi_job v) (wk_ledger W)\<rparr>"
      have e: "es = judge_events_of (vi_job v) (Voted valid stage)" "W' = broadcast C v (verdict_commit valid) ?W1"
        using assms(1) r Inr j Some by (simp_all add: judge_audit_def judge_events_of_def Let_def)
      have "keeps_verdicts ?W1 W'" by (simp add: e(2))
      then have "keeps_verdicts (W\<lparr>wk_decided := AList.update (vi_job v) (verdict_commit valid) (wk_decided W)\<rparr>) W'"
        by (subst (asm) keeps_verdicts_fields(1) [of _ "W\<lparr>wk_decided := AList.update (vi_job v) (verdict_commit valid) (wk_decided W)\<rparr>"]) simp_all
      moreover have "vi_job v \<in> wk_agreed W \<and> valid \<longrightarrow> \<not> abstain_to_vote stage True"
        using no_ambiguity_vote r Inr j Some by (auto simp: ambiguity_vote_allowed_def)
      ultimately show ?thesis using e(1) assms(2,3) by (intro exI [of _ "Voted valid stage"]) (simp add: visit_kind_ok_def)
    qed
  qed
qed

lemma visit_effect:
  assumes "visit_audit H C v W = (W', es)"
  shows "\<exists>k. es = judge_events_of (vi_job v) k \<and> visit_kind_ok (vi_job v) W W' k"
proof (cases "vi_job v \<in> wk_done W \<or> vi_clock v < get_or (wk_next W) (vi_job v) 0")
  case True
  then show ?thesis using assms by (intro exI [of _ Quiet]) (auto simp: visit_audit_def judge_events_of_def visit_kind_ok_def)
next
  case False
  let ?W = "W\<lparr>wk_next := AList.delete (vi_job v) (wk_next W)\<rparr>"
  have k: "visit_kind_ok (vi_job v) ?W W' k = visit_kind_ok (vi_job v) W W' k" for k
    by (cases k) (simp_all add: visit_kind_ok_def keeps_verdicts_def)
  have r: "visit_ready H C v ?W = (W', es)" using assms False by (simp add: visit_audit_def)
  have q: "es = [] \<Longrightarrow> keeps_verdicts ?W W' \<Longrightarrow> ?thesis"
    using k [of Quiet] by (intro exI [of _ Quiet]) (simp add: judge_events_of_def visit_kind_ok_def)
  show ?thesis
  proof (cases "vi_own v = PresentHere")
    case True
    then show ?thesis using r q by (auto simp: visit_ready_def)
  next
    case own: False
    show ?thesis
    proof (cases "map_of (wk_decided W) (vi_job v)")
      case (Some b)
      then have "es = judge_events_of (vi_job v) (Posted b)" "visit_kind_ok (vi_job v) ?W W' (Posted b)"
        using r own False by (auto simp: visit_ready_def judge_events_of_def visit_kind_ok_def)
      then show ?thesis using k by blast
    next
      case None
      show ?thesis
      proof (cases "\<exists>stage A. vi_guard v = Inr (True, stage) \<and> vi_audit v = Inr A")
        case True
        then obtain A where "judge_audit H C v A ?W = (W', es)" using r own None by (auto simp: visit_ready_def)
        from judge_audit_effect [OF this] show ?thesis using False None k by simp
      next
        case no: False
        then have "es = []" "\<exists>s. W' = abstain_later C v s ?W"
          using r own None by (auto simp: visit_ready_def split: sum.splits prod.splits if_splits)
        then show ?thesis using q by auto
      qed
    qed
  qed
qed

section \<open>The invariant of a run\<close>

definition settled_judgment :: "judged \<Rightarrow> bool" where
  "settled_judgment j \<longleftrightarrow> fst j \<noteq> None \<or> snd j \<notin> set RETRY_STAGES"

definition worker_inv :: "worker \<Rightarrow> judge_event list \<Rightarrow> bool" where
  "worker_inv W es \<longleftrightarrow>
     (\<forall>job b. Broadcast job b \<in> set es \<longrightarrow> job \<in> wk_done W \<or> map_of (wk_decided W) job = Some b)
   \<and> (\<forall>job b b'. Broadcast job b \<in> set es \<and> Broadcast job b' \<in> set es \<longrightarrow> b = b')
   \<and> (\<forall>job j. Judged job j \<in> set es \<and> settled_judgment j \<longrightarrow> job \<in> wk_done W \<or> map_of (wk_decided W) job \<noteq> None)
   \<and> (\<forall>job s. Judged job (None, s) \<in> set es \<and> s \<in> set AGREED_REFS_STAGES \<longrightarrow> job \<in> wk_agreed W)
   \<and> (\<forall>job b. map_of (wk_decided W) job = Some b \<longrightarrow> (\<exists>x s. Judged job (Some x, s) \<in> set es \<and> b = verdict_commit x))
   \<and> (\<forall>job b. Broadcast job b \<in> set es \<longrightarrow> (\<exists>x s. Judged job (Some x, s) \<in> set es \<and> b = verdict_commit x))"

lemma worker_invI:
  assumes "\<And>job b. Broadcast job b \<in> set es \<Longrightarrow> job \<in> wk_done W \<or> map_of (wk_decided W) job = Some b"
    and "\<And>job b b'. Broadcast job b \<in> set es \<Longrightarrow> Broadcast job b' \<in> set es \<Longrightarrow> b = b'"
    and "\<And>job j. Judged job j \<in> set es \<Longrightarrow> settled_judgment j \<Longrightarrow> job \<in> wk_done W \<or> map_of (wk_decided W) job \<noteq> None"
    and "\<And>job s. Judged job (None, s) \<in> set es \<Longrightarrow> s \<in> set AGREED_REFS_STAGES \<Longrightarrow> job \<in> wk_agreed W"
    and "\<And>job b. map_of (wk_decided W) job = Some b \<Longrightarrow> \<exists>x s. Judged job (Some x, s) \<in> set es \<and> b = verdict_commit x"
    and "\<And>job b. Broadcast job b \<in> set es \<Longrightarrow> \<exists>x s. Judged job (Some x, s) \<in> set es \<and> b = verdict_commit x"
  shows "worker_inv W es"
  using assms unfolding worker_inv_def by blast

lemma worker_invD:
  assumes "worker_inv W es"
  shows "Broadcast job b \<in> set es \<Longrightarrow> job \<in> wk_done W \<or> map_of (wk_decided W) job = Some b"
    and "Broadcast job b \<in> set es \<Longrightarrow> Broadcast job b' \<in> set es \<Longrightarrow> b = b'"
    and "Judged job j \<in> set es \<Longrightarrow> settled_judgment j \<Longrightarrow> job \<in> wk_done W \<or> map_of (wk_decided W) job \<noteq> None"
    and "Judged job (None, s) \<in> set es \<Longrightarrow> s \<in> set AGREED_REFS_STAGES \<Longrightarrow> job \<in> wk_agreed W"
    and "map_of (wk_decided W) job = Some b \<Longrightarrow> \<exists>x s. Judged job (Some x, s) \<in> set es \<and> b = verdict_commit x"
    and "Broadcast job b \<in> set es \<Longrightarrow> \<exists>x s. Judged job (Some x, s) \<in> set es \<and> b = verdict_commit x"
  using assms unfolding worker_inv_def by blast+

lemma keeps_verdictsD:
  assumes "keeps_verdicts W W'"
  shows "job \<in> wk_done W \<Longrightarrow> job \<in> wk_done W'" "job \<in> wk_agreed W \<Longrightarrow> job \<in> wk_agreed W'"
    "map_of (wk_decided W) job = Some b \<Longrightarrow> job \<in> wk_done W' \<or> map_of (wk_decided W') job = Some b"
    "map_of (wk_decided W') job = Some b \<Longrightarrow> map_of (wk_decided W) job = Some b"
  using assms unfolding keeps_verdicts_def by blast+

lemma worker_inv_keeps_verdicts: "worker_inv W es \<Longrightarrow> keeps_verdicts W W' \<Longrightarrow> worker_inv W' es"
  by (rule worker_invI) (blast dest: worker_invD keeps_verdictsD)+

lemma worker_inv_Posted:
  assumes "worker_inv W es" "map_of (wk_decided W) job = Some b" "job \<notin> wk_done W"
  shows "worker_inv W (es @ [Broadcast job b])"
proof -
  note D = worker_invD [OF assms(1)]
  have b: "Broadcast job b' \<in> set es \<Longrightarrow> b' = b" for b' using D(1) [of job b'] assms(2,3) by auto
  show ?thesis
    by (rule worker_invI) (use D(1,3,4) assms(2) in \<open>auto dest: b\<close>, use D(2) b in blast, use D(5,6) assms(2) in auto)
qed

lemma worker_inv_Passed:
  assumes "worker_inv W es" "s \<notin> set RETRY_STAGES \<longrightarrow> job \<in> wk_done W" "s \<in> set AGREED_REFS_STAGES \<longrightarrow> job \<in> wk_agreed W"
  shows "worker_inv W (es @ [Judged job (None, s)])"
proof -
  note D = worker_invD [OF assms(1)]
  show ?thesis
    by (rule worker_invI) (use D assms(2,3) in \<open>fastforce simp: settled_judgment_def\<close>)+
qed

lemma worker_inv_Voted:
  assumes "worker_inv W es" "job \<notin> wk_done W" "map_of (wk_decided W) job = None"
  shows "worker_inv (W\<lparr>wk_decided := AList.update job (verdict_commit x) (wk_decided W)\<rparr>)
    (es @ [Judged job (Some x, s), Broadcast job (verdict_commit x)])"
proof -
  note D = worker_invD [OF assms(1)]
  have n: "Broadcast job b \<notin> set es" for b using D(1) [of job b] assms(2,3) by auto
  show ?thesis
  proof (rule worker_invI)
    fix job' b
    assume "map_of (wk_decided (W\<lparr>wk_decided := AList.update job (verdict_commit x) (wk_decided W)\<rparr>)) job' = Some b"
    then show "\<exists>x' s'. Judged job' (Some x', s') \<in> set (es @ [Judged job (Some x, s), Broadcast job (verdict_commit x)]) \<and> b = verdict_commit x'"
      using D(5) [of job' b] by (cases "job' = job") (auto simp: map_of_update)
  next
    fix job' b
    assume "Broadcast job' b \<in> set (es @ [Judged job (Some x, s), Broadcast job (verdict_commit x)])"
    then show "\<exists>x' s'. Judged job' (Some x', s') \<in> set (es @ [Judged job (Some x, s), Broadcast job (verdict_commit x)]) \<and> b = verdict_commit x'"
      using D(6) [of job' b] by auto
  next
    fix job' j
    assume "Judged job' j \<in> set (es @ [Judged job (Some x, s), Broadcast job (verdict_commit x)])" "settled_judgment j"
    then show "job' \<in> wk_done (W\<lparr>wk_decided := AList.update job (verdict_commit x) (wk_decided W)\<rparr>)
        \<or> map_of (wk_decided (W\<lparr>wk_decided := AList.update job (verdict_commit x) (wk_decided W)\<rparr>)) job' \<noteq> None"
      using D(3) [of job' j] by (cases "job' = job") (auto simp: map_of_update)
  qed (use D(1,2,4) n in \<open>auto simp: map_of_update\<close>)
qed

lemma worker_inv_visit:
  assumes "worker_inv W es" "visit_audit H C v W = (W', es')"
  shows "worker_inv W' (es @ es')"
proof -
  obtain k where k: "es' = judge_events_of (vi_job v) k" "visit_kind_ok (vi_job v) W W' k" using visit_effect [OF assms(2)] by blast
  show ?thesis
  proof (cases k)
    case Quiet
    then show ?thesis using k worker_inv_keeps_verdicts [OF assms(1)] by (simp add: judge_events_of_def visit_kind_ok_def)
  next
    case (Posted b)
    then have "worker_inv W (es @ es')" "keeps_verdicts W W'"
      using k worker_inv_Posted [OF assms(1)] by (simp_all add: judge_events_of_def visit_kind_ok_def)
    then show ?thesis by (rule worker_inv_keeps_verdicts)
  next
    case (Passed s)
    then have "worker_inv W' es" "s \<notin> set RETRY_STAGES \<longrightarrow> vi_job v \<in> wk_done W'" "s \<in> set AGREED_REFS_STAGES \<longrightarrow> vi_job v \<in> wk_agreed W'"
      using k worker_inv_keeps_verdicts [OF assms(1)] by (simp_all add: visit_kind_ok_def)
    from worker_inv_Passed [OF this] show ?thesis using k(1) Passed by (simp add: judge_events_of_def)
  next
    case (Voted x s)
    then have n: "vi_job v \<notin> wk_done W" "map_of (wk_decided W) (vi_job v) = None"
      and kp: "keeps_verdicts (W\<lparr>wk_decided := AList.update (vi_job v) (verdict_commit x) (wk_decided W)\<rparr>) W'"
      using k(2) by (simp_all add: visit_kind_ok_def)
    from worker_inv_keeps_verdicts [OF worker_inv_Voted [OF assms(1) n] kp] show ?thesis using k(1) Voted by (simp add: judge_events_of_def)
  qed
qed

lemma worker_inv_run: "worker_inv W es \<Longrightarrow> run_visits H C vs W = (W', es') \<Longrightarrow> worker_inv W' (es @ es')"
proof (induction vs arbitrary: W W' es es')
  case (Cons v vs)
  obtain W1 e1 where v: "visit_audit H C v W = (W1, e1)" by force
  obtain W2 e2 where r: "run_visits H C vs W1 = (W2, e2)" by force
  have "worker_inv W2 ((es @ e1) @ e2)" by (rule Cons.IH [OF worker_inv_visit [OF Cons.prems(1) v] r])
  then show ?case using Cons.prems(2) v r by simp
qed simp

lemma worker_inv_new: "worker_inv new_worker []"
  by (simp add: worker_inv_def new_worker_def)

section \<open>Properties\<close>


definition worker_sample_conf :: worker_conf where
  "worker_sample_conf = \<lparr>wc_flags = sample_flags, wc_model = ''m'', wc_armed = False, wc_abstain_vote = True, wc_retry_pause = 60\<rparr>"

definition sample_visit :: "post result \<Rightarrow> rat \<Rightarrow> visit" where
  "sample_visit r now = \<lparr>vi_job = ''j'', vi_reveal = PDict judged_reveal, vi_own = AbsentHere, vi_guard = Inr (True, []), vi_audit = Inr sample_audit,
     vi_judge = sample_judge, vi_post = (\<lambda>b. r), vi_adjudicate = None, vi_fault = (\<lambda>e. ''judge-error''), vi_clock = now\<rparr>"


text \<open>
  A call that raises while a decided verdict is posted leaves the audit pending: once the verdict is posted again and anchored, the audit is counted both
  as a verdict and, when it is closed, as an audit left without an answer.
\<close>

lemma voted_audit_counts_as_abstention:
  assumes "vi_post v b = Inl e" "vi_post v' b = Inr Anchored" "vi_adjudicate v' = None" "vi_job v' = vi_job v"
  shows "lg_anchored (wk_ledger (broadcast C v' b (broadcast C v b W))) = bump (lg_anchored (wk_ledger W)) b 1
    \<and> lg_abstentions (lg_concluded (vi_job v) (wk_ledger (broadcast C v' b (broadcast C v b W))))
        = bump (lg_abstentions (wk_ledger W)) (vi_fault v e) 1"
  using assms by (simp add: broadcast_def settle_audit_def abstain_later_def try_later_def lg_abstain_def lg_verdict_def lg_concluded_def Let_def map_of_update)

end
